(* ===== verification/Prelude.thy ===== *)
theory Prelude
  imports Complex_Main
begin

text \<open>
  Shared vocabulary of the development: the type synonyms for Go values, the small
  part of the Go standard library the components use (string helpers, decimal
  parsing, wall-clock arithmetic), the collections of simplification facts, and the
  generic list lemmas the component proofs rest on.

  Go strings and byte slices are both \<^typ>\<open>string\<close>, one character per byte.
  Instants are \<^typ>\<open>int\<close> nanoseconds since the Unix epoch and durations are
  \<^typ>\<open>int\<close> nanoseconds.  An \<^verbatim>\<open>int64\<close> expression whose overflow is observable is
  wrapped with \<^term>\<open>wrap64\<close> at the place the source computes it.
\<close>

named_theorems verdict_simps \<open>evaluation of policy decisions\<close>
named_theorems chain_simps \<open>hash-chain bookkeeping\<close>
named_theorems link_simps \<open>session-link endpoint steps\<close>
named_theorems store_simps \<open>lease-store operations\<close>
named_theorems broker_simps \<open>publish/subscribe bookkeeping\<close>

type_synonym bytes = string
type_synonym instant = int
type_synonym duration = int
type_synonym labels = "string \<Rightarrow> bool"

subsection \<open>Fixed-width integers and time\<close>

definition wrap64 :: "int \<Rightarrow> int" where
  "wrap64 x = (x + 2 ^ 63) mod 2 ^ 64 - 2 ^ 63"

definition nanos_per_sec :: int where
  "nanos_per_sec = 1000000000"

definition unix_sec :: "instant \<Rightarrow> int" where
  "unix_sec t = t div nanos_per_sec"

lemma wrap64_id [simp]:
  assumes "- (2 ^ 63) \<le> x" "x < 2 ^ 63"
  shows "wrap64 x = x"
  using assms by (simp add: wrap64_def)

lemma wrap64_range: "- (2 ^ 63) \<le> wrap64 x \<and> wrap64 x < 2 ^ 63"
proof -
  have "0 \<le> (x + 2 ^ 63) mod 2 ^ 64" "(x + 2 ^ 63) mod 2 ^ 64 < 2 ^ 64"
    by (simp_all only: pos_mod_sign pos_mod_bound zero_less_power zero_less_numeral)
  then show ?thesis by (simp add: wrap64_def)
qed

lemma unix_sec_mono: "s \<le> t \<Longrightarrow> unix_sec s \<le> unix_sec t"
  by (simp add: unix_sec_def nanos_per_sec_def zdiv_mono1)

subsection \<open>Strings\<close>

fun cut_prefix :: "string \<Rightarrow> string \<Rightarrow> string option" where
  "cut_prefix [] s = Some s"
| "cut_prefix (p # ps) [] = None"
| "cut_prefix (p # ps) (c # cs) = (if p = c then cut_prefix ps cs else None)"

definition has_prefix :: "string \<Rightarrow> string \<Rightarrow> bool" where
  "has_prefix p s = (cut_prefix p s \<noteq> None)"

definition contains_any :: "string \<Rightarrow> string \<Rightarrow> bool" where
  "contains_any s cs = list_ex (\<lambda>c. c \<in> set cs) s"

fun cut_at :: "char \<Rightarrow> string \<Rightarrow> (string \<times> string) option" where
  "cut_at c [] = None"
| "cut_at c (x # xs) =
     (if x = c then Some ([], xs)
      else case cut_at c xs of None \<Rightarrow> None | Some (a, b) \<Rightarrow> Some (x # a, b))"

definition is_space :: "char \<Rightarrow> bool" where
  "is_space c \<longleftrightarrow> c = CHR '' '' \<or> (9 \<le> (of_char c :: nat) \<and> (of_char c :: nat) \<le> 13)"

definition trim_space :: "string \<Rightarrow> string" where
  "trim_space s = rev (dropWhile is_space (rev (dropWhile is_space s)))"

definition is_digit :: "char \<Rightarrow> bool" where
  "is_digit c \<longleftrightarrow> 48 \<le> (of_char c :: nat) \<and> (of_char c :: nat) \<le> 57"

definition digit_val :: "char \<Rightarrow> int" where
  "digit_val c = int (of_char c) - 48"

definition to_lower_char :: "char \<Rightarrow> char" where
  "to_lower_char c =
     (if 65 \<le> (of_char c :: nat) \<and> (of_char c :: nat) \<le> 90 then char_of ((of_char c :: nat) + 32) else c)"

definition to_lower :: "string \<Rightarrow> string" where
  "to_lower s = map to_lower_char s"

definition dec_val :: "string \<Rightarrow> int" where
  "dec_val s = foldl (\<lambda>a c. 10 * a + digit_val c) 0 s"

definition atoi :: "string \<Rightarrow> int option" where
  "atoi s =
     (let neg = (s \<noteq> [] \<and> hd s = CHR ''-'');
          ds = (if s \<noteq> [] \<and> (hd s = CHR ''-'' \<or> hd s = CHR ''+'') then tl s else s);
          v = (if neg then - dec_val ds else dec_val ds)
      in if ds = [] \<or> \<not> list_all is_digit ds \<or> v < - (2 ^ 63) \<or> 2 ^ 63 \<le> v then None else Some v)"

definition hex_digit :: "nat \<Rightarrow> char" where
  "hex_digit n = ''0123456789abcdef'' ! (n mod 16)"

definition hex_encode :: "bytes \<Rightarrow> string" where
  "hex_encode bs = concat (map (\<lambda>b. [hex_digit (of_char b div 16), hex_digit (of_char b mod 16)]) bs)"

lemma cut_prefix_Some_iff: "cut_prefix p s = Some r \<longleftrightarrow> s = p @ r"
  by (induction p s rule: cut_prefix.induct) auto

lemma cut_prefix_append [simp]: "cut_prefix p (p @ r) = Some r"
  by (simp add: cut_prefix_Some_iff)

lemma cut_prefix_None_iff: "cut_prefix p s = None \<longleftrightarrow> (\<forall>r. s \<noteq> p @ r)"
  by (metis cut_prefix_Some_iff not_None_eq option.distinct(1))

lemma cut_prefix_self [simp]: "cut_prefix p p = Some []"
  by (simp add: cut_prefix_Some_iff)

lemma contains_any_iff: "contains_any s cs \<longleftrightarrow> set s \<inter> set cs \<noteq> {}"
  by (auto simp: contains_any_def list_ex_iff)

subsection \<open>Decimal integers\<close>

text \<open>\<^verbatim>\<open>strconv.Itoa\<close>.\<close>

fun nat_dec :: "nat \<Rightarrow> string" where
  "nat_dec n = (if n < 10 then [char_of (48 + n)] else nat_dec (n div 10) @ [char_of (48 + n mod 10)])"

declare nat_dec.simps [simp del]

definition int_text :: "int \<Rightarrow> string" where
  "int_text i = (if i < 0 then CHR ''-'' # nat_dec (nat (- i)) else nat_dec (nat i))"

lemma nat_dec_digits: "set (nat_dec n) \<subseteq> char_of ` {48..<(58::nat)}"
proof (induction n rule: nat_dec.induct)
  case (1 n)
  have "char_of (48 + n mod 10) \<in> char_of ` {48..<(58::nat)}" by (rule imageI) simp
  then show ?case using 1 by (subst nat_dec.simps) auto
qed

lemma dec_val_nat_dec: "dec_val (nat_dec n) = int n"
proof (induction n rule: nat_dec.induct)
  case (1 n)
  have d: "digit_val (char_of (48 + k)) = int k" if "k < 10" for k :: nat
    using that by (simp add: digit_val_def)
  show ?case
  proof (cases "n < 10")
    case True
    then show ?thesis using d by (simp add: nat_dec.simps dec_val_def)
  next
    case False
    have "dec_val (nat_dec n) = 10 * int (n div 10) + int (n mod 10)"
      using False 1 d [of "n mod 10"] by (simp add: nat_dec.simps [of n] dec_val_def)
    also have "\<dots> = int (10 * (n div 10) + n mod 10)" by (simp only: of_nat_add of_nat_mult of_nat_numeral)
    finally show ?thesis by (simp only: mult_div_mod_eq)
  qed
qed

lemma nat_dec_all_digits: "list_all is_digit (nat_dec n)"
  using nat_dec_digits [of n] by (force simp: list_all_iff is_digit_def)

lemma nat_dec_ne [simp]: "nat_dec n \<noteq> []"
  by (subst nat_dec.simps) simp

lemma nat_dec_head: "\<exists>c cs. nat_dec n = c # cs \<and> is_digit c \<and> c \<noteq> CHR ''-'' \<and> c \<noteq> CHR ''+''"
proof -
  obtain c cs where c: "nat_dec n = c # cs" using nat_dec_ne by (cases "nat_dec n") auto
  then have "is_digit c" using nat_dec_all_digits [of n] by simp
  then show ?thesis using c by (auto simp: is_digit_def)
qed

lemma nat_dec_zero: "nat_dec n = CHR ''0'' # cs \<Longrightarrow> n = 0"
proof (induction n arbitrary: cs rule: nat_dec.induct)
  case (1 n)
  show ?case
  proof (cases "n < 10")
    case True
    then have "char_of (48 + n) = CHR ''0''" using 1(2) by (simp add: nat_dec.simps [of n])
    then have "(of_char (char_of (48 + n) :: char) :: nat) = of_char (CHR ''0'')" by simp
    then show ?thesis using True by simp
  next
    case False
    then have "\<exists>ds. nat_dec (n div 10) = CHR ''0'' # ds"
      using 1(2) by (cases "nat_dec (n div 10)") (auto simp: nat_dec.simps [of n])
    then show ?thesis using 1(1) False by auto
  qed
qed

lemma atoi_int_text:
  assumes "- (2 ^ 63) \<le> i" "i < 2 ^ 63"
  shows "atoi (int_text i) = Some i"
proof -
  obtain c cs where c: "nat_dec (nat i) = c # cs" "c \<noteq> CHR ''-''" "c \<noteq> CHR ''+''" using nat_dec_head by blast
  show ?thesis
  proof (cases "i < 0")
    case True
    then show ?thesis using assms nat_dec_all_digits [of "nat (- i)"] dec_val_nat_dec [of "nat (- i)"]
      by (simp add: atoi_def int_text_def)
  next
    case False
    then have "int_text i = c # cs" "dec_val (c # cs) = i" "list_all is_digit (c # cs)"
      using c dec_val_nat_dec [of "nat i"] nat_dec_all_digits [of "nat i"] by (simp_all add: int_text_def)
    then show ?thesis using assms c by (simp add: atoi_def)
  qed
qed

subsection \<open>First match in a list\<close>

text \<open>The index of the first element that satisfies a predicate, the shape of every
  rule walk in the policy packages.\<close>

fun first_idx :: "('a \<Rightarrow> bool) \<Rightarrow> 'a list \<Rightarrow> nat option" where
  "first_idx P [] = None"
| "first_idx P (x # xs) = (if P x then Some 0 else map_option Suc (first_idx P xs))"

lemma first_idx_None_iff: "first_idx P xs = None \<longleftrightarrow> (\<forall>x\<in>set xs. \<not> P x)"
  by (induction xs) auto

lemma first_idx_Some_iff:
  "first_idx P xs = Some n \<longleftrightarrow> n < length xs \<and> P (xs ! n) \<and> (\<forall>j<n. \<not> P (xs ! j))"
proof (induction xs arbitrary: n)
  case Nil
  then show ?case by simp
next
  case (Cons x xs)
  show ?case
  proof (cases n)
    case 0
    then show ?thesis by (auto simp: Cons.IH)
  next
    case (Suc m)
    then show ?thesis using Cons.IH [of m] by (auto simp: All_less_Suc2)
  qed
qed

subsection \<open>Sorted windows of a list\<close>

lemma sorted_wrt_append_last:
  "sorted_wrt R (xs @ [x]) \<longleftrightarrow> sorted_wrt R xs \<and> (\<forall>y\<in>set xs. R y x)"
  by (simp add: sorted_wrt_append)

lemma drop_append_ge: "n \<le> length xs \<Longrightarrow> drop n (xs @ ys) = drop n xs @ ys"
  by simp

end
