(* ===== verification/PathGlob.thy ===== *)
theory PathGlob
  imports Prelude
begin

text \<open>
  The shell-pattern matcher \<^verbatim>\<open>path.Match\<close> of the Go standard library, which every
  allow-list in the program goes through: peers, tools, methods, capability scopes,
  identity groups and topics.  The scanner, the chunk matcher and the driver loop are
  kept apart as in the library; a malformed pattern is the value \<^term>\<open>None\<close>
  (\<^verbatim>\<open>ErrBadPattern\<close>).  A character is one rune, so the model covers names and
  patterns in the single-byte range.
\<close>

subsection \<open>The matcher\<close>

text \<open>\<^verbatim>\<open>getEsc\<close>: one possibly escaped character of a class, and what follows it.\<close>

fun get_esc :: "string \<Rightarrow> (char \<times> string) option" where
  "get_esc [] = None"
| "get_esc (c # cs) =
     (if c = CHR ''-'' \<or> c = CHR '']'' then None
      else if c = CHR 0x5C then (case cs of [] \<Rightarrow> None | [d] \<Rightarrow> None | d # ds \<Rightarrow> Some (d, ds))
      else if cs = [] then None else Some (c, cs))"

lemma get_esc_length: "get_esc cs = Some (c, r) \<Longrightarrow> length r < length cs \<and> r \<noteq> []"
  by (induction cs rule: get_esc.induct) (auto split: if_splits list.splits)

text \<open>The ranges of a class: \<^verbatim>\<open>m\<close> accumulates whether the rune matched one of them,
  \<^verbatim>\<open>n\<close> counts them, the result carries the chunk after the closing bracket.\<close>

function match_ranges :: "char option \<Rightarrow> bool \<Rightarrow> nat \<Rightarrow> string \<Rightarrow> (bool \<times> string) option" where
  "match_ranges r m n ch =
     (if ch \<noteq> [] \<and> hd ch = CHR '']'' \<and> n > 0 then Some (m, tl ch)
      else case get_esc ch of
        None \<Rightarrow> None
      | Some (lo, ch1) \<Rightarrow>
          (if hd ch1 = CHR ''-''
           then (case get_esc (tl ch1) of
               None \<Rightarrow> None
             | Some (hi, ch2) \<Rightarrow>
                 match_ranges r (m \<or> (\<exists>c\<in>set_option r. (of_char lo :: nat) \<le> of_char c \<and> (of_char c :: nat) \<le> of_char hi)) (Suc n) ch2)
           else match_ranges r (m \<or> (\<exists>c\<in>set_option r. c = lo)) (Suc n) ch1))"
  by pat_completeness auto
termination
proof (relation "measure (\<lambda>(r, m, n, ch). length ch)", goal_cases)
  case 1
  then show ?case by simp
next
  case (2 r m n ch x lo ch1 y hi ch2)
  then show ?case by (auto dest!: get_esc_length)
next
  case (3 r m n ch x lo ch1)
  then show ?case by (auto dest!: get_esc_length)
qed

declare match_ranges.simps [simp del]

lemma match_ranges_length:
  "match_ranges r m n ch = Some (b, rest) \<Longrightarrow> length rest < length ch"
proof (induction r m n ch rule: match_ranges.induct)
  case (1 r m n ch)
  show ?case
  proof (cases "ch \<noteq> [] \<and> hd ch = CHR '']'' \<and> n > 0")
    case True
    then have "rest = tl ch" using 1(3) by (simp add: match_ranges.simps [of r m n ch])
    then show ?thesis using True by simp
  next
    case no: False
    obtain lo ch1 where e1: "get_esc ch = Some (lo, ch1)"
      using 1(3) no by (auto simp: match_ranges.simps [of r m n ch] split: option.splits)
    show ?thesis
    proof (cases "hd ch1 = CHR ''-''")
      case True
      obtain hi ch2 where e2: "get_esc (tl ch1) = Some (hi, ch2)"
        using 1(3) no e1 True by (auto simp: match_ranges.simps [of r m n ch] split: option.splits)
      have "length rest < length ch2"
        using 1(1) [OF no e1 refl True e2 refl] 1(3) no e1 e2 True
        by (simp add: match_ranges.simps [of r m n ch])
      moreover have "length ch2 < length ch1"
        using get_esc_length [OF e2] length_tl [of ch1] by linarith
      ultimately show ?thesis using get_esc_length [OF e1] by linarith
    next
      case False
      have "length rest < length ch1"
        using 1(2) [OF no e1 refl False] 1(3) no e1 False
        by (simp add: match_ranges.simps [of r m n ch])
      then show ?thesis using get_esc_length [OF e1] by simp
    qed
  qed
qed

text \<open>\<^verbatim>\<open>matchChunk\<close>: \<^term>\<open>None\<close> is a malformed pattern, \<^term>\<open>Some None\<close> no match,
  \<^term>\<open>Some (Some t)\<close> a match that leaves \<^term>\<open>t\<close>.\<close>

function match_chunk :: "bool \<Rightarrow> string \<Rightarrow> string \<Rightarrow> string option option" where
  "match_chunk failed [] s = Some (if failed then None else Some s)"
| "match_chunk failed (c # cs) s =
     (let f = (failed \<or> s = []);
          s' = (if f then s else tl s)
      in if c = CHR ''['' then
           (let neg = (cs \<noteq> [] \<and> hd cs = CHR ''^'');
                body = (if neg then tl cs else cs)
            in case match_ranges (if f then None else Some (hd s)) False 0 body of
                 None \<Rightarrow> None
               | Some (m, rest) \<Rightarrow> match_chunk (f \<or> m = neg) rest s')
         else if c = CHR ''?'' then match_chunk (f \<or> hd s = CHR ''/'') cs s'
         else if c = CHR 0x5C then
           (case cs of [] \<Rightarrow> None | d # ds \<Rightarrow> match_chunk (f \<or> d \<noteq> hd s) ds s')
         else match_chunk (f \<or> c \<noteq> hd s) cs s')"
  by pat_completeness auto
termination
  by (relation "measure (\<lambda>(failed, ch, s). length ch)")
    (auto dest!: match_ranges_length simp: Let_def split: if_split_asm)

declare match_chunk.simps(2) [simp del]

text \<open>\<^verbatim>\<open>scanChunk\<close>: leading stars, the chunk up to the next star outside a class, the rest.\<close>

fun scan_body :: "bool \<Rightarrow> string \<Rightarrow> string \<times> string" where
  "scan_body inr [] = ([], [])"
| "scan_body inr [c] = (if c = CHR ''*'' \<and> \<not> inr then ([], [c]) else ([c], []))"
| "scan_body inr (c # d # ds) =
     (if c = CHR 0x5C then (let (a, b) = scan_body inr ds in (c # d # a, b))
      else if c = CHR ''*'' \<and> \<not> inr then ([], c # d # ds)
      else (let (a, b) = scan_body (if c = CHR ''['' then True else if c = CHR '']'' then False else inr) (d # ds)
            in (c # a, b)))"

definition scan_chunk :: "string \<Rightarrow> bool \<times> string \<times> string" where
  "scan_chunk p = (p \<noteq> [] \<and> hd p = CHR ''*'', scan_body False (dropWhile (\<lambda>c. c = CHR ''*'') p))"

fun skip_match :: "string \<Rightarrow> bool \<Rightarrow> string \<Rightarrow> string option option" where
  "skip_match chunk more [] = Some None"
| "skip_match chunk more (c # cs) =
     (if c = CHR ''/'' then Some None
      else case match_chunk False chunk cs of
        None \<Rightarrow> None
      | Some None \<Rightarrow> skip_match chunk more cs
      | Some (Some t) \<Rightarrow> (if \<not> more \<and> t \<noteq> [] then skip_match chunk more cs else Some (Some t)))"

lemma scan_body_length: "length (fst (scan_body inr p)) + length (snd (scan_body inr p)) = length p"
  by (induction inr p rule: scan_body.induct) (simp_all add: case_prod_beta Let_def)

lemma scan_body_progress:
  assumes "c \<noteq> CHR ''*''"
  shows "length (snd (scan_body False (c # cs))) < length (c # cs)"
proof (cases cs)
  case Nil
  then show ?thesis using assms by simp
next
  case (Cons d ds)
  have "length (snd (scan_body inr xs)) \<le> length xs" for inr xs
    using scan_body_length [of inr xs] by linarith
  from this [of False ds] this [of "c = CHR ''[''" "d # ds"] show ?thesis
    using assms Cons by (cases "c = CHR ''[''") (simp_all add: case_prod_beta Let_def)
qed

lemma scan_chunk_length:
  assumes "scan_chunk p = (star, chunk, rest)" "p \<noteq> []"
  shows "length rest < length p"
proof (cases "dropWhile (\<lambda>c. c = CHR ''*'') p")
  case Nil
  then have "scan_chunk p = (hd p = CHR ''*'', [], [])" using assms(2) by (simp only: scan_chunk_def) simp
  then show ?thesis using assms by simp
next
  case (Cons a as)
  have "a \<noteq> CHR ''*''" using hd_dropWhile [of "\<lambda>c. c = CHR ''*''" p] Cons by simp
  then have "length rest < length (a # as)"
    using scan_body_progress [of a as] assms(1) Cons by (simp add: scan_chunk_def)
  also have "\<dots> \<le> length p" using length_dropWhile_le [of "\<lambda>c. c = CHR ''*''" p] Cons by simp
  finally show ?thesis .
qed

function pattern_ok :: "string \<Rightarrow> bool" where
  "pattern_ok p =
     (if p = [] then True
      else case scan_chunk p of (star, chunk, rest) \<Rightarrow>
        match_chunk False chunk [] \<noteq> None \<and> pattern_ok rest)"
  by pat_completeness auto
termination
  by (relation "measure length", simp, simp only: in_measure, metis scan_chunk_length)

declare pattern_ok.simps [simp del]

text \<open>\<^verbatim>\<open>path.Match\<close>.\<close>

function path_match :: "string \<Rightarrow> string \<Rightarrow> bool option" where
  "path_match p name =
     (if p = [] then Some (name = [])
      else case scan_chunk p of (star, chunk, rest) \<Rightarrow>
        (if star \<and> chunk = [] then Some (CHR ''/'' \<notin> set name)
         else case match_chunk False chunk name of
           None \<Rightarrow> None
         | Some r \<Rightarrow>
             (let direct = (\<exists>t\<in>set_option r. t = [] \<or> rest \<noteq> []);
                  skipped = (if direct then Some r
                             else if star then skip_match chunk (rest \<noteq> []) name else Some None)
              in case skipped of
                   None \<Rightarrow> None
                 | Some (Some t) \<Rightarrow> path_match rest t
                 | Some None \<Rightarrow> (if pattern_ok rest then Some False else None))))"
  by pat_completeness auto
termination
  by (relation "measure (\<lambda>(p, name). length p)", simp, simp only: in_measure prod.case, metis scan_chunk_length)

declare path_match.simps [simp del]

text \<open>The callers read \<^verbatim>\<open>ok, _ := path.Match(p, v)\<close>: a malformed pattern matches nothing.\<close>

definition glob_ok :: "string \<Rightarrow> string \<Rightarrow> bool" where
  "glob_ok p v = (path_match p v = Some True)"

definition globChars :: string where
  "globChars = [CHR ''*'', CHR ''?'', CHR ''['', CHR 0x5C]"

text \<open>\<^verbatim>\<open>matchAnyGlob\<close>, the matcher every list-valued scope uses.\<close>

fun matchAnyGlob :: "string list \<Rightarrow> string \<Rightarrow> bool" where
  "matchAnyGlob [] v = False"
| "matchAnyGlob (p # ps) v =
     (if p = ''*'' \<or> p = v then True else if glob_ok p v then True else matchAnyGlob ps v)"

subsection \<open>What a pattern matches\<close>

text \<open>A name without metacharacters.\<close>

abbreviation literal :: "string \<Rightarrow> bool" where
  "literal p \<equiv> \<not> contains_any p globChars"

lemma literal_Cons:
  "literal (c # cs) \<longleftrightarrow>
     c \<noteq> CHR ''*'' \<and> c \<noteq> CHR ''?'' \<and> c \<noteq> CHR ''['' \<and> c \<noteq> CHR 0x5C \<and> literal cs"
  by (simp add: contains_any_def globChars_def)

lemma scan_body_literal:
  assumes "s = [] \<or> hd s = CHR ''*''" "literal p"
  shows "scan_body False (p @ s) = (p, s)"
  using assms(2)
proof (induction p)
  case Nil
  then show ?case using assms(1) by (cases "(False, s)" rule: scan_body.cases) simp_all
next
  case (Cons c p)
  then show ?case by (cases "p @ s") (simp_all add: literal_Cons)
qed

lemma match_chunk_failed_literal: "literal p \<Longrightarrow> match_chunk True p s = Some None"
proof (induction p)
  case (Cons c p)
  then show ?case by (simp add: literal_Cons match_chunk.simps(2))
qed simp

lemma match_chunk_literal: "literal p \<Longrightarrow> match_chunk False p s = Some (cut_prefix p s)"
proof (induction p arbitrary: s)
  case (Cons c p)
  then show ?case
    by (cases s) (auto simp: literal_Cons match_chunk.simps(2) match_chunk_failed_literal)
qed simp

lemma literal_not_star: "literal p \<Longrightarrow> p \<noteq> [] \<Longrightarrow> hd p \<noteq> CHR ''*''"
  by (cases p) (simp_all add: literal_Cons)

lemma scan_chunk_literal:
  "literal p \<Longrightarrow> p \<noteq> [] \<Longrightarrow> scan_chunk p = (False, p, [])"
  using scan_body_literal [of "[]" p] literal_not_star [of p]
  by (cases p) (simp_all add: scan_chunk_def)

lemma path_match_Nil: "path_match [] v = Some (v = [])"
  by (simp add: path_match.simps [of "[]"])

lemma pattern_ok_Nil: "pattern_ok []"
  by (simp add: pattern_ok.simps [of "[]"])

lemma path_match_lead_literal:
  assumes "scan_chunk q = (False, p, rest)" "literal p" "q \<noteq> []" "pattern_ok rest"
  shows "path_match q v =
    (case cut_prefix p v of
       None \<Rightarrow> Some False
     | Some t \<Rightarrow> if t = [] \<or> rest \<noteq> [] then path_match rest t else Some False)"
  using assms by (simp add: path_match.simps [of q] match_chunk_literal split: option.split)

lemma path_match_literal: "literal p \<Longrightarrow> path_match p v = Some (p = v)"
proof (cases "p = []")
  case True
  then show ?thesis by (auto simp: path_match_Nil)
next
  case False
  assume lit: "literal p"
  show ?thesis
    unfolding path_match_lead_literal [OF scan_chunk_literal [OF lit False] lit False pattern_ok_Nil]
    by (auto simp: path_match_Nil cut_prefix_Some_iff split: option.split)
qed

lemma glob_ok_literal: "literal p \<Longrightarrow> glob_ok p v \<longleftrightarrow> p = v"
  by (simp add: glob_ok_def path_match_literal)

lemma path_match_star: "path_match ''*'' t = Some (CHR ''/'' \<notin> set t)"
  by (simp add: path_match.simps [of "''*''"] scan_chunk_def)

lemma glob_ok_star: "glob_ok ''*'' v \<longleftrightarrow> CHR ''/'' \<notin> set v"
  by (simp add: glob_ok_def path_match_star)

text \<open>The usual \<^verbatim>\<open>prefix*\<close> pattern.\<close>

lemma glob_ok_prefix_star:
  assumes "literal p" "p \<noteq> []"
  shows "glob_ok (p @ ''*'') v \<longleftrightarrow> (\<exists>r. v = p @ r \<and> CHR ''/'' \<notin> set r)"
proof -
  have "scan_chunk (p @ ''*'') = (False, p, ''*'')"
    using scan_body_literal [OF _ assms(1), of "''*''"] literal_not_star [OF assms] assms(2)
    by (cases p) (simp_all add: scan_chunk_def)
  moreover have "pattern_ok ''*''"
    by (simp add: pattern_ok.simps [of "''*''"] pattern_ok_Nil scan_chunk_def)
  ultimately have "path_match (p @ ''*'') v =
      (case cut_prefix p v of None \<Rightarrow> Some False | Some t \<Rightarrow> Some (CHR ''/'' \<notin> set t))"
    using path_match_lead_literal [of "p @ ''*''" p "''*''" v] assms(1)
    by (simp add: path_match_star split: option.split)
  then show ?thesis
    by (auto simp: glob_ok_def cut_prefix_Some_iff cut_prefix_None_iff split: option.splits)
qed

lemma matchAnyGlob_iff:
  "matchAnyGlob ps v \<longleftrightarrow> (\<exists>p\<in>set ps. p = ''*'' \<or> p = v \<or> glob_ok p v)"
  by (induction ps) auto

lemma matchAnyGlob_literal:
  "literal e \<Longrightarrow> matchAnyGlob [e] v \<longleftrightarrow> e = v"
  by (cases "e = ''*''") (auto simp: matchAnyGlob_iff glob_ok_literal literal_Cons)

subsection \<open>Malformed patterns\<close>

text \<open>Whether a pattern is malformed does not depend on the name it is matched against,
  so probing it once with the empty name is a complete check.\<close>

lemma match_ranges_None_indep:
  "match_ranges r m n ch = None \<longleftrightarrow> match_ranges r' m' n ch = None"
  "match_ranges r m n ch = Some (b, rest) \<Longrightarrow> \<exists>b'. match_ranges r' m' n ch = Some (b', rest)"
proof (induction r m n ch arbitrary: m' b rule: match_ranges.induct)
  case (1 r m n ch)
  { case 1
    show ?case
      using "1.IH"(1,3)
      by (subst (1 2) match_ranges.simps) (auto split: option.split) }
  { case 2
    then show ?case
      using "1.IH"(2,4)
      by (subst (asm) match_ranges.simps, subst match_ranges.simps)
        (auto split: option.splits if_splits) }
qed

lemma match_chunk_None_indep:
  "match_chunk f ch s = None \<longleftrightarrow> match_chunk f' ch s' = None"
proof (induction "length ch" arbitrary: ch f s f' s' rule: less_induct)
  case less
  show ?case
  proof (cases ch)
    case Nil
    then show ?thesis by simp
  next
    case (Cons c cs)
    have IH: "match_chunk g xs t = None \<longleftrightarrow> match_chunk g' xs t' = None"
      if "length xs \<le> length cs" for g xs t g' t'
      using less [of xs] that Cons by simp
    show ?thesis
    proof (cases "c = CHR ''[''")
      case True
      define body where "body = (if cs \<noteq> [] \<and> hd cs = CHR ''^'' then tl cs else cs)"
      have "length body \<le> length cs" by (simp add: body_def)
      then have body: "match_ranges r False 0 body = Some (b, rest) \<Longrightarrow> length rest \<le> length cs" for r b rest
        using match_ranges_length [of r False 0 body b rest] by simp
      define R where "R = (\<lambda>g (t::string). match_ranges (if g \<or> t = [] then None else Some (hd t)) False 0 body)"
      have unf: "match_chunk g ch t = (case R g t of None \<Rightarrow> None
           | Some (m, rest) \<Rightarrow> match_chunk ((g \<or> t = []) \<or> m = (cs \<noteq> [] \<and> hd cs = CHR ''^'')) rest
               (if g \<or> t = [] then t else tl t))" for g t
        unfolding Cons True R_def body_def match_chunk.simps(2) Let_def by simp
      show ?thesis
      proof (cases "R f s")
        case None
        then have "R f' s' = None"
          using match_ranges_None_indep(1) [of _ False 0 body _ False] unfolding R_def by metis
        then show ?thesis using None by (simp only: unf option.case)
      next
        case (Some p)
        obtain m rest where p: "p = (m, rest)" by fastforce
        obtain m' where "R f' s' = Some (m', rest)"
          using match_ranges_None_indep(2) Some p unfolding R_def by blast
        moreover have "length rest \<le> length cs" using body Some p unfolding R_def by blast
        ultimately show ?thesis using Some p IH by (simp only: unf option.case prod.case)
      qed
    next
      case False
      then show ?thesis
        using IH Cons by (auto simp: match_chunk.simps(2) Let_def split: list.split)
    qed
  qed
qed

lemma skip_match_None_iff:
  assumes "match_chunk False chunk [] \<noteq> None"
  shows "skip_match chunk more name \<noteq> None"
proof (induction name)
  case (Cons c cs)
  have "match_chunk False chunk cs \<noteq> None"
    using assms match_chunk_None_indep [of False chunk cs False "[]"] by simp
  then show ?case using Cons by (auto split: option.split)
qed simp

lemma scan_chunk_star_end: "scan_chunk p = (star, [], rest) \<Longrightarrow> p \<noteq> [] \<Longrightarrow> rest = []"
proof -
  assume a: "scan_chunk p = (star, [], rest)" "p \<noteq> []"
  have "rest = []" if "scan_body False q = ([], rest)" "q = [] \<or> hd q \<noteq> CHR ''*''" for q
    using that by (cases "(False, q)" rule: scan_body.cases) (auto simp: case_prod_beta Let_def split: if_splits)
  moreover have "dropWhile (\<lambda>c. c = CHR ''*'') p = [] \<or> hd (dropWhile (\<lambda>c. c = CHR ''*'') p) \<noteq> CHR ''*''"
    using hd_dropWhile [of "\<lambda>c. c = CHR ''*''" p] by blast
  ultimately show ?thesis using a unfolding scan_chunk_def by blast
qed

lemma path_match_None_iff: "path_match p v = None \<longleftrightarrow> \<not> pattern_ok p"
proof (induction p v rule: path_match.induct)
  case (1 p name)
  show ?case
  proof (cases "p = []")
    case True
    then show ?thesis by (simp add: path_match_Nil pattern_ok_Nil)
  next
    case ne: False
    obtain star chunk rest where sc: "scan_chunk p = (star, chunk, rest)" using prod_cases3 by blast
    have ok: "pattern_ok p \<longleftrightarrow> match_chunk False chunk [] \<noteq> None \<and> pattern_ok rest"
      using ne sc by (simp add: pattern_ok.simps [of p])
    show ?thesis
    proof (cases "star \<and> chunk = []")
      case True
      then show ?thesis using ne sc ok scan_chunk_star_end [of p star rest]
        by (simp add: path_match.simps [of p] pattern_ok_Nil)
    next
      case tail: False
      show ?thesis
      proof (cases "match_chunk False chunk name")
        case None
        then show ?thesis using ne sc ok tail match_chunk_None_indep [of False chunk name False "[]"]
          by (simp add: path_match.simps [of p])
      next
        case (Some r)
        then have mc: "match_chunk False chunk [] \<noteq> None"
          using match_chunk_None_indep [of False chunk name False "[]"] by simp
        define direct where "direct = (\<exists>t\<in>set_option r. t = [] \<or> rest \<noteq> [])"
        define skipped where "skipped = (if direct then Some r
          else if star then skip_match chunk (rest \<noteq> []) name else Some None)"
        obtain t where sk: "skipped = Some t"
          using skip_match_None_iff [OF mc, of "rest \<noteq> []" name] unfolding skipped_def
          by (cases direct; cases star) auto
        have "path_match p name = (case t of Some u \<Rightarrow> path_match rest u
            | None \<Rightarrow> if pattern_ok rest then Some False else None)"
          using ne sc tail Some sk unfolding direct_def skipped_def
          by (auto simp: path_match.simps [of p] Let_def)
        then show ?thesis
          using ok mc 1 [OF ne sc [symmetric] refl tail Some direct_def skipped_def sk]
          by (cases t) simp_all
      qed
    qed
  qed
qed

end
