(* ===== verification/Policy.thy ===== *)
theory Policy
  imports PathGlob
begin

text \<open>
  The rule language of the tool firewall (\<^verbatim>\<open>src/policy/policy.go\<close>), its static
  identity groups (\<^verbatim>\<open>groups.go\<close>) and the tighten-only composition of plugin hooks
  (\<^verbatim>\<open>hook.go\<close>).  A \<^verbatim>\<open>Policy\<close> is an ordered rule list with a default; the pure
  \<^verbatim>\<open>Decide\<close> and \<^verbatim>\<open>DecideMethod\<close> take the first rule that matches the caller and the
  tool or method.  The human-readable reason of a decision is a datatype with one
  constructor per message of the source.
\<close>

subsection \<open>Verdicts\<close>

datatype outcome = OutcomeDeny | OutcomeAllow | OutcomeCosign

datatype cap_error =
    CapBadEncoding | CapBadJSON | CapBadVersion int | CapUnpinned | CapBadSig
  | CapSubject | CapAudience string string | CapTool string | CapLifetime | CapNotYet
  | CapExpired | CapRevoked | CapSubjectRevoked | CapNoReplayCache | CapUsed string
  | CapChainDepth | CapChain cap_error | CapRootUnpinned | CapRootSig | CapParentKey
  | CapNotDelegateKey | CapChainSig | CapSingleUseDelegates | CapNoDelegatePub
  | CapNarrowAudience string string | CapNarrowExpiry | CapNarrowTools | CapNarrowCorpora
  | CapIncomplete | CapHasParent | CapBadDelegatePub | CapSingleUseDelegatePub
  | CapBadGlob string | CapNotFuture | CapNoSigner | CapWrongDelegate | CapCallerID

datatype deleg_error =
    DelBadEncoding | DelBadJSON | DelVersion int | DelSigner | DelKey | DelSig | DelRouter
  | DelAudience string string | DelBackendTool | DelArgs | DelLifetime | DelExpired
  | DelReplay | DelIncomplete

datatype reason =
    NoReason | DeniedByRule | LabelBlocked string | TaintBlocked
  | RateLimited int int | BoundCosignConsumed | AwaitBoundCosign string
  | CoSigned | AwaitCosign string
  | CapRequired | CapNoVerifier | CapInvalid cap_error | CapGrant string string
  | DelegInvalid deleg_error | DelegRequired | DelegAllowed
  | RouterDenied reason | RouterNotPermitted | CallerDenied reason | CallerNotPermitted
  | HookReason string | ProtocolReason string

record decision =
  Allow :: bool
  RuleID :: int
  Outcome :: outcome
  Reason :: reason
  AddLabels :: "string list"
  Cost :: int
  RetryAfter :: int

text \<open>Go's zero value of \<^verbatim>\<open>Decision\<close>.\<close>

definition zero_decision :: decision where
  "zero_decision = \<lparr>Allow = False, RuleID = 0, Outcome = OutcomeDeny, Reason = NoReason,
     AddLabels = [], Cost = 0, RetryAfter = 0\<rparr>"

definition outcomeOf :: "bool \<Rightarrow> outcome" where
  "outcomeOf allow = (if allow then OutcomeAllow else OutcomeDeny)"

subsection \<open>Rules\<close>

record rate_limit =
  Max :: int
  Per :: string
  RLCost :: int

record window =
  Days :: "string list"
  Hours :: string
  TZ :: string

record rule =
  Peers :: "string list"
  Tools :: "string list"
  Methods :: "string list"
  RuleAllow :: bool
  Rate :: "rate_limit option"
  When :: "window option"
  RequireCosign :: bool
  TaintSource :: bool
  TaintGuard :: bool
  EmitLabels :: "string list"
  BlockLabels :: "string list"

record policy =
  DefaultAllow :: bool
  Rules :: "rule list"

definition tainted_label :: string where
  "tainted_label = ''tainted''"

definition emitSet :: "rule \<Rightarrow> string list" where
  "emitSet r = EmitLabels r @ (if TaintSource r then [tainted_label] else [])"

definition blockSet :: "rule \<Rightarrow> string list" where
  "blockSet r = BlockLabels r @ (if TaintGuard r then [tainted_label] else [])"

definition UsesLabels :: "policy option \<Rightarrow> bool" where
  "UsesLabels p = (case p of None \<Rightarrow> False
     | Some q \<Rightarrow> list_ex (\<lambda>r. emitSet r \<noteq> [] \<or> blockSet r \<noteq> []) (Rules q))"

subsection \<open>Matching\<close>

definition pubkey_prefix :: string where "pubkey_prefix = ''pubkey:''"

text \<open>One entry of a peer list, shared by rules and static groups.\<close>

definition peer_entry_matches :: "string \<Rightarrow> string \<Rightarrow> string \<Rightarrow> bool" where
  "peer_entry_matches fqdn key p =
     (case cut_prefix pubkey_prefix p of
        Some k \<Rightarrow> k = key
      | None \<Rightarrow> p = ''*'' \<or> fqdn = p \<or> glob_ok p fqdn)"

definition matchesPeer :: "rule \<Rightarrow> string \<Rightarrow> string \<Rightarrow> bool" where
  "matchesPeer r fqdn key = (Peers r = [] \<or> list_ex (peer_entry_matches fqdn key) (Peers r))"

definition matchesTool :: "rule \<Rightarrow> string \<Rightarrow> bool" where
  "matchesTool r tool =
     (Tools r = [] \<or> list_ex (\<lambda>t. t = ''*'' \<or> t = tool \<or> glob_ok t tool) (Tools r))"

definition matchesMethod :: "rule \<Rightarrow> string \<Rightarrow> bool" where
  "matchesMethod r m = list_ex (\<lambda>t. t = ''*'' \<or> t = m \<or> glob_ok t m) (Methods r)"

type_synonym static_groups = "string \<Rightarrow> string list"

definition InGroup :: "static_groups \<Rightarrow> string \<Rightarrow> string \<Rightarrow> string \<Rightarrow> bool" where
  "InGroup g peerKey peerFQDN grp = list_ex (peer_entry_matches peerFQDN peerKey) (g grp)"

subsection \<open>Pure decisions\<close>

definition plain_verdict :: "int \<Rightarrow> bool \<Rightarrow> decision" where
  "plain_verdict i allow = zero_decision\<lparr>Allow := allow, RuleID := i, Outcome := outcomeOf allow\<rparr>"

fun decide_from :: "nat \<Rightarrow> rule list \<Rightarrow> bool \<Rightarrow> string \<Rightarrow> string \<Rightarrow> string \<Rightarrow> decision" where
  "decide_from i [] dflt fqdn key tool = plain_verdict (- 1) dflt"
| "decide_from i (r # rs) dflt fqdn key tool =
     (if Methods r \<noteq> [] then decide_from (Suc i) rs dflt fqdn key tool
      else if matchesPeer r fqdn key \<and> matchesTool r tool then plain_verdict (int i) (RuleAllow r)
      else decide_from (Suc i) rs dflt fqdn key tool)"

definition Decide :: "policy \<Rightarrow> string \<Rightarrow> string \<Rightarrow> string \<Rightarrow> decision" where
  "Decide p fqdn key tool = decide_from 0 (Rules p) (DefaultAllow p) fqdn key tool"

fun decide_method_from :: "nat \<Rightarrow> rule list \<Rightarrow> string \<Rightarrow> string \<Rightarrow> string \<Rightarrow> decision" where
  "decide_method_from i [] fqdn key m = plain_verdict (- 1) True"
| "decide_method_from i (r # rs) fqdn key m =
     (if Methods r = [] then decide_method_from (Suc i) rs fqdn key m
      else if matchesPeer r fqdn key \<and> matchesMethod r m then plain_verdict (int i) (RuleAllow r)
      else decide_method_from (Suc i) rs fqdn key m)"

definition DecideMethod :: "policy \<Rightarrow> string \<Rightarrow> string \<Rightarrow> string \<Rightarrow> decision" where
  "DecideMethod p fqdn key m = decide_method_from 0 (Rules p) fqdn key m"

subsection \<open>Plugin hooks\<close>

definition outcomeSeverity :: "outcome \<Rightarrow> nat" where
  "outcomeSeverity out = (case out of OutcomeDeny \<Rightarrow> 2 | OutcomeCosign \<Rightarrow> 1 | OutcomeAllow \<Rightarrow> 0)"

text \<open>First occurrences of the labels of both lists, in order.\<close>

fun add_unseen :: "string list \<Rightarrow> string list \<Rightarrow> string list" where
  "add_unseen acc [] = acc"
| "add_unseen acc (l # ls) = add_unseen (if l \<in> set acc then acc else acc @ [l]) ls"

type_synonym 'i hook = "'i \<Rightarrow> decision \<Rightarrow> decision"

definition apply_hook :: "'i hook \<Rightarrow> 'i \<Rightarrow> decision \<Rightarrow> decision" where
  "apply_hook h info dec =
     (let out = h info dec;
          dec1 = (if AddLabels out \<noteq> []
                  then dec\<lparr>AddLabels := add_unseen (add_unseen [] (AddLabels dec)) (AddLabels out)\<rparr>
                  else dec)
      in if outcomeSeverity (Outcome dec) < outcomeSeverity (Outcome out)
         then dec1\<lparr>Outcome := Outcome out, Allow := (Outcome out = OutcomeAllow),
                   Reason := (if Reason out \<noteq> NoReason then Reason out else Reason dec1)\<rparr>
         else dec1)"

fun applyDecisionHooks :: "'i hook option list \<Rightarrow> 'i \<Rightarrow> decision \<Rightarrow> decision" where
  "applyDecisionHooks [] info dec = dec"
| "applyDecisionHooks (None # hs) info dec = applyDecisionHooks hs info dec"
| "applyDecisionHooks (Some h # hs) info dec = applyDecisionHooks hs info (apply_hook h info dec)"

subsection \<open>First match\<close>

abbreviation tool_rule_hit :: "string \<Rightarrow> string \<Rightarrow> string \<Rightarrow> rule \<Rightarrow> bool" where
  "tool_rule_hit fqdn key tool r \<equiv> Methods r = [] \<and> matchesPeer r fqdn key \<and> matchesTool r tool"

abbreviation method_rule_hit :: "string \<Rightarrow> string \<Rightarrow> string \<Rightarrow> rule \<Rightarrow> bool" where
  "method_rule_hit fqdn key m r \<equiv> Methods r \<noteq> [] \<and> matchesPeer r fqdn key \<and> matchesMethod r m"

lemma plain_verdict_simps [simp, verdict_simps]:
  "Allow (plain_verdict i a) = a" "RuleID (plain_verdict i a) = i"
  "Outcome (plain_verdict i a) = outcomeOf a" "Reason (plain_verdict i a) = NoReason"
  "AddLabels (plain_verdict i a) = []" "Cost (plain_verdict i a) = 0"
  "RetryAfter (plain_verdict i a) = 0"
  by (simp_all add: plain_verdict_def zero_decision_def)

lemma outcomeOf_simps [simp]:
  "outcomeOf a = OutcomeAllow \<longleftrightarrow> a" "outcomeOf a = OutcomeDeny \<longleftrightarrow> \<not> a" "outcomeOf a \<noteq> OutcomeCosign"
  by (simp_all add: outcomeOf_def)

lemma decide_from_first:
  "decide_from i rs dflt fqdn key tool =
     (case first_idx (tool_rule_hit fqdn key tool) rs of
        None \<Rightarrow> plain_verdict (- 1) dflt
      | Some j \<Rightarrow> plain_verdict (int (i + j)) (RuleAllow (rs ! j)))"
  by (induction rs arbitrary: i) (auto split: option.split)

lemma decide_method_from_first:
  "decide_method_from i rs fqdn key m =
     (case first_idx (method_rule_hit fqdn key m) rs of
        None \<Rightarrow> plain_verdict (- 1) True
      | Some j \<Rightarrow> plain_verdict (int (i + j)) (RuleAllow (rs ! j)))"
  by (induction rs arbitrary: i) (auto split: option.split)

lemma Decide_first:
  "Decide p fqdn key tool =
     (case first_idx (tool_rule_hit fqdn key tool) (Rules p) of
        None \<Rightarrow> plain_verdict (- 1) (DefaultAllow p)
      | Some j \<Rightarrow> plain_verdict (int j) (RuleAllow (Rules p ! j)))"
  by (simp add: Decide_def decide_from_first split: option.split)

lemma DecideMethod_first:
  "DecideMethod p fqdn key m =
     (case first_idx (method_rule_hit fqdn key m) (Rules p) of
        None \<Rightarrow> plain_verdict (- 1) True
      | Some j \<Rightarrow> plain_verdict (int j) (RuleAllow (Rules p ! j)))"
  by (simp add: DecideMethod_def decide_method_from_first split: option.split)

lemma group_entry_no_pubkey:
  "cut_prefix pubkey_prefix (''group:'' @ g) = None"
  by (simp add: pubkey_prefix_def)

subsection \<open>Hooks\<close>

lemma set_add_unseen [simp]: "set (add_unseen acc ls) = set acc \<union> set ls"
  by (induction acc ls rule: add_unseen.induct) auto

lemma distinct_add_unseen: "distinct acc \<Longrightarrow> distinct (add_unseen acc ls)"
  by (induction acc ls rule: add_unseen.induct) auto

lemma outcomeSeverity_simps [simp]:
  "outcomeSeverity OutcomeDeny = 2" "outcomeSeverity OutcomeCosign = 1" "outcomeSeverity OutcomeAllow = 0"
  by (simp_all add: outcomeSeverity_def)

lemma outcomeSeverity_0_iff [simp]: "outcomeSeverity out = 0 \<longleftrightarrow> out = OutcomeAllow"
  by (cases out) simp_all

lemma apply_hook_tightens:
  "outcomeSeverity (Outcome dec) \<le> outcomeSeverity (Outcome (apply_hook h info dec))"
  "set (AddLabels dec) \<subseteq> set (AddLabels (apply_hook h info dec))"
  "RuleID (apply_hook h info dec) = RuleID dec" "Cost (apply_hook h info dec) = Cost dec"
  "RetryAfter (apply_hook h info dec) = RetryAfter dec"
  "Allow dec = (Outcome dec = OutcomeAllow) \<Longrightarrow>
     Allow (apply_hook h info dec) = (Outcome (apply_hook h info dec) = OutcomeAllow)"
  by (auto simp: apply_hook_def Let_def)

lemma hooks_tighten:
  "outcomeSeverity (Outcome dec) \<le> outcomeSeverity (Outcome (applyDecisionHooks hs info dec)) \<and>
   set (AddLabels dec) \<subseteq> set (AddLabels (applyDecisionHooks hs info dec)) \<and>
   RuleID (applyDecisionHooks hs info dec) = RuleID dec \<and>
   Cost (applyDecisionHooks hs info dec) = Cost dec"
proof (induction hs info dec rule: applyDecisionHooks.induct)
  case (3 h hs info dec)
  then show ?case using apply_hook_tightens [where h = h and info = info and dec = dec] by auto
qed auto

lemma hooks_keep_Allow_flag:
  "Allow dec = (Outcome dec = OutcomeAllow) \<Longrightarrow>
   Allow (applyDecisionHooks hs info dec) = (Outcome (applyDecisionHooks hs info dec) = OutcomeAllow)"
  by (induction hs info dec rule: applyDecisionHooks.induct) (simp_all add: apply_hook_tightens)

lemma hooks_Allow_imp:
  "Outcome (applyDecisionHooks hs info dec) = OutcomeAllow \<Longrightarrow> Outcome dec = OutcomeAllow"
  using hooks_tighten [of dec hs info] by auto

text \<open>Plugins can only tighten. For any list of decision hooks, absent ones included, and whatever
  each of them answers, the composed outcome is at least as restrictive as the engine's (deny
  above co-sign above allow), no data-flow label of the base decision is lost, and the rule id
  and the cost recorded for it are unchanged.\<close>
theorem hooks_only_tighten:
  "outcomeSeverity (Outcome dec) \<le> outcomeSeverity (Outcome (applyDecisionHooks hs info dec)) \<and>
   set (AddLabels dec) \<subseteq> set (AddLabels (applyDecisionHooks hs info dec)) \<and>
   RuleID (applyDecisionHooks hs info dec) = RuleID dec \<and>
   Cost (applyDecisionHooks hs info dec) = Cost dec"
  by (rule hooks_tighten)

end
