(* ===== verification/GoTime.thy ===== *)
theory GoTime
  imports Prelude
begin

text \<open>
  The parts of Go's \<^verbatim>\<open>time\<close> package the policy engine reads its configuration through:
  \<^verbatim>\<open>ParseDuration\<close> for rate windows, and the civil clock of a location for time windows.
  The IANA database is not part of the program, so a loaded location is the function from
  an instant to its offset from UTC in seconds, and \<^verbatim>\<open>LoadLocation\<close> a parameter.
\<close>

subsection \<open>ParseDuration\<close>

text \<open>\<^verbatim>\<open>leadingInt\<close>: the digits at the front, \<^term>\<open>None\<close> on overflow past \<open>2 ^ 63\<close>.\<close>

fun leading_int :: "int \<Rightarrow> string \<Rightarrow> (int \<times> string) option" where
  "leading_int x [] = Some (x, [])"
| "leading_int x (c # cs) =
     (if \<not> is_digit c then Some (x, c # cs)
      else if x > 2 ^ 63 div 10 then None
      else let y = x * 10 + digit_val c in if y > 2 ^ 63 then None else leading_int y cs)"

text \<open>\<^verbatim>\<open>leadingFraction\<close>: value, scale and rest; digits past the precision are dropped.\<close>

fun leading_fraction :: "int \<Rightarrow> int \<Rightarrow> bool \<Rightarrow> string \<Rightarrow> int \<times> int \<times> string" where
  "leading_fraction x sc ovf [] = (x, sc, [])"
| "leading_fraction x sc ovf (c # cs) =
     (if \<not> is_digit c then (x, sc, c # cs)
      else if ovf then leading_fraction x sc True cs
      else if x > (2 ^ 63 - 1) div 10 then leading_fraction x sc True cs
      else let y = x * 10 + digit_val c
           in if y > 2 ^ 63 then leading_fraction x sc True cs
              else leading_fraction y (sc * 10) False cs)"

definition unit_nanos :: "string \<Rightarrow> int option" where
  "unit_nanos u =
     (if u = ''ns'' then Some 1
      else if u = ''us'' \<or> u = [CHR 0xC2, CHR 0xB5, CHR ''s''] \<or> u = [CHR 0xCE, CHR 0xBC, CHR ''s''] then Some 1000
      else if u = ''ms'' then Some 1000000
      else if u = ''s'' then Some 1000000000
      else if u = ''m'' then Some 60000000000
      else if u = ''h'' then Some 3600000000000
      else None)"

definition is_unit_char :: "char \<Rightarrow> bool" where
  "is_unit_char c = (c \<noteq> CHR ''.'' \<and> \<not> is_digit c)"

text \<open>One number with its unit: the nanoseconds it denotes and the rest.\<close>

definition duration_term :: "string \<Rightarrow> (int \<times> string) option" where
  "duration_term s =
     (if s = [] \<or> \<not> (hd s = CHR ''.'' \<or> is_digit (hd s)) then None
      else case leading_int 0 s of
        None \<Rightarrow> None
      | Some (v, s1) \<Rightarrow>
          (let pre = (length s1 \<noteq> length s);
               dot = (s1 \<noteq> [] \<and> hd s1 = CHR ''.'');
               (f, scale, s2) = (if dot then leading_fraction 0 1 False (tl s1) else (0, 1, s1));
               post = (dot \<and> length s2 \<noteq> length (tl s1));
               u = takeWhile is_unit_char s2;
               s3 = dropWhile is_unit_char s2
           in if \<not> pre \<and> \<not> post then None
              else if u = [] then None
              else case unit_nanos u of
                None \<Rightarrow> None
              | Some unit \<Rightarrow>
                  (if v > 2 ^ 63 div unit then None
                   else let w = v * unit + (if f > 0 then f * unit div scale else 0)
                        in if w > 2 ^ 63 then None else Some (w, s3))))"

lemma leading_int_length: "leading_int x s = Some (v, r) \<Longrightarrow> length r \<le> length s"
  by (induction x s rule: leading_int.induct) (auto simp: Let_def split: if_splits)

lemma leading_fraction_length: "length (snd (snd (leading_fraction x sc ovf s))) \<le> length s"
proof (induction s arbitrary: x sc ovf)
  case (Cons c cs)
  have "length (snd (snd (leading_fraction x' sc' ovf' cs))) \<le> Suc (length cs)" for x' sc' ovf'
    using Cons [of x' sc' ovf'] by linarith
  then show ?case by (simp add: Let_def)
qed simp

lemma dropWhile_shorter: "takeWhile P s \<noteq> [] \<Longrightarrow> length (dropWhile P s) < length s"
  using takeWhile_dropWhile_id [of P s] by (metis append_Nil length_append length_greater_0_conv less_add_same_cancel2)

lemma duration_term_length: "duration_term s = Some (w, r) \<Longrightarrow> length r < length s"
proof -
  assume a: "duration_term s = Some (w, r)"
  then obtain v s1 where li: "leading_int 0 s = Some (v, s1)"
    by (auto simp: duration_term_def split: if_splits option.splits)
  define dot where "dot = (s1 \<noteq> [] \<and> hd s1 = CHR ''.'')"
  obtain f scale s2 where lf: "(if dot then leading_fraction 0 1 False (tl s1) else (0, 1, s1)) = (f, scale, s2)"
    using prod_cases3 by blast
  have "length s2 \<le> length s1"
    using lf leading_fraction_length [of 0 1 False "tl s1"] by (cases s1) (auto split: if_splits)
  moreover have "r = dropWhile is_unit_char s2 \<and> takeWhile is_unit_char s2 \<noteq> []"
    using a li lf unfolding duration_term_def dot_def
    by (auto simp: Let_def split: if_splits option.splits)
  ultimately show ?thesis
    using dropWhile_shorter [of is_unit_char s2] leading_int_length [OF li] by fastforce
qed

function duration_terms :: "int \<Rightarrow> string \<Rightarrow> int option" where
  "duration_terms d s =
     (if s = [] then Some d
      else case duration_term s of
        None \<Rightarrow> None
      | Some (w, r) \<Rightarrow> (if d + w > 2 ^ 63 then None else duration_terms (d + w) r))"
  by pat_completeness auto
termination
  by (relation "measure (\<lambda>(d, s). length s)") (auto dest: duration_term_length)

declare duration_terms.simps [simp del]

definition ParseDuration :: "string \<Rightarrow> duration option" where
  "ParseDuration s =
     (let neg = (s \<noteq> [] \<and> hd s = CHR ''-'');
          s1 = (if s \<noteq> [] \<and> (hd s = CHR ''-'' \<or> hd s = CHR ''+'') then tl s else s)
      in if s1 = ''0'' then Some 0
         else if s1 = [] then None
         else case duration_terms 0 s1 of
           None \<Rightarrow> None
         | Some d \<Rightarrow> (if neg then Some (- d) else if d > 2 ^ 63 - 1 then None else Some d))"

subsection \<open>The civil clock\<close>

type_synonym location = "instant \<Rightarrow> int"
type_synonym tzdb = "string \<Rightarrow> location option"

definition utc :: location where "utc t = 0"

definition local_secs :: "location \<Rightarrow> instant \<Rightarrow> int" where
  "local_secs loc t = unix_sec t + loc t"

definition hour_of :: "location \<Rightarrow> instant \<Rightarrow> int" where
  "hour_of loc t = local_secs loc t mod 86400 div 3600"

definition minute_of :: "location \<Rightarrow> instant \<Rightarrow> int" where
  "minute_of loc t = local_secs loc t mod 3600 div 60"

text \<open>Sunday is 0; the epoch was a Thursday.\<close>

definition weekday_of :: "location \<Rightarrow> instant \<Rightarrow> int" where
  "weekday_of loc t = (local_secs loc t div 86400 + 4) mod 7"

lemma minute_of_day:
  "hour_of loc t * 60 + minute_of loc t = local_secs loc t mod 86400 div 60"
proof -
  define s where "s = local_secs loc t mod 86400"
  have "local_secs loc t mod 3600 = s mod 3600"
    unfolding s_def by (simp add: mod_mod_cancel)
  then have "hour_of loc t * 60 + minute_of loc t = s div 3600 * 60 + s mod 3600 div 60"
    by (simp add: hour_of_def minute_of_def s_def)
  also have "\<dots> = (s mod 3600 + 60 * (60 * (s div 3600))) div 60"
    by (subst div_mult_self2) simp_all
  also have "s mod 3600 + 60 * (60 * (s div 3600)) = s"
    using mod_mult_div_eq [of s 3600] by simp
  finally show ?thesis by (simp add: s_def)
qed

end
