(* ===== verification/Crypto.thy ===== *)
theory Crypto
  imports Prelude
begin

text \<open>
  What the program uses of Go's cryptographic packages.  SHA-256 and Ed25519 are the
  fields of a \<^verbatim>\<open>crypto\<close> record that every definition using them takes as an argument; a
  theorem that needs a law of them (that a signature made with a key verifies under it,
  that two inputs do not collide) states it as a hypothesis about the inputs it concerns.
  \<^verbatim>\<open>encoding/hex\<close> is defined outright: its decoder accepts both cases of a letter.
\<close>

record crypto =
  sha256 :: "bytes \<Rightarrow> bytes"
  ed_pub :: "bytes \<Rightarrow> bytes"
  ed_sign :: "bytes \<Rightarrow> bytes \<Rightarrow> bytes"
  ed_verify :: "bytes \<Rightarrow> bytes \<Rightarrow> bytes \<Rightarrow> bool"

text \<open>Signing and verification agree for one key, the documented contract of Ed25519.\<close>

definition key_sound :: "crypto \<Rightarrow> bytes \<Rightarrow> bool" where
  "key_sound cr priv \<longleftrightarrow>
     length (ed_pub cr priv) = 32 \<and> (\<forall>m. ed_verify cr (ed_pub cr priv) m (ed_sign cr priv m))"

definition hash_hex :: "crypto \<Rightarrow> bytes \<Rightarrow> string" where
  "hash_hex cr b = hex_encode (sha256 cr b)"

subsection \<open>Hexadecimal\<close>

definition hex_val :: "char \<Rightarrow> nat option" where
  "hex_val c =
     (let n = of_char c in
      if 48 \<le> n \<and> n \<le> 57 then Some (n - 48)
      else if 97 \<le> n \<and> n \<le> 102 then Some (n - 87)
      else if 65 \<le> n \<and> n \<le> 70 then Some (n - 55)
      else None)"

fun hex_decode :: "string \<Rightarrow> bytes option" where
  "hex_decode [] = Some []"
| "hex_decode [c] = None"
| "hex_decode (a # b # s) =
     (case (hex_val a, hex_val b, hex_decode s) of
        (Some x, Some y, Some r) \<Rightarrow> Some (char_of (16 * x + y) # r)
      | _ \<Rightarrow> None)"

definition to_upper_char :: "char \<Rightarrow> char" where
  "to_upper_char c =
     (if 97 \<le> (of_char c :: nat) \<and> (of_char c :: nat) \<le> 122 then char_of ((of_char c :: nat) - 32) else c)"

lemma hex_val_digit: "n < 16 \<Longrightarrow> hex_val (hex_digit n) = Some n"
proof -
  assume "n < 16"
  then have "n \<in> set [0..<16]" by simp
  then show ?thesis by (simp add: upt_rec hex_digit_def hex_val_def) (elim disjE; simp)
qed

lemma hex_encode_simps [simp]:
  "hex_encode [] = []"
  "hex_encode (b # bs) = hex_digit (of_char b div 16) # hex_digit (of_char b mod 16) # hex_encode bs"
  by (simp_all add: hex_encode_def)

lemma of_char_lt_256: "(of_char c :: nat) < 256"
  using nat_of_char_less_256 .

lemma hex_decode_encode [simp]: "hex_decode (hex_encode bs) = Some bs"
proof (induction bs)
  case (Cons b bs)
  have "(of_char b :: nat) div 16 < 16" using of_char_lt_256 [of b] by (simp add: div_less_iff_less_mult)
  then show ?case using Cons by (simp add: hex_val_digit)
qed simp

lemma hex_encode_inj: "hex_encode a = hex_encode b \<longleftrightarrow> a = b"
  by (metis hex_decode_encode option.inject)

lemma length_hex_encode [simp]: "length (hex_encode bs) = 2 * length bs"
  by (induction bs) simp_all

lemma hex_digit_set: "hex_digit n \<in> set ''0123456789abcdef''"
  unfolding hex_digit_def by (rule nth_mem) simp

lemma hex_encode_chars: "set (hex_encode bs) \<subseteq> set ''0123456789abcdef''"
  using hex_digit_set by (induction bs) auto

lemma hex_val_upper: "hex_val (to_upper_char c) = hex_val c" if "hex_val c \<noteq> None"
  using that by (auto simp: hex_val_def to_upper_char_def Let_def split: if_splits)

lemma hex_decode_upper:
  "hex_decode s = Some b \<Longrightarrow> hex_decode (map to_upper_char s) = Some b"
proof (induction s arbitrary: b rule: hex_decode.induct)
  case (3 x y s)
  then obtain v w r where "hex_val x = Some v" "hex_val y = Some w" "hex_decode s = Some r"
    by (auto split: option.splits)
  then show ?case using 3 by (simp add: hex_val_upper)
qed auto

lemma hash_hex_inj: "hash_hex cr a = hash_hex cr b \<longleftrightarrow> sha256 cr a = sha256 cr b"
  by (simp add: hash_hex_def hex_encode_inj)

subsection \<open>Signers\<close>

record signer =
  priv :: bytes
  pub :: bytes

definition PubKeyHex :: "signer \<Rightarrow> string" where
  "PubKeyHex s = hex_encode (pub s)"

definition signer_ok :: "crypto \<Rightarrow> signer \<Rightarrow> bool" where
  "signer_ok cr s \<longleftrightarrow> pub s = ed_pub cr (priv s) \<and> key_sound cr (priv s)"

text \<open>A hex signature over a message, checked the way every verifier of the program does:
  decode key and signature, require a 32-byte key, verify.\<close>

definition hex_sig_ok :: "crypto \<Rightarrow> string \<Rightarrow> bytes \<Rightarrow> string \<Rightarrow> bool" where
  "hex_sig_ok cr pubhex msg sighex =
     (case hex_decode pubhex of
        None \<Rightarrow> False
      | Some pk \<Rightarrow> length pk = 32 \<and>
          (case hex_decode sighex of None \<Rightarrow> False | Some sg \<Rightarrow> ed_verify cr pk msg sg))"

lemma hex_sig_ok_sign:
  assumes "signer_ok cr s"
  shows "hex_sig_ok cr (PubKeyHex s) m (hex_encode (ed_sign cr (priv s) m))"
  using assms by (simp add: hex_sig_ok_def PubKeyHex_def signer_ok_def key_sound_def)

lemma PubKeyHex_length: "signer_ok cr s \<Longrightarrow> length (PubKeyHex s) = 64"
  by (simp add: PubKeyHex_def signer_ok_def key_sound_def)

lemma hex_sig_ok_upper:
  "hex_sig_ok cr pk m sg \<Longrightarrow> hex_sig_ok cr pk m (map to_upper_char sg)"
  by (auto simp: hex_sig_ok_def hex_decode_upper split: option.splits)

subsection \<open>A concrete instance\<close>

text \<open>An executable stand-in for evaluating the model on concrete data: the hash is the
  identity, a public key is its private key, and a signature is the key followed by the message.\<close>

definition demo_crypto :: crypto where
  "demo_crypto = \<lparr>sha256 = (\<lambda>b. b), ed_pub = (\<lambda>k. k), ed_sign = (\<lambda>k m. k @ m),
     ed_verify = (\<lambda>p m s. s = p @ m)\<rparr>"

definition demo_signer :: signer where
  "demo_signer = \<lparr>priv = replicate 32 (CHR ''k''), pub = replicate 32 (CHR ''k'')\<rparr>"

lemma demo_crypto_simps [simp]:
  "sha256 demo_crypto b = b" "ed_pub demo_crypto k = k" "ed_sign demo_crypto k m = k @ m"
  "ed_verify demo_crypto p m s = (s = p @ m)"
  by (simp_all add: demo_crypto_def)

lemma demo_signer_ok: "signer_ok demo_crypto demo_signer"
  by (simp add: signer_ok_def key_sound_def demo_signer_def)

lemma demo_pub: "hex_decode (PubKeyHex demo_signer) = Some (pub demo_signer)" "length (pub demo_signer) = 32"
    "PubKeyHex demo_signer \<noteq> []"
proof -
  show "hex_decode (PubKeyHex demo_signer) = Some (pub demo_signer)" by (simp add: PubKeyHex_def)
  show "length (pub demo_signer) = 32" by (simp add: demo_signer_def)
  show "PubKeyHex demo_signer \<noteq> []" using PubKeyHex_length [OF demo_signer_ok] by auto
qed

end
