(* ===== verification/Approval.thy ===== *)
theory Approval
  imports Crypto
begin

text \<open>
  Request-bound human approvals (\<^verbatim>\<open>src/policy/approval_token.go\<close>).  The store is a
  directory, here the map from file names to contents, holding one signed token per
  request binding; granting writes through a temporary file and a rename, consuming
  claims the file by renaming it away.  A failing system call is an argument of the
  operation.  The contract the engine relies on is the locale \<^verbatim>\<open>approval_store\<close>.
\<close>

subsection \<open>Requests and tokens\<close>

record approval_request =
  PeerKey :: string
  Backend :: string
  Tool :: string
  ArgsHash :: string
  Session :: string
  PolicyHash :: string

record approval_token =
  ATVersion :: int
  ATNonce :: string
  ATPeerKey :: string
  ATBackend :: string
  ATTool :: string
  ATArgsHash :: string
  ATSession :: string
  ATDecision :: string
  Approver :: string
  ATPolicyHash :: string
  CreatedAt :: int
  ATExpiresAt :: int
  ATPubKey :: string
  ATSig :: string

text \<open>\<^verbatim>\<open>encoding/json\<close> as used here: canonical re-encoding of one complete document
  (\<^term>\<open>None\<close> when the bytes are not one), and the token codec.\<close>

record token_codec =
  at_marshal :: "approval_token \<Rightarrow> bytes"
  at_indent :: "approval_token \<Rightarrow> bytes"
  at_unmarshal :: "bytes \<Rightarrow> approval_token option"

type_synonym json_canon = "bytes \<Rightarrow> bytes option"

definition canonicalArgsHash :: "crypto \<Rightarrow> json_canon \<Rightarrow> bytes \<Rightarrow> string" where
  "canonicalArgsHash cr canon args =
     (if args \<noteq> [] then (case canon args of Some c \<Rightarrow> hash_hex cr c | None \<Rightarrow> hash_hex cr args)
      else hash_hex cr args)"

definition NewApprovalRequest ::
    "crypto \<Rightarrow> json_canon \<Rightarrow> string \<Rightarrow> string \<Rightarrow> string \<Rightarrow> bytes \<Rightarrow> string \<Rightarrow> approval_request" where
  "NewApprovalRequest cr canon peerKey backend tool args session =
     \<lparr>PeerKey = peerKey, Backend = backend, Tool = tool, ArgsHash = canonicalArgsHash cr canon args,
      Session = session, PolicyHash = []\<rparr>"

abbreviation nul :: char where "nul \<equiv> CHR 0x00"

definition binding_input :: "approval_request \<Rightarrow> bytes" where
  "binding_input r =
     PeerKey r @ [nul] @ Backend r @ [nul] @ Tool r @ [nul] @ ArgsHash r @ [nul] @ Session r"

definition bindingKey :: "crypto \<Rightarrow> approval_request \<Rightarrow> string" where
  "bindingKey cr r = hash_hex cr (binding_input r)"

definition at_signingBytes :: "token_codec \<Rightarrow> approval_token \<Rightarrow> bytes" where
  "at_signingBytes tc t = at_marshal tc (t\<lparr>ATSig := []\<rparr>)"

definition token_request :: "approval_token \<Rightarrow> approval_request" where
  "token_request t = \<lparr>PeerKey = ATPeerKey t, Backend = ATBackend t, Tool = ATTool t,
     ArgsHash = ATArgsHash t, Session = ATSession t, PolicyHash = ATPolicyHash t\<rparr>"

subsection \<open>The file store\<close>

definition minute :: duration where "minute = 60 * nanos_per_sec"
definition defaultApprovalTTL :: duration where "defaultApprovalTTL = 5 * minute"
definition maxApprovalTTL :: duration where "maxApprovalTTL = 60 * minute"

record file_approval_store =
  TTL :: duration
  as_signer :: "signer option"
  expectPub :: string
  as_files :: "string \<Rightarrow> bytes option"

definition NewFileApprovalStore :: "duration \<Rightarrow> signer option \<Rightarrow> (string \<Rightarrow> bytes option) \<Rightarrow> file_approval_store" where
  "NewFileApprovalStore ttl sg fs =
     (let t1 = (if ttl \<le> 0 then defaultApprovalTTL else ttl);
          t2 = (if t1 > maxApprovalTTL then maxApprovalTTL else t1)
      in \<lparr>TTL = t2, as_signer = sg, expectPub = (case sg of None \<Rightarrow> [] | Some s \<Rightarrow> PubKeyHex s), as_files = fs\<rparr>)"

definition PinSigner :: "string \<Rightarrow> file_approval_store \<Rightarrow> file_approval_store" where
  "PinSigner pubHex s = s\<lparr>expectPub := pubHex\<rparr>"

definition approval_file :: "string \<Rightarrow> string" where
  "approval_file key = ''approval-'' @ key @ ''.json''"

datatype grant_fault = GMkdir | GOpen | GWrite | GSync | GClose | GRename
datatype grant_error = NoSigningKey | GrantIO grant_fault

definition granted_token ::
    "crypto \<Rightarrow> token_codec \<Rightarrow> signer \<Rightarrow> duration \<Rightarrow> approval_request \<Rightarrow> string \<Rightarrow> string \<Rightarrow> string \<Rightarrow> instant \<Rightarrow> approval_token" where
  "granted_token cr tc sg ttl req approver policyHash nonce now =
     (let t = \<lparr>ATVersion = 1, ATNonce = nonce, ATPeerKey = PeerKey req, ATBackend = Backend req,
               ATTool = Tool req, ATArgsHash = ArgsHash req, ATSession = Session req,
               ATDecision = ''approve'', Approver = approver, ATPolicyHash = policyHash,
               CreatedAt = unix_sec now, ATExpiresAt = unix_sec (now + ttl),
               ATPubKey = PubKeyHex sg, ATSig = []\<rparr>
      in t\<lparr>ATSig := hex_encode (ed_sign cr (priv sg) (at_signingBytes tc t))\<rparr>)"

definition Grant ::
    "crypto \<Rightarrow> token_codec \<Rightarrow> grant_fault option \<Rightarrow> file_approval_store \<Rightarrow> approval_request \<Rightarrow> string \<Rightarrow>
     string \<Rightarrow> string \<Rightarrow> instant \<Rightarrow> (grant_error + approval_token) \<times> file_approval_store" where
  "Grant cr tc fault s req approver policyHash nonce now =
     (case as_signer s of
        None \<Rightarrow> (Inl NoSigningKey, s)
      | Some sg \<Rightarrow>
          (let tok = granted_token cr tc sg (TTL s) req approver policyHash nonce now;
               b = at_indent tc tok;
               dst = approval_file (bindingKey cr req);
               tmp = dst @ ''.tmp'';
               without_tmp = s\<lparr>as_files := (as_files s)(tmp := None)\<rparr>
           in case fault of
                Some GMkdir \<Rightarrow> (Inl (GrantIO GMkdir), s)
              | Some GOpen \<Rightarrow> (Inl (GrantIO GOpen), s)
              | Some f \<Rightarrow> (Inl (GrantIO f), without_tmp)
              | None \<Rightarrow> (Inr tok, s\<lparr>as_files := (as_files s)(tmp := None, dst := Some b)\<rparr>)))"

definition approval_verify :: "crypto \<Rightarrow> token_codec \<Rightarrow> file_approval_store \<Rightarrow> approval_token \<Rightarrow> bool" where
  "approval_verify cr tc s t =
     (if expectPub s = [] \<or> ATPubKey t \<noteq> expectPub s then False
      else hex_sig_ok cr (ATPubKey t) (at_signingBytes tc t) (ATSig t))"

datatype consume_result =
    Consumed | NoStore | NoMatching | Unreadable | Malformed | SignatureInvalid
  | ExplicitlyDenied | Mismatch | PolicyChanged | ApprovalExpired

text \<open>The checks on a claimed file's contents, in the order of the source.\<close>

definition check_approval ::
    "crypto \<Rightarrow> token_codec \<Rightarrow> file_approval_store \<Rightarrow> approval_request \<Rightarrow> instant \<Rightarrow> bytes \<Rightarrow> consume_result" where
  "check_approval cr tc s req now b =
     (case at_unmarshal tc b of
        None \<Rightarrow> Malformed
      | Some tok \<Rightarrow>
          (if \<not> approval_verify cr tc s tok then SignatureInvalid
           else if ATDecision tok \<noteq> ''approve'' then ExplicitlyDenied
           else if bindingKey cr (token_request tok) \<noteq> bindingKey cr req then Mismatch
           else if PolicyHash req \<noteq> [] \<and> ATPolicyHash tok \<noteq> [] \<and> ATPolicyHash tok \<noteq> PolicyHash req
             then PolicyChanged
           else if unix_sec now > ATExpiresAt tok then ApprovalExpired
           else Consumed))"

datatype consume_fault = CRename | CRead

definition ConsumeApproval ::
    "crypto \<Rightarrow> token_codec \<Rightarrow> consume_fault option \<Rightarrow> file_approval_store \<Rightarrow> approval_request \<Rightarrow> instant \<Rightarrow>
     consume_result \<times> file_approval_store" where
  "ConsumeApproval cr tc fault s req now =
     (let src = approval_file (bindingKey cr req) in
      case as_files s src of
        None \<Rightarrow> (NoMatching, s)
      | Some b \<Rightarrow>
          (if fault = Some CRename then (NoMatching, s)
           else let claimed = s\<lparr>as_files := (as_files s)(src := None)\<rparr>
                in if fault = Some CRead then (Unreadable, claimed)
                   else (check_approval cr tc s req now b, claimed)))"

text \<open>The interface method: whether an approval was consumed.\<close>

definition file_consume ::
    "crypto \<Rightarrow> token_codec \<Rightarrow> file_approval_store \<Rightarrow> approval_request \<Rightarrow> instant \<Rightarrow> bool \<times> file_approval_store" where
  "file_consume cr tc s req now =
     (let (r, s') = ConsumeApproval cr tc None s req now in (r = Consumed, s'))"

subsection \<open>The interface of an approval store\<close>

text \<open>Successive consumptions, in the order the engine issues them.\<close>

fun consume_all :: "('s \<Rightarrow> 'r \<Rightarrow> 't \<Rightarrow> bool \<times> 's) \<Rightarrow> 's \<Rightarrow> ('r \<times> 't) list \<Rightarrow> bool list \<times> 's" where
  "consume_all f s [] = ([], s)"
| "consume_all f s ((r, t) # cs) =
     (let (b, s1) = f s r t; (bs, s2) = consume_all f s1 cs in (b # bs, s2))"

definition successes :: "('s \<Rightarrow> 'r \<Rightarrow> 't \<Rightarrow> bool \<times> 's) \<Rightarrow> 's \<Rightarrow> ('r \<times> 't) list \<Rightarrow> 'r \<Rightarrow> nat" where
  "successes f s cs r =
     length (filter (\<lambda>(c, b). fst c = r \<and> b) (zip cs (fst (consume_all f s cs))))"

locale approval_store =
  fixes consume :: "'s \<Rightarrow> 'r \<Rightarrow> 't \<Rightarrow> bool \<times> 's"
    and valid :: "'s \<Rightarrow> 'r \<Rightarrow> 't \<Rightarrow> bool"
  assumes consume_valid: "fst (consume s r t) = valid s r t"
    and consume_spends: "\<not> valid (snd (consume s r t)) r t'"
    and consume_no_new: "valid (snd (consume s r t)) r' t' \<Longrightarrow> valid s r' t'"
begin

lemma successes_Nil: "successes consume s [] r = 0"
  by (simp add: successes_def)

lemma successes_Cons:
  "successes consume s ((q, t) # cs) r =
     (if q = r \<and> valid s r t then 1 else 0) + successes consume (snd (consume s q t)) cs r"
  using consume_valid [of s r t]
  by (cases "consume s q t") (auto simp: successes_def split: prod.split)

lemma no_success_when_invalid: "(\<And>t. \<not> valid s r t) \<Longrightarrow> successes consume s cs r = 0"
proof (induction cs arbitrary: s)
  case (Cons c cs)
  obtain q t where c: "c = (q, t)" by fastforce
  have "\<not> valid (snd (consume s q t)) r t'" for t' using consume_no_new Cons.prems by blast
  then show ?case using Cons c by (simp add: successes_Cons)
qed (simp add: successes_Nil)

lemma at_most_one_success: "successes consume s cs r \<le> 1"
proof (induction cs arbitrary: s)
  case (Cons c cs)
  obtain q t where c: "c = (q, t)" by fastforce
  show ?case
  proof (cases "q = r \<and> valid s r t")
    case True
    then have "successes consume (snd (consume s q t)) cs r = 0"
      by (intro no_success_when_invalid) (simp add: consume_spends)
    then show ?thesis using c by (simp add: successes_Cons)
  next
    case False
    then show ?thesis using Cons c by (auto simp: successes_Cons)
  qed
qed (simp add: successes_Nil)

end

subsection \<open>The file store meets the interface\<close>

definition file_valid :: "crypto \<Rightarrow> token_codec \<Rightarrow> file_approval_store \<Rightarrow> approval_request \<Rightarrow> instant \<Rightarrow> bool" where
  "file_valid cr tc s req now =
     (case as_files s (approval_file (bindingKey cr req)) of
        None \<Rightarrow> False
      | Some b \<Rightarrow> check_approval cr tc s req now b = Consumed)"

lemma check_approval_files [simp]:
  "check_approval cr tc (s\<lparr>as_files := fs\<rparr>) req now b = check_approval cr tc s req now b"
  by (simp add: check_approval_def approval_verify_def split: option.split)

lemma approval_file_inj [simp]: "approval_file a = approval_file b \<longleftrightarrow> a = b"
  by (simp add: approval_file_def)

lemma approval_file_not_tmp [simp]:
  "approval_file a \<noteq> approval_file b @ ''.tmp''" "approval_file b @ ''.tmp'' \<noteq> approval_file a"
proof -
  have "last (approval_file a) \<noteq> last (approval_file b @ ''.tmp'')" by (simp add: approval_file_def)
  then show "approval_file a \<noteq> approval_file b @ ''.tmp''" "approval_file b @ ''.tmp'' \<noteq> approval_file a"
    by metis+
qed

interpretation fa: approval_store "file_consume cr tc" "file_valid cr tc" for cr tc
  by unfold_locales
    (auto simp: file_consume_def file_valid_def ConsumeApproval_def Let_def split: option.splits if_splits)

subsection \<open>Binding\<close>

lemma sep_split:
  assumes "a @ c # x = b @ c # y" "c \<notin> set a" "c \<notin> set b"
  shows "a = b \<and> x = y"
  using assms
proof (induction a arbitrary: b)
  case Nil
  then show ?case by (cases b) auto
next
  case (Cons d a)
  then show ?case by (cases b) auto
qed

lemma sep_split_last:
  assumes "x @ c # a = y @ c # b" "c \<notin> set a" "c \<notin> set b"
  shows "x = y \<and> a = b"
proof -
  have "rev a @ c # rev x = rev b @ c # rev y" using arg_cong [OF assms(1), of rev] by simp
  from sep_split [OF this] assms(2,3) show ?thesis by simp
qed

text \<open>Fields that carry no NUL byte: everything but the tool name, which comes from the wire.\<close>

definition nul_free :: "approval_request \<Rightarrow> bool" where
  "nul_free r \<longleftrightarrow> nul \<notin> set (PeerKey r) \<and> nul \<notin> set (Backend r) \<and> nul \<notin> set (ArgsHash r) \<and> nul \<notin> set (Session r)"

lemma binding_input_inj:
  assumes "binding_input r = binding_input q" "nul_free r" "nul_free q"
  shows "PeerKey r = PeerKey q \<and> Backend r = Backend q \<and> Tool r = Tool q \<and>
    ArgsHash r = ArgsHash q \<and> Session r = Session q"
proof -
  have e: "PeerKey r @ nul # (Backend r @ nul # (Tool r @ nul # ArgsHash r @ nul # Session r)) =
      PeerKey q @ nul # (Backend q @ nul # (Tool q @ nul # ArgsHash q @ nul # Session q))"
    using assms(1) by (simp add: binding_input_def)
  from sep_split [OF this] assms(2,3)
  have p: "PeerKey r = PeerKey q" and
    e1: "Backend r @ nul # (Tool r @ nul # ArgsHash r @ nul # Session r) =
      Backend q @ nul # (Tool q @ nul # ArgsHash q @ nul # Session q)"
    by (auto simp: nul_free_def)
  from sep_split [OF e1] assms(2,3)
  have b: "Backend r = Backend q" and
    e2: "(Tool r @ nul # ArgsHash r) @ nul # Session r = (Tool q @ nul # ArgsHash q) @ nul # Session q"
    by (auto simp: nul_free_def)
  from sep_split_last [OF e2] assms(2,3)
  have s: "Session r = Session q" and e3: "Tool r @ nul # ArgsHash r = Tool q @ nul # ArgsHash q"
    by (auto simp: nul_free_def)
  from sep_split_last [OF e3] assms(2,3) p b s show ?thesis by (auto simp: nul_free_def)
qed

subsection \<open>Properties\<close>

lemma check_approval_Consumed:
  "check_approval cr tc s req now b = Consumed \<longleftrightarrow>
     (\<exists>tok. at_unmarshal tc b = Some tok \<and> approval_verify cr tc s tok \<and>
        ATDecision tok = ''approve'' \<and> bindingKey cr (token_request tok) = bindingKey cr req \<and>
        (PolicyHash req = [] \<or> ATPolicyHash tok = [] \<or> ATPolicyHash tok = PolicyHash req) \<and>
        unix_sec now \<le> ATExpiresAt tok)"
  by (auto simp: check_approval_def split: option.split)

lemma granted_token_simps [simp]:
  "token_request (granted_token cr tc sg ttl req ap ph n now) = req\<lparr>PolicyHash := ph\<rparr>"
  "ATDecision (granted_token cr tc sg ttl req ap ph n now) = ''approve''"
  "ATExpiresAt (granted_token cr tc sg ttl req ap ph n now) = unix_sec (now + ttl)"
  "ATPolicyHash (granted_token cr tc sg ttl req ap ph n now) = ph"
  "ATPubKey (granted_token cr tc sg ttl req ap ph n now) = PubKeyHex sg"
  by (simp_all add: granted_token_def token_request_def Let_def)

lemma bindingKey_policy [simp]: "bindingKey cr (req\<lparr>PolicyHash := ph\<rparr>) = bindingKey cr req"
  by (simp add: bindingKey_def binding_input_def)

lemma at_signingBytes_Sig [simp]: "at_signingBytes tc (t\<lparr>ATSig := x\<rparr>) = at_signingBytes tc t"
  by (simp add: at_signingBytes_def)

lemma granted_token_Sig:
  "ATSig (granted_token cr tc sg ttl req ap ph n now) =
     hex_encode (ed_sign cr (priv sg) (at_signingBytes tc (granted_token cr tc sg ttl req ap ph n now)))"
  by (simp add: granted_token_def Let_def at_signingBytes_def)

lemma granted_token_verifies:
  assumes "signer_ok cr sg" "expectPub s = PubKeyHex sg"
  shows "approval_verify cr tc s (granted_token cr tc sg ttl req ap ph n now)"
proof -
  have "PubKeyHex sg \<noteq> []" using PubKeyHex_length [OF assms(1)] by auto
  then show ?thesis
    using assms(2) by (simp add: approval_verify_def granted_token_Sig hex_sig_ok_sign [OF assms(1)])
qed

text \<open>C9: A consumed approval was genuine and for this very operation. When \<^verbatim>\<open>ConsumeApproval\<close>
  succeeds, the claimed file held a token that verifies under the pinned signer key, says
  \<^verbatim>\<open>approve\<close>, has not expired and was not granted under another policy version; if SHA-256 does
  not collide on the two binding inputs and only tool names may carry NUL bytes, the token names exactly the
  requesting peer, backend, tool, arguments hash and session; and the file is gone afterwards.\<close>
theorem consume_sound:
  assumes "ConsumeApproval cr tc fault s req now = (Consumed, s')"
  shows "\<exists>b tok. as_files s (approval_file (bindingKey cr req)) = Some b \<and> at_unmarshal tc b = Some tok \<and>
    expectPub s \<noteq> [] \<and> ATPubKey tok = expectPub s \<and>
    hex_sig_ok cr (expectPub s) (at_signingBytes tc tok) (ATSig tok) \<and>
    ATDecision tok = ''approve'' \<and> unix_sec now \<le> ATExpiresAt tok \<and>
    (PolicyHash req = [] \<or> ATPolicyHash tok = [] \<or> ATPolicyHash tok = PolicyHash req) \<and>
    (nul_free req \<and> nul_free (token_request tok) \<and>
       inj_on (sha256 cr) {binding_input req, binding_input (token_request tok)} \<longrightarrow>
       ATPeerKey tok = PeerKey req \<and> ATBackend tok = Backend req \<and> ATTool tok = Tool req \<and>
       ATArgsHash tok = ArgsHash req \<and> ATSession tok = Session req) \<and>
    as_files s' (approval_file (bindingKey cr req)) = None"
proof -
  obtain b where b: "as_files s (approval_file (bindingKey cr req)) = Some b"
      "check_approval cr tc s req now b = Consumed"
      "s' = s\<lparr>as_files := (as_files s)(approval_file (bindingKey cr req) := None)\<rparr>"
    using assms by (auto simp: ConsumeApproval_def Let_def split: option.splits if_splits)
  then obtain tok where t: "at_unmarshal tc b = Some tok" "approval_verify cr tc s tok"
      "bindingKey cr (token_request tok) = bindingKey cr req"
      "ATDecision tok = ''approve''" "unix_sec now \<le> ATExpiresAt tok"
      "PolicyHash req = [] \<or> ATPolicyHash tok = [] \<or> ATPolicyHash tok = PolicyHash req"
    by (auto simp: check_approval_Consumed)
  have same: "binding_input (token_request tok) = binding_input req"
    if "inj_on (sha256 cr) {binding_input req, binding_input (token_request tok)}"
    using t(3) inj_onD [OF that, of "binding_input (token_request tok)" "binding_input req"]
    by (simp add: bindingKey_def hash_hex_inj)
  have "ATPeerKey tok = PeerKey req \<and> ATBackend tok = Backend req \<and> ATTool tok = Tool req \<and>
       ATArgsHash tok = ArgsHash req \<and> ATSession tok = Session req"
    if "nul_free req" "nul_free (token_request tok)"
      "inj_on (sha256 cr) {binding_input req, binding_input (token_request tok)}"
    using binding_input_inj [OF same [OF that(3)] that(2,1)] by (simp add: token_request_def)
  moreover have "expectPub s \<noteq> [] \<and> ATPubKey tok = expectPub s \<and>
      hex_sig_ok cr (expectPub s) (at_signingBytes tc tok) (ATSig tok)"
    using t(2) by (simp add: approval_verify_def split: if_splits)
  ultimately show ?thesis
    using b(1,3) t by (intro exI [of _ b] exI [of _ tok]) simp
qed

text \<open>Grant, then consume exactly once. An approval granted by a store's own (pinned) signer
  is consumed by the same request at any time within the store's lifetime setting, provided the JSON codec
  round-trips the token and the policy hash still matches; the next consumption of the same
  request finds nothing.\<close>
theorem grant_consume_once:
  assumes "signer_ok cr sg" "as_signer s = Some sg" "expectPub s = PubKeyHex sg"
    and "Grant cr tc None s req ap ph n t0 = (Inr tok, s1)"
    and "at_unmarshal tc (at_indent tc tok) = Some tok"
    and "PolicyHash req = [] \<or> ph = [] \<or> ph = PolicyHash req"
    and "t \<le> t0 + TTL s"
  shows "\<exists>s2. ConsumeApproval cr tc None s1 req t = (Consumed, s2) \<and>
    ConsumeApproval cr tc None s2 req t' = (NoMatching, s2)"
proof -
  let ?dst = "approval_file (bindingKey cr req)"
  have s1: "s1 = s\<lparr>as_files := (as_files s)(?dst @ ''.tmp'' := None, ?dst := Some (at_indent tc tok))\<rparr>"
    and tok: "tok = granted_token cr tc sg (TTL s) req ap ph n t0"
    using assms(2,4) by (auto simp: Grant_def Let_def)
  have "check_approval cr tc s1 req t (at_indent tc tok) = Consumed"
    using assms(1,3,5,6) granted_token_verifies [OF assms(1), of s tc "TTL s" req ap ph n t0]
      unix_sec_mono [OF assms(7)]
    unfolding s1 check_approval_files check_approval_Consumed tok by simp
  then show ?thesis
    by (simp add: ConsumeApproval_def s1 Let_def)
qed

text \<open>A concrete store, request and codec.\<close>

definition demo_request :: approval_request where
  "demo_request = \<lparr>PeerKey = ''pk'', Backend = ''db'', Tool = ''drop'', ArgsHash = ''h'', Session = [], PolicyHash = ''p1''\<rparr>"

definition demo_token :: approval_token where
  "demo_token = granted_token demo_crypto \<lparr>at_marshal = (\<lambda>t. ATTool t), at_indent = (\<lambda>t. ATTool t), at_unmarshal = (\<lambda>b. None)\<rparr>
     demo_signer minute demo_request ''alice'' ''p1'' ''n1'' 0"

definition demo_codec :: token_codec where
  "demo_codec = \<lparr>at_marshal = (\<lambda>t. ATTool t), at_indent = (\<lambda>t. ATTool t),
     at_unmarshal = (\<lambda>b. if b = ''drop'' then Some demo_token else None)\<rparr>"

definition demo_store :: file_approval_store where
  "demo_store = NewFileApprovalStore minute (Some demo_signer) (\<lambda>_. None)"

definition demo_granted :: file_approval_store where
  "demo_granted = snd (Grant demo_crypto demo_codec None demo_store demo_request ''alice'' ''p1'' ''n1'' 0)"

lemma demo_token_eq:
  "granted_token demo_crypto demo_codec demo_signer minute demo_request ''alice'' ''p1'' ''n1'' 0 = demo_token"
  by (simp add: demo_token_def demo_codec_def granted_token_def at_signingBytes_def)

lemma demo_token_unmarshal: "at_unmarshal demo_codec (at_indent demo_codec demo_token) = Some demo_token"
proof -
  have "ATTool demo_token = ''drop''" by (simp add: demo_token_def granted_token_def demo_request_def Let_def)
  then show ?thesis by (simp add: demo_codec_def)
qed

lemma demo_store_simps [simp]:
  "as_signer demo_store = Some demo_signer" "expectPub demo_store = PubKeyHex demo_signer"
  "TTL demo_store = minute"
  by (simp_all add: demo_store_def NewFileApprovalStore_def Let_def minute_def nanos_per_sec_def
      maxApprovalTTL_def)

lemma demo_grant:
  "Grant demo_crypto demo_codec None demo_store demo_request ''alice'' ''p1'' ''n1'' 0 = (Inr demo_token, demo_granted)"
  by (simp add: Grant_def demo_granted_def demo_token_eq Let_def)

theorem grant_consume_once_witness:
  "\<exists>s2. ConsumeApproval demo_crypto demo_codec None demo_granted demo_request 5 = (Consumed, s2) \<and>
    ConsumeApproval demo_crypto demo_codec None s2 demo_request 9 = (NoMatching, s2)"
  using grant_consume_once [OF demo_signer_ok _ _ demo_grant demo_token_unmarshal, of 5 9]
  by (simp add: demo_request_def minute_def nanos_per_sec_def)

lemma demo_consumed:
  "ConsumeApproval demo_crypto demo_codec None demo_granted demo_request 5 =
     (Consumed, snd (ConsumeApproval demo_crypto demo_codec None demo_granted demo_request 5))"
proof -
  have "approval_verify demo_crypto demo_codec demo_store demo_token"
    using granted_token_verifies [OF demo_signer_ok, of demo_store demo_codec minute demo_request "''alice''" "''p1''" "''n1''" 0]
    by (simp add: demo_token_eq)
  moreover have "token_request demo_token = demo_request" "ATDecision demo_token = ''approve''"
      "ATExpiresAt demo_token = 60" "ATPolicyHash demo_token = PolicyHash demo_request"
    by (simp_all add: demo_token_def granted_token_def token_request_def demo_request_def Let_def
        unix_sec_def minute_def nanos_per_sec_def)
  ultimately have "check_approval demo_crypto demo_codec demo_store demo_request 5 (at_indent demo_codec demo_token) = Consumed"
    by (simp add: check_approval_def demo_token_unmarshal unix_sec_def nanos_per_sec_def)
  then show ?thesis
    by (simp add: ConsumeApproval_def demo_granted_def Grant_def demo_token_eq Let_def)
qed

theorem consume_sound_witness:
  "as_files (snd (ConsumeApproval demo_crypto demo_codec None demo_granted demo_request 5))
     (approval_file (bindingKey demo_crypto demo_request)) = None"
  using consume_sound [OF demo_consumed] by blast

text \<open>Single use. However many times and in whatever order requests are presented to the
  file store between two grants, each request succeeds at most once.\<close>
theorem approvals_single_use: "successes (file_consume cr tc) s calls req \<le> 1"
  by (rule fa.at_most_one_success)

end
