(* ===== verification/Engine.thy ===== *)
theory Engine
  imports Policy GoTime Approval
begin

text \<open>
  The stateful engine over a policy (\<^verbatim>\<open>src/policy/engine.go\<close>) and the load-time check of
  its configuration (\<^verbatim>\<open>validate.go\<close>): time windows, token-bucket rate limits, data-flow
  labels, ambient and request-bound co-signing, and hot reload.  The engine's clock is an
  argument of each decision.  Bucket levels, \<^verbatim>\<open>float64\<close> in the source, are exact rationals
  here, so the bounds below are those of the algorithm and not of floating-point rounding.
  The request-approval store is the interface of theory \<^verbatim>\<open>Approval\<close>: a consume operation the
  decision threads the store's state through.
\<close>

subsection \<open>Time windows\<close>

definition second :: duration where "second = nanos_per_sec"

definition rate_window :: "rate_limit \<Rightarrow> duration" where
  "rate_window rl =
     (if Per rl = [] then second
      else case ParseDuration (Per rl) of
        None \<Rightarrow> second
      | Some d \<Rightarrow> (if d \<le> 0 then second else d))"

definition weekdayNames :: "string \<Rightarrow> int option" where
  "weekdayNames d =
     (if d = ''sun'' then Some 0 else if d = ''mon'' then Some 1 else if d = ''tue'' then Some 2
      else if d = ''wed'' then Some 3 else if d = ''thu'' then Some 4 else if d = ''fri'' then Some 5
      else if d = ''sat'' then Some 6 else None)"

definition parseHM :: "string \<Rightarrow> int option" where
  "parseHM s0 =
     (let s = trim_space s0;
          (hs, ms) = (case cut_at (CHR '':'') s of None \<Rightarrow> (s, None) | Some (a, b) \<Rightarrow> (a, Some b))
      in case atoi hs of
           None \<Rightarrow> None
         | Some h \<Rightarrow>
             (if h < 0 \<or> h > 24 then None
              else case ms of
                None \<Rightarrow> Some (h * 60)
              | Some mstr \<Rightarrow>
                  (case atoi mstr of
                     None \<Rightarrow> None
                   | Some m \<Rightarrow> (if m < 0 \<or> m > 59 then None else Some (h * 60 + m)))))"

definition parseHourRange :: "string \<Rightarrow> (int \<times> int) option" where
  "parseHourRange s =
     (case cut_at (CHR ''-'') s of
        None \<Rightarrow> None
      | Some (a, b) \<Rightarrow>
          (case (parseHM a, parseHM b) of (Some lo, Some hi) \<Rightarrow> Some (lo, hi) | _ \<Rightarrow> None))"

definition window_loc :: "tzdb \<Rightarrow> window \<Rightarrow> location" where
  "window_loc tz w = (if TZ w \<noteq> [] then (case tz (TZ w) of Some l \<Rightarrow> l | None \<Rightarrow> utc) else utc)"

definition window_active :: "tzdb \<Rightarrow> window \<Rightarrow> instant \<Rightarrow> bool" where
  "window_active tz w t =
     (let loc = window_loc tz w in
      if Days w \<noteq> [] \<and>
         \<not> list_ex (\<lambda>d. weekdayNames (to_lower (trim_space d)) = Some (weekday_of loc t)) (Days w)
      then False
      else if Hours w = [] then True
      else case parseHourRange (Hours w) of
        None \<Rightarrow> False
      | Some (lo, hi) \<Rightarrow>
          (let mins = hour_of loc t * 60 + minute_of loc t
           in if lo \<le> hi then lo \<le> mins \<and> mins < hi else lo \<le> mins \<or> mins < hi))"

subsection \<open>Engine state\<close>

record bucket =
  tokens :: rat
  last_fill :: instant

record 'a engine =
  pol :: policy
  ph :: string
  cosign :: "(string \<Rightarrow> bool) option"
  reqApprovals :: "'a option"
  groups :: "(string \<Rightarrow> string \<Rightarrow> string \<Rightarrow> bool) option"
  buckets :: "string \<Rightarrow> bucket option"

text \<open>The in-memory co-sign store: the set of approved keys.\<close>

type_synonym mem_cosign = "string \<Rightarrow> bool"

definition MemCosign_Approve :: "string \<Rightarrow> mem_cosign \<Rightarrow> mem_cosign" where
  "MemCosign_Approve key m = m(key := True)"

definition CosignKey :: "string \<Rightarrow> string \<Rightarrow> string" where
  "CosignKey peer tool = peer @ ''|'' @ tool"

text \<open>What a decision needs of the outside: the time-zone database, the hash of a policy's
  JSON, the arguments hash and the approval store's consume operation.\<close>

record 'a env =
  env_tz :: tzdb
  env_policy_hash :: "policy \<Rightarrow> string"
  env_args_hash :: "bytes \<Rightarrow> string"
  env_consume :: "'a \<Rightarrow> approval_request \<Rightarrow> instant \<Rightarrow> bool \<times> 'a"

definition engine_setPolicy :: "'a env \<Rightarrow> policy \<Rightarrow> 'a engine \<Rightarrow> 'a engine" where
  "engine_setPolicy env p e = e\<lparr>pol := p, ph := env_policy_hash env p\<rparr>"

definition SetPolicy :: "'a env \<Rightarrow> policy option \<Rightarrow> 'a engine \<Rightarrow> 'a engine" where
  "SetPolicy env p e = (case p of None \<Rightarrow> e | Some q \<Rightarrow> engine_setPolicy env q e)"

definition NewEngine :: "'a env \<Rightarrow> policy \<Rightarrow> (string \<Rightarrow> bool) option \<Rightarrow> 'a engine" where
  "NewEngine env p cs = engine_setPolicy env p
     \<lparr>pol = p, ph = [], cosign = cs, reqApprovals = None, groups = None, buckets = (\<lambda>_. None)\<rparr>"

definition SetRequestApprovals :: "'a option \<Rightarrow> 'a engine \<Rightarrow> 'a engine" where
  "SetRequestApprovals s e = e\<lparr>reqApprovals := s\<rparr>"

definition SetGroupResolver :: "(string \<Rightarrow> string \<Rightarrow> string \<Rightarrow> bool) option \<Rightarrow> 'a engine \<Rightarrow> 'a engine" where
  "SetGroupResolver g e = e\<lparr>groups := g\<rparr>"

definition group_prefix :: string where "group_prefix = ''group:''"

definition peerMatches :: "'a engine \<Rightarrow> rule \<Rightarrow> string \<Rightarrow> string \<Rightarrow> bool" where
  "peerMatches e r fqdn key =
     (Peers r = [] \<or>
      list_ex (\<lambda>p. case cut_prefix group_prefix p of
          Some g \<Rightarrow> (case groups e of None \<Rightarrow> False | Some f \<Rightarrow> f key fqdn g)
        | None \<Rightarrow> peer_entry_matches fqdn key p) (Peers r))"

subsection \<open>Rate limits\<close>

definition perSeconds :: "rate_limit \<Rightarrow> rat" where
  "perSeconds rl =
     (let s = of_int (rate_window rl) / of_int nanos_per_sec in if s \<le> 0 then 1 else s)"

definition refill_rate :: "rate_limit \<Rightarrow> rat" where
  "refill_rate rl = of_int (Max rl) / perSeconds rl"

definition call_cost :: "rate_limit \<Rightarrow> rat" where
  "call_cost rl = (if RLCost rl \<le> 0 then 1 else of_int (RLCost rl))"

definition refilled :: "rate_limit \<Rightarrow> instant \<Rightarrow> bucket option \<Rightarrow> bucket" where
  "refilled rl now ob =
     (case ob of
        None \<Rightarrow> \<lparr>tokens = of_int (Max rl), last_fill = now\<rparr>
      | Some b \<Rightarrow>
          (let elapsed = of_int (now - last_fill b) / of_int nanos_per_sec in
           if elapsed > (0 :: rat)
           then \<lparr>tokens = min (tokens b + elapsed * refill_rate rl) (of_int (Max rl)), last_fill = now\<rparr>
           else b))"

definition millisecond :: duration where "millisecond = 1000000"

text \<open>The bucket part of \<^verbatim>\<open>allowRate\<close>, once the bucket of the rule and peer is found.\<close>

definition bucket_take :: "rate_limit \<Rightarrow> instant \<Rightarrow> bucket option \<Rightarrow> (bool \<times> duration) \<times> bucket" where
  "bucket_take rl now ob =
     (let b = refilled rl now ob; cost = call_cost rl in
      if tokens b \<ge> cost then ((True, 0), b\<lparr>tokens := tokens b - cost\<rparr>)
      else if cost > of_int (Max rl) then ((False, 0), b)
      else let retry = floor ((cost - tokens b) / refill_rate rl * of_int nanos_per_sec)
           in ((False, if retry < millisecond then millisecond else retry), b))"

definition bucket_key :: "nat \<Rightarrow> string \<Rightarrow> string" where
  "bucket_key ruleID peerKey = nat_dec ruleID @ ''|'' @ peerKey"

definition allowRate :: "'a engine \<Rightarrow> nat \<Rightarrow> string \<Rightarrow> rate_limit \<Rightarrow> instant \<Rightarrow> (bool \<times> duration) \<times> 'a engine" where
  "allowRate e ruleID peerKey rl now =
     (if Max rl \<le> 0 then ((True, 0), e)
      else let key = bucket_key ruleID peerKey;
               (res, b) = bucket_take rl now (buckets e key)
           in (res, e\<lparr>buckets := (buckets e)(key := Some b)\<rparr>))"

subsection \<open>Deciding a tool call\<close>

definition ruleCost :: "rule \<Rightarrow> int" where
  "ruleCost r = (case Rate r of None \<Rightarrow> 0 | Some rl \<Rightarrow> if RLCost rl > 0 then RLCost rl else 1)"

fun firstPresent :: "string list \<Rightarrow> labels \<Rightarrow> string" where
  "firstPresent [] have_l = []"
| "firstPresent (l # ls) have_l = (if have_l l then l else firstPresent ls have_l)"

definition deny_verdict :: "nat \<Rightarrow> reason \<Rightarrow> duration \<Rightarrow> decision" where
  "deny_verdict i why retry = zero_decision\<lparr>RuleID := int i, Outcome := OutcomeDeny, Reason := why, RetryAfter := retry\<rparr>"

definition cosign_verdict :: "nat \<Rightarrow> reason \<Rightarrow> decision" where
  "cosign_verdict i why = zero_decision\<lparr>RuleID := int i, Outcome := OutcomeCosign, Reason := why\<rparr>"

definition allow_verdict :: "nat \<Rightarrow> rule \<Rightarrow> reason \<Rightarrow> decision" where
  "allow_verdict i r why = zero_decision\<lparr>Allow := True, RuleID := int i, Outcome := OutcomeAllow,
     Reason := why, AddLabels := emitSet r, Cost := ruleCost r\<rparr>"

record call =
  c_fqdn :: string
  c_key :: string
  c_backend :: string
  c_tool :: string
  c_args :: bytes
  c_labels :: labels

definition call_request :: "'a env \<Rightarrow> 'a engine \<Rightarrow> call \<Rightarrow> approval_request" where
  "call_request env e c = \<lparr>PeerKey = c_key c, Backend = c_backend c, Tool = c_tool c,
     ArgsHash = env_args_hash env (c_args c), Session = [], PolicyHash = ph e\<rparr>"

definition cosign_gate :: "'a env \<Rightarrow> 'a engine \<Rightarrow> nat \<Rightarrow> rule \<Rightarrow> call \<Rightarrow> bool \<Rightarrow> instant \<Rightarrow> decision \<times> 'a engine" where
  "cosign_gate env e i r c bound now =
     (case (bound, reqApprovals e) of
        (True, Some st) \<Rightarrow>
          (let (ok, st') = env_consume env st (call_request env e c) now;
               e' = e\<lparr>reqApprovals := Some st'\<rparr>
           in if ok then (allow_verdict i r BoundCosignConsumed, e')
              else (cosign_verdict i (AwaitBoundCosign (c_tool c)), e'))
      | _ \<Rightarrow>
          (if (case cosign e of None \<Rightarrow> False | Some f \<Rightarrow> f (CosignKey (c_fqdn c) (c_tool c)))
           then (allow_verdict i r CoSigned, e)
           else (cosign_verdict i (AwaitCosign (c_tool c)), e)))"

text \<open>The verdict of the rule that applies.\<close>

definition rule_verdict :: "'a env \<Rightarrow> 'a engine \<Rightarrow> nat \<Rightarrow> rule \<Rightarrow> call \<Rightarrow> bool \<Rightarrow> instant \<Rightarrow> decision \<times> 'a engine" where
  "rule_verdict env e i r c bound now =
     (if \<not> RuleAllow r then (deny_verdict i DeniedByRule 0, e)
      else let blocked = firstPresent (blockSet r) (c_labels c) in
      if blocked \<noteq> [] then
        (deny_verdict i (if blocked = tainted_label then TaintBlocked else LabelBlocked blocked) 0, e)
      else
        (let ((ok, retry), e1) = (case Rate r of None \<Rightarrow> ((True, 0), e) | Some rl \<Rightarrow> allowRate e i (c_key c) rl now)
         in if \<not> ok then
              (deny_verdict i (case Rate r of None \<Rightarrow> NoReason | Some rl \<Rightarrow> RateLimited (Max rl) (rate_window rl)) retry, e1)
            else if RequireCosign r then cosign_gate env e1 i r c bound now
            else (allow_verdict i r NoReason, e1)))"

definition rule_applies :: "'a env \<Rightarrow> 'a engine \<Rightarrow> call \<Rightarrow> instant \<Rightarrow> rule \<Rightarrow> bool" where
  "rule_applies env e c now r \<longleftrightarrow>
     Methods r = [] \<and> peerMatches e r (c_fqdn c) (c_key c) \<and> matchesTool r (c_tool c) \<and>
     (case When r of None \<Rightarrow> True | Some w \<Rightarrow> window_active (env_tz env) w now)"

fun decide_rules ::
    "'a env \<Rightarrow> 'a engine \<Rightarrow> nat \<Rightarrow> rule list \<Rightarrow> call \<Rightarrow> bool \<Rightarrow> instant \<Rightarrow> decision \<times> 'a engine" where
  "decide_rules env e i [] c bound now = (plain_verdict (- 1) (DefaultAllow (pol e)), e)"
| "decide_rules env e i (r # rs) c bound now =
     (if rule_applies env e c now r then rule_verdict env e i r c bound now
      else decide_rules env e (Suc i) rs c bound now)"

definition decideTool :: "'a env \<Rightarrow> 'a engine \<Rightarrow> call \<Rightarrow> bool \<Rightarrow> instant \<Rightarrow> decision \<times> 'a engine" where
  "decideTool env e c bound now = decide_rules env e 0 (Rules (pol e)) c bound now"

definition DecideToolCall :: "'a env \<Rightarrow> 'a engine \<Rightarrow> string \<Rightarrow> string \<Rightarrow> string \<Rightarrow> labels \<Rightarrow> instant \<Rightarrow> decision \<times> 'a engine" where
  "DecideToolCall env e fqdn key tool ls now =
     decideTool env e \<lparr>c_fqdn = fqdn, c_key = key, c_backend = [], c_tool = tool, c_args = [], c_labels = ls\<rparr> False now"

definition DecideToolCallBound :: "'a env \<Rightarrow> 'a engine \<Rightarrow> call \<Rightarrow> instant \<Rightarrow> decision \<times> 'a engine" where
  "DecideToolCallBound env e c now = decideTool env e c True now"

definition RuleEffects :: "'a engine \<Rightarrow> int \<Rightarrow> (string list \<times> int) option" where
  "RuleEffects e ruleID =
     (if ruleID < 0 \<or> ruleID \<ge> int (length (Rules (pol e))) then None
      else let r = Rules (pol e) ! nat ruleID in Some (emitSet r, ruleCost r))"

subsection \<open>Validation at configuration load\<close>

datatype validate_error =
    NeedsToolsOrMethods nat | ToolsAndMethods nat | BadPeerGlob nat string | BadToolGlob nat string
  | BadMethodGlob nat string | RateMaxNotPositive nat int | RatePerInvalid nat string
  | BadTZ nat string | BadDay nat string | BadHours nat string

fun first_error :: "('a \<Rightarrow> 'e option) \<Rightarrow> 'a list \<Rightarrow> 'e option" where
  "first_error f [] = None"
| "first_error f (x # xs) = (case f x of Some e \<Rightarrow> Some e | None \<Rightarrow> first_error f xs)"

definition bad_glob :: "string \<Rightarrow> bool" where
  "bad_glob p = (path_match p [] = None)"

definition validateGlobs :: "(string \<Rightarrow> validate_error) \<Rightarrow> string list \<Rightarrow> validate_error option" where
  "validateGlobs err gs = first_error (\<lambda>g. if bad_glob g then Some (err g) else None) gs"

definition trim_prefix :: "string \<Rightarrow> string \<Rightarrow> string" where
  "trim_prefix p s = (case cut_prefix p s of Some r \<Rightarrow> r | None \<Rightarrow> s)"

definition window_validate :: "tzdb \<Rightarrow> nat \<Rightarrow> window \<Rightarrow> validate_error option" where
  "window_validate tz i w =
     (if TZ w \<noteq> [] \<and> tz (TZ w) = None then Some (BadTZ i (TZ w))
      else case first_error (\<lambda>d. if weekdayNames (to_lower d) = None then Some (BadDay i d) else None) (Days w) of
        Some e \<Rightarrow> Some e
      | None \<Rightarrow> (if Hours w \<noteq> [] \<and> parseHourRange (Hours w) = None then Some (BadHours i (Hours w)) else None))"

definition validate_rate :: "nat \<Rightarrow> rate_limit \<Rightarrow> validate_error option" where
  "validate_rate i rl =
     (if Max rl \<le> 0 then Some (RateMaxNotPositive i (Max rl))
      else if Per rl \<noteq> [] then
        (case ParseDuration (Per rl) of
           None \<Rightarrow> Some (RatePerInvalid i (Per rl))
         | Some d \<Rightarrow> (if d \<le> 0 then Some (RatePerInvalid i (Per rl)) else None))
      else None)"

definition validate_rule :: "tzdb \<Rightarrow> nat \<Rightarrow> rule \<Rightarrow> validate_error option" where
  "validate_rule tz i r =
     (if Tools r = [] \<and> Methods r = [] then Some (NeedsToolsOrMethods i)
      else if Tools r \<noteq> [] \<and> Methods r \<noteq> [] then Some (ToolsAndMethods i)
      else first_error (\<lambda>f. f ())
        [\<lambda>_. first_error (\<lambda>g. if bad_glob (trim_prefix pubkey_prefix g) then Some (BadPeerGlob i g) else None) (Peers r),
         \<lambda>_. validateGlobs (BadToolGlob i) (Tools r),
         \<lambda>_. validateGlobs (BadMethodGlob i) (Methods r),
         \<lambda>_. case Rate r of None \<Rightarrow> None | Some rl \<Rightarrow> validate_rate i rl,
         \<lambda>_. case When r of None \<Rightarrow> None | Some w \<Rightarrow> window_validate tz i w])"

fun validate_rules :: "tzdb \<Rightarrow> nat \<Rightarrow> rule list \<Rightarrow> validate_error option" where
  "validate_rules tz i [] = None"
| "validate_rules tz i (r # rs) =
     (case validate_rule tz i r of Some e \<Rightarrow> Some e | None \<Rightarrow> validate_rules tz (Suc i) rs)"

definition Validate :: "tzdb \<Rightarrow> policy option \<Rightarrow> validate_error option" where
  "Validate tz p = (case p of None \<Rightarrow> None | Some q \<Rightarrow> validate_rules tz 1 (Rules q))"

subsection \<open>First match\<close>

lemma decide_rules_first:
  "decide_rules env e i rs c bound now =
     (case first_idx (rule_applies env e c now) rs of
        None \<Rightarrow> (plain_verdict (- 1) (DefaultAllow (pol e)), e)
      | Some j \<Rightarrow> rule_verdict env e (i + j) (rs ! j) c bound now)"
  by (induction rs arbitrary: i) (auto split: option.split)

lemma decideTool_first:
  "decideTool env e c bound now =
     (case first_idx (rule_applies env e c now) (Rules (pol e)) of
        None \<Rightarrow> (plain_verdict (- 1) (DefaultAllow (pol e)), e)
      | Some j \<Rightarrow> rule_verdict env e j (Rules (pol e) ! j) c bound now)"
  by (simp add: decideTool_def decide_rules_first split: option.split)

lemma verdict_fields [simp, verdict_simps]:
  "Allow (deny_verdict i w d) = False" "RuleID (deny_verdict i w d) = int i"
  "Outcome (deny_verdict i w d) = OutcomeDeny" "Reason (deny_verdict i w d) = w"
  "RetryAfter (deny_verdict i w d) = d" "AddLabels (deny_verdict i w d) = []" "Cost (deny_verdict i w d) = 0"
  "Allow (cosign_verdict i w) = False" "RuleID (cosign_verdict i w) = int i"
  "Outcome (cosign_verdict i w) = OutcomeCosign" "Reason (cosign_verdict i w) = w"
  "AddLabels (cosign_verdict i w) = []" "Cost (cosign_verdict i w) = 0"
  "Allow (allow_verdict i r w) = True" "RuleID (allow_verdict i r w) = int i"
  "Outcome (allow_verdict i r w) = OutcomeAllow" "Reason (allow_verdict i r w) = w"
  "AddLabels (allow_verdict i r w) = emitSet r" "Cost (allow_verdict i r w) = ruleCost r"
  by (simp_all add: deny_verdict_def cosign_verdict_def allow_verdict_def zero_decision_def)

lemma firstPresent_Nil:
  "firstPresent ls have_l = [] \<Longrightarrow> [] \<notin> set ls \<Longrightarrow> l \<in> set ls \<Longrightarrow> \<not> have_l l"
  by (induction ls) (auto split: if_splits)

lemma firstPresent_none: "(\<And>l. l \<in> set ls \<Longrightarrow> \<not> have_l l) \<Longrightarrow> firstPresent ls have_l = []"
  by (induction ls) auto

lemma allowRate_state:
  "pol (snd (allowRate e i k rl now)) = pol e" "ph (snd (allowRate e i k rl now)) = ph e"
  "cosign (snd (allowRate e i k rl now)) = cosign e" "groups (snd (allowRate e i k rl now)) = groups e"
  "reqApprovals (snd (allowRate e i k rl now)) = reqApprovals e"
  by (simp_all add: allowRate_def Let_def split: prod.split)

text \<open>The co-sign condition a \<^verbatim>\<open>require_cosign\<close> rule is held to.\<close>

definition cosign_given :: "'a env \<Rightarrow> 'a engine \<Rightarrow> call \<Rightarrow> bool \<Rightarrow> instant \<Rightarrow> bool" where
  "cosign_given env e c bound now =
     (case (bound, reqApprovals e) of
        (True, Some st) \<Rightarrow> fst (env_consume env st (call_request env e c) now)
      | _ \<Rightarrow> (case cosign e of None \<Rightarrow> False | Some f \<Rightarrow> f (CosignKey (c_fqdn c) (c_tool c))))"

lemma cosign_gate_iff:
  "Outcome (fst (cosign_gate env e i r c bound now)) = OutcomeAllow \<longleftrightarrow> cosign_given env e c bound now"
  "Allow (fst (cosign_gate env e i r c bound now)) \<longleftrightarrow> cosign_given env e c bound now"
  "RuleID (fst (cosign_gate env e i r c bound now)) = int i"
  "Outcome (fst (cosign_gate env e i r c bound now)) \<noteq> OutcomeDeny"
  "pol (snd (cosign_gate env e i r c bound now)) = pol e"
  by (auto simp: cosign_gate_def cosign_given_def Let_def split: bool.split option.split prod.split)

definition rate_ok :: "'a engine \<Rightarrow> nat \<Rightarrow> rule \<Rightarrow> string \<Rightarrow> instant \<Rightarrow> bool" where
  "rate_ok e i r k now = (case Rate r of None \<Rightarrow> True | Some rl \<Rightarrow> fst (fst (allowRate e i k rl now)))"

definition after_rate :: "'a engine \<Rightarrow> nat \<Rightarrow> rule \<Rightarrow> string \<Rightarrow> instant \<Rightarrow> 'a engine" where
  "after_rate e i r k now = (case Rate r of None \<Rightarrow> e | Some rl \<Rightarrow> snd (allowRate e i k rl now))"

lemma after_rate_state [simp]:
  "pol (after_rate e i r k now) = pol e" "ph (after_rate e i r k now) = ph e"
  "cosign (after_rate e i r k now) = cosign e" "groups (after_rate e i r k now) = groups e"
  "reqApprovals (after_rate e i r k now) = reqApprovals e"
  by (simp_all add: after_rate_def allowRate_state split: option.split)

lemma cosign_given_after_rate [simp]:
  "cosign_given env (after_rate e i r k now) c bound now' = cosign_given env e c bound now'"
  by (simp add: cosign_given_def call_request_def split: bool.split option.split)

text \<open>The verdict as nested guards over the state it is taken in.\<close>

lemma rule_verdict_eq:
  "rule_verdict env e i r c bound now =
     (if \<not> RuleAllow r then (deny_verdict i DeniedByRule 0, e)
      else if firstPresent (blockSet r) (c_labels c) \<noteq> [] then
        (deny_verdict i (if firstPresent (blockSet r) (c_labels c) = tainted_label then TaintBlocked
           else LabelBlocked (firstPresent (blockSet r) (c_labels c))) 0, e)
      else if \<not> rate_ok e i r (c_key c) now then
        (deny_verdict i (case Rate r of None \<Rightarrow> NoReason | Some rl \<Rightarrow> RateLimited (Max rl) (rate_window rl))
           (case Rate r of None \<Rightarrow> 0 | Some rl \<Rightarrow> snd (fst (allowRate e i (c_key c) rl now))),
         after_rate e i r (c_key c) now)
      else if RequireCosign r then cosign_gate env (after_rate e i r (c_key c) now) i r c bound now
      else (allow_verdict i r NoReason, after_rate e i r (c_key c) now))"
  by (auto simp: rule_verdict_def rate_ok_def after_rate_def Let_def split: option.split prod.split)

lemma rule_verdict_Allow_iff:
  "Outcome (fst (rule_verdict env e i r c bound now)) = OutcomeAllow \<longleftrightarrow>
     RuleAllow r \<and> firstPresent (blockSet r) (c_labels c) = [] \<and> rate_ok e i r (c_key c) now \<and>
     (RequireCosign r \<longrightarrow> cosign_given env e c bound now)"
  by (simp add: rule_verdict_eq cosign_gate_iff)

lemma rule_verdict_RuleID: "RuleID (fst (rule_verdict env e i r c bound now)) = int i"
  by (simp add: rule_verdict_eq cosign_gate_iff)

lemma rule_verdict_flag:
  "Allow (fst (rule_verdict env e i r c bound now)) \<longleftrightarrow>
     Outcome (fst (rule_verdict env e i r c bound now)) = OutcomeAllow"
  by (simp add: rule_verdict_eq cosign_gate_iff)

lemma rule_verdict_pol: "pol (snd (rule_verdict env e i r c bound now)) = pol e"
  by (simp add: rule_verdict_eq cosign_gate_iff)

lemma decideTool_pol: "pol (snd (decideTool env e c bound now)) = pol e"
  by (simp add: decideTool_first rule_verdict_pol split: option.split)

lemma decideTool_flag:
  "Allow (fst (decideTool env e c bound now)) \<longleftrightarrow> Outcome (fst (decideTool env e c bound now)) = OutcomeAllow"
  by (simp add: decideTool_first rule_verdict_flag split: option.split)


subsection \<open>Agreement with the pure decision\<close>

text \<open>A rule the pure \<^verbatim>\<open>Decide\<close> understands completely: no runtime constraint, no group reference.\<close>

definition plain_rule :: "rule \<Rightarrow> bool" where
  "plain_rule r \<longleftrightarrow> Rate r = None \<and> When r = None \<and> \<not> RequireCosign r \<and> blockSet r = [] \<and>
     (\<forall>p\<in>set (Peers r). cut_prefix group_prefix p = None)"

lemma peerMatches_plain: "plain_rule r \<Longrightarrow> peerMatches e r fqdn key = matchesPeer r fqdn key"
  by (auto simp: plain_rule_def peerMatches_def matchesPeer_def list_ex_iff)

lemma rule_applies_plain:
  "plain_rule r \<Longrightarrow> rule_applies env e c now r = tool_rule_hit (c_fqdn c) (c_key c) (c_tool c) r"
  by (simp add: rule_applies_def peerMatches_plain) (simp add: plain_rule_def)

lemma first_idx_cong: "(\<And>x. x \<in> set xs \<Longrightarrow> P x = Q x) \<Longrightarrow> first_idx P xs = first_idx Q xs"
  by (induction xs) auto

lemma rule_verdict_plain:
  "plain_rule r \<Longrightarrow> rule_verdict env e i r c bound now =
     ((if RuleAllow r then allow_verdict i r NoReason else deny_verdict i DeniedByRule 0), e)"
  by (simp add: plain_rule_def rule_verdict_eq rate_ok_def after_rate_def)

text \<open>C16: The engine refines the pure policy. On a policy whose rules carry no runtime constraint
  and no group reference, the engine takes the same decision as \<^verbatim>\<open>Policy.Decide\<close> (same rule,
  same outcome), for every clock, label set, co-sign state and calling form, and does not change
  its state.\<close>
theorem engine_refines_decide:
  assumes "\<forall>r\<in>set (Rules (pol e)). plain_rule r"
    and "decideTool env e c bound now = (d, e')"
  shows "let d0 = Decide (pol e) (c_fqdn c) (c_key c) (c_tool c) in
    e' = e \<and> RuleID d = RuleID d0 \<and> Outcome d = Outcome d0 \<and> Allow d = Allow d0"
proof -
  have same: "first_idx (rule_applies env e c now) (Rules (pol e)) =
      first_idx (tool_rule_hit (c_fqdn c) (c_key c) (c_tool c)) (Rules (pol e))"
    using assms(1) by (intro first_idx_cong) (simp add: rule_applies_plain)
  show ?thesis
  proof (cases "first_idx (tool_rule_hit (c_fqdn c) (c_key c) (c_tool c)) (Rules (pol e))")
    case None
    then show ?thesis using assms(2) same by (auto simp: decideTool_first Decide_first)
  next
    case (Some i)
    then have "plain_rule (Rules (pol e) ! i)" using assms(1) by (simp add: first_idx_Some_iff)
    then show ?thesis
      using assms(2) same Some by (auto simp: decideTool_first Decide_first rule_verdict_plain outcomeOf_def)
  qed
qed

subsection \<open>Rate limits\<close>

lemma perSeconds_pos: "perSeconds rl > 0"
  by (simp add: perSeconds_def Let_def)

lemma refill_rate_pos: "Max rl > 0 \<Longrightarrow> refill_rate rl > 0"
  by (simp add: refill_rate_def perSeconds_pos)

lemma call_cost_pos: "call_cost rl > 0"
  by (simp add: call_cost_def)

text \<open>Tokens gained over an interval.\<close>

definition gain :: "rate_limit \<Rightarrow> instant \<Rightarrow> instant \<Rightarrow> rat" where
  "gain rl t0 t1 = refill_rate rl * (of_int (t1 - t0) / of_int nanos_per_sec)"

lemma gain_add: "gain rl t0 t1 + gain rl t1 t2 = gain rl t0 t2"
  by (simp add: gain_def diff_divide_distrib right_diff_distrib)

lemma gain_self [simp]: "gain rl t t = 0"
  by (simp add: gain_def)

lemma gain_nonneg: "Max rl > 0 \<Longrightarrow> t0 \<le> t1 \<Longrightarrow> 0 \<le> gain rl t0 t1"
  using refill_rate_pos [of rl] by (simp add: gain_def nanos_per_sec_def)

lemma refilled_None [simp]: "refilled rl now None = \<lparr>tokens = of_int (Max rl), last_fill = now\<rparr>"
  by (simp add: refilled_def)

lemma refilled_Some:
  assumes "last_fill b \<le> now"
  shows "refilled rl now (Some b) =
    (if last_fill b = now then b
     else \<lparr>tokens = min (tokens b + gain rl (last_fill b) now) (of_int (Max rl)), last_fill = now\<rparr>)"
  using assms by (simp add: refilled_def gain_def nanos_per_sec_def mult.commute)

lemma refilled_last: "last_fill b \<le> now \<Longrightarrow> last_fill (refilled rl now (Some b)) = now"
  by (simp add: refilled_Some)

lemma refilled_le_gain:
  "last_fill b \<le> now \<Longrightarrow> tokens (refilled rl now (Some b)) \<le> tokens b + gain rl (last_fill b) now"
  by (simp add: refilled_Some)

lemma refilled_nonneg:
  assumes "Max rl > 0" "last_fill b \<le> now" "0 \<le> tokens b"
  shows "0 \<le> tokens (refilled rl now (Some b))"
  using assms gain_nonneg [of rl "last_fill b" now] by (simp add: refilled_Some)

lemma bucket_take_fields:
  "last_fill (snd (bucket_take rl now ob)) = last_fill (refilled rl now ob)"
  "fst (fst (bucket_take rl now ob)) \<longleftrightarrow> call_cost rl \<le> tokens (refilled rl now ob)"
  "tokens (snd (bucket_take rl now ob)) =
     tokens (refilled rl now ob) - (if fst (fst (bucket_take rl now ob)) then call_cost rl else 0)"
  by (auto simp: bucket_take_def Let_def)

text \<open>Levels stay within the bucket.\<close>

definition bucket_wf :: "rate_limit \<Rightarrow> bucket \<Rightarrow> bool" where
  "bucket_wf rl b \<longleftrightarrow> 0 \<le> tokens b \<and> tokens b \<le> of_int (Max rl)"

lemma bucket_take_wf:
  assumes "Max rl > 0" "\<And>b. ob = Some b \<Longrightarrow> bucket_wf rl b \<and> last_fill b \<le> now"
  shows "bucket_wf rl (snd (bucket_take rl now ob))"
proof -
  have "bucket_wf rl (refilled rl now ob)"
  proof (cases ob)
    case (Some b)
    then show ?thesis
      using assms refilled_nonneg [of rl b now] by (auto simp: bucket_wf_def refilled_Some)
  qed (use assms(1) in \<open>simp add: bucket_wf_def\<close>)
  then show ?thesis
    using call_cost_pos [of rl] by (auto simp: bucket_wf_def bucket_take_fields)
qed

subsection \<open>Buckets are per rule and identity\<close>

lemma nat_dec_no_bar: "CHR ''|'' \<notin> set (nat_dec n)"
proof
  assume "CHR ''|'' \<in> set (nat_dec n)"
  then obtain k :: nat where "48 \<le> k" "k < 58" "CHR ''|'' = char_of k" using nat_dec_digits by fastforce
  then have "(of_char (CHR ''|'') :: nat) = k" by simp
  with \<open>k < 58\<close> show False by simp
qed

lemma bucket_key_inj: "bucket_key i k = bucket_key j l \<longleftrightarrow> i = j \<and> k = l"
proof
  assume "bucket_key i k = bucket_key j l"
  then have "nat_dec i @ CHR ''|'' # k = nat_dec j @ CHR ''|'' # l" by (simp add: bucket_key_def)
  from sep_split [OF this nat_dec_no_bar nat_dec_no_bar] have "nat_dec i = nat_dec j" "k = l" by auto
  then show "i = j \<and> k = l" by (metis dec_val_nat_dec of_nat_eq_iff)
qed simp

lemma allowRate_pos:
  "Max rl > 0 \<Longrightarrow> allowRate e i k rl now =
     (fst (bucket_take rl now (buckets e (bucket_key i k))),
      e\<lparr>buckets := (buckets e)(bucket_key i k := Some (snd (bucket_take rl now (buckets e (bucket_key i k)))))\<rparr>)"
  by (simp add: allowRate_def Let_def split: prod.split)

lemma allowRate_other:
  "(i, k) \<noteq> (j, l) \<Longrightarrow> buckets (snd (allowRate e i k rl now)) (bucket_key j l) = buckets e (bucket_key j l)"
  by (auto simp: allowRate_def Let_def bucket_key_inj split: prod.split)

subsection \<open>Throughput\<close>

type_synonym rate_call = "nat \<times> string \<times> rate_limit \<times> instant"

text \<open>A sequence of rate checks, of any rules and identities, and how many of them admitted a
  given rule and identity.\<close>

fun admitted :: "'a engine \<Rightarrow> rate_call list \<Rightarrow> nat \<Rightarrow> string \<Rightarrow> nat" where
  "admitted e [] i k = 0"
| "admitted e ((j, l, rl, t) # cs) i k =
     (if (j, l) = (i, k) \<and> fst (fst (allowRate e j l rl t)) then 1 else 0) +
     admitted (snd (allowRate e j l rl t)) cs i k"

definition calls_use :: "rate_limit \<Rightarrow> nat \<Rightarrow> string \<Rightarrow> rate_call list \<Rightarrow> bool" where
  "calls_use rl i k cs \<longleftrightarrow> (\<forall>(j, l, rl', t)\<in>set cs. (j, l) = (i, k) \<longrightarrow> rl' = rl)"

abbreviation call_time :: "rate_call \<Rightarrow> instant" where
  "call_time c \<equiv> snd (snd (snd c))"

lemma admitted_from_bucket:
  assumes "Max rl > 0" "calls_use rl i k cs" "sorted (map call_time cs)"
    and "buckets e (bucket_key i k) = Some b" "0 \<le> tokens b"
    and "\<forall>c\<in>set cs. last_fill b \<le> call_time c \<and> call_time c \<le> t1" "last_fill b \<le> t1"
  shows "of_nat (admitted e cs i k) * call_cost rl \<le> tokens b + gain rl (last_fill b) t1"
  using assms(2-)
proof (induction cs arbitrary: e b)
  case Nil
  then show ?case using gain_nonneg [OF assms(1), of "last_fill b" t1] by simp
next
  case (Cons c cs)
  obtain j l rl' t where c: "c = (j, l, rl', t)" using prod_cases4 by blast
  show ?case
  proof (cases "(j, l) = (i, k)")
    case False
    then show ?thesis
      using Cons.IH [of "snd (allowRate e j l rl' t)" b] Cons.prems c
        allowRate_other [OF False, of e rl' t]
      by (auto simp: calls_use_def)
  next
    case True
    with Cons.prems(1) c have rl: "rl' = rl" by (auto simp: calls_use_def)
    define b' where "b' = snd (bucket_take rl t (Some b))"
    define ok where "ok = fst (fst (bucket_take rl t (Some b)))"
    have le: "last_fill b \<le> t" "t \<le> t1" using Cons.prems(5) c by auto
    have e1: "allowRate e j l rl' t = (fst (bucket_take rl t (Some b)), e\<lparr>buckets := (buckets e)(bucket_key i k := Some b')\<rparr>)"
      using True rl allowRate_pos [OF assms(1), of e i k t] Cons.prems(3) by (simp add: b'_def)
    have b': "last_fill b' = t" "0 \<le> tokens b'"
        "tokens b' + (if ok then call_cost rl else 0) \<le> tokens b + gain rl (last_fill b) t"
      using refilled_last [OF le(1), of rl] refilled_nonneg [OF assms(1) le(1) Cons.prems(4)]
        refilled_le_gain [OF le(1), of rl]
      by (auto simp: b'_def ok_def bucket_take_fields)
    have "of_nat (admitted (snd (allowRate e j l rl' t)) cs i k) * call_cost rl \<le> tokens b' + gain rl t t1"
      using Cons.IH [of "snd (allowRate e j l rl' t)" b'] Cons.prems c e1 b' le
      by (auto simp: calls_use_def)
    moreover have "gain rl (last_fill b) t + gain rl t t1 = gain rl (last_fill b) t1" by (rule gain_add)
    ultimately show ?thesis
      using b'(3) True c e1 by (auto simp: ok_def distrib_right split: if_splits)
  qed
qed


subsection \<open>Retry hints\<close>

lemma gain_ge_iff:
  assumes "Max rl > 0"
  shows "x \<le> gain rl t0 t1 \<longleftrightarrow> x / refill_rate rl * of_int nanos_per_sec \<le> of_int (t1 - t0)"
  using refill_rate_pos [OF assms] by (simp add: gain_def nanos_per_sec_def field_simps)

lemma bucket_take_denied:
  assumes "bucket_take rl now ob = ((False, d), b)"
  shows "b = refilled rl now ob" "tokens b < call_cost rl"
    "d = (if call_cost rl > of_int (Max rl) then 0
          else max millisecond (floor ((call_cost rl - tokens b) / refill_rate rl * of_int nanos_per_sec)))"
  using assms by (auto simp: bucket_take_def Let_def max_def not_le split: if_splits)

lemma bucket_take_later:
  assumes "Max rl > 0" "last_fill b = now" "now \<le> t" "tokens b < call_cost rl" "call_cost rl \<le> of_int (Max rl)"
  shows "fst (fst (bucket_take rl t (Some b))) \<longleftrightarrow>
    (call_cost rl - tokens b) / refill_rate rl * of_int nanos_per_sec \<le> of_int (t - now)"
proof -
  have "call_cost rl \<le> tokens (refilled rl t (Some b)) \<longleftrightarrow> call_cost rl - tokens b \<le> gain rl now t"
    using assms by (auto simp: refilled_Some min_le_iff_disj)
  then show ?thesis by (simp add: bucket_take_fields gain_ge_iff [OF assms(1)])
qed

text \<open>A rate denial carries an honest retry hint. With a clock that does not run backwards, a
  denied call either costs more than the bucket can ever hold, and then the hint is zero and no
  later instant admits it; or the hint is at least a millisecond, one nanosecond past it the
  same call is admitted, and (above the millisecond floor) no instant before it admits the call.\<close>
theorem retry_after_honest:
  assumes "Max rl > 0" "\<forall>b0\<in>set_option ob. last_fill b0 \<le> now"
    and "bucket_take rl now ob = ((False, d), b)"
  shows "if call_cost rl > of_int (Max rl)
    then d = 0 \<and> (\<forall>t\<ge>now. \<not> fst (fst (bucket_take rl t (Some b))))
    else millisecond \<le> d \<and> fst (fst (bucket_take rl (now + d + 1) (Some b))) \<and>
      (millisecond < d \<longrightarrow> (\<forall>t. now \<le> t \<and> t < now + d \<longrightarrow> \<not> fst (fst (bucket_take rl t (Some b)))))"
proof -
  note den = bucket_take_denied [OF assms(3)]
  have last: "last_fill b = now"
    using assms(2) refilled_last [of _ now rl] by (cases ob) (simp_all add: den(1))
  show ?thesis
  proof (cases "call_cost rl > of_int (Max rl)")
    case True
    have "\<not> fst (fst (bucket_take rl t (Some b)))" if "now \<le> t" for t
      using that True last den(2) by (auto simp: bucket_take_fields refilled_Some not_le)
    then show ?thesis using True den(3) by simp
  next
    case False
    define x where "x = (call_cost rl - tokens b) / refill_rate rl * of_int nanos_per_sec"
    have adm: "fst (fst (bucket_take rl t (Some b))) \<longleftrightarrow> x \<le> of_int (t - now)" if "now \<le> t" for t
      using bucket_take_later [OF assms(1) last that den(2)] False by (simp add: x_def)
    have d: "d = max millisecond (floor x)" using False den(3) by (simp add: x_def)
    have "floor x \<le> d" "millisecond \<le> d" using d by simp_all
    then have "x \<le> of_int (d + 1)" by linarith
    moreover have "now \<le> now + d + 1" using \<open>millisecond \<le> d\<close> by (simp add: millisecond_def)
    ultimately have "fst (fst (bucket_take rl (now + d + 1) (Some b)))" using adm [of "now + d + 1"] by simp
    moreover have "\<not> fst (fst (bucket_take rl t (Some b)))" if "millisecond < d" "now \<le> t" "t < now + d" for t
    proof -
      have "t - now < floor x" using that d by (auto simp: max_def split: if_splits)
      then have "of_int (t - now) < x" by (simp add: less_floor_iff)
      then show ?thesis using adm [OF that(2)] by simp
    qed
    ultimately show ?thesis using False \<open>millisecond \<le> d\<close> by auto
  qed
qed

subsection \<open>Bound approvals through the engine\<close>

text \<open>How many decisions of a sequence were allowed by consuming the approval of one request.\<close>

fun cosigned :: "'a env \<Rightarrow> 'a engine \<Rightarrow> (call \<times> bool \<times> instant) list \<Rightarrow> approval_request \<Rightarrow> nat" where
  "cosigned env e [] q = 0"
| "cosigned env e ((c, bound, t) # cs) q =
     (if Reason (fst (decideTool env e c bound t)) = BoundCosignConsumed \<and> call_request env e c = q
      then 1 else 0) + cosigned env (snd (decideTool env e c bound t)) cs q"

lemma cosign_gate_approvals:
  "reqApprovals (snd (cosign_gate env e i r c bound t)) = reqApprovals e \<and>
     Reason (fst (cosign_gate env e i r c bound t)) \<noteq> BoundCosignConsumed \<or>
   (\<exists>st. reqApprovals e = Some st \<and>
      reqApprovals (snd (cosign_gate env e i r c bound t)) = Some (snd (env_consume env st (call_request env e c) t)) \<and>
      (Reason (fst (cosign_gate env e i r c bound t)) = BoundCosignConsumed \<longrightarrow>
         fst (env_consume env st (call_request env e c) t)))"
  by (auto simp: cosign_gate_def Let_def split: bool.split option.split prod.split)

lemma call_request_after_rate [simp]: "call_request env (after_rate e i r k now) c = call_request env e c"
  by (simp add: call_request_def)

lemma decideTool_approvals:
  "reqApprovals (snd (decideTool env e c bound t)) = reqApprovals e \<and>
     Reason (fst (decideTool env e c bound t)) \<noteq> BoundCosignConsumed \<or>
   (\<exists>st. reqApprovals e = Some st \<and>
      reqApprovals (snd (decideTool env e c bound t)) = Some (snd (env_consume env st (call_request env e c) t)) \<and>
      (Reason (fst (decideTool env e c bound t)) = BoundCosignConsumed \<longrightarrow>
         fst (env_consume env st (call_request env e c) t)))"
proof (cases "first_idx (rule_applies env e c t) (Rules (pol e))")
  case None
  then show ?thesis by (simp add: decideTool_first)
next
  case (Some i)
  then show ?thesis
    using cosign_gate_approvals [of env "after_rate e i (Rules (pol e) ! i) (c_key c) t" i "Rules (pol e) ! i" c bound t]
    by (simp add: decideTool_first rule_verdict_eq split: option.split)
qed

locale engine_approvals = approval_store consume valid
  for consume :: "'s \<Rightarrow> approval_request \<Rightarrow> instant \<Rightarrow> bool \<times> 's" and valid
begin

lemma cosigned_zero:
  assumes "env_consume env = consume"
    and "\<And>st t. reqApprovals e = Some st \<Longrightarrow> \<not> valid st q t"
  shows "cosigned env e cs q = 0"
  using assms(2)
proof (induction cs arbitrary: e)
  case (Cons x cs)
  obtain c bound t where x: "x = (c, bound, t)" using prod_cases3 by blast
  from decideTool_approvals [of env e c bound t] show ?case
  proof (elim disjE exE conjE)
    fix st assume st: "reqApprovals e = Some st"
      "reqApprovals (snd (decideTool env e c bound t)) = Some (snd (env_consume env st (call_request env e c) t))"
      "Reason (fst (decideTool env e c bound t)) = BoundCosignConsumed \<longrightarrow> fst (env_consume env st (call_request env e c) t)"
    have "\<not> valid (snd (consume st (call_request env e c) t)) q t'" for t'
      using consume_no_new Cons.prems st(1) by blast
    then show ?thesis
      using Cons.IH [of "snd (decideTool env e c bound t)"] st Cons.prems consume_valid [of st q t]
      by (auto simp: x assms(1))
  qed (use Cons.IH [of "snd (decideTool env e c bound t)"] Cons.prems x in simp)
qed simp

lemma cosigned_le_1:
  assumes "env_consume env = consume"
  shows "cosigned env e cs q \<le> 1"
proof (induction cs arbitrary: e)
  case (Cons x cs)
  obtain c bound t where x: "x = (c, bound, t)" using prod_cases3 by blast
  show ?case
  proof (cases "Reason (fst (decideTool env e c bound t)) = BoundCosignConsumed \<and> call_request env e c = q")
    case True
    then obtain st where "reqApprovals (snd (decideTool env e c bound t)) = Some (snd (consume st q t))"
      using decideTool_approvals [of env e c bound t] assms by auto
    then have "cosigned env (snd (decideTool env e c bound t)) cs q = 0"
      using consume_spends by (intro cosigned_zero [OF assms]) auto
    then show ?thesis by (simp add: x)
  next
    case False
    then show ?thesis using Cons x by auto
  qed
qed simp

end

interpretation fea: engine_approvals "file_consume cr tc" "file_valid cr tc" for cr tc
  by unfold_locales

text \<open>C8: One human approval authorises one call. Through any sequence of engine decisions, of
  any callers, tools and calling forms, against the file approval store, a given request
  (peer, backend, tool, arguments, policy version) is let through by a bound co-sign at most once.\<close>
theorem bound_cosign_single_use:
  "cosigned (env\<lparr>env_consume := file_consume cr tc\<rparr>) e calls req \<le> 1"
  by (rule fea.cosigned_le_1) simp

subsection \<open>Group references\<close>

text \<open>Method rules do not resolve groups. The engine consults the group resolver for a
  \<^verbatim>\<open>group:\<close> entry of a tool rule, but \<^verbatim>\<open>DecideMethod\<close> uses the plain matcher: a rule that
  denies a method to a group never matches a member whose host name is not literally the
  entry, so the member's call is allowed as ungoverned.\<close>
theorem method_rules_ignore_groups:
  assumes "literal (group_prefix @ g)" "fqdn \<noteq> group_prefix @ g"
    and "Rules (pol e) = [r]" "Peers r = [group_prefix @ g]" "groups e = Some inG" "inG key fqdn g"
  shows "peerMatches e r fqdn key \<and> DecideMethod (pol e) fqdn key m = plain_verdict (- 1) True"
proof -
  have "cut_prefix pubkey_prefix (group_prefix @ g) = None"
    by (simp add: pubkey_prefix_def group_prefix_def)
  moreover have "group_prefix @ g \<noteq> ''*''" by (simp add: group_prefix_def)
  ultimately have "\<not> matchesPeer r fqdn key"
    using assms(1,2,4) by (simp add: matchesPeer_def peer_entry_matches_def glob_ok_literal)
  then have "DecideMethod (pol e) fqdn key m = plain_verdict (- 1) True"
    using assms(3) by (simp add: DecideMethod_first)
  moreover have "peerMatches e r fqdn key"
    using assms(4-6) by (simp add: peerMatches_def)
  ultimately show ?thesis by simp
qed

theorem method_rules_ignore_groups_witness:
  "let r = \<lparr>Peers = [''group:ops''], Tools = [], Methods = [''*''], RuleAllow = False, Rate = None,
             When = None, RequireCosign = False, TaintSource = False, TaintGuard = False,
             EmitLabels = [], BlockLabels = []\<rparr>;
       e = \<lparr>pol = \<lparr>DefaultAllow = False, Rules = [r]\<rparr>, ph = [], cosign = None, reqApprovals = (None :: unit option),
            groups = Some (InGroup (\<lambda>g. [''pubkey:k1''])), buckets = (\<lambda>_. None)\<rparr>
   in peerMatches e r ''box'' ''k1'' \<and> DecideMethod (pol e) ''box'' ''k1'' ''tasks/cancel'' = plain_verdict (- 1) True"
proof -
  define r where "r = \<lparr>Peers = [''group:ops''], Tools = [], Methods = [''*''], RuleAllow = False, Rate = None,
             When = None, RequireCosign = False, TaintSource = False, TaintGuard = False,
             EmitLabels = [], BlockLabels = []\<rparr>"
  define e where "e = \<lparr>pol = \<lparr>DefaultAllow = False, Rules = [r]\<rparr>, ph = [], cosign = None, reqApprovals = (None :: unit option),
            groups = Some (InGroup (\<lambda>g. [''pubkey:k1''])), buckets = (\<lambda>_. None)\<rparr>"
  have "peerMatches e r ''box'' ''k1'' \<and> DecideMethod (pol e) ''box'' ''k1'' ''tasks/cancel'' = plain_verdict (- 1) True"
    by (rule method_rules_ignore_groups [where g = "''ops''" and inG = "InGroup (\<lambda>g. [''pubkey:k1''])"])
      (simp_all add: e_def r_def group_prefix_def InGroup_def peer_entry_matches_def pubkey_prefix_def
        contains_any_def globChars_def)
  then show ?thesis by (simp add: Let_def e_def r_def)
qed

subsection \<open>Load-time validation\<close>

lemma first_error_None_iff: "first_error f xs = None \<longleftrightarrow> (\<forall>x\<in>set xs. f x = None)"
  by (induction xs) (auto split: option.split)

lemma validate_rules_None: "validate_rules tz i rs = None \<Longrightarrow> r \<in> set rs \<Longrightarrow> \<exists>j. validate_rule tz j r = None"
  by (induction tz i rs rule: validate_rules.induct) (auto split: option.splits)

text \<open>Every configuration string of the rule means what it says: no branch of the engine that
  falls back or silently never matches is reachable.\<close>

definition rule_effective :: "tzdb \<Rightarrow> rule \<Rightarrow> bool" where
  "rule_effective tz r \<longleftrightarrow>
     (Tools r = []) \<noteq> (Methods r = []) \<and>
     (\<forall>g\<in>set (Tools r) \<union> set (Methods r). \<forall>v. path_match g v \<noteq> None) \<and>
     (\<forall>p\<in>set (Peers r). \<forall>v. path_match (trim_prefix pubkey_prefix p) v \<noteq> None) \<and>
     (\<forall>rl. Rate r = Some rl \<longrightarrow> Max rl > 0 \<and> (Per rl = [] \<or> (\<exists>d>0. ParseDuration (Per rl) = Some d \<and> rate_window rl = d))) \<and>
     (\<forall>w. When r = Some w \<longrightarrow>
        (TZ w = [] \<or> tz (TZ w) = Some (window_loc tz w)) \<and>
        (\<forall>d\<in>set (Days w). weekdayNames (to_lower d) \<noteq> None) \<and>
        (Hours w = [] \<or> parseHourRange (Hours w) \<noteq> None))"

lemma bad_glob_iff: "\<not> bad_glob p \<longleftrightarrow> (\<forall>v. path_match p v \<noteq> None)"
  by (simp add: bad_glob_def path_match_None_iff)

lemma validate_rate_None:
  "validate_rate i rl = None \<Longrightarrow>
     Max rl > 0 \<and> (Per rl = [] \<or> (\<exists>d>0. ParseDuration (Per rl) = Some d \<and> rate_window rl = d))"
  by (auto simp: validate_rate_def rate_window_def split: if_splits option.splits)

lemma window_validate_None:
  "window_validate tz i w = None \<Longrightarrow>
     (TZ w = [] \<or> tz (TZ w) = Some (window_loc tz w)) \<and>
     (\<forall>d\<in>set (Days w). weekdayNames (to_lower d) \<noteq> None) \<and> (Hours w = [] \<or> parseHourRange (Hours w) \<noteq> None)"
  by (auto simp: window_validate_def window_loc_def first_error_None_iff split: if_splits option.splits)

lemma validate_rule_effective:
  assumes "validate_rule tz j r = None"
  shows "rule_effective tz r"
proof -
  have *: "(Tools r = []) \<noteq> (Methods r = [])" "\<forall>p\<in>set (Peers r). \<not> bad_glob (trim_prefix pubkey_prefix p)"
      "\<forall>g\<in>set (Tools r) \<union> set (Methods r). \<not> bad_glob g"
      "\<And>rl. Rate r = Some rl \<Longrightarrow> validate_rate j rl = None"
      "\<And>w. When r = Some w \<Longrightarrow> window_validate tz j w = None"
    using assms by (auto simp: validate_rule_def validateGlobs_def first_error_None_iff split: if_splits option.splits)
  then show ?thesis
    using validate_rate_None window_validate_None unfolding rule_effective_def bad_glob_iff by blast
qed

text \<open>A policy that passes validation has no dead letters. Every rule of a validated policy
  governs exactly one of tools or methods; each of its globs is well formed for every name it
  will ever be matched against; its rate window is the configured duration rather than the
  one-second fallback; and its time zone, weekdays and hours all parse.\<close>
theorem validated_rules_effective:
  assumes "Validate tz (Some p) = None"
  shows "\<forall>r\<in>set (Rules p). rule_effective tz r"
proof
  fix r assume "r \<in> set (Rules p)"
  then obtain j where "validate_rule tz j r = None"
    using assms validate_rules_None [of tz 1 "Rules p"] by (auto simp: Validate_def)
  then show "rule_effective tz r" by (rule validate_rule_effective)
qed

subsection \<open>Concrete instances\<close>

definition demo_env :: "unit env" where
  "demo_env = \<lparr>env_tz = (\<lambda>_. None), env_policy_hash = (\<lambda>_. ''p1''), env_args_hash = (\<lambda>a. a),
     env_consume = (\<lambda>s r t. (False, s))\<rparr>"

definition demo_limit :: rate_limit where
  "demo_limit = \<lparr>Max = 1, Per = [], RLCost = 0\<rparr>"

definition demo_rule :: rule where
  "demo_rule = \<lparr>Peers = [], Tools = [''read''], Methods = [], RuleAllow = True, Rate = Some demo_limit,
     When = None, RequireCosign = False, TaintSource = False, TaintGuard = True,
     EmitLabels = [''web''], BlockLabels = []\<rparr>"

definition demo_engine :: "unit engine" where
  "demo_engine = NewEngine demo_env \<lparr>DefaultAllow = False, Rules = [demo_rule]\<rparr> None"

definition demo_call :: call where
  "demo_call = \<lparr>c_fqdn = ''box'', c_key = ''k'', c_backend = ''fs'', c_tool = ''read'', c_args = [], c_labels = (\<lambda>_. False)\<rparr>"

lemma demo_limit_Max [simp]: "Max demo_limit = 1"
  by (simp add: demo_limit_def)

lemma demo_limit_rate: "refill_rate demo_limit = 1" "call_cost demo_limit = 1"
  by (simp_all add: refill_rate_def perSeconds_def call_cost_def rate_window_def demo_limit_def
      second_def nanos_per_sec_def Let_def)

lemma demo_rule_applies: "rule_applies demo_env demo_engine demo_call 0 demo_rule"
  by (simp add: rule_applies_def demo_rule_def demo_call_def peerMatches_def matchesTool_def)

lemma demo_rules: "Rules (pol demo_engine) = [demo_rule]" "buckets demo_engine key = None"
  by (simp_all add: demo_engine_def NewEngine_def engine_setPolicy_def)

lemma demo_decision:
  "Outcome (fst (decideTool demo_env demo_engine demo_call True 0)) = OutcomeAllow"
proof -
  have "rate_ok demo_engine 0 demo_rule ''k'' 0"
    by (simp add: rate_ok_def demo_rule_def allowRate_pos demo_limit_Max bucket_take_fields demo_rules demo_limit_rate)
  then have "Outcome (fst (rule_verdict demo_env demo_engine 0 demo_rule demo_call True 0)) = OutcomeAllow"
    by (simp add: rule_verdict_Allow_iff demo_call_def) (simp add: demo_rule_def blockSet_def)
  then show ?thesis by (simp add: decideTool_first demo_rules demo_rule_applies)
qed


theorem engine_refines_decide_witness:
  "let e = NewEngine demo_env \<lparr>DefaultAllow = False, Rules = [demo_rule\<lparr>Rate := None, TaintGuard := False\<rparr>]\<rparr> None
   in RuleID (fst (decideTool demo_env e demo_call False 7)) = RuleID (Decide (pol e) ''box'' ''k'' ''read'')"
proof -
  define e where "e = NewEngine demo_env \<lparr>DefaultAllow = False, Rules = [demo_rule\<lparr>Rate := None, TaintGuard := False\<rparr>]\<rparr> None"
  have "\<forall>r\<in>set (Rules (pol e)). plain_rule r"
    by (simp add: e_def NewEngine_def engine_setPolicy_def plain_rule_def demo_rule_def blockSet_def)
  from engine_refines_decide [OF this, of demo_env demo_call False 7 "fst (decideTool demo_env e demo_call False 7)"
      "snd (decideTool demo_env e demo_call False 7)"]
  show ?thesis by (simp add: Let_def demo_call_def flip: e_def)
qed


theorem retry_after_honest_witness:
  "fst (fst (bucket_take demo_limit (0 + 1000000000 + 1) (Some \<lparr>tokens = 0, last_fill = 0\<rparr>)))"
proof -
  have "bucket_take demo_limit 0 (Some \<lparr>tokens = 0, last_fill = 0\<rparr>) = ((False, 1000000000), \<lparr>tokens = 0, last_fill = 0\<rparr>)"
    by (simp add: bucket_take_def refilled_Some demo_limit_rate) (simp add: millisecond_def nanos_per_sec_def)
  from retry_after_honest [OF _ _ this] demo_limit_rate show ?thesis by simp
qed

theorem validated_rules_effective_witness:
  "Validate (\<lambda>_. None) (Some \<lparr>DefaultAllow = False, Rules = [demo_rule]\<rparr>) = None \<and>
   rule_effective (\<lambda>_. None) demo_rule"
proof -
  have "\<not> bad_glob ''read''"
    using path_match_literal [of "''read''" "[]"] by (simp add: bad_glob_def contains_any_def globChars_def)
  then have "Validate (\<lambda>_. None) (Some \<lparr>DefaultAllow = False, Rules = [demo_rule]\<rparr>) = None"
    by (simp add: Validate_def validate_rule_def validateGlobs_def validate_rate_def demo_rule_def demo_limit_def)
  with validated_rules_effective [OF this] show ?thesis by simp
qed

end
