(* ===== verification/Nonces.thy ===== *)
theory Nonces
  imports Prelude
begin

text \<open>
  Replay caches (\<^verbatim>\<open>NonceStore\<close> in \<^verbatim>\<open>src/policy/delegation.go\<close>), shared by single-use
  capabilities and router delegation tokens.  The contract a client relies on is the locale
  \<^verbatim>\<open>nonce_store\<close>: a key that was accepted is refused until its expiry has passed.  The
  in-memory store, which forgets expired keys, is its implementation.
\<close>

type_synonym mem_nonces = "string \<Rightarrow> int option"

definition drop_expired :: "int \<Rightarrow> mem_nonces \<Rightarrow> mem_nonces" where
  "drop_expired nowSec m = (\<lambda>k. case m k of None \<Rightarrow> None | Some ex \<Rightarrow> if nowSec > ex then None else Some ex)"

definition Use :: "mem_nonces \<Rightarrow> string \<Rightarrow> int \<Rightarrow> instant \<Rightarrow> bool \<times> mem_nonces" where
  "Use m nonce expirySec now =
     (let live = drop_expired (unix_sec now) m in
      case live nonce of
        Some _ \<Rightarrow> (False, live)
      | None \<Rightarrow> (True, live(nonce \<mapsto> expirySec)))"

text \<open>How many uses of one key a sequence of uses, of any keys, accepts.\<close>

type_synonym nonce_use = "string \<times> int \<times> instant"

fun accepted :: "('s \<Rightarrow> string \<Rightarrow> int \<Rightarrow> instant \<Rightarrow> bool \<times> 's) \<Rightarrow> 's \<Rightarrow> nonce_use list \<Rightarrow> string \<Rightarrow> nat" where
  "accepted f s [] k = 0"
| "accepted f s ((k', ex, t) # us) k =
     (if k' = k \<and> fst (f s k' ex t) then 1 else 0) + accepted f (snd (f s k' ex t)) us k"

abbreviation use_time :: "nonce_use \<Rightarrow> instant" where
  "use_time u \<equiv> snd (snd u)"

text \<open>The uses of a key all carry its expiry and none comes after it.\<close>

definition uses_before_expiry :: "string \<Rightarrow> int \<Rightarrow> nonce_use list \<Rightarrow> bool" where
  "uses_before_expiry k ex us \<longleftrightarrow> (\<forall>(k', ex', t)\<in>set us. k' = k \<longrightarrow> ex' = ex \<and> unix_sec t \<le> ex)"

locale nonce_store =
  fixes use_key :: "'s \<Rightarrow> string \<Rightarrow> int \<Rightarrow> instant \<Rightarrow> bool \<times> 's"
    and live :: "'s \<Rightarrow> string \<Rightarrow> int \<Rightarrow> bool"
  assumes refused: "live s k (unix_sec t) \<Longrightarrow> \<not> fst (use_key s k ex t)"
    and recorded: "fst (use_key s k ex t) \<Longrightarrow> live (snd (use_key s k ex t)) k ex"
    and kept: "live s k sec \<Longrightarrow> unix_sec t \<le> sec \<Longrightarrow> live (snd (use_key s k' ex' t)) k sec"
    and live_earlier: "live s k sec \<Longrightarrow> sec' \<le> sec \<Longrightarrow> live s k sec'"
begin

lemma no_use_no_accept: "\<forall>u\<in>set us. fst u \<noteq> k \<Longrightarrow> accepted use_key s us k = 0"
  by (induction us arbitrary: s) auto

lemma live_not_accepted:
  assumes "live s k ex" "sorted (map use_time us)" "uses_before_expiry k ex us"
  shows "accepted use_key s us k = 0"
  using assms
proof (induction us arbitrary: s)
  case (Cons u us)
  obtain k' ex' t where u: "u = (k', ex', t)" using prod_cases3 by blast
  show ?case
  proof (cases "unix_sec t \<le> ex")
    case True
    then have "live (snd (use_key s k' ex' t)) k ex" using kept Cons.prems(1) by blast
    moreover have "\<not> (k' = k \<and> fst (use_key s k' ex' t))"
      using refused live_earlier [OF Cons.prems(1) True] by auto
    ultimately show ?thesis using Cons u by (auto simp: uses_before_expiry_def)
  next
    case False
    have "fst v \<noteq> k" if "v \<in> set (u # us)" for v
    proof
      assume "fst v = k"
      then have "unix_sec (use_time v) \<le> ex"
        using Cons.prems(3) that by (cases v) (fastforce simp: uses_before_expiry_def)
      moreover have "t \<le> use_time v" using Cons.prems(2) that u by auto
      ultimately show False using False unix_sec_mono [of t "use_time v"] by simp
    qed
    then show ?thesis by (intro no_use_no_accept) blast
  qed
qed simp

lemma accepted_at_most_once:
  assumes "sorted (map use_time us)" "uses_before_expiry k ex us"
  shows "accepted use_key s us k \<le> 1"
  using assms
proof (induction us arbitrary: s)
  case (Cons u us)
  obtain k' ex' t where u: "u = (k', ex', t)" using prod_cases3 by blast
  have tail: "sorted (map use_time us)" "uses_before_expiry k ex us"
    using Cons.prems u by (auto simp: uses_before_expiry_def)
  show ?case
  proof (cases "k' = k \<and> fst (use_key s k' ex' t)")
    case True
    then have "ex' = ex" using Cons.prems(2) u by (auto simp: uses_before_expiry_def)
    then have "live (snd (use_key s k' ex' t)) k ex" using recorded True by blast
    then show ?thesis using live_not_accepted [OF _ tail] u by auto
  next
    case False
    then show ?thesis using Cons.IH [OF tail] u by auto
  qed
qed simp

end

definition mem_live :: "mem_nonces \<Rightarrow> string \<Rightarrow> int \<Rightarrow> bool" where
  "mem_live m k sec = (case m k of None \<Rightarrow> False | Some ex \<Rightarrow> sec \<le> ex)"

interpretation mn: nonce_store Use mem_live
  by unfold_locales
    (auto simp: Use_def mem_live_def drop_expired_def Let_def split: option.splits if_splits)

text \<open>No replay. In any sequence of uses of the in-memory nonce store, interleaved over any
  keys and with a clock that does not run backwards, a key presented only up to its expiry is
  accepted at most once, although the store forgets expired keys.\<close>
theorem mem_nonces_no_replay:
  assumes "sorted (map use_time us)" "uses_before_expiry k ex us"
  shows "accepted Use s us k \<le> 1"
  using assms by (rule mn.accepted_at_most_once)

theorem mem_nonces_no_replay_witness:
  "accepted Use (\<lambda>_. None) [(''n'', 60, 0), (''m'', 9, 1), (''n'', 60, 2)] ''n'' \<le> 1"
  by (rule mem_nonces_no_replay [where ex = 60])
    (simp_all add: uses_before_expiry_def unix_sec_def nanos_per_sec_def)

end
