(* ===== verification/Capability.thy ===== *)
theory Capability
  imports Policy Crypto Nonces
begin

text \<open>
  Signed, short-lived capabilities and their sub-grants (\<^verbatim>\<open>src/policy/capability.go\<close> and
  \<^verbatim>\<open>capability_delegation.go\<close>), the revocation store (\<^verbatim>\<open>revocation.go\<close>), and the rule that
  folds a presented capability into a policy decision.  The JSON and base64url codecs are a
  \<^verbatim>\<open>cap_codec\<close> argument, the replay cache is an operation and a state threaded through.
  Times on a token are \<^verbatim>\<open>int64\<close> Unix seconds and lifetimes are computed with wrap-around.
\<close>

subsection \<open>Claims\<close>

record claims =
  cVersion :: int
  cID :: string
  Issuer :: string
  Subject :: string
  Audience :: string
  CapTools :: "string list"
  Corpora :: "string list"
  SingleUse :: bool
  IssuedAt :: int
  NotBefore :: int
  ExpiresAt :: int
  cPubKey :: string
  cSig :: string
  DelegatePub :: string
  Parent :: string

record cap_codec =
  cc_marshal :: "claims \<Rightarrow> bytes"
  cc_unmarshal :: "bytes \<Rightarrow> claims option"
  b64_encode :: "bytes \<Rightarrow> string"
  b64_decode :: "string \<Rightarrow> bytes option"

definition maxCapLifetime :: int where "maxCapLifetime = 24 * 60 * 60"
definition maxDelegationChain :: nat where "maxDelegationChain = 3"

definition cap_signingBytes :: "cap_codec \<Rightarrow> claims \<Rightarrow> bytes" where
  "cap_signingBytes cc c = cc_marshal cc (c\<lparr>cSig := []\<rparr>)"

definition decodeCapability :: "cap_codec \<Rightarrow> string \<Rightarrow> cap_error + claims" where
  "decodeCapability cc token =
     (case b64_decode cc token of
        None \<Rightarrow> Inl CapBadEncoding
      | Some raw \<Rightarrow>
          (case cc_unmarshal cc raw of
             None \<Rightarrow> Inl CapBadJSON
           | Some c \<Rightarrow> (if cVersion c \<noteq> 1 then Inl (CapBadVersion (cVersion c)) else Inr c)))"

definition validateDelegatePub :: "claims \<Rightarrow> cap_error option" where
  "validateDelegatePub c =
     (if DelegatePub c = [] then None
      else case hex_decode (DelegatePub c) of
        None \<Rightarrow> Some CapBadDelegatePub
      | Some raw \<Rightarrow>
          (if length raw \<noteq> 32 then Some CapBadDelegatePub
           else if SingleUse c then Some CapSingleUseDelegatePub else None))"

text \<open>\<^verbatim>\<open>c.ExpiresAt-c.IssuedAt > 24h\<close> in \<^verbatim>\<open>int64\<close> arithmetic.\<close>

definition lifetime_exceeded :: "claims \<Rightarrow> bool" where
  "lifetime_exceeded c = (wrap64 (ExpiresAt c - IssuedAt c) > maxCapLifetime)"

subsection \<open>Scope narrowing\<close>

definition withinScope :: "string \<Rightarrow> string list \<Rightarrow> bool" where
  "withinScope entry parent =
     (if entry \<in> set parent then True
      else if contains_any entry globChars then False
      else matchAnyGlob parent entry)"

definition scopeSubset :: "string list \<Rightarrow> string list \<Rightarrow> bool" where
  "scopeSubset child parent = (child \<noteq> [] \<and> list_all (\<lambda>e. withinScope e parent) child)"

definition checkNarrower :: "claims \<Rightarrow> claims \<Rightarrow> cap_error option" where
  "checkNarrower child parent =
     (if SingleUse parent then Some CapSingleUseDelegates
      else if DelegatePub parent = [] then Some CapNoDelegatePub
      else if Audience child \<noteq> Audience parent then Some (CapNarrowAudience (Audience child) (Audience parent))
      else if ExpiresAt child > ExpiresAt parent then Some CapNarrowExpiry
      else if \<not> scopeSubset (CapTools child) (CapTools parent) then Some CapNarrowTools
      else if Corpora parent \<noteq> [] \<and> \<not> scopeSubset (Corpora child) (Corpora parent) then Some CapNarrowCorpora
      else None)"

definition AllowsCorpus :: "claims \<Rightarrow> string \<Rightarrow> bool" where
  "AllowsCorpus c name = (if Corpora c = [] then True else matchAnyGlob (Corpora c) name)"

subsection \<open>Issuing\<close>

definition cap_id_of :: "bytes \<Rightarrow> string" where
  "cap_id_of rnd = ''cap_'' @ hex_encode rnd"

definition sign_claims :: "crypto \<Rightarrow> cap_codec \<Rightarrow> signer \<Rightarrow> claims \<Rightarrow> claims" where
  "sign_claims cr cc s c = c\<lparr>cSig := hex_encode (ed_sign cr (priv s) (cap_signingBytes cc c))\<rparr>"

definition encode_claims :: "cap_codec \<Rightarrow> claims \<Rightarrow> string" where
  "encode_claims cc c = b64_encode cc (cc_marshal cc c)"

definition issued_claims :: "signer \<Rightarrow> claims \<Rightarrow> bytes \<Rightarrow> instant \<Rightarrow> claims" where
  "issued_claims s c0 rnd now =
     c0\<lparr>cVersion := 1, IssuedAt := unix_sec now, cPubKey := PubKeyHex s,
        cID := (if cID c0 = [] then cap_id_of rnd else cID c0)\<rparr>"

definition IssueCapability :: "crypto \<Rightarrow> cap_codec \<Rightarrow> signer \<Rightarrow> claims \<Rightarrow> bytes \<Rightarrow> instant \<Rightarrow> cap_error + string" where
  "IssueCapability cr cc s c0 rnd now =
     (let c = issued_claims s c0 rnd now
      in if Subject c = [] \<or> Audience c = [] \<or> CapTools c = [] then Inl CapIncomplete
         else if Parent c \<noteq> [] then Inl CapHasParent
         else case validateDelegatePub c of
           Some err \<Rightarrow> Inl err
         | None \<Rightarrow>
             (case find (\<lambda>p. path_match p [] = None) (CapTools c) of
                Some p \<Rightarrow> Inl (CapBadGlob p)
              | None \<Rightarrow>
                  (if ExpiresAt c \<le> IssuedAt c then Inl CapNotFuture
                   else if lifetime_exceeded c then Inl CapLifetime
                   else Inr (encode_claims cc (sign_claims cr cc s c)))))"

text \<open>The depth walk of \<^verbatim>\<open>DelegateCapability\<close>: the new token would make the chain one longer.\<close>

fun delegate_depth :: "cap_codec \<Rightarrow> nat \<Rightarrow> claims \<Rightarrow> cap_error option" where
  "delegate_depth cc 0 cur = (if Parent cur = [] then None else Some CapChainDepth)"
| "delegate_depth cc (Suc n) cur =
     (if Parent cur = [] then None
      else case decodeCapability cc (Parent cur) of
        Inl e \<Rightarrow> Some (CapChain e)
      | Inr p \<Rightarrow> (if n = 0 then Some CapChainDepth else delegate_depth cc n p))"

definition DelegateCapability ::
    "crypto \<Rightarrow> cap_codec \<Rightarrow> string \<Rightarrow> signer option \<Rightarrow> claims \<Rightarrow> bytes \<Rightarrow> instant \<Rightarrow> cap_error + string" where
  "DelegateCapability cr cc parentToken delegate child0 rnd now =
     (case delegate of
        None \<Rightarrow> Inl CapNoSigner
      | Some s \<Rightarrow>
        (case decodeCapability cc parentToken of
           Inl e \<Rightarrow> Inl (CapChain e)
         | Inr parent \<Rightarrow>
           (if PubKeyHex s \<noteq> DelegatePub parent then Inl CapWrongDelegate
            else case delegate_depth cc (maxDelegationChain - 1) parent of
              Some e \<Rightarrow> Inl e
            | None \<Rightarrow>
              (if cID child0 \<noteq> [] then Inl CapCallerID
               else
                 (let child = child0\<lparr>cVersion := 1, IssuedAt := unix_sec now, Parent := parentToken,
                                     cPubKey := PubKeyHex s, cID := cap_id_of rnd\<rparr>
                  in if Subject child = [] \<or> Audience child = [] \<or> CapTools child = [] then Inl CapIncomplete
                     else case validateDelegatePub child of
                       Some e \<Rightarrow> Inl e
                     | None \<Rightarrow>
                       (if ExpiresAt child \<le> IssuedAt child then Inl CapNotFuture
                        else if lifetime_exceeded child then Inl CapLifetime
                        else case checkNarrower child parent of
                          Some e \<Rightarrow> Inl e
                        | None \<Rightarrow> Inr (encode_claims cc (sign_claims cr cc s child))))))))"

subsection \<open>Verifying\<close>

record 's verifier =
  trusted :: "string \<Rightarrow> bytes option"
  revoked :: "(string \<Rightarrow> bool) option"
  subjectRevoked :: "(string \<Rightarrow> bool) option"
  used :: "'s option"

fun pin_keys :: "string list \<Rightarrow> (string \<Rightarrow> bytes option) option" where
  "pin_keys [] = Some (\<lambda>_. None)"
| "pin_keys (h # hs) =
     (case hex_decode h of
        None \<Rightarrow> None
      | Some raw \<Rightarrow>
          (if length raw \<noteq> 32 then None
           else case pin_keys hs of None \<Rightarrow> None | Some m \<Rightarrow> Some (m(h \<mapsto> raw))))"

definition NewCapabilityVerifier :: "string list \<Rightarrow> 's verifier option" where
  "NewCapabilityVerifier keys =
     (if keys = [] then None
      else case pin_keys keys of
        None \<Rightarrow> None
      | Some m \<Rightarrow> Some \<lparr>trusted = m, revoked = None, subjectRevoked = None, used = None\<rparr>)"

definition WithRevocation :: "(string \<Rightarrow> bool) \<Rightarrow> 's verifier \<Rightarrow> 's verifier" where
  "WithRevocation f v = v\<lparr>revoked := Some f\<rparr>"

definition WithSubjectRevocation :: "(string \<Rightarrow> bool) \<Rightarrow> 's verifier \<Rightarrow> 's verifier" where
  "WithSubjectRevocation f v = v\<lparr>subjectRevoked := Some f\<rparr>"

definition WithReplayCache :: "'s \<Rightarrow> 's verifier \<Rightarrow> 's verifier" where
  "WithReplayCache u v = v\<lparr>used := Some u\<rparr>"

definition key_sig_ok :: "crypto \<Rightarrow> bytes \<Rightarrow> bytes \<Rightarrow> string \<Rightarrow> bool" where
  "key_sig_ok cr key msg sighex =
     (case hex_decode sighex of None \<Rightarrow> False | Some sg \<Rightarrow> ed_verify cr key msg sg)"

definition opt_pred :: "(string \<Rightarrow> bool) option \<Rightarrow> string \<Rightarrow> bool" where
  "opt_pred f x = (case f of None \<Rightarrow> False | Some g \<Rightarrow> g x)"

text \<open>Validity window and revocation of one token, at a Unix second.\<close>

definition currently_valid :: "'s verifier \<Rightarrow> int \<Rightarrow> claims \<Rightarrow> cap_error option" where
  "currently_valid v sec c =
     (if lifetime_exceeded c then Some CapLifetime
      else if NotBefore c \<noteq> 0 \<and> sec < NotBefore c then Some CapNotYet
      else if sec \<ge> ExpiresAt c then Some CapExpired
      else if opt_pred (revoked v) (cID c) then Some CapRevoked
      else if opt_pred (subjectRevoked v) (Subject c) then Some CapSubjectRevoked
      else None)"

definition leaf_bindings :: "claims \<Rightarrow> string \<Rightarrow> string \<Rightarrow> string \<Rightarrow> cap_error option" where
  "leaf_bindings c peerKey backend tool =
     (if peerKey = [] \<or> Subject c \<noteq> peerKey then Some CapSubject
      else if Audience c \<noteq> backend then Some (CapAudience (Audience c) backend)
      else if \<not> matchAnyGlob (CapTools c) tool then Some (CapTool tool)
      else None)"

fun collect_chain :: "cap_codec \<Rightarrow> nat \<Rightarrow> claims \<Rightarrow> cap_error + claims list" where
  "collect_chain cc n cur =
     (if Parent cur = [] then Inr [cur]
      else case n of
        0 \<Rightarrow> Inl CapChainDepth
      | Suc m \<Rightarrow>
          (case decodeCapability cc (Parent cur) of
             Inl e \<Rightarrow> Inl (CapChain e)
           | Inr p \<Rightarrow>
               (case collect_chain cc m p of Inl e \<Rightarrow> Inl e | Inr ch \<Rightarrow> Inr (cur # ch))))"

declare collect_chain.simps [simp del]

definition check_hop :: "crypto \<Rightarrow> cap_codec \<Rightarrow> claims \<Rightarrow> claims \<Rightarrow> cap_error option" where
  "check_hop cr cc child parent =
     (case checkNarrower child parent of
        Some e \<Rightarrow> Some (CapChain e)
      | None \<Rightarrow>
          (case hex_decode (DelegatePub parent) of
             None \<Rightarrow> Some CapParentKey
           | Some rawPub \<Rightarrow>
               (if length rawPub \<noteq> 32 then Some CapParentKey
                else if cPubKey child \<noteq> DelegatePub parent then Some CapNotDelegateKey
                else if \<not> key_sig_ok cr rawPub (cap_signingBytes cc child) (cSig child) then Some CapChainSig
                else None)))"

text \<open>The hops of a leaf-first chain, checked from the root.\<close>

fun check_hops :: "crypto \<Rightarrow> cap_codec \<Rightarrow> claims list \<Rightarrow> cap_error option" where
  "check_hops cr cc (child # parent # rest) =
     (case check_hops cr cc (parent # rest) of Some e \<Rightarrow> Some e | None \<Rightarrow> check_hop cr cc child parent)"
| "check_hops cr cc _ = None"

fun chain_valid :: "'s verifier \<Rightarrow> int \<Rightarrow> claims list \<Rightarrow> cap_error option" where
  "chain_valid v sec [] = None"
| "chain_valid v sec (c # cs) =
     (case currently_valid v sec c of Some e \<Rightarrow> Some e | None \<Rightarrow> chain_valid v sec cs)"

definition verifyDelegated ::
    "crypto \<Rightarrow> cap_codec \<Rightarrow> 's verifier \<Rightarrow> instant \<Rightarrow> claims \<Rightarrow> string \<Rightarrow> string \<Rightarrow> string \<Rightarrow> cap_error + claims" where
  "verifyDelegated cr cc v now leaf peerKey backend tool =
     (case collect_chain cc (maxDelegationChain - 1) leaf of
        Inl e \<Rightarrow> Inl e
      | Inr chain \<Rightarrow>
          (let root = last chain in
           case trusted v (cPubKey root) of
             None \<Rightarrow> Inl CapRootUnpinned
           | Some key \<Rightarrow>
               (if \<not> key_sig_ok cr key (cap_signingBytes cc root) (cSig root) then Inl CapRootSig
                else case check_hops cr cc chain of
                  Some e \<Rightarrow> Inl e
                | None \<Rightarrow>
                    (case chain_valid v (unix_sec now) chain of
                       Some e \<Rightarrow> Inl e
                     | None \<Rightarrow>
                         (case leaf_bindings leaf peerKey backend tool of
                            Some e \<Rightarrow> Inl e
                          | None \<Rightarrow> (if SingleUse leaf \<and> used v = None then Inl CapNoReplayCache else Inr leaf))))))"

definition verifyClaims ::
    "crypto \<Rightarrow> cap_codec \<Rightarrow> 's verifier \<Rightarrow> instant \<Rightarrow> string \<Rightarrow> string \<Rightarrow> string \<Rightarrow> string \<Rightarrow> cap_error + claims" where
  "verifyClaims cr cc v now token peerKey backend tool =
     (case decodeCapability cc token of
        Inl e \<Rightarrow> Inl e
      | Inr c \<Rightarrow>
          (if Parent c \<noteq> [] then verifyDelegated cr cc v now c peerKey backend tool
           else case trusted v (cPubKey c) of
             None \<Rightarrow> Inl CapUnpinned
           | Some key \<Rightarrow>
               (if \<not> key_sig_ok cr key (cap_signingBytes cc c) (cSig c) then Inl CapBadSig
                else case leaf_bindings c peerKey backend tool of
                  Some e \<Rightarrow> Inl e
                | None \<Rightarrow>
                    (case currently_valid v (unix_sec now) c of
                       Some e \<Rightarrow> Inl e
                     | None \<Rightarrow> (if SingleUse c \<and> used v = None then Inl CapNoReplayCache else Inr c)))))"

type_synonym 's use_op = "'s \<Rightarrow> string \<Rightarrow> int \<Rightarrow> instant \<Rightarrow> bool \<times> 's"

definition replay_key :: "crypto \<Rightarrow> claims \<Rightarrow> string" where
  "replay_key cr c =
     (if Parent c \<noteq> [] then ''cap-sig:'' @ hash_hex cr (cSig c) else ''cap-jti:'' @ cID c)"

definition Consume :: "crypto \<Rightarrow> 's use_op \<Rightarrow> 's verifier \<Rightarrow> instant \<Rightarrow> claims \<Rightarrow> cap_error option \<times> 's verifier" where
  "Consume cr use_key v now c =
     (if \<not> SingleUse c then (None, v)
      else case used v of
        None \<Rightarrow> (Some CapNoReplayCache, v)
      | Some st \<Rightarrow>
          (let (ok, st') = use_key st (replay_key cr c) (ExpiresAt c) now;
               v' = v\<lparr>used := Some st'\<rparr>
           in if ok then (None, v') else (Some (CapUsed (cID c)), v')))"

definition Verify ::
    "crypto \<Rightarrow> cap_codec \<Rightarrow> 's use_op \<Rightarrow> 's verifier \<Rightarrow> instant \<Rightarrow> string \<Rightarrow> string \<Rightarrow> string \<Rightarrow> string \<Rightarrow>
     (cap_error + claims) \<times> 's verifier" where
  "Verify cr cc use_key v now token peerKey backend tool =
     (case verifyClaims cr cc v now token peerKey backend tool of
        Inl e \<Rightarrow> (Inl e, v)
      | Inr c \<Rightarrow>
          (case Consume cr use_key v now c of
             (Some e, v') \<Rightarrow> (Inl e, v')
           | (None, v') \<Rightarrow> (Inr c, v')))"

subsection \<open>Folding a capability into a decision\<close>

definition cap_deny :: "decision \<Rightarrow> reason \<Rightarrow> decision" where
  "cap_deny dec why = zero_decision\<lparr>Outcome := OutcomeDeny, RuleID := RuleID dec, Reason := why\<rparr>"

definition FoldCapability ::
    "crypto \<Rightarrow> cap_codec \<Rightarrow> decision \<Rightarrow> 's verifier option \<Rightarrow> bool \<Rightarrow> instant \<Rightarrow> string \<Rightarrow> string \<Rightarrow> string \<Rightarrow> string \<Rightarrow>
     decision \<times> claims option" where
  "FoldCapability cr cc dec ov required now token peerKey backend tool =
     (if token = [] then
        (if required then (cap_deny dec CapRequired, None) else (dec, None))
      else case ov of
        None \<Rightarrow> (cap_deny dec CapNoVerifier, None)
      | Some v \<Rightarrow>
          (case verifyClaims cr cc v now token peerKey backend tool of
             Inl e \<Rightarrow> (cap_deny dec (CapInvalid e), None)
           | Inr c \<Rightarrow>
               (if Outcome dec = OutcomeCosign then (dec, None)
                else if Outcome dec = OutcomeDeny \<and> RuleID dec \<noteq> - 1 then (dec, None)
                else
                  (let loadBearing = (SingleUse c \<and> (required \<or> Outcome dec \<noteq> OutcomeAllow));
                       grant = zero_decision\<lparr>Allow := True, Outcome := OutcomeAllow, RuleID := RuleID dec,
                                 Reason := CapGrant (cID c) (Issuer c), AddLabels := AddLabels dec\<rparr>
                   in (grant, if loadBearing then Some c else None)))))"

subsection \<open>Revocation store\<close>

text \<open>The marker directory: whether it can be reached, and what a lookup of a marker file
  answers (present, absent, or an I/O error).\<close>

datatype lookup = Present | Absent | LookupError

record revocation_dir =
  reachable :: bool
  marker :: "string \<Rightarrow> lookup"

definition safeID :: "string \<Rightarrow> bool" where
  "safeID ident \<longleftrightarrow> ident \<noteq> [] \<and> \<not> contains_any ident [CHR ''/'', CHR 0x5C] \<and> ident \<noteq> ''.'' \<and> ident \<noteq> ''..''"

definition Revoke :: "revocation_dir \<Rightarrow> string \<Rightarrow> revocation_dir option" where
  "Revoke d ident =
     (if safeID ident then Some (d\<lparr>reachable := True, marker := (marker d)(ident @ ''.revoked'' := Present)\<rparr>) else None)"

definition IsRevoked :: "revocation_dir \<Rightarrow> string \<Rightarrow> bool" where
  "IsRevoked d ident =
     (if \<not> safeID ident then True
      else if \<not> reachable d then True
      else case marker d (ident @ ''.revoked'') of Present \<Rightarrow> True | Absent \<Rightarrow> False | LookupError \<Rightarrow> True)"

definition subjectMarker :: "crypto \<Rightarrow> string \<Rightarrow> string" where
  "subjectMarker cr pubKey = ''sub_'' @ hash_hex cr pubKey @ ''.revoked''"

definition RevokeSubject :: "crypto \<Rightarrow> revocation_dir \<Rightarrow> string \<Rightarrow> revocation_dir option" where
  "RevokeSubject cr d pubKey =
     (if pubKey = [] then None
      else Some (d\<lparr>reachable := True, marker := (marker d)(subjectMarker cr pubKey := Present)\<rparr>))"

definition IsSubjectRevoked :: "crypto \<Rightarrow> revocation_dir \<Rightarrow> string \<Rightarrow> bool" where
  "IsSubjectRevoked cr d pubKey =
     (if pubKey = [] then True
      else if \<not> reachable d then True
      else case marker d (subjectMarker cr pubKey) of Present \<Rightarrow> True | Absent \<Rightarrow> False | LookupError \<Rightarrow> True)"

subsection \<open>Narrowing is sound\<close>

lemma withinScope_sound: "withinScope e ps \<Longrightarrow> matchAnyGlob [e] v \<Longrightarrow> matchAnyGlob ps v"
proof -
  assume w: "withinScope e ps" and m: "matchAnyGlob [e] v"
  show ?thesis
  proof (cases "e \<in> set ps")
    case True
    then show ?thesis using m by (auto simp: matchAnyGlob_iff)
  next
    case False
    then have "literal e" "matchAnyGlob ps e" using w by (auto simp: withinScope_def split: if_splits)
    then show ?thesis using m matchAnyGlob_literal by metis
  qed
qed

lemma scopeSubset_sound: "scopeSubset cs ps \<Longrightarrow> matchAnyGlob cs v \<Longrightarrow> matchAnyGlob ps v"
proof -
  assume s: "scopeSubset cs ps" and "matchAnyGlob cs v"
  then obtain e where "e \<in> set cs" "matchAnyGlob [e] v" by (auto simp: matchAnyGlob_iff)
  then show ?thesis using s withinScope_sound by (auto simp: scopeSubset_def list_all_iff)
qed

text \<open>What one hop preserves.\<close>

definition narrower :: "claims \<Rightarrow> claims \<Rightarrow> bool" where
  "narrower c p \<longleftrightarrow> Audience c = Audience p \<and> ExpiresAt c \<le> ExpiresAt p \<and>
     (\<forall>t. matchAnyGlob (CapTools c) t \<longrightarrow> matchAnyGlob (CapTools p) t) \<and>
     (\<forall>n. AllowsCorpus c n \<longrightarrow> AllowsCorpus p n)"

lemma narrower_refl: "narrower c c"
  by (simp add: narrower_def)

lemma narrower_trans: "narrower a b \<Longrightarrow> narrower b c \<Longrightarrow> narrower a c"
  by (auto simp: narrower_def)

lemma checkNarrower_None:
  assumes "checkNarrower c p = None"
  shows "narrower c p" "\<not> SingleUse p" "DelegatePub p \<noteq> []"
proof -
  have s: "\<not> SingleUse p" "DelegatePub p \<noteq> []" "Audience c = Audience p" "ExpiresAt c \<le> ExpiresAt p"
      "scopeSubset (CapTools c) (CapTools p)" "Corpora p = [] \<or> scopeSubset (Corpora c) (Corpora p)"
    using assms by (auto simp: checkNarrower_def split: if_splits)
  have "AllowsCorpus p n" if "AllowsCorpus c n" for n
  proof (cases "Corpora p = []")
    case False
    then have sub: "scopeSubset (Corpora c) (Corpora p)" using s(6) by simp
    then have "Corpora c \<noteq> []" by (simp add: scopeSubset_def)
    then show ?thesis using that sub False scopeSubset_sound by (simp add: AllowsCorpus_def)
  qed (simp add: AllowsCorpus_def)
  then show "narrower c p" using s scopeSubset_sound by (auto simp: narrower_def)
  show "\<not> SingleUse p" "DelegatePub p \<noteq> []" using s by simp_all
qed

lemma check_hop_None:
  assumes "check_hop cr cc c p = None"
  shows "narrower c p" "\<not> SingleUse p" "cPubKey c = DelegatePub p"
    "hex_sig_ok cr (DelegatePub p) (cap_signingBytes cc c) (cSig c)"
  using assms checkNarrower_None [of c p]
  by (auto simp: check_hop_def hex_sig_ok_def key_sig_ok_def split: option.splits if_splits)

lemma check_hops_None:
  "check_hops cr cc chain = None \<Longrightarrow> Suc i < length chain \<Longrightarrow> check_hop cr cc (chain ! i) (chain ! Suc i) = None"
proof (induction cr cc chain arbitrary: i rule: check_hops.induct)
  case (1 cr cc child parent rest)
  then show ?case by (cases i) (auto split: option.splits)
qed auto

lemma check_hops_narrower:
  "check_hops cr cc (leaf # rest) = None \<Longrightarrow> x \<in> set (leaf # rest) \<Longrightarrow> narrower leaf x"
proof (induction rest arbitrary: leaf)
  case Nil
  then show ?case by (simp add: narrower_refl)
next
  case (Cons p rest)
  then have hop: "check_hop cr cc leaf p = None" "check_hops cr cc (p # rest) = None"
    by (auto split: option.splits)
  show ?case
  proof (cases "x = leaf")
    case False
    then have "narrower p x" using Cons hop by auto
    then show ?thesis using check_hop_None(1) [OF hop(1)] narrower_trans by blast
  qed (simp add: narrower_refl)
qed

lemma chain_valid_None: "chain_valid v sec chain = None \<longleftrightarrow> (\<forall>c\<in>set chain. currently_valid v sec c = None)"
  by (induction chain) (auto split: option.split)

lemma collect_chain_props:
  "collect_chain cc n c = Inr chain \<Longrightarrow>
     chain \<noteq> [] \<and> hd chain = c \<and> length chain \<le> Suc n \<and> Parent (last chain) = [] \<and>
     (\<forall>i. Suc i < length chain \<longrightarrow> decodeCapability cc (Parent (chain ! i)) = Inr (chain ! Suc i))"
proof (induction cc n c arbitrary: chain rule: collect_chain.induct)
  case (1 cc n cur)
  show ?case
  proof (cases "Parent cur = []")
    case True
    then show ?thesis using 1(2) by (auto simp: collect_chain.simps [of cc n cur])
  next
    case False
    then obtain m p ch where m: "n = Suc m" "decodeCapability cc (Parent cur) = Inr p"
        "collect_chain cc m p = Inr ch" "chain = cur # ch"
      using 1(2) by (auto simp: collect_chain.simps [of cc n cur] split: nat.splits sum.splits)
    have ch: "ch \<noteq> []" "hd ch = p" "length ch \<le> Suc m" "Parent (last ch) = []"
        "\<And>i. Suc i < length ch \<Longrightarrow> decodeCapability cc (Parent (ch ! i)) = Inr (ch ! Suc i)"
      using 1(1) [OF False m(1,2,3)] by auto
    have "decodeCapability cc (Parent (chain ! i)) = Inr (chain ! Suc i)" if "Suc i < length chain" for i
      using that m(2,4) ch(1,2,5) by (cases i) (auto simp: hd_conv_nth)
    then show ?thesis using m ch by auto
  qed
qed

subsection \<open>What a verified token proves\<close>

lemma leaf_bindings_None:
  "leaf_bindings c peer backend tool = None \<longleftrightarrow>
     peer \<noteq> [] \<and> Subject c = peer \<and> Audience c = backend \<and> matchAnyGlob (CapTools c) tool"
  by (auto simp: leaf_bindings_def)

lemma currently_valid_None:
  "currently_valid v sec c = None \<longleftrightarrow>
     \<not> lifetime_exceeded c \<and> (NotBefore c = 0 \<or> NotBefore c \<le> sec) \<and> sec < ExpiresAt c \<and>
     \<not> opt_pred (revoked v) (cID c) \<and> \<not> opt_pred (subjectRevoked v) (Subject c)"
  by (auto simp: currently_valid_def)

text \<open>Both verification paths, as one statement over the chain of a token.\<close>

definition chain_accepts ::
    "crypto \<Rightarrow> cap_codec \<Rightarrow> 's verifier \<Rightarrow> instant \<Rightarrow> claims list \<Rightarrow> string \<Rightarrow> string \<Rightarrow> string \<Rightarrow> bool" where
  "chain_accepts cr cc v now chain peer backend tool \<longleftrightarrow>
     (\<exists>key. trusted v (cPubKey (last chain)) = Some key \<and>
        key_sig_ok cr key (cap_signingBytes cc (last chain)) (cSig (last chain))) \<and>
     check_hops cr cc chain = None \<and> (\<forall>c\<in>set chain. currently_valid v (unix_sec now) c = None) \<and>
     leaf_bindings (hd chain) peer backend tool = None \<and>
     (SingleUse (hd chain) \<longrightarrow> used v \<noteq> None)"

lemma verifyDelegated_iff:
  "verifyDelegated cr cc v now leaf peer backend tool = Inr c \<longleftrightarrow>
     c = leaf \<and> (\<exists>chain. collect_chain cc (maxDelegationChain - 1) leaf = Inr chain \<and>
       chain_accepts cr cc v now chain peer backend tool)"
proof (cases "collect_chain cc (maxDelegationChain - 1) leaf")
  case (Inl e)
  then show ?thesis by (simp add: verifyDelegated_def)
next
  case (Inr chain)
  have "hd chain = leaf" using collect_chain_props [OF Inr] by simp
  then show ?thesis
    using Inr by (auto simp: verifyDelegated_def chain_accepts_def Let_def simp flip: chain_valid_None
        split: option.splits)
qed

lemma verifyClaims_iff:
  "verifyClaims cr cc v now token peer backend tool = Inr c \<longleftrightarrow>
     decodeCapability cc token = Inr c \<and>
     (\<exists>chain. collect_chain cc (maxDelegationChain - 1) c = Inr chain \<and>
       chain_accepts cr cc v now chain peer backend tool)"
proof (cases "decodeCapability cc token")
  case (Inl e)
  then show ?thesis by (simp add: verifyClaims_def)
next
  case (Inr d)
  show ?thesis
  proof (cases "Parent d = []")
    case True
    have "collect_chain cc (maxDelegationChain - 1) d = Inr [d]"
      using True by (simp add: collect_chain.simps)
    then show ?thesis
      using True Inr by (auto simp: verifyClaims_def chain_accepts_def split: option.splits if_splits)
  next
    case False
    then show ?thesis
      using Inr verifyDelegated_iff [of cr cc v now d peer backend tool c] by (auto simp: verifyClaims_def)
  qed
qed

text \<open>C3: A verified capability is rooted in a pinned authority and never wider than it. When a
  token verifies for a caller, backend and tool: it is the leaf of a chain of at most three
  tokens; the root is signed by a pinned key; every sub-grant is embedded in its child verbatim,
  is not single-use, and its delegate key signed the child; the leaf names exactly this caller
  (never the empty identity); and every token of the chain, root included, is for this backend,
  covers this tool, is within its validity window, is not revoked by id or by subject, and allows every corpus
  the leaf allows.\<close>
theorem verified_capability_sound:
  assumes "verifyClaims cr cc v now token peer backend tool = Inr c"
  shows "\<exists>chain key. decodeCapability cc token = Inr c \<and> chain \<noteq> [] \<and> hd chain = c \<and> length chain \<le> 3 \<and>
    trusted v (cPubKey (last chain)) = Some key \<and>
    key_sig_ok cr key (cap_signingBytes cc (last chain)) (cSig (last chain)) \<and>
    (\<forall>i. Suc i < length chain \<longrightarrow>
       decodeCapability cc (Parent (chain ! i)) = Inr (chain ! Suc i) \<and> \<not> SingleUse (chain ! Suc i) \<and>
       hex_sig_ok cr (DelegatePub (chain ! Suc i)) (cap_signingBytes cc (chain ! i)) (cSig (chain ! i))) \<and>
    peer \<noteq> [] \<and> Subject c = peer \<and>
    (\<forall>x\<in>set chain. Audience x = backend \<and> matchAnyGlob (CapTools x) tool \<and>
       unix_sec now < ExpiresAt x \<and> (NotBefore x = 0 \<or> NotBefore x \<le> unix_sec now) \<and>
       \<not> opt_pred (revoked v) (cID x) \<and> \<not> opt_pred (subjectRevoked v) (Subject x) \<and>
       (\<forall>n. AllowsCorpus c n \<longrightarrow> AllowsCorpus x n))"
proof -
  obtain chain where dec: "decodeCapability cc token = Inr c"
    and col: "collect_chain cc (maxDelegationChain - 1) c = Inr chain"
    and acc: "chain_accepts cr cc v now chain peer backend tool"
    using assms by (auto simp: verifyClaims_iff)
  note props = collect_chain_props [OF col]
  obtain key where key: "trusted v (cPubKey (last chain)) = Some key"
      "key_sig_ok cr key (cap_signingBytes cc (last chain)) (cSig (last chain))"
    using acc by (auto simp: chain_accepts_def)
  have hops: "check_hops cr cc chain = None" and leaf: "leaf_bindings c peer backend tool = None"
    and val: "\<forall>x\<in>set chain. currently_valid v (unix_sec now) x = None"
    using acc props by (auto simp: chain_accepts_def)
  have nar: "narrower c x" if "x \<in> set chain" for x
    using check_hops_narrower [of cr cc c "tl chain" x] hops that props by (cases chain) auto
  have "decodeCapability cc (Parent (chain ! i)) = Inr (chain ! Suc i) \<and> \<not> SingleUse (chain ! Suc i) \<and>
       hex_sig_ok cr (DelegatePub (chain ! Suc i)) (cap_signingBytes cc (chain ! i)) (cSig (chain ! i))"
    if "Suc i < length chain" for i
    using props that check_hop_None [OF check_hops_None [OF hops that]] by simp
  moreover have "Audience x = backend \<and> matchAnyGlob (CapTools x) tool \<and>
       unix_sec now < ExpiresAt x \<and> (NotBefore x = 0 \<or> NotBefore x \<le> unix_sec now) \<and>
       \<not> opt_pred (revoked v) (cID x) \<and> \<not> opt_pred (subjectRevoked v) (Subject x) \<and>
       (\<forall>n. AllowsCorpus c n \<longrightarrow> AllowsCorpus x n)" if "x \<in> set chain" for x
    using nar [OF that] val that leaf unfolding narrower_def leaf_bindings_None currently_valid_None by auto
  ultimately show ?thesis
    using dec props key leaf by (intro exI [of _ chain] exI [of _ key]) (simp add: maxDelegationChain_def leaf_bindings_None)
qed

subsection \<open>Single-use grants\<close>

type_synonym presentation = "instant \<times> string \<times> string \<times> string \<times> string"

text \<open>Tokens that are the same grant to the replay cache.\<close>

definition same_grant :: "crypto \<Rightarrow> claims \<Rightarrow> claims \<Rightarrow> bool" where
  "same_grant cr c c' \<longleftrightarrow> SingleUse c' \<and> replay_key cr c' = replay_key cr c \<and> ExpiresAt c' = ExpiresAt c"

text \<open>How often a sequence of presentations redeems a grant.\<close>

fun redeemed :: "crypto \<Rightarrow> cap_codec \<Rightarrow> 's use_op \<Rightarrow> 's verifier \<Rightarrow> presentation list \<Rightarrow> claims \<Rightarrow> nat" where
  "redeemed cr cc use_key v [] c = 0"
| "redeemed cr cc use_key v ((t, token, peer, backend, tool) # ps) c =
     (case Verify cr cc use_key v t token peer backend tool of
        (r, v') \<Rightarrow> (case r of Inl _ \<Rightarrow> 0 | Inr c' \<Rightarrow> if same_grant cr c c' then 1 else 0) +
                   redeemed cr cc use_key v' ps c)"

lemma Verify_Inr:
  assumes "Verify cr cc use_key v t token peer backend tool = (Inr c', v')"
  shows "unix_sec t < ExpiresAt c'"
    "SingleUse c' \<Longrightarrow> \<exists>st. used v = Some st \<and> fst (use_key st (replay_key cr c') (ExpiresAt c') t) \<and>
       used v' = Some (snd (use_key st (replay_key cr c') (ExpiresAt c') t))"
proof -
  have ver: "verifyClaims cr cc v t token peer backend tool = Inr c'"
    using assms by (auto simp: Verify_def split: sum.splits prod.splits option.splits)
  then obtain chain where "collect_chain cc (maxDelegationChain - 1) c' = Inr chain"
      "chain_accepts cr cc v t chain peer backend tool"
    by (auto simp: verifyClaims_iff)
  then show "unix_sec t < ExpiresAt c'"
    using collect_chain_props [of cc "maxDelegationChain - 1" c' chain] hd_in_set [of chain]
    by (auto simp: chain_accepts_def currently_valid_None)
  show "\<exists>st. used v = Some st \<and> fst (use_key st (replay_key cr c') (ExpiresAt c') t) \<and>
       used v' = Some (snd (use_key st (replay_key cr c') (ExpiresAt c') t))" if "SingleUse c'"
    using assms ver that
    by (auto simp: Verify_def Consume_def Let_def split: option.splits prod.splits if_splits)
qed

lemma Verify_used:
  "used (snd (Verify cr cc use_key v t token peer backend tool)) = used v \<or>
   (\<exists>st k ex. used v = Some st \<and>
      used (snd (Verify cr cc use_key v t token peer backend tool)) = Some (snd (use_key st k ex t)))"
  by (auto simp: Verify_def Consume_def Let_def split: sum.split option.split prod.split) (metis snd_conv)+

lemma redeemed_expired:
  "\<forall>p\<in>set ps. ExpiresAt c \<le> unix_sec (fst p) \<Longrightarrow> redeemed cr cc use_key v ps c = 0"
proof (induction ps arbitrary: v)
  case (Cons p ps)
  obtain t token peer backend tool where p: "p = (t, token, peer, backend, tool)" using prod_cases5 by blast
  obtain r v' where r: "Verify cr cc use_key v t token peer backend tool = (r, v')" by fastforce
  have "\<not> same_grant cr c c'" if "r = Inr c'" for c'
    using Verify_Inr(1) [of cr cc use_key v t token peer backend tool c' v'] r that Cons.prems p
    by (auto simp: same_grant_def)
  then show ?case using Cons r p by (auto split: sum.split)
qed simp

context nonce_store
begin

lemma redeemed_live:
  assumes "used v = Some st" "live st (replay_key cr c) (ExpiresAt c)" "sorted (map fst ps)"
  shows "redeemed cr cc use_key v ps c = 0"
  using assms
proof (induction ps arbitrary: v st)
  case (Cons p ps)
  obtain t token peer backend tool where p: "p = (t, token, peer, backend, tool)" using prod_cases5 by blast
  obtain r v' where r: "Verify cr cc use_key v t token peer backend tool = (r, v')" by fastforce
  show ?case
  proof (cases "unix_sec t \<le> ExpiresAt c")
    case True
    have "\<exists>st'. used v' = Some st' \<and> live st' (replay_key cr c) (ExpiresAt c)"
      using Verify_used [of cr cc use_key v t token peer backend tool] r Cons.prems(1,2) kept [OF _ True]
      by auto
    moreover have "\<not> same_grant cr c c'" if "r = Inr c'" for c'
    proof
      assume sg: "same_grant cr c c'"
      have "fst (use_key st (replay_key cr c') (ExpiresAt c') t)"
        using Verify_Inr(2) [of cr cc use_key v t token peer backend tool c' v'] r that sg Cons.prems(1)
        by (auto simp: same_grant_def)
      then show False
        using refused live_earlier [OF Cons.prems(2) True] sg by (auto simp: same_grant_def)
    qed
    ultimately show ?thesis using Cons r p by (auto split: sum.split)
  next
    case False
    have "\<forall>q\<in>set (p # ps). ExpiresAt c \<le> unix_sec (fst q)"
    proof
      fix q assume "q \<in> set (p # ps)"
      then have "t \<le> fst q" using Cons.prems(3) p by auto
      then show "ExpiresAt c \<le> unix_sec (fst q)" using False unix_sec_mono [of t "fst q"] by simp
    qed
    then show ?thesis by (rule redeemed_expired)
  qed
qed simp

lemma redeemed_at_most_once:
  assumes "sorted (map fst ps)"
  shows "redeemed cr cc use_key v ps c \<le> 1"
  using assms
proof (induction ps arbitrary: v)
  case (Cons p ps)
  obtain t token peer backend tool where p: "p = (t, token, peer, backend, tool)" using prod_cases5 by blast
  obtain r v' where r: "Verify cr cc use_key v t token peer backend tool = (r, v')" by fastforce
  show ?case
  proof (cases "\<exists>c'. r = Inr c' \<and> same_grant cr c c'")
    case True
    then obtain c' where c': "r = Inr c'" "same_grant cr c c'" by blast
    then obtain st where "fst (use_key st (replay_key cr c') (ExpiresAt c') t)"
        "used v' = Some (snd (use_key st (replay_key cr c') (ExpiresAt c') t))"
      using Verify_Inr(2) [of cr cc use_key v t token peer backend tool c' v'] r by (auto simp: same_grant_def)
    then have "redeemed cr cc use_key v' ps c = 0"
      using recorded c'(2) Cons.prems by (intro redeemed_live) (auto simp: same_grant_def)
    then show ?thesis using p r c' by simp
  next
    case False
    then show ?thesis using Cons.IH [of v'] Cons.prems p r by (auto split: sum.split)
  qed
qed simp

end

text \<open>C15: A single-use capability authorises once. Against the in-memory replay cache, through any
  sequence of presentations of any tokens with a clock that does not run backwards, a
  single-use grant, identified by the replay key and expiry of its token, is redeemed at most once.\<close>
theorem single_use_redeemed_once:
  assumes "sorted (map fst ps)"
  shows "redeemed cr cc Use v ps c \<le> 1"
  using assms by (rule mn.redeemed_at_most_once)

lemma currently_valid_used [simp]: "currently_valid (v\<lparr>used := u\<rparr>) = currently_valid v"
  by (simp add: fun_eq_iff currently_valid_def)

text \<open>The replay key of a sub-grant is malleable. The cache key of a delegated single-use
  token is a hash of its signature as written, while verification decodes the signature from
  hexadecimal in either case. So the holder of such a token can rewrite the letters of the
  signature in upper case: the rewritten token verifies wherever the original does, has another
  replay key, and the same verifier redeems both.\<close>
theorem delegated_single_use_replay:
  assumes "verifyClaims cr cc v now token peer backend tool = Inr c"
    and "Parent c \<noteq> []" "SingleUse c" "used v = Some (\<lambda>_. None)"
    and "c' = c\<lparr>cSig := map to_upper_char (cSig c)\<rparr>"
    and "decodeCapability cc token' = Inr c'"
    and "sha256 cr (cSig c') \<noteq> sha256 cr (cSig c)"
  shows "\<exists>v1 v2. Verify cr cc Use v now token peer backend tool = (Inr c, v1) \<and>
    Verify cr cc Use v1 now token' peer backend tool = (Inr c', v2)"
proof -
  obtain chain where col: "collect_chain cc (maxDelegationChain - 1) c = Inr chain"
    and acc: "chain_accepts cr cc v now chain peer backend tool"
    using assms(1) by (auto simp: verifyClaims_iff)
  note props = collect_chain_props [OF col]
  obtain rest where chain: "chain = c # rest" using props by (cases chain) auto
  have rest: "rest \<noteq> []" using props assms(2) chain by auto
  have same: "Parent c' = Parent c" "cap_signingBytes cc c' = cap_signingBytes cc c" "cPubKey c' = cPubKey c"
      "SingleUse c' = SingleUse c"
    by (simp_all add: assms(5) cap_signingBytes_def)
  have col': "collect_chain cc (maxDelegationChain - 1) c' = Inr (c' # rest)"
    using col chain same(1) unfolding maxDelegationChain_def
    by (auto simp: collect_chain.simps [of cc "Suc _"] numeral_eq_Suc split: sum.splits if_splits)
  have hop: "check_hop cr cc c p = None \<Longrightarrow> check_hop cr cc c' p = None" for p
    using hex_decode_upper by (auto simp: check_hop_def checkNarrower_def key_sig_ok_def cap_signingBytes_def assms(5)
        split: option.splits if_splits)
  have "check_hops cr cc (c' # rest) = None"
    using acc chain rest hop by (cases rest) (auto simp: chain_accepts_def split: option.splits)
  moreover have "currently_valid w sec c' = currently_valid w sec c" "leaf_bindings c' peer backend tool = leaf_bindings c peer backend tool"
    for w :: "mem_nonces verifier" and sec
    by (simp_all add: assms(5) currently_valid_def leaf_bindings_def lifetime_exceeded_def)
  ultimately have acc': "chain_accepts cr cc (v\<lparr>used := Some st\<rparr>) now (c' # rest) peer backend tool" for st
    using acc chain rest same by (simp add: chain_accepts_def)
  have key: "replay_key cr c' \<noteq> replay_key cr c"
    using assms(2,7) same(1) by (simp add: replay_key_def hash_hex_inj)
  have v1: "Verify cr cc Use v now token peer backend tool = (Inr c, v\<lparr>used := Some [replay_key cr c \<mapsto> ExpiresAt c]\<rparr>)"
    using assms(1,3,4) by (simp add: Verify_def Consume_def Use_def drop_expired_def)
  have "verifyClaims cr cc (v\<lparr>used := Some [replay_key cr c \<mapsto> ExpiresAt c]\<rparr>) now token' peer backend tool = Inr c'"
    using acc' col' assms(6) by (auto simp: verifyClaims_iff)
  then have "\<exists>v2. Verify cr cc Use (v\<lparr>used := Some [replay_key cr c \<mapsto> ExpiresAt c]\<rparr>) now token' peer backend tool = (Inr c', v2)"
    using assms(3) same(4) key by (simp add: Verify_def Consume_def Use_def drop_expired_def Let_def)
  with v1 show ?thesis by blast
qed

subsection \<open>The lifetime ceiling\<close>

text \<open>What the 24-hour ceiling rules out. For a token whose expiry lies after its issue time,
  with both times in the \<^verbatim>\<open>int64\<close> range, the check passes exactly when the lifetime is at
  most a day or when the subtraction wraps around, that is when the lifetime is \<open>2 ^ 63\<close> seconds or
  more; a token issued at or after the epoch is therefore held to the ceiling.\<close>
theorem lifetime_ceiling:
  assumes "- (2 ^ 63) \<le> IssuedAt c" "IssuedAt c < ExpiresAt c" "ExpiresAt c < 2 ^ 63"
  shows "(\<not> lifetime_exceeded c) =
      (ExpiresAt c - IssuedAt c \<le> maxCapLifetime \<or> 2 ^ 63 \<le> ExpiresAt c - IssuedAt c) \<and>
    (lifetime_exceeded c \<or> IssuedAt c < 0 \<or> ExpiresAt c - IssuedAt c \<le> 86400)"
proof (cases "ExpiresAt c - IssuedAt c < 2 ^ 63")
  case True
  then have "wrap64 (ExpiresAt c - IssuedAt c) = ExpiresAt c - IssuedAt c"
    using assms by (intro wrap64_id) auto
  then show ?thesis using True by (auto simp: lifetime_exceeded_def maxCapLifetime_def)
next
  case False
  define d where "d = ExpiresAt c - IssuedAt c"
  have d: "2 ^ 63 \<le> d" "d < 2 ^ 64" using False assms unfolding d_def by auto
  have "(d + 2 ^ 63) mod 2 ^ 64 = (d + 2 ^ 63 - 2 ^ 64) mod 2 ^ 64"
    by (metis minus_mod_self2)
  also have "\<dots> = d + 2 ^ 63 - 2 ^ 64" using d by (intro mod_pos_pos_trivial) auto
  finally have "wrap64 d < 0" using d by (simp add: wrap64_def)
  then have "\<not> lifetime_exceeded c" by (simp add: lifetime_exceeded_def maxCapLifetime_def d_def)
  then show ?thesis using False assms by auto
qed

subsection \<open>Precedence of the policy\<close>

lemma cap_deny_fields [simp]:
  "Outcome (cap_deny dec why) = OutcomeDeny" "Allow (cap_deny dec why) = False"
  "RuleID (cap_deny dec why) = RuleID dec" "Reason (cap_deny dec why) = why"
  "AddLabels (cap_deny dec why) = []" "Cost (cap_deny dec why) = 0"
  by (simp_all add: cap_deny_def zero_decision_def)

text \<open>C4: A capability never overrides the policy. If the decision after folding in a capability is
  allow, then the policy's own decision was allow, or it was the default deny (rule id -1, not a
  rule's deny and not a pending co-sign) and the token verified for this caller, backend and
  tool; on a capability-only surface the token verified in either case. The call's data-flow labels
  are those of the policy decision, and a grant is handed on for consumption only when it is single-use.\<close>
theorem capability_never_overrides_policy:
  assumes "FoldCapability cr cc dec ov required now token peer backend tool = (d, pend)"
    and "Outcome d = OutcomeAllow"
  shows "(Outcome dec = OutcomeAllow \<or> Outcome dec = OutcomeDeny \<and> RuleID dec = - 1) \<and>
    (Outcome dec = OutcomeAllow \<and> \<not> required \<and> token = [] \<or>
     (\<exists>v c. ov = Some v \<and> verifyClaims cr cc v now token peer backend tool = Inr c)) \<and>
    RuleID d = RuleID dec \<and> AddLabels d = AddLabels dec \<and> (\<forall>c\<in>set_option pend. SingleUse c)"
proof -
  have out: "Outcome dec = OutcomeAllow \<or> Outcome dec = OutcomeDeny \<or> Outcome dec = OutcomeCosign"
    by (cases "Outcome dec") auto
  show ?thesis
    using assms out
    by (auto simp: FoldCapability_def Let_def zero_decision_def split: if_splits option.splits sum.splits)
qed

text \<open>Presenting a capability erases the recorded cost. For a call the policy already allows
  at some cost, a valid capability leaves it allowed but the decision that reaches the audit
  record has cost zero, although the rate bucket was charged.\<close>
theorem capability_drops_cost:
  assumes "Outcome dec = OutcomeAllow" "token \<noteq> []"
    and "verifyClaims cr cc v now token peer backend tool = Inr c"
  shows "\<exists>d pend. FoldCapability cr cc dec (Some v) required now token peer backend tool = (d, pend) \<and>
    Outcome d = OutcomeAllow \<and> Cost d = 0"
  using assms by (simp add: FoldCapability_def zero_decision_def Let_def)

subsection \<open>Issue, then verify\<close>

lemma key_sig_ok_sign:
  "signer_ok cr s \<Longrightarrow> key_sig_ok cr (pub s) m (hex_encode (ed_sign cr (priv s) m))"
  by (simp add: key_sig_ok_def signer_ok_def key_sound_def)

text \<open>The token round-trips through the codec.\<close>

definition codec_ok :: "cap_codec \<Rightarrow> claims \<Rightarrow> bool" where
  "codec_ok cc c \<longleftrightarrow> b64_decode cc (encode_claims cc c) = Some (cc_marshal cc c) \<and>
     cc_unmarshal cc (cc_marshal cc c) = Some c"

lemma cap_signingBytes_Sig [simp]: "cap_signingBytes cc (c\<lparr>cSig := x\<rparr>) = cap_signingBytes cc c"
  by (simp add: cap_signingBytes_def)

lemma sign_claims_fields [simp]:
  "cap_signingBytes cc (sign_claims cr cc s c) = cap_signingBytes cc c"
  "cSig (sign_claims cr cc s c) = hex_encode (ed_sign cr (priv s) (cap_signingBytes cc c))"
  "cVersion (sign_claims cr cc s c) = cVersion c" "cID (sign_claims cr cc s c) = cID c"
  "Subject (sign_claims cr cc s c) = Subject c" "Audience (sign_claims cr cc s c) = Audience c"
  "CapTools (sign_claims cr cc s c) = CapTools c" "SingleUse (sign_claims cr cc s c) = SingleUse c"
  "NotBefore (sign_claims cr cc s c) = NotBefore c" "ExpiresAt (sign_claims cr cc s c) = ExpiresAt c"
  "IssuedAt (sign_claims cr cc s c) = IssuedAt c" "cPubKey (sign_claims cr cc s c) = cPubKey c"
  "Parent (sign_claims cr cc s c) = Parent c"
  by (simp_all add: sign_claims_def)

lemma decode_encode:
  "codec_ok cc c \<Longrightarrow> cVersion c = 1 \<Longrightarrow> decodeCapability cc (encode_claims cc c) = Inr c"
  by (simp add: codec_ok_def decodeCapability_def)

text \<open>A token an authority issues is accepted by every verifier that pins it. For a signer whose
  signatures verify and a codec that round-trips the token, what \<^verbatim>\<open>IssueCapability\<close> returns
  verifies for its subject, audience and any tool its globs cover, at any time from its
  validity start until its expiry, unless it is revoked or is single-use and the verifier has
  no replay cache.\<close>
theorem issued_capability_verifies:
  assumes "IssueCapability cr cc s c0 rnd t0 = Inr token" "signer_ok cr s"
    and "codec_ok cc (sign_claims cr cc s (issued_claims s c0 rnd t0))"
    and "trusted v (PubKeyHex s) = Some (pub s)"
    and "matchAnyGlob (CapTools c0) tool" "NotBefore c0 = 0 \<or> NotBefore c0 \<le> unix_sec now" "unix_sec now < ExpiresAt c0"
    and "\<forall>i. \<not> opt_pred (revoked v) i" "\<forall>p. \<not> opt_pred (subjectRevoked v) p"
    and "SingleUse c0 \<longrightarrow> used v \<noteq> None"
  shows "\<exists>c. verifyClaims cr cc v now token (Subject c0) (Audience c0) tool = Inr c \<and>
    ExpiresAt c = ExpiresAt c0 \<and> IssuedAt c = unix_sec t0 \<and> CapTools c = CapTools c0"
proof -
  define c where "c = issued_claims s c0 rnd t0"
  have issue: "token = encode_claims cc (sign_claims cr cc s c)" "Subject c \<noteq> []" "Parent c = []" "\<not> lifetime_exceeded c"
    using assms(1) by (auto simp: IssueCapability_def Let_def split: if_splits option.splits simp flip: c_def)
  have dec: "decodeCapability cc token = Inr (sign_claims cr cc s c)"
    using assms(3) issue(1) by (simp add: decode_encode c_def issued_claims_def)
  have "lifetime_exceeded (sign_claims cr cc s c) = lifetime_exceeded c" by (simp add: lifetime_exceeded_def)
  then have "currently_valid v (unix_sec now) (sign_claims cr cc s c) = None"
    using issue(4) assms(6-9) by (simp add: currently_valid_None) (simp add: c_def issued_claims_def)
  moreover have "leaf_bindings (sign_claims cr cc s c) (Subject c0) (Audience c0) tool = None"
    using issue(2) assms(5) by (simp add: leaf_bindings_None) (simp add: c_def issued_claims_def)
  moreover have "trusted v (cPubKey c) = Some (pub s)" using assms(4) by (simp add: c_def issued_claims_def)
  moreover have "SingleUse c = SingleUse c0" by (simp add: c_def issued_claims_def)
  ultimately have "chain_accepts cr cc v now [sign_claims cr cc s c] (Subject c0) (Audience c0) tool"
    using key_sig_ok_sign [OF assms(2)] assms(10) by (simp add: chain_accepts_def)
  moreover have "collect_chain cc (maxDelegationChain - 1) (sign_claims cr cc s c) = Inr [sign_claims cr cc s c]"
    using issue(3) by (simp add: collect_chain.simps)
  ultimately have "verifyClaims cr cc v now token (Subject c0) (Audience c0) tool = Inr (sign_claims cr cc s c)"
    using dec by (auto simp: verifyClaims_iff)
  then show ?thesis by (intro exI [of _ "sign_claims cr cc s c"]) (simp add: c_def issued_claims_def)
qed

subsection \<open>Revocation fails closed\<close>

text \<open>Revocation is a kill switch that fails closed. With the marker directory as the verifier's
  revocation predicate, a token verifies only when the directory is reachable and it has no marker
  for the token; and once an id is revoked no later verification accepts a token with that
  id, alone or as a delegated leaf, whatever else changes in the directory short of removing
  the marker.\<close>
theorem revocation_fails_closed:
  assumes "revoked v = Some (IsRevoked d)"
    and "verifyClaims cr cc v now token peer backend tool = Inr c"
  shows "reachable d \<and> marker d (cID c @ ''.revoked'') = Absent \<and>
    (\<forall>d'\<in>set_option (Revoke d (cID c)). \<forall>d2. marker d2 (cID c @ ''.revoked'') = marker d' (cID c @ ''.revoked'') \<longrightarrow>
       (\<forall>t pr bk tl. verifyClaims cr cc (v\<lparr>revoked := Some (IsRevoked d2)\<rparr>) t token pr bk tl \<noteq> Inr c))"
proof -
  have ok: "\<not> opt_pred (revoked w) (cID c)"
    if "verifyClaims cr cc w t token pr bk tl = Inr c" for w :: "'a verifier" and t pr bk tl
    using that collect_chain_props hd_in_set by (fastforce simp: verifyClaims_iff chain_accepts_def currently_valid_None)
  have "\<not> IsRevoked d (cID c)" using ok [OF assms(2)] assms(1) by (simp add: opt_pred_def)
  then have "reachable d \<and> marker d (cID c @ ''.revoked'') = Absent"
    by (auto simp: IsRevoked_def split: if_splits lookup.splits)
  moreover have "IsRevoked d2 (cID c)" if "marker d2 (cID c @ ''.revoked'') = Present" for d2
    using that by (simp add: IsRevoked_def)
  ultimately show ?thesis
    using ok by (fastforce simp: Revoke_def opt_pred_def split: if_splits)
qed

subsection \<open>Concrete tokens\<close>

text \<open>An authority token for \<^verbatim>\<open>alice\<close> and a single-use sub-grant of it for \<^verbatim>\<open>bob\<close>; the codec writes a
  token as its id.\<close>

definition demo_base :: claims where
  "demo_base = \<lparr>cVersion = 1, cID = ''root'', Issuer = ''ca'', Subject = ''alice'', Audience = ''be'', CapTools = [''*''],
     Corpora = [], SingleUse = False, IssuedAt = 0, NotBefore = 0, ExpiresAt = 100,
     cPubKey = PubKeyHex demo_signer, cSig = [], DelegatePub = PubKeyHex demo_signer, Parent = []\<rparr>"

definition demo_marshal :: "claims \<Rightarrow> bytes" where "demo_marshal c = cID c"

definition demo_sign :: "claims \<Rightarrow> claims" where
  "demo_sign c = c\<lparr>cSig := hex_encode (pub demo_signer @ cID c)\<rparr>"

definition demo_root :: claims where "demo_root = demo_sign demo_base"

definition demo_leaf :: claims where
  "demo_leaf = demo_sign (demo_base\<lparr>cID := ''leaf'', Subject := ''bob'', CapTools := [''read''], SingleUse := True,
     DelegatePub := [], Parent := ''root''\<rparr>)"

definition demo_leaf2 :: claims where
  "demo_leaf2 = demo_leaf\<lparr>cSig := map to_upper_char (cSig demo_leaf)\<rparr>"

definition demo_cap_codec :: cap_codec where
  "demo_cap_codec = \<lparr>cc_marshal = demo_marshal,
     cc_unmarshal = (\<lambda>b. if b = ''root'' then Some demo_root else if b = ''leaf'' then Some demo_leaf
                         else if b = ''LEAF'' then Some demo_leaf2 else None),
     b64_encode = (\<lambda>b. b), b64_decode = Some\<rparr>"

definition demo_verifier :: "mem_nonces verifier" where
  "demo_verifier = \<lparr>trusted = [PubKeyHex demo_signer \<mapsto> pub demo_signer], revoked = None, subjectRevoked = None,
     used = Some (\<lambda>_. None)\<rparr>"

lemmas demo_cap_defs = demo_root_def demo_leaf_def demo_leaf2_def demo_sign_def demo_base_def

lemma demo_decode:
  "decodeCapability demo_cap_codec ''root'' = Inr demo_root"
  "decodeCapability demo_cap_codec ''leaf'' = Inr demo_leaf"
  "decodeCapability demo_cap_codec ''LEAF'' = Inr demo_leaf2"
  by (simp_all add: decodeCapability_def demo_cap_codec_def) (simp_all add: demo_cap_defs)

lemma demo_signed:
  "key_sig_ok demo_crypto (pub demo_signer) (cap_signingBytes demo_cap_codec demo_root) (cSig demo_root)"
  "key_sig_ok demo_crypto (pub demo_signer) (cap_signingBytes demo_cap_codec demo_leaf) (cSig demo_leaf)"
  by (simp_all add: key_sig_ok_def cap_signingBytes_def demo_cap_codec_def demo_marshal_def demo_cap_defs)

lemma demo_scope: "scopeSubset [''read''] [''*'']"
  by (simp add: scopeSubset_def withinScope_def matchAnyGlob_iff contains_any_def globChars_def)

lemma demo_hop: "check_hop demo_crypto demo_cap_codec demo_leaf demo_root = None"
proof -
  have f: "SingleUse demo_root = False" "DelegatePub demo_root = PubKeyHex demo_signer" "Corpora demo_root = []"
      "Audience demo_leaf = Audience demo_root" "ExpiresAt demo_leaf = ExpiresAt demo_root"
      "CapTools demo_leaf = [''read'']" "CapTools demo_root = [''*'']" "cPubKey demo_leaf = PubKeyHex demo_signer"
    by (simp_all add: demo_cap_defs)
  then show ?thesis using demo_pub demo_scope demo_signed(2) by (simp add: check_hop_def checkNarrower_def)
qed

lemma demo_leaf_verifies:
  "verifyClaims demo_crypto demo_cap_codec demo_verifier 5 ''leaf'' ''bob'' ''be'' ''read'' = Inr demo_leaf"
proof -
  have f: "Parent demo_leaf = ''root''" "Parent demo_root = []" "cPubKey demo_root = PubKeyHex demo_signer"
    by (simp_all add: demo_cap_defs)
  have val: "currently_valid demo_verifier (unix_sec 5) demo_leaf = None" "currently_valid demo_verifier (unix_sec 5) demo_root = None"
    by (simp_all add: currently_valid_def demo_verifier_def opt_pred_def lifetime_exceeded_def demo_cap_defs
        unix_sec_def nanos_per_sec_def maxCapLifetime_def)
  have bind: "leaf_bindings demo_leaf ''bob'' ''be'' ''read'' = None"
    by (simp add: leaf_bindings_def matchAnyGlob_iff demo_cap_defs)
  have "collect_chain demo_cap_codec 2 demo_leaf = Inr [demo_leaf, demo_root]"
    using f demo_decode by (simp add: collect_chain.simps numeral_eq_Suc)
  moreover have "chain_accepts demo_crypto demo_cap_codec demo_verifier 5 [demo_leaf, demo_root] ''bob'' ''be'' ''read''"
    using val bind f demo_hop demo_signed(1) by (simp add: chain_accepts_def) (simp add: demo_verifier_def)
  ultimately show ?thesis
    using demo_decode by (simp add: verifyClaims_iff maxDelegationChain_def)
qed

theorem verified_capability_sound_witness:
  "\<exists>chain. hd chain = demo_leaf \<and> length chain \<le> 3 \<and> (\<forall>x\<in>set chain. matchAnyGlob (CapTools x) ''read'')"
  using verified_capability_sound [OF demo_leaf_verifies] by blast

theorem single_use_redeemed_once_witness:
  "redeemed demo_crypto demo_cap_codec Use demo_verifier
     [(5, ''leaf'', ''bob'', ''be'', ''read''), (6, ''leaf'', ''bob'', ''be'', ''read'')] demo_leaf \<le> 1"
  by (rule single_use_redeemed_once) simp

lemma demo_sig_differs: "cSig demo_leaf2 \<noteq> cSig demo_leaf"
proof -
  have "pub demo_signer = CHR ''k'' # replicate 31 (CHR ''k'')"
    by (simp add: demo_signer_def flip: replicate_Suc)
  moreover have "hex_digit (of_char (CHR ''k'') mod 16) = CHR ''b''" by (simp add: hex_digit_def)
  ultimately have "cSig demo_leaf ! 1 = CHR ''b''" "1 < length (cSig demo_leaf)"
    by (simp_all add: demo_leaf_def demo_sign_def)
  moreover have "(of_char (to_upper_char (CHR ''b'')) :: nat) \<noteq> of_char (CHR ''b'')"
    by (simp add: to_upper_char_def)
  then have "to_upper_char (CHR ''b'') \<noteq> CHR ''b''" by metis
  ultimately have "cSig demo_leaf2 ! 1 \<noteq> cSig demo_leaf ! 1" by (simp add: demo_leaf2_def)
  then show ?thesis by auto
qed

theorem delegated_single_use_replay_witness:
  "\<exists>v1 v2. Verify demo_crypto demo_cap_codec Use demo_verifier 5 ''leaf'' ''bob'' ''be'' ''read'' = (Inr demo_leaf, v1) \<and>
    Verify demo_crypto demo_cap_codec Use v1 5 ''LEAF'' ''bob'' ''be'' ''read'' = (Inr demo_leaf2, v2)"
proof (rule delegated_single_use_replay [OF demo_leaf_verifies])
  show "Parent demo_leaf \<noteq> []" "SingleUse demo_leaf" by (simp_all add: demo_cap_defs)
  show "used demo_verifier = Some (\<lambda>_. None)" by (simp add: demo_verifier_def)
  show "demo_leaf2 = demo_leaf\<lparr>cSig := map to_upper_char (cSig demo_leaf)\<rparr>" by (simp add: demo_leaf2_def)
  show "decodeCapability demo_cap_codec ''LEAF'' = Inr demo_leaf2" by (rule demo_decode)
  show "sha256 demo_crypto (cSig demo_leaf2) \<noteq> sha256 demo_crypto (cSig demo_leaf)"
    using demo_sig_differs by simp
qed

theorem lifetime_ceiling_witness:
  "\<not> lifetime_exceeded demo_root \<and> \<not> lifetime_exceeded (demo_root\<lparr>IssuedAt := - (2 ^ 63), ExpiresAt := 2 ^ 63 - 1\<rparr>)"
  using lifetime_ceiling [of demo_root] lifetime_ceiling [of "demo_root\<lparr>IssuedAt := - (2 ^ 63), ExpiresAt := 2 ^ 63 - 1\<rparr>"]
  by (auto simp: demo_cap_defs maxCapLifetime_def)

definition default_deny :: decision where
  "default_deny = plain_verdict (- 1) False"

theorem capability_never_overrides_policy_witness:
  "\<exists>d pend. FoldCapability demo_crypto demo_cap_codec default_deny (Some demo_verifier) True 5 ''leaf'' ''bob'' ''be'' ''read'' = (d, pend) \<and>
     Outcome d = OutcomeAllow \<and> RuleID d = - 1 \<and> (\<forall>c\<in>set_option pend. SingleUse c)"
proof -
  define r where "r = FoldCapability demo_crypto demo_cap_codec default_deny (Some demo_verifier) True 5 ''leaf'' ''bob'' ''be'' ''read''"
  have "Outcome (fst r) = OutcomeAllow"
    by (simp add: r_def FoldCapability_def demo_leaf_verifies default_deny_def Let_def zero_decision_def)
  then have "(\<forall>c\<in>set_option (snd r). SingleUse c)" "RuleID (fst r) = - 1"
    using capability_never_overrides_policy [of demo_crypto demo_cap_codec default_deny "Some demo_verifier" True 5
        "''leaf''" "''bob''" "''be''" "''read''" "fst r" "snd r"]
    by (simp_all add: r_def default_deny_def)
  with \<open>Outcome (fst r) = OutcomeAllow\<close> show ?thesis
    by (intro exI [of _ "fst r"] exI [of _ "snd r"]) (simp flip: r_def)
qed

theorem capability_drops_cost_witness:
  "\<exists>d pend. FoldCapability demo_crypto demo_cap_codec (plain_verdict 0 True\<lparr>Cost := 10\<rparr>) (Some demo_verifier) False 5
      ''leaf'' ''bob'' ''be'' ''read'' = (d, pend) \<and> Outcome d = OutcomeAllow \<and> Cost d = 0"
  by (rule capability_drops_cost [OF _ _ demo_leaf_verifies]) simp_all

theorem issued_capability_verifies_witness:
  "\<exists>c. verifyClaims demo_crypto demo_cap_codec demo_verifier 7 ''root'' ''alice'' ''be'' ''anything'' = Inr c \<and>
    ExpiresAt c = 100 \<and> IssuedAt c = 0 \<and> CapTools c = [''*'']"
proof -
  have ic: "issued_claims demo_signer demo_base [] 0 = demo_base"
    by (simp add: issued_claims_def demo_base_def unix_sec_def)
  have sc: "sign_claims demo_crypto demo_cap_codec demo_signer demo_base = demo_root"
    by (simp add: sign_claims_def demo_root_def demo_sign_def cap_signingBytes_def demo_cap_codec_def demo_marshal_def)
      (simp add: demo_signer_def demo_base_def)
  have tok: "encode_claims demo_cap_codec demo_root = ''root''"
    by (simp add: encode_claims_def demo_cap_codec_def demo_marshal_def) (simp add: demo_cap_defs)
  have "path_match ''*'' [] = Some True" by (simp add: path_match_star)
  then have iss: "IssueCapability demo_crypto demo_cap_codec demo_signer demo_base [] 0 = Inr ''root''"
    using demo_pub ic sc tok
    by (simp add: IssueCapability_def Let_def validateDelegatePub_def)
      (simp add: demo_base_def lifetime_exceeded_def maxCapLifetime_def)
  have ck: "codec_ok demo_cap_codec (sign_claims demo_crypto demo_cap_codec demo_signer (issued_claims demo_signer demo_base [] 0))"
    using ic sc tok by (simp add: codec_ok_def demo_cap_codec_def demo_marshal_def) (simp add: demo_cap_defs)
  show ?thesis
    using issued_capability_verifies [OF iss demo_signer_ok ck, of demo_verifier "''anything''" 7]
    by (simp add: demo_verifier_def demo_base_def matchAnyGlob_iff opt_pred_def unix_sec_def nanos_per_sec_def)
qed

theorem revocation_fails_closed_witness:
  "reachable \<lparr>reachable = True, marker = (\<lambda>_. Absent)\<rparr> \<and>
   verifyClaims demo_crypto demo_cap_codec
     (demo_verifier\<lparr>revoked := Some (IsRevoked \<lparr>reachable = True, marker = (\<lambda>_. Present)\<rparr>)\<rparr>) 5 ''leaf'' ''bob'' ''be'' ''read'' \<noteq> Inr demo_leaf"
proof -
  define d where "d = \<lparr>reachable = True, marker = (\<lambda>_. Absent)\<rparr>"
  define w where "w = demo_verifier\<lparr>revoked := Some (IsRevoked d)\<rparr>"
  have rv: "revoked w = Some (IsRevoked d)" by (simp add: w_def)
  have ids: "cID demo_leaf = ''leaf''" "cID demo_root = ''root''" by (simp_all add: demo_cap_defs)
  have safe: "safeID ''leaf''" "safeID ''root''" by (simp_all add: safeID_def contains_any_def)
  obtain chain where ch: "collect_chain demo_cap_codec 2 demo_leaf = Inr chain"
      "chain_accepts demo_crypto demo_cap_codec demo_verifier 5 chain ''bob'' ''be'' ''read''"
    using demo_leaf_verifies by (auto simp: verifyClaims_iff maxDelegationChain_def)
  have "collect_chain demo_cap_codec 2 demo_leaf = Inr [demo_leaf, demo_root]"
    using demo_decode by (simp add: collect_chain.simps numeral_eq_Suc demo_leaf_def demo_root_def demo_sign_def demo_base_def)
  then have chain: "chain = [demo_leaf, demo_root]" using ch(1) by simp
  have "currently_valid w sec x = None" if "x \<in> set chain" "currently_valid demo_verifier sec x = None" for x sec
    using that ids safe chain by (auto simp: currently_valid_None w_def opt_pred_def IsRevoked_def d_def demo_verifier_def)
  then have "chain_accepts demo_crypto demo_cap_codec w 5 chain ''bob'' ''be'' ''read''"
    using ch(2) by (auto simp: chain_accepts_def w_def)
  then have ver: "verifyClaims demo_crypto demo_cap_codec w 5 ''leaf'' ''bob'' ''be'' ''read'' = Inr demo_leaf"
    using ch(1) demo_decode by (auto simp: verifyClaims_iff maxDelegationChain_def)
  have "Revoke d ''leaf'' = Some (d\<lparr>reachable := True, marker := (marker d)(''leaf'' @ ''.revoked'' := Present)\<rparr>)"
    using safe by (simp add: Revoke_def)
  with revocation_fails_closed [OF rv ver] show ?thesis
    by (simp add: ids w_def d_def)
qed

end
