(* ===== verification/Delegation.thy ===== *)
theory Delegation
  imports Policy Crypto Nonces Approval
begin

text \<open>
  Router delegation (\<^verbatim>\<open>src/policy/delegation.go\<close>, \<^verbatim>\<open>delegation_wire.go\<close>): a signed per-call
  token lets a router act for one caller on one upstream hop; the upstream allows the call only
  when the token verifies and both the caller and the router are allowed by its own policy.
  Replay protection is the nonce-store interface of theory \<^verbatim>\<open>Nonces\<close>.
\<close>

definition maxDelegationLifetime :: duration where "maxDelegationLifetime = 5 * minute"

record deleg_token =
  DTVersion :: int
  DTNonce :: string
  DTCaller :: string
  DTRouter :: string
  DTAudience :: string
  DTBackend :: string
  DTTool :: string
  DTReqHash :: string
  DTIssuedAt :: int
  DTExpiresAt :: int
  DTPubKey :: string
  DTSig :: string

record deleg_codec =
  dc_marshal :: "deleg_token \<Rightarrow> bytes"
  dc_unmarshal :: "bytes \<Rightarrow> deleg_token option"
  dc_b64_encode :: "bytes \<Rightarrow> string"
  dc_b64_decode :: "string \<Rightarrow> bytes option"

record deleg_claims =
  DCCaller :: string
  DCRouter :: string
  DCAudience :: string
  DCBackend :: string
  DCTool :: string
  DCArgs :: bytes
  DCExpiresAt :: "instant option"

record deleg_request =
  DRRouter :: string
  DRAudience :: string
  DRBackend :: string
  DRTool :: string
  DRArgs :: bytes

definition dt_signingBytes :: "deleg_codec \<Rightarrow> deleg_token \<Rightarrow> bytes" where
  "dt_signingBytes dc t = dc_marshal dc (t\<lparr>DTSig := []\<rparr>)"

text \<open>\<^verbatim>\<open>IssueDelegation\<close>; an absent expiry is Go's zero time, the nonce is drawn by the caller.\<close>

definition IssueDelegation ::
    "crypto \<Rightarrow> deleg_codec \<Rightarrow> (bytes \<Rightarrow> string) \<Rightarrow> signer \<Rightarrow> deleg_claims \<Rightarrow> string \<Rightarrow> instant \<Rightarrow> deleg_error + deleg_token" where
  "IssueDelegation cr dc ahash s c nonce now =
     (if DCCaller c = [] \<or> DCRouter c = [] \<or> DCAudience c = [] \<or> DCBackend c = [] \<or> DCTool c = []
      then Inl DelIncomplete
      else let ex = (case DCExpiresAt c of
                        None \<Rightarrow> now + maxDelegationLifetime
                      | Some x \<Rightarrow> (if x > now + maxDelegationLifetime then now + maxDelegationLifetime else x));
               t = \<lparr>DTVersion = 1, DTNonce = nonce, DTCaller = DCCaller c, DTRouter = DCRouter c,
                    DTAudience = DCAudience c, DTBackend = DCBackend c, DTTool = DCTool c,
                    DTReqHash = ahash (DCArgs c), DTIssuedAt = unix_sec now, DTExpiresAt = unix_sec ex,
                    DTPubKey = PubKeyHex s, DTSig = []\<rparr>
           in Inr (t\<lparr>DTSig := hex_encode (ed_sign cr (priv s) (dt_signingBytes dc t))\<rparr>))"

definition VerifyDelegation ::
    "crypto \<Rightarrow> deleg_codec \<Rightarrow> (bytes \<Rightarrow> string) \<Rightarrow> ('s \<Rightarrow> string \<Rightarrow> int \<Rightarrow> instant \<Rightarrow> bool \<times> 's) \<Rightarrow>
     deleg_token \<Rightarrow> string \<Rightarrow> deleg_request \<Rightarrow> instant \<Rightarrow> 's option \<Rightarrow> deleg_error option \<times> 's option" where
  "VerifyDelegation cr dc ahash use_key tok expectAuthority req now nonces =
     (if DTVersion tok \<noteq> 1 then (Some (DelVersion (DTVersion tok)), nonces)
      else if expectAuthority = [] \<or> DTPubKey tok \<noteq> expectAuthority then (Some DelSigner, nonces)
      else case hex_decode (DTPubKey tok) of
        None \<Rightarrow> (Some DelKey, nonces)
      | Some pk \<Rightarrow>
          (if length pk \<noteq> 32 then (Some DelKey, nonces)
           else if (case hex_decode (DTSig tok) of None \<Rightarrow> True | Some sg \<Rightarrow> \<not> ed_verify cr pk (dt_signingBytes dc tok) sg)
             then (Some DelSig, nonces)
           else if DTRouter tok \<noteq> DRRouter req then (Some DelRouter, nonces)
           else if DTAudience tok \<noteq> DRAudience req then (Some (DelAudience (DTAudience tok) (DRAudience req)), nonces)
           else if DTBackend tok \<noteq> DRBackend req \<or> DTTool tok \<noteq> DRTool req then (Some DelBackendTool, nonces)
           else if DTReqHash tok \<noteq> ahash (DRArgs req) then (Some DelArgs, nonces)
           else if wrap64 (DTExpiresAt tok - DTIssuedAt tok) > maxDelegationLifetime div nanos_per_sec
             then (Some DelLifetime, nonces)
           else if unix_sec now > DTExpiresAt tok then (Some DelExpired, nonces)
           else case nonces of
             None \<Rightarrow> (None, None)
           | Some st \<Rightarrow>
               (let (ok, st') = use_key st (DTNonce tok) (DTExpiresAt tok) now
                in if ok then (None, Some st') else (Some DelReplay, Some st'))))"

definition AuthorizeDelegated :: "decision \<Rightarrow> decision \<Rightarrow> deleg_error option \<Rightarrow> decision" where
  "AuthorizeDelegated callerDec routerDec delegationErr =
     (case delegationErr of
        Some e \<Rightarrow> zero_decision\<lparr>Outcome := OutcomeDeny, RuleID := - 1, Reason := DelegInvalid e\<rparr>
      | None \<Rightarrow>
          (if Outcome routerDec \<noteq> OutcomeAllow then
             zero_decision\<lparr>Outcome := OutcomeDeny, RuleID := RuleID routerDec,
               Reason := RouterDenied (if Reason routerDec = NoReason then RouterNotPermitted else Reason routerDec)\<rparr>
           else if Outcome callerDec \<noteq> OutcomeAllow then
             zero_decision\<lparr>Outcome := OutcomeDeny, RuleID := RuleID callerDec,
               Reason := CallerDenied (if Reason callerDec = NoReason then CallerNotPermitted else Reason callerDec)\<rparr>
           else
             zero_decision\<lparr>Allow := True, Outcome := OutcomeAllow, RuleID := RuleID callerDec, Reason := DelegAllowed,
               Cost := (if Cost routerDec > Cost callerDec then Cost routerDec else Cost callerDec)\<rparr>))"

subsection \<open>The wire verifier\<close>

definition EncodeDelegation :: "deleg_codec \<Rightarrow> deleg_token \<Rightarrow> string" where
  "EncodeDelegation dc t = dc_b64_encode dc (dc_marshal dc t)"

definition DecodeDelegation :: "deleg_codec \<Rightarrow> string \<Rightarrow> deleg_error + deleg_token" where
  "DecodeDelegation dc enc =
     (case dc_b64_decode dc enc of
        None \<Rightarrow> Inl DelBadEncoding
      | Some raw \<Rightarrow> (case dc_unmarshal dc raw of None \<Rightarrow> Inl DelBadJSON | Some t \<Rightarrow> Inr t))"

record 's deleg_verifier =
  pins :: "string list"
  dv_audience :: string
  dv_nonces :: 's

definition NewDelegationVerifier :: "string list \<Rightarrow> string \<Rightarrow> 's option \<Rightarrow> 's deleg_verifier option" where
  "NewDelegationVerifier keys aud nonces =
     (if aud = [] then None
      else case nonces of
        None \<Rightarrow> None
      | Some st \<Rightarrow>
          (if list_ex (\<lambda>h. case hex_decode h of None \<Rightarrow> True | Some raw \<Rightarrow> length raw \<noteq> 32) keys then None
           else if keys = [] then None
           else Some \<lparr>pins = keys, dv_audience = aud, dv_nonces = st\<rparr>))"

text \<open>\<^verbatim>\<open>Check\<close>: the decoded token (Go's zero token when it does not decode), the error if any,
  and the verifier with its updated nonce store.\<close>

definition zero_token :: deleg_token where
  "zero_token = \<lparr>DTVersion = 0, DTNonce = [], DTCaller = [], DTRouter = [], DTAudience = [], DTBackend = [],
     DTTool = [], DTReqHash = [], DTIssuedAt = 0, DTExpiresAt = 0, DTPubKey = [], DTSig = []\<rparr>"

definition Check ::
    "crypto \<Rightarrow> deleg_codec \<Rightarrow> (bytes \<Rightarrow> string) \<Rightarrow> ('s \<Rightarrow> string \<Rightarrow> int \<Rightarrow> instant \<Rightarrow> bool \<times> 's) \<Rightarrow> 's deleg_verifier \<Rightarrow>
     instant \<Rightarrow> string \<Rightarrow> string \<Rightarrow> string \<Rightarrow> string \<Rightarrow> bytes \<Rightarrow> (deleg_token \<times> deleg_error option) \<times> 's deleg_verifier" where
  "Check cr dc ahash use_key v now enc router backend tool args =
     (case DecodeDelegation dc enc of
        Inl e \<Rightarrow> ((zero_token, Some e), v)
      | Inr tok \<Rightarrow>
          (let pin = (if DTPubKey tok \<in> set (pins v) then DTPubKey tok else []);
               req = \<lparr>DRRouter = router, DRAudience = dv_audience v, DRBackend = backend, DRTool = tool, DRArgs = args\<rparr>;
               (err, ns) = VerifyDelegation cr dc ahash use_key tok pin req now (Some (dv_nonces v))
           in ((tok, err), (case ns of None \<Rightarrow> v | Some st \<Rightarrow> v\<lparr>dv_nonces := st\<rparr>))))"

subsection \<open>Properties\<close>

lemma AuthorizeDelegated_Allow_iff:
  "Outcome (AuthorizeDelegated cd rd err) = OutcomeAllow \<longleftrightarrow>
     err = None \<and> Outcome rd = OutcomeAllow \<and> Outcome cd = OutcomeAllow"
  by (simp add: AuthorizeDelegated_def zero_decision_def split: option.split)

lemma AuthorizeDelegated_labels: "AddLabels (AuthorizeDelegated cd rd err) = []"
  by (simp add: AuthorizeDelegated_def zero_decision_def split: option.split)

lemma VerifyDelegation_None:
  assumes "VerifyDelegation cr dc ahash use_key tok pin req now ns = (None, ns')"
  shows "DTVersion tok = 1 \<and> pin \<noteq> [] \<and> DTPubKey tok = pin \<and>
    hex_sig_ok cr pin (dt_signingBytes dc tok) (DTSig tok) \<and>
    DTRouter tok = DRRouter req \<and> DTAudience tok = DRAudience req \<and> DTBackend tok = DRBackend req \<and>
    DTTool tok = DRTool req \<and> DTReqHash tok = ahash (DRArgs req) \<and> unix_sec now \<le> DTExpiresAt tok"
    "\<And>st. ns = Some st \<Longrightarrow> fst (use_key st (DTNonce tok) (DTExpiresAt tok) now)"
  using assms
  by (auto simp: VerifyDelegation_def hex_sig_ok_def Let_def split: if_splits option.splits prod.splits)

text \<open>A verified delegation is for this hop only. When \<^verbatim>\<open>Check\<close> accepts a wire token, the
  token it decodes is signed by one of the pinned authorities, names the connecting peer as
  router, this upstream as audience, and this backend, tool and arguments hash, has not expired,
  and its nonce had not been seen by the verifier.\<close>
theorem checked_delegation_sound:
  assumes "Check cr dc ahash use_key v now enc router backend tool args = ((tok, None), v')"
  shows "DecodeDelegation dc enc = Inr tok \<and> DTPubKey tok \<in> set (pins v) \<and>
    hex_sig_ok cr (DTPubKey tok) (dt_signingBytes dc tok) (DTSig tok) \<and>
    DTRouter tok = router \<and> DTAudience tok = dv_audience v \<and> DTBackend tok = backend \<and> DTTool tok = tool \<and>
    DTReqHash tok = ahash args \<and> unix_sec now \<le> DTExpiresAt tok \<and>
    fst (use_key (dv_nonces v) (DTNonce tok) (DTExpiresAt tok) now)"
proof -
  let ?req = "\<lparr>DRRouter = router, DRAudience = dv_audience v, DRBackend = backend, DRTool = tool, DRArgs = args\<rparr>"
  have dec: "DecodeDelegation dc enc = Inr tok"
    using assms by (auto simp: Check_def Let_def split: sum.splits prod.splits)
  define pin where "pin = (if DTPubKey tok \<in> set (pins v) then DTPubKey tok else [])"
  obtain ns where ver: "VerifyDelegation cr dc ahash use_key tok pin ?req now (Some (dv_nonces v)) = (None, ns)"
    using assms dec by (auto simp: Check_def Let_def pin_def split: prod.splits)
  note ok = VerifyDelegation_None [OF ver]
  have mem: "DTPubKey tok \<in> set (pins v)" using ok(1) unfolding pin_def by presburger
  then have "pin = DTPubKey tok" by (simp add: pin_def)
  then show ?thesis using mem dec ok(1) ok(2) [OF refl] by auto
qed

text \<open>A delegation an authority issues is accepted once, at its hop. For a signer whose
  signatures verify, the token \<^verbatim>\<open>IssueDelegation\<close> makes for a hop verifies for that hop under that
  signer's key until its expiry, which is at most five minutes away, and the in-memory
  nonce store then refuses it at every later time up to the expiry.\<close>
theorem issued_delegation_accepted_once:
  assumes "IssueDelegation cr dc ahash s c nonce t0 = Inr tok" "signer_ok cr s"
    and "t0 \<le> now" "unix_sec now \<le> DTExpiresAt tok" "now \<le> t2" "unix_sec t2 \<le> DTExpiresAt tok"
    and "mem nonce = None" "0 \<le> t0" "t0 < 2 ^ 62" "\<forall>x. DCExpiresAt c = Some x \<longrightarrow> 0 \<le> x"
  shows "\<exists>m. VerifyDelegation cr dc ahash Use tok (PubKeyHex s)
      \<lparr>DRRouter = DCRouter c, DRAudience = DCAudience c, DRBackend = DCBackend c, DRTool = DCTool c, DRArgs = DCArgs c\<rparr>
      now (Some mem) = (None, Some m) \<and>
    fst (VerifyDelegation cr dc ahash Use tok (PubKeyHex s) req2 t2 (Some m)) \<noteq> None \<and>
    DTExpiresAt tok \<le> unix_sec (t0 + maxDelegationLifetime)"
proof -
  define ex where "ex = (case DCExpiresAt c of None \<Rightarrow> t0 + maxDelegationLifetime
      | Some x \<Rightarrow> (if x > t0 + maxDelegationLifetime then t0 + maxDelegationLifetime else x))"
  define t where "t = \<lparr>DTVersion = 1, DTNonce = nonce, DTCaller = DCCaller c, DTRouter = DCRouter c,
      DTAudience = DCAudience c, DTBackend = DCBackend c, DTTool = DCTool c,
      DTReqHash = ahash (DCArgs c), DTIssuedAt = unix_sec t0, DTExpiresAt = unix_sec ex,
      DTPubKey = PubKeyHex s, DTSig = []\<rparr>"
  have tok: "tok = t\<lparr>DTSig := hex_encode (ed_sign cr (priv s) (dt_signingBytes dc t))\<rparr>"
    using assms(1) by (auto simp: IssueDelegation_def Let_def t_def ex_def split: if_splits)
  have sb: "dt_signingBytes dc tok = dt_signingBytes dc t" by (simp add: tok t_def dt_signingBytes_def)
  have sig: "hex_sig_ok cr (PubKeyHex s) (dt_signingBytes dc tok) (DTSig tok)"
    using hex_sig_ok_sign [OF assms(2)] sb by (simp add: tok)
  have exle: "ex \<le> t0 + maxDelegationLifetime" "0 \<le> ex"
    using assms(8,10) by (auto simp: ex_def maxDelegationLifetime_def minute_def nanos_per_sec_def split: option.split)
  have f: "DTVersion tok = 1" "DTNonce tok = nonce" "DTPubKey tok = PubKeyHex s" "DTExpiresAt tok = unix_sec ex"
      "DTIssuedAt tok = unix_sec t0" "DTRouter tok = DCRouter c" "DTAudience tok = DCAudience c"
      "DTBackend tok = DCBackend c" "DTTool tok = DCTool c" "DTReqHash tok = ahash (DCArgs c)"
    by (simp_all add: tok t_def)
  have e1: "unix_sec ex \<le> unix_sec t0 + 300"
    using unix_sec_mono [OF exle(1)] by (simp add: unix_sec_def maxDelegationLifetime_def minute_def nanos_per_sec_def)
  have b: "0 \<le> unix_sec ex" "0 \<le> unix_sec t0" "unix_sec t0 < 2 ^ 62"
    using exle(2) assms(8,9) by (simp_all add: unix_sec_def nanos_per_sec_def)
  have "wrap64 (unix_sec ex - unix_sec t0) = unix_sec ex - unix_sec t0"
    using e1 b by (intro wrap64_id) auto
  then have life: "\<not> wrap64 (DTExpiresAt tok - DTIssuedAt tok) > maxDelegationLifetime div nanos_per_sec"
    using e1 f by (simp add: maxDelegationLifetime_def minute_def nanos_per_sec_def)
  have ne: "PubKeyHex s \<noteq> []" using PubKeyHex_length [OF assms(2)] by auto
  let ?req = "\<lparr>DRRouter = DCRouter c, DRAudience = DCAudience c, DRBackend = DCBackend c, DRTool = DCTool c, DRArgs = DCArgs c\<rparr>"
  let ?m = "(drop_expired (unix_sec now) mem)(nonce \<mapsto> DTExpiresAt tok)"
  have use1: "Use mem nonce (DTExpiresAt tok) now = (True, ?m)"
    using assms(7) by (simp add: Use_def drop_expired_def)
  have v1: "VerifyDelegation cr dc ahash Use tok (PubKeyHex s) ?req now (Some mem) = (None, Some ?m)"
    using sig ne f life assms(4) use1 by (auto simp: VerifyDelegation_def hex_sig_ok_def split: option.splits)
  have "\<not> fst (Use ?m nonce (DTExpiresAt tok) t2)"
    using assms(6) by (intro mn.refused) (simp add: mem_live_def)
  then have "fst (VerifyDelegation cr dc ahash Use tok (PubKeyHex s) req2 t2 (Some ?m)) \<noteq> None"
    using VerifyDelegation_None(2) [of cr dc ahash Use tok "PubKeyHex s" req2 t2 "Some ?m"] f
    by (metis prod.collapse)
  then show ?thesis using v1 unix_sec_mono [OF exle(1)] f by auto
qed

subsection \<open>A concrete hop\<close>

definition demo_dclaims :: deleg_claims where
  "demo_dclaims = \<lparr>DCCaller = ''alice'', DCRouter = ''rt'', DCAudience = ''up'', DCBackend = ''be'', DCTool = ''read'',
     DCArgs = ''a'', DCExpiresAt = None\<rparr>"

definition demo_deleg :: deleg_token where
  "demo_deleg = \<lparr>DTVersion = 1, DTNonce = ''n'', DTCaller = ''alice'', DTRouter = ''rt'', DTAudience = ''up'', DTBackend = ''be'',
     DTTool = ''read'', DTReqHash = ''a'', DTIssuedAt = 0, DTExpiresAt = 300, DTPubKey = PubKeyHex demo_signer,
     DTSig = hex_encode (pub demo_signer @ ''read'')\<rparr>"

definition demo_dcodec :: deleg_codec where
  "demo_dcodec = \<lparr>dc_marshal = (\<lambda>t. DTTool t), dc_unmarshal = (\<lambda>b. Some demo_deleg), dc_b64_encode = (\<lambda>b. b), dc_b64_decode = Some\<rparr>"

lemma demo_issue:
  "IssueDelegation demo_crypto demo_dcodec (\<lambda>a. a) demo_signer demo_dclaims ''n'' 0 = Inr demo_deleg"
proof -
  have "priv demo_signer = pub demo_signer" by (simp add: demo_signer_def)
  then show ?thesis
    by (simp add: IssueDelegation_def demo_dclaims_def demo_deleg_def demo_dcodec_def dt_signingBytes_def
        maxDelegationLifetime_def minute_def unix_sec_def nanos_per_sec_def)
qed

theorem issued_delegation_accepted_once_witness:
  "\<exists>m. VerifyDelegation demo_crypto demo_dcodec (\<lambda>a. a) Use demo_deleg (PubKeyHex demo_signer)
      \<lparr>DRRouter = ''rt'', DRAudience = ''up'', DRBackend = ''be'', DRTool = ''read'', DRArgs = ''a''\<rparr> 5 (Some (\<lambda>_. None)) = (None, Some m) \<and>
    fst (VerifyDelegation demo_crypto demo_dcodec (\<lambda>a. a) Use demo_deleg (PubKeyHex demo_signer)
      \<lparr>DRRouter = ''rt'', DRAudience = ''up'', DRBackend = ''be'', DRTool = ''read'', DRArgs = ''a''\<rparr> 9 (Some m)) \<noteq> None"
  using issued_delegation_accepted_once [OF demo_issue demo_signer_ok, of 5 9 "\<lambda>_. None"
      "\<lparr>DRRouter = ''rt'', DRAudience = ''up'', DRBackend = ''be'', DRTool = ''read'', DRArgs = ''a''\<rparr>"]
  by (auto simp: demo_deleg_def demo_dclaims_def unix_sec_def nanos_per_sec_def)

lemma demo_check:
  "\<exists>v'. Check demo_crypto demo_dcodec (\<lambda>a. a) Use \<lparr>pins = [PubKeyHex demo_signer], dv_audience = ''up'', dv_nonces = (\<lambda>_. None)\<rparr>
     5 ''t'' ''rt'' ''be'' ''read'' ''a'' = ((demo_deleg, None), v')"
proof -
  have f: "DTVersion demo_deleg = 1" "DTPubKey demo_deleg = PubKeyHex demo_signer" "DTSig demo_deleg = hex_encode (pub demo_signer @ ''read'')"
      "DTRouter demo_deleg = ''rt''" "DTAudience demo_deleg = ''up''" "DTBackend demo_deleg = ''be''" "DTTool demo_deleg = ''read''"
      "DTReqHash demo_deleg = ''a''" "DTExpiresAt demo_deleg = 300" "DTIssuedAt demo_deleg = 0"
      "dt_signingBytes demo_dcodec demo_deleg = ''read''"
    by (simp_all add: demo_deleg_def dt_signingBytes_def demo_dcodec_def)
  have "VerifyDelegation demo_crypto demo_dcodec (\<lambda>a. a) Use demo_deleg (PubKeyHex demo_signer)
      \<lparr>DRRouter = ''rt'', DRAudience = ''up'', DRBackend = ''be'', DRTool = ''read'', DRArgs = ''a''\<rparr> 5 (Some (\<lambda>_. None)) =
      (None, Some [DTNonce demo_deleg \<mapsto> 300])"
    using demo_pub by (simp add: VerifyDelegation_def f Use_def drop_expired_def unix_sec_def nanos_per_sec_def maxDelegationLifetime_def minute_def)
  then show ?thesis by (simp add: Check_def DecodeDelegation_def demo_dcodec_def f(2))
qed

theorem checked_delegation_sound_witness:
  "DTRouter demo_deleg = ''rt'' \<and> unix_sec 5 \<le> DTExpiresAt demo_deleg \<and> DTReqHash demo_deleg = ''a''"
  using demo_check checked_delegation_sound by blast

end
