(* ===== verification/Json.thy ===== *)
theory Json
  imports Prelude
begin

text \<open>
  The part of \<^verbatim>\<open>encoding/json\<close> the program uses, on bytes: encoding of strings as
  \<^verbatim>\<open>json.Marshal\<close> does it (HTML escaping on, an invalid UTF-8 byte written as the escape of the
  replacement character), the decoder (a lexer with maximal munch and a push-down parser with the
  library's nesting limit), and how an object key selects a struct field.  The main results are
  that what is printed parses back to the same tree when every string is valid UTF-8, and what
  happens to a string that is not.
\<close>

datatype json =
    JNull | JBool bool | JNum string | JStr string | JArr "json list" | JObj "(string \<times> json) list"

subsection \<open>UTF-8\<close>

abbreviation code :: "char \<Rightarrow> nat" where "code c \<equiv> of_char c"

definition between :: "nat \<Rightarrow> char \<Rightarrow> nat \<Rightarrow> bool" where
  "between a c b = (a \<le> code c \<and> code c \<le> b)"

definition cont :: "char \<Rightarrow> bool" where "cont c = between 0x80 c 0xBF"

text \<open>The number of bytes of the rune at the head, 0 when the head is not the start of a well-formed
  sequence (\<^verbatim>\<open>utf8.DecodeRune\<close> then reports an error of width one).\<close>

fun rune_size :: "bytes \<Rightarrow> nat" where
  "rune_size [] = 0"
| "rune_size (c # cs) =
     (if code c < 0x80 then 1
      else if between 0xC2 c 0xDF then
        (case cs of c1 # _ \<Rightarrow> (if cont c1 then 2 else 0) | _ \<Rightarrow> 0)
      else if between 0xE0 c 0xEF then
        (case cs of c1 # c2 # _ \<Rightarrow>
             (if between (if code c = 0xE0 then 0xA0 else 0x80) c1 (if code c = 0xED then 0x9F else 0xBF) \<and> cont c2
              then 3 else 0)
         | _ \<Rightarrow> 0)
      else if between 0xF0 c 0xF4 then
        (case cs of c1 # c2 # c3 # _ \<Rightarrow>
             (if between (if code c = 0xF0 then 0x90 else 0x80) c1 (if code c = 0xF4 then 0x8F else 0xBF) \<and> cont c2 \<and> cont c3
              then 4 else 0)
         | _ \<Rightarrow> 0)
      else 0)"

declare rune_size.simps(2) [simp del]

text \<open>A byte string as the runes a decoder sees; \<^term>\<open>None\<close> marks an invalid byte.\<close>

function runes :: "bytes \<Rightarrow> bytes option list" where
  "runes [] = []"
| "runes (c # cs) =
     (let n = rune_size (c # cs)
      in if n = 0 then None # runes cs else Some (take n (c # cs)) # runes (drop (n - 1) cs))"
  by pat_completeness auto
termination by (relation "measure length") auto

declare runes.simps(2) [simp del]

definition valid_utf8 :: "bytes \<Rightarrow> bool" where
  "valid_utf8 s = list_all (\<lambda>r. r \<noteq> None) (runes s)"

definition replacement :: bytes where
  "replacement = [CHR 0xEF, CHR 0xBF, CHR 0xBD]"

definition encode_rune :: "nat \<Rightarrow> bytes" where
  "encode_rune n =
     (if n < 0x80 then [char_of n]
      else if n < 0x800 then [char_of (0xC0 + n div 64), char_of (0x80 + n mod 64)]
      else if n < 0x10000 then
        (if 0xD800 \<le> n \<and> n \<le> 0xDFFF then replacement
         else [char_of (0xE0 + n div 4096), char_of (0x80 + n div 64 mod 64), char_of (0x80 + n mod 64)])
      else if n < 0x110000 then
        [char_of (0xF0 + n div 262144), char_of (0x80 + n div 4096 mod 64), char_of (0x80 + n div 64 mod 64),
         char_of (0x80 + n mod 64)]
      else replacement)"

subsection \<open>Encoding\<close>

definition u_escape :: "nat \<Rightarrow> bytes" where
  "u_escape n = [CHR 0x5C, CHR ''u'', hex_digit (n div 4096), hex_digit (n div 256), hex_digit (n div 16), hex_digit n]"

definition esc_char :: "char \<Rightarrow> bytes" where
  "esc_char c =
     (if c = CHR 0x22 \<or> c = CHR 0x5C then [CHR 0x5C, c]
      else if code c = 8 then [CHR 0x5C, CHR ''b'']
      else if code c = 12 then [CHR 0x5C, CHR ''f'']
      else if code c = 10 then [CHR 0x5C, CHR ''n'']
      else if code c = 13 then [CHR 0x5C, CHR ''r'']
      else if code c = 9 then [CHR 0x5C, CHR ''t'']
      else if code c < 32 \<or> c = CHR ''<'' \<or> c = CHR ''>'' \<or> c = CHR ''&'' then u_escape (code c)
      else [c])"

definition esc_rune :: "bytes option \<Rightarrow> bytes" where
  "esc_rune r =
     (case r of
        None \<Rightarrow> u_escape 0xFFFD
      | Some [c] \<Rightarrow> esc_char c
      | Some r \<Rightarrow>
          (if r = [CHR 0xE2, CHR 0x80, CHR 0xA8] then u_escape 0x2028
           else if r = [CHR 0xE2, CHR 0x80, CHR 0xA9] then u_escape 0x2029
           else r))"

definition json_escape :: "bytes \<Rightarrow> bytes" where
  "json_escape s = concat (map esc_rune (runes s))"

subsection \<open>Decoding a string\<close>

definition hex_nibble :: "char \<Rightarrow> nat option" where
  "hex_nibble c =
     (if between 48 c 57 then Some (code c - 48)
      else if between 97 c 102 then Some (code c - 87)
      else if between 65 c 70 then Some (code c - 55)
      else None)"

fun getu4 :: "bytes \<Rightarrow> (nat \<times> bytes) option" where
  "getu4 (a # b # c # d # cs) =
     (case (hex_nibble a, hex_nibble b, hex_nibble c, hex_nibble d) of
        (Some w, Some x, Some y, Some z) \<Rightarrow> Some (4096 * w + 256 * x + 16 * y + z, cs)
      | _ \<Rightarrow> None)"
| "getu4 _ = None"

text \<open>The text after \<^verbatim>\<open>\u\<close>: a rune, with a well-formed surrogate pair combined and a lone surrogate
  replaced.\<close>

definition unescape_u :: "bytes \<Rightarrow> (bytes \<times> bytes) option" where
  "unescape_u cs =
     (case getu4 cs of
        None \<Rightarrow> None
      | Some (n, r) \<Rightarrow>
          (if 0xD800 \<le> n \<and> n < 0xDC00 \<and> take 2 r = [CHR 0x5C, CHR ''u''] then
             (case getu4 (drop 2 r) of
                Some (m, r') \<Rightarrow>
                  (if 0xDC00 \<le> m \<and> m < 0xE000 then Some (encode_rune (0x10000 + (n - 0xD800) * 1024 + (m - 0xDC00)), r')
                   else Some (replacement, r))
              | None \<Rightarrow> None)
           else Some (encode_rune n, r)))"

definition simple_escape :: "char \<Rightarrow> char option" where
  "simple_escape c =
     (if c = CHR 0x22 \<or> c = CHR 0x5C \<or> c = CHR ''/'' then Some c
      else if c = CHR ''b'' then Some (CHR 0x08)
      else if c = CHR ''f'' then Some (CHR 0x0C)
      else if c = CHR ''n'' then Some (CHR 0x0A)
      else if c = CHR ''r'' then Some (CHR 0x0D)
      else if c = CHR ''t'' then Some (CHR 0x09)
      else None)"

lemma getu4_length: "getu4 cs = Some (n, r) \<Longrightarrow> length r < length cs"
  by (induction cs rule: getu4.induct) (auto split: option.splits)

lemma unescape_u_length: "unescape_u cs = Some (b, r) \<Longrightarrow> length r < length cs"
  using getu4_length [of cs] getu4_length [of "drop 2 (snd (the (getu4 cs)))"]
  by (fastforce simp: unescape_u_def split: option.splits if_splits)

text \<open>The rest of a string literal after its opening quote: the decoded bytes and what follows.\<close>

function parse_str :: "bytes \<Rightarrow> (bytes \<times> bytes) option" where
  "parse_str [] = None"
| "parse_str (c # cs) =
     (if c = CHR 0x22 then Some ([], cs)
      else if c = CHR 0x5C then
        (case cs of
           [] \<Rightarrow> None
         | e # ds \<Rightarrow>
             (if e = CHR ''u'' then
                (case unescape_u ds of
                   None \<Rightarrow> None
                 | Some (b, r) \<Rightarrow> map_option (\<lambda>(s, t). (b @ s, t)) (parse_str r))
              else case simple_escape e of
                None \<Rightarrow> None
              | Some x \<Rightarrow> map_option (\<lambda>(s, t). (x # s, t)) (parse_str ds)))
      else if code c < 32 then None
      else let n = rune_size (c # cs)
           in if n = 0 then map_option (\<lambda>(s, t). (replacement @ s, t)) (parse_str cs)
              else map_option (\<lambda>(s, t). (take n (c # cs) @ s, t)) (parse_str (drop (n - 1) cs)))"
  by pat_completeness auto
termination by (relation "measure length") (auto dest: unescape_u_length)

declare parse_str.simps(2) [simp del]

subsection \<open>Lexing\<close>

datatype token =
    TLBrace | TRBrace | TLBrack | TRBrack | TComma | TColon | TStr bytes | TNum bytes | TTrue | TFalse | TNull

definition lex_int :: "bytes \<Rightarrow> (bytes \<times> bytes) option" where
  "lex_int s =
     (case s of
        [] \<Rightarrow> None
      | c # cs \<Rightarrow>
          (if c = CHR ''0'' then Some ([c], cs)
           else if is_digit c then Some (c # takeWhile is_digit cs, dropWhile is_digit cs)
           else None))"

definition lex_digits :: "bytes \<Rightarrow> bytes \<Rightarrow> (bytes \<times> bytes) option" where
  "lex_digits pre s =
     (if takeWhile is_digit s = [] then None else Some (pre @ takeWhile is_digit s, dropWhile is_digit s))"

definition lex_frac :: "bytes \<Rightarrow> (bytes \<times> bytes) option" where
  "lex_frac s =
     (case s of c # cs \<Rightarrow> (if c = CHR ''.'' then lex_digits [c] cs else Some ([], s)) | [] \<Rightarrow> Some ([], []))"

definition lex_exp :: "bytes \<Rightarrow> (bytes \<times> bytes) option" where
  "lex_exp s =
     (case s of
        c # cs \<Rightarrow>
          (if c = CHR ''e'' \<or> c = CHR ''E'' then
             (case cs of
                d # ds \<Rightarrow> (if d = CHR ''+'' \<or> d = CHR ''-'' then lex_digits [c, d] ds else lex_digits [c] cs)
              | [] \<Rightarrow> None)
           else Some ([], s))
      | [] \<Rightarrow> Some ([], []))"

definition num_sign :: "bytes \<Rightarrow> bytes \<times> bytes" where
  "num_sign s = (case s of c # cs \<Rightarrow> if c = CHR ''-'' then ([c], cs) else ([], s) | [] \<Rightarrow> ([], []))"

definition lex_num :: "bytes \<Rightarrow> (bytes \<times> bytes) option" where
  "lex_num s =
     (let (sg, u) = num_sign s
      in case lex_int u of
           None \<Rightarrow> None
         | Some (i, u1) \<Rightarrow>
             (case lex_frac u1 of
                None \<Rightarrow> None
              | Some (f, u2) \<Rightarrow>
                  (case lex_exp u2 of None \<Rightarrow> None | Some (e, u3) \<Rightarrow> Some (sg @ i @ f @ e, u3))))"

lemma map_option_pair_Some: "map_option (\<lambda>(s, t). (f s, t)) x = Some (a, b) \<longleftrightarrow> (\<exists>s. x = Some (s, b) \<and> a = f s)"
  by (cases x) auto

lemma parse_str_length: "parse_str cs = Some (s, r) \<Longrightarrow> length r < length cs"
proof (induction "length cs" arbitrary: cs s r rule: less_induct)
  case less
  have IH: "parse_str u = Some (a, r) \<Longrightarrow> length u < length cs \<Longrightarrow> length r < length cs" for u a
    using less(1) [of u a r] by simp
  obtain c ds where cs: "cs = c # ds" using less(2) by (cases cs) auto
  consider (q) "c = CHR 0x22" | (u) e r' b where "ds = e # r'" "unescape_u r' = Some b"
    | (n) "\<forall>e r'. ds = e # r' \<longrightarrow> unescape_u r' = None" "c \<noteq> CHR 0x22"
    by (metis list.inject option.exhaust)
  then show ?case
  proof cases
    case q
    then show ?thesis using less(2) cs by (simp add: parse_str.simps(2))
  next
    case u
    then have "length (snd b) < length r'" using unescape_u_length [of r' "fst b" "snd b"] by simp
    then show ?thesis using less(2) u cs IH
      by (auto simp: parse_str.simps(2) [of c] map_option_pair_Some Let_def split: if_splits option.splits prod.splits)
  next
    case n
    then show ?thesis using less(2) cs IH
      by (auto simp: parse_str.simps(2) [of c] map_option_pair_Some Let_def split: if_splits option.splits list.splits)
  qed
qed

lemma dropWhile_length: "length (dropWhile P xs) \<le> length xs"
  by (induction xs) auto

lemma lex_num_length: "lex_num s = Some (t, r) \<Longrightarrow> length r < length s"
proof -
  have i: "lex_int u = Some (t, r) \<Longrightarrow> length r < length u" for u t r
    by (auto simp: lex_int_def dropWhile_length le_imp_less_Suc split: list.splits if_splits)
  have d: "lex_digits p u = Some (t, r) \<Longrightarrow> length r \<le> length u" for p u t r
    by (auto simp: lex_digits_def dropWhile_length split: if_splits)
  have f: "lex_frac u = Some (t, r) \<Longrightarrow> length r \<le> length u" for u t r
    by (auto simp: lex_frac_def dest: d split: list.splits if_splits)
  have e: "lex_exp u = Some (t, r) \<Longrightarrow> length r \<le> length u" for u t r
    by (fastforce simp: lex_exp_def dest: d split: list.splits if_splits)
  show "lex_num s = Some (t, r) \<Longrightarrow> length r < length s"
    by (fastforce simp: lex_num_def num_sign_def dest!: i f e split: list.splits if_splits option.splits prod.splits)
qed

lemma cut_prefix_length: "cut_prefix p s = Some r \<Longrightarrow> length r \<le> length s"
  by (auto simp: cut_prefix_Some_iff)

definition is_ws :: "char \<Rightarrow> bool" where
  "is_ws c = (c = CHR '' '' \<or> c = CHR 0x09 \<or> c = CHR 0x0A \<or> c = CHR 0x0D)"

definition punct :: "char \<Rightarrow> token option" where
  "punct c =
     (if c = CHR ''{'' then Some TLBrace else if c = CHR ''}'' then Some TRBrace
      else if c = CHR ''['' then Some TLBrack else if c = CHR '']'' then Some TRBrack
      else if c = CHR '','' then Some TComma else if c = CHR '':'' then Some TColon else None)"

text \<open>One token at the head of a text that does not start with white space.\<close>

definition lex_tok :: "bytes \<Rightarrow> (token \<times> bytes) option" where
  "lex_tok s =
     (case s of
        [] \<Rightarrow> None
      | c # cs \<Rightarrow>
          (case punct c of
             Some t \<Rightarrow> Some (t, cs)
           | None \<Rightarrow>
               (if c = CHR 0x22 then map_option (\<lambda>(b, r). (TStr b, r)) (parse_str cs)
                else if c = CHR ''t'' then map_option (\<lambda>r. (TTrue, r)) (cut_prefix ''rue'' cs)
                else if c = CHR ''f'' then map_option (\<lambda>r. (TFalse, r)) (cut_prefix ''alse'' cs)
                else if c = CHR ''n'' then map_option (\<lambda>r. (TNull, r)) (cut_prefix ''ull'' cs)
                else map_option (\<lambda>(b, r). (TNum b, r)) (lex_num s))))"

lemma lex_tok_length: "lex_tok s = Some (t, r) \<Longrightarrow> length r < length s"
  by (fastforce simp: lex_tok_def map_option_pair_Some dest: parse_str_length lex_num_length cut_prefix_length
      split: list.splits option.splits if_splits)

function lex :: "bytes \<Rightarrow> token list option" where
  "lex [] = Some []"
| "lex (c # cs) =
     (if is_ws c then lex cs
      else case lex_tok (c # cs) of
        None \<Rightarrow> None
      | Some (t, r) \<Rightarrow> map_option ((#) t) (lex r))"
  by pat_completeness auto
termination by (relation "measure length") (auto dest: lex_tok_length)

declare lex.simps(2) [simp del]

subsection \<open>Parsing\<close>

text \<open>The containers that are open, innermost first, with the elements read so far in reverse.\<close>

datatype frame = FArr "json list" | FObj "(string \<times> json) list" string

datatype pstate =
    PValue | PElemOrClose
  | PKeyOrClose | PKey "(string \<times> json) list" | PColon "(string \<times> json) list" string
  | PAfter json

definition maxNestingDepth :: nat where "maxNestingDepth = 10000"

fun scalar :: "token \<Rightarrow> json option" where
  "scalar (TStr s) = Some (JStr s)"
| "scalar (TNum s) = Some (JNum s)"
| "scalar TTrue = Some (JBool True)"
| "scalar TFalse = Some (JBool False)"
| "scalar TNull = Some JNull"
| "scalar _ = None"

text \<open>What one token does where a value is expected.\<close>

definition begin_value :: "token \<Rightarrow> frame list \<Rightarrow> (pstate \<times> frame list) option" where
  "begin_value t st =
     (case t of
        TLBrace \<Rightarrow> (if length st < maxNestingDepth then Some (PKeyOrClose, st) else None)
      | TLBrack \<Rightarrow> (if length st < maxNestingDepth then Some (PElemOrClose, st) else None)
      | _ \<Rightarrow> map_option (\<lambda>v. (PAfter v, st)) (scalar t))"

definition step_tok :: "token \<Rightarrow> pstate \<Rightarrow> frame list \<Rightarrow> (pstate \<times> frame list) option" where
  "step_tok t p st =
     (case p of
        PValue \<Rightarrow> begin_value t st
      | PElemOrClose \<Rightarrow> (if t = TRBrack then Some (PAfter (JArr []), st) else begin_value t (FArr [] # st))
      | PKeyOrClose \<Rightarrow>
          (case t of TRBrace \<Rightarrow> Some (PAfter (JObj []), st) | TStr k \<Rightarrow> Some (PColon [] k, st) | _ \<Rightarrow> None)
      | PKey ms \<Rightarrow> (case t of TStr k \<Rightarrow> Some (PColon ms k, st) | _ \<Rightarrow> None)
      | PColon ms k \<Rightarrow> (if t = TColon then Some (PValue, FObj ms k # st) else None)
      | PAfter v \<Rightarrow>
          (case st of
             [] \<Rightarrow> None
           | FArr xs # st' \<Rightarrow>
               (case t of
                  TComma \<Rightarrow> Some (PValue, FArr (v # xs) # st')
                | TRBrack \<Rightarrow> Some (PAfter (JArr (rev (v # xs))), st')
                | _ \<Rightarrow> None)
           | FObj ms k # st' \<Rightarrow>
               (case t of
                  TComma \<Rightarrow> Some (PKey ((k, v) # ms), st')
                | TRBrace \<Rightarrow> Some (PAfter (JObj (rev ((k, v) # ms))), st')
                | _ \<Rightarrow> None)))"

fun parse_toks :: "token list \<Rightarrow> pstate \<Rightarrow> frame list \<Rightarrow> json option" where
  "parse_toks [] p st = (case (p, st) of (PAfter v, []) \<Rightarrow> Some v | _ \<Rightarrow> None)"
| "parse_toks (t # ts) p st =
     (case step_tok t p st of None \<Rightarrow> None | Some (p', st') \<Rightarrow> parse_toks ts p' st')"

definition json_parse :: "bytes \<Rightarrow> json option" where
  "json_parse s = (case lex s of None \<Rightarrow> None | Some ts \<Rightarrow> parse_toks ts PValue [])"

subsection \<open>Printing\<close>

definition tok_text :: "token \<Rightarrow> bytes" where
  "tok_text t =
     (case t of
        TLBrace \<Rightarrow> ''{'' | TRBrace \<Rightarrow> ''}'' | TLBrack \<Rightarrow> ''['' | TRBrack \<Rightarrow> '']'' | TComma \<Rightarrow> '','' | TColon \<Rightarrow> '':''
      | TStr s \<Rightarrow> CHR 0x22 # json_escape s @ [CHR 0x22]
      | TNum s \<Rightarrow> s | TTrue \<Rightarrow> ''true'' | TFalse \<Rightarrow> ''false'' | TNull \<Rightarrow> ''null'')"

fun commas :: "token list list \<Rightarrow> token list" where
  "commas [] = []"
| "commas [x] = x"
| "commas (x # y # ys) = x @ TComma # commas (y # ys)"

fun json_toks :: "json \<Rightarrow> token list" where
  "json_toks JNull = [TNull]"
| "json_toks (JBool b) = [if b then TTrue else TFalse]"
| "json_toks (JNum s) = [TNum s]"
| "json_toks (JStr s) = [TStr s]"
| "json_toks (JArr xs) = TLBrack # commas (map json_toks xs) @ [TRBrack]"
| "json_toks (JObj ms) = TLBrace # commas (map (\<lambda>(k, v). TStr k # TColon # json_toks v) ms) @ [TRBrace]"

definition json_print :: "json \<Rightarrow> bytes" where
  "json_print v = concat (map tok_text (json_toks v))"

text \<open>What decoding makes of a byte string that was printed: every invalid byte has become the
  replacement character.\<close>

definition rune_out :: "bytes option \<Rightarrow> bytes" where
  "rune_out r = (case r of None \<Rightarrow> replacement | Some b \<Rightarrow> b)"

definition sanitize :: "bytes \<Rightarrow> bytes" where
  "sanitize s = concat (map rune_out (runes s))"

fun sanitize_json :: "json \<Rightarrow> json" where
  "sanitize_json (JStr s) = JStr (sanitize s)"
| "sanitize_json (JArr xs) = JArr (map sanitize_json xs)"
| "sanitize_json (JObj ms) = JObj (map (\<lambda>(k, v). (sanitize k, sanitize_json v)) ms)"
| "sanitize_json v = v"

fun json_depth :: "json \<Rightarrow> nat" where
  "json_depth (JArr xs) = Suc (foldr max (map json_depth xs) 0)"
| "json_depth (JObj ms) = Suc (foldr max (map (\<lambda>(k, v). json_depth v) ms) 0)"
| "json_depth v = 0"

text \<open>Integer literals, the only numbers the program prints.\<close>

definition int_literal :: "bytes \<Rightarrow> bool" where
  "int_literal t = (lex_num t = Some (t, []) \<and> list_all (\<lambda>c. is_digit c \<or> c = CHR ''-'') t)"

fun ints_only :: "json \<Rightarrow> bool" where
  "ints_only (JNum t) = int_literal t"
| "ints_only (JArr xs) = list_all ints_only xs"
| "ints_only (JObj ms) = list_all (\<lambda>(k, v). ints_only v) ms"
| "ints_only v = True"

subsection \<open>Strings: what is printed decodes to its sanitised form\<close>

lemma hex_nibble_digit [simp]: "hex_nibble (hex_digit n) = Some (n mod 16)"
proof -
  have "n mod 16 \<in> {0..<16}" by simp
  then have "n mod 16 \<in> {0,1,2,3,4,5,6,7,8,9,10,11,12,13,14,15}" by (auto simp: atLeastLessThan_nat_numeral)
  then show ?thesis unfolding hex_digit_def by (auto simp: hex_nibble_def between_def)
qed

lemma getu4_u: "n < 65536 \<Longrightarrow> getu4 (hex_digit (n div 4096) # hex_digit (n div 256) # hex_digit (n div 16) # hex_digit n # s) = Some (n, s)"
proof -
  assume "n < 65536"
  then have "n div 4096 < 16" by simp
  moreover have "n div 256 = 16 * (n div 4096) + n div 256 mod 16" "n div 16 = 16 * (n div 256) + n div 16 mod 16"
    using div_mult2_eq [of n 256 16] div_mult2_eq [of n 16 16] by (metis mult_div_mod_eq mult.commute numeral_times_numeral semiring_norm(11,12,13))+
  moreover have "n = 16 * (n div 16) + n mod 16" by simp
  ultimately have "4096 * (n div 4096) + 256 * (n div 256 mod 16) + 16 * (n div 16 mod 16) + n mod 16 = n"
    by linarith
  then show ?thesis using \<open>n div 4096 < 16\<close> by simp
qed

lemma rune_size_char: "code c < 128 \<Longrightarrow> rune_size (c # cs) = 1"
  by (simp add: rune_size.simps(2))

lemma rune_size_bounds: "rune_size s \<le> length s" "rune_size s \<le> 4"
  by (cases s; auto simp: rune_size.simps(2) split: list.splits)+

lemma rune_size_cases:
  assumes "rune_size s \<noteq> 0"
  obtains (one) c cs where "s = c # cs" "code c < 128" "rune_size s = 1"
  | (two) c c1 cs where "s = c # c1 # cs" "between 0xC2 c 0xDF" "cont c1" "rune_size s = 2"
  | (three) c c1 c2 cs where "s = c # c1 # c2 # cs" "between 0xE0 c 0xEF" "cont c2" "rune_size s = 3"
      "between (if code c = 0xE0 then 0xA0 else 0x80) c1 (if code c = 0xED then 0x9F else 0xBF)"
  | (four) c c1 c2 c3 cs where "s = c # c1 # c2 # c3 # cs" "between 0xF0 c 0xF4" "cont c2" "cont c3" "rune_size s = 4"
      "between (if code c = 0xF0 then 0x90 else 0x80) c1 (if code c = 0xF4 then 0x8F else 0xBF)"
proof (cases s)
  case Nil
  then show ?thesis using assms by simp
next
  case (Cons c cs)
  consider "code c < 128" | "\<not> code c < 128" "between 0xC2 c 0xDF" | "\<not> code c < 128" "between 0xE0 c 0xEF" "\<not> between 0xC2 c 0xDF"
    | "\<not> code c < 128" "between 0xF0 c 0xF4" "\<not> between 0xE0 c 0xEF" "\<not> between 0xC2 c 0xDF"
    using assms by (fastforce simp: Cons rune_size.simps(2) split: if_splits)
  then show ?thesis
  proof cases
    case 1
    then show ?thesis using Cons one by (simp add: rune_size.simps(2))
  next
    case 2
    then show ?thesis using assms Cons two by (simp add: rune_size.simps(2) split: list.splits if_splits)
  next
    case 3
    then show ?thesis using assms Cons three [of c]
      by (simp only: Cons rune_size.simps(2) if_False if_True) (simp only: split: list.splits if_splits, auto)
  next
    case 4
    then show ?thesis using assms Cons four [of c]
      by (simp only: Cons rune_size.simps(2) if_False if_True) (simp only: split: list.splits if_splits, auto)
  qed
qed

lemma rune_size_take:
  assumes "rune_size s \<noteq> 0"
  shows "rune_size (take (rune_size s) s @ u) = rune_size s"
  using assms
proof (cases rule: rune_size_cases)
  case (one c cs)
  then show ?thesis by (simp add: rune_size.simps(2))
next
  case (two c c1 cs)
  have "\<not> code c < 128" using two(2) by (simp add: between_def)
  then show ?thesis using two by (simp add: rune_size.simps(2) numeral_2_eq_2)
next
  case (three c c1 c2 cs)
  have "\<not> code c < 128" "\<not> between 0xC2 c 0xDF" using three(2) by (simp_all add: between_def)
  then show ?thesis using three by (simp add: rune_size.simps(2) numeral_3_eq_3 del: if_split_asm)
next
  case (four c c1 c2 c3 cs)
  have "\<not> code c < 128" "\<not> between 0xC2 c 0xDF" "\<not> between 0xE0 c 0xEF" using four(2) by (simp_all add: between_def)
  then show ?thesis using four by (simp add: rune_size.simps(2) eval_nat_numeral)
qed

lemma rune_size_multi: "rune_size (c # cs) \<noteq> 0 \<Longrightarrow> (rune_size (c # cs) = 1) = (code c < 128)"
  by (auto simp: rune_size.simps(2) split: list.splits if_splits)

lemma parse_str_char: "code c < 128 \<Longrightarrow> parse_str (esc_char c @ s) = map_option (\<lambda>(b, t). (c # b, t)) (parse_str s)"
proof -
  assume c: "code c < 128"
  consider (u) "esc_char c = u_escape (code c)" | (plain) "esc_char c = [c]" "c \<noteq> CHR 0x22" "c \<noteq> CHR 0x5C" "32 \<le> code c"
    | (simple) d where "esc_char c = [CHR 0x5C, d]" "simple_escape d = Some c" "d \<noteq> CHR ''u''"
  proof -
    consider (a) "c = CHR 0x22 \<or> c = CHR 0x5C" | (b) "code c = 8 \<or> code c = 12 \<or> code c = 10 \<or> code c = 13 \<or> code c = 9"
      | (d) "c \<noteq> CHR 0x22" "c \<noteq> CHR 0x5C" "\<not> (code c = 8 \<or> code c = 12 \<or> code c = 10 \<or> code c = 13 \<or> code c = 9)"
      by blast
    then show ?thesis
    proof cases
      case a
      then show ?thesis using simple [of c] by (auto simp: esc_char_def simple_escape_def)
    next
      case b
      then have "c \<in> {CHR 0x08, CHR 0x0C, CHR 0x0A, CHR 0x0D, CHR 0x09}" by (auto simp flip: of_char_eq_iff [where ?'a = nat])
      then show ?thesis
        using simple [of "CHR ''b''"] simple [of "CHR ''f''"] simple [of "CHR ''n''"] simple [of "CHR ''r''"] simple [of "CHR ''t''"]
        by (auto simp: esc_char_def simple_escape_def)
    next
      case d
      then show ?thesis using u plain
        by (cases "code c < 32 \<or> c = CHR ''<'' \<or> c = CHR ''>'' \<or> c = CHR ''&''") (simp_all add: esc_char_def)
    qed
  qed
  then show ?thesis
  proof cases
    case u
    have "encode_rune (code c) = [c]" using c by (simp add: encode_rune_def)
    then show ?thesis using u c getu4_u [of "code c" s]
      by (simp add: u_escape_def parse_str.simps(2) unescape_u_def)
  next
    case plain
    then show ?thesis using rune_size_char [OF c, of s] by (simp add: parse_str.simps(2) Let_def)
  next
    case simple
    then show ?thesis by (simp add: parse_str.simps(2))
  qed
qed

lemma parse_str_raw:
  assumes "rune_size (r @ s) = length r" "1 < length r"
  shows "parse_str (r @ s) = map_option (\<lambda>(b, t). (r @ b, t)) (parse_str s)"
proof -
  obtain c cs where r: "r = c # cs" using assms(2) by (cases r) auto
  have "128 \<le> code c" using assms rune_size_char [of c "cs @ s"] by (force simp: r)
  then have "c \<noteq> CHR 0x22" "c \<noteq> CHR 0x5C" "\<not> code c < 32" by auto
  then show ?thesis using assms by (simp add: r parse_str.simps(2) Let_def)
qed

lemma parse_str_u:
  "n < 65536 \<Longrightarrow> n < 0xD800 \<or> 0xDFFF < n \<Longrightarrow>
     parse_str (u_escape n @ s) = map_option (\<lambda>(b, t). (encode_rune n @ b, t)) (parse_str s)"
  using getu4_u [of n s] by (auto simp: u_escape_def parse_str.simps(2) unescape_u_def)

definition rune_ok :: "bytes \<Rightarrow> bool" where
  "rune_ok r = (r \<noteq> [] \<and> rune_size r = length r)"

lemma rune_ok_append: "rune_ok r \<Longrightarrow> rune_size (r @ s) = length r"
  using rune_size_take [of r s] by (auto simp: rune_ok_def)

lemma runes_ok: "Some r \<in> set (runes s) \<Longrightarrow> rune_ok r"
proof (induction s rule: runes.induct)
  case (2 c cs)
  have "rune_ok (take (rune_size (c # cs)) (c # cs))" if "rune_size (c # cs) \<noteq> 0"
    using that rune_size_take [of "c # cs" "[]"] rune_size_bounds(1) [of "c # cs"] by (auto simp: rune_ok_def min_def)
  then show ?case using 2 by (auto simp: runes.simps(2) [of c cs] Let_def split: if_splits)
qed simp

lemma encode_special:
  "encode_rune 0xFFFD = replacement" "encode_rune 0x2028 = [CHR 0xE2, CHR 0x80, CHR 0xA8]"
  "encode_rune 0x2029 = [CHR 0xE2, CHR 0x80, CHR 0xA9]"
  by (simp_all add: encode_rune_def replacement_def flip: of_char_eq_iff [where ?'a = nat])

lemma parse_str_rune:
  assumes "\<forall>b. r = Some b \<longrightarrow> rune_ok b"
  shows "parse_str (esc_rune r @ s) = map_option (\<lambda>(b, t). (rune_out r @ b, t)) (parse_str s)"
proof (cases r)
  case None
  then show ?thesis using parse_str_u [of "0xFFFD" s] by (simp add: esc_rune_def rune_out_def encode_special)
next
  case (Some b)
  then have ok: "rune_ok b" using assms by simp
  then obtain c cs where b: "b = c # cs" by (cases b) (auto simp: rune_ok_def)
  show ?thesis
  proof (cases cs)
    case Nil
    then have "code c < 128" using ok rune_size_multi [of c "[]"] by (simp add: rune_ok_def b)
    then show ?thesis using Some b Nil parse_str_char [of c s] by (simp add: esc_rune_def rune_out_def)
  next
    case (Cons d ds)
    consider (e) "b = [CHR 0xE2, CHR 0x80, CHR 0xA8]" | (f) "b = [CHR 0xE2, CHR 0x80, CHR 0xA9]"
      | (g) "esc_rune r = b"
      using Some Cons b
      by (cases "b = [CHR 0xE2, CHR 0x80, CHR 0xA8] \<or> b = [CHR 0xE2, CHR 0x80, CHR 0xA9]") (auto simp: esc_rune_def)
    then show ?thesis
    proof cases
      case e
      then show ?thesis using Some parse_str_u [of "0x2028" s] by (simp add: esc_rune_def rune_out_def encode_special)
    next
      case f
      then show ?thesis using Some parse_str_u [of "0x2029" s] by (simp add: esc_rune_def rune_out_def encode_special)
    next
      case g
      then show ?thesis using Some parse_str_raw [of b s] rune_ok_append [of b s] ok b Cons by (simp add: rune_out_def)
    qed
  qed
qed

lemma parse_str_quote: "parse_str (CHR 0x22 # s) = Some ([], s)"
  by (simp add: parse_str.simps(2))

lemma parse_str_runes:
  "\<forall>b. Some b \<in> set rs \<longrightarrow> rune_ok b \<Longrightarrow>
     parse_str (concat (map esc_rune rs) @ CHR 0x22 # s) = Some (concat (map rune_out rs), s)"
proof (induction rs)
  case Nil
  then show ?case by (simp add: parse_str_quote)
next
  case (Cons r rs)
  have "\<forall>b. r = Some b \<longrightarrow> rune_ok b" using Cons.prems by simp
  then show ?case using Cons parse_str_rune [of r "concat (map esc_rune rs) @ CHR 0x22 # s"] by simp
qed

lemma parse_str_escape: "parse_str (json_escape b @ CHR 0x22 # s) = Some (sanitize b, s)"
  using parse_str_runes [of "runes b" s] runes_ok [of _ b] by (simp add: json_escape_def sanitize_def)

subsection \<open>Round trip\<close>

text \<open>Tokens as the lexer returns them.\<close>

definition clean_tok :: "token \<Rightarrow> token" where
  "clean_tok t = (case t of TStr s \<Rightarrow> TStr (sanitize s) | _ \<Rightarrow> t)"

definition tok_ok :: "token \<Rightarrow> bool" where
  "tok_ok t = (case t of TNum s \<Rightarrow> int_literal s | _ \<Rightarrow> True)"

text \<open>A number is followed by nothing that could extend it.\<close>

definition ends_number :: "bytes \<Rightarrow> bool" where
  "ends_number s = (case s of [] \<Rightarrow> True | c # cs \<Rightarrow> \<not> is_digit c \<and> c \<notin> {CHR ''.'', CHR ''e'', CHR ''E''})"

lemma lex_int_append:
  assumes "lex_int u = Some (i, [])" "ends_number s"
  shows "lex_int (u @ s) = Some (i, s)"
proof -
  have "takeWhile is_digit s = []" "dropWhile is_digit s = s"
    using assms(2) by (cases s; simp add: ends_number_def)+
  moreover have tw: "\<forall>x\<in>set v. is_digit x \<Longrightarrow> v = takeWhile is_digit v" for v by (metis takeWhile_eq_all_conv)
  ultimately show ?thesis
    using assms(1) by (auto simp: lex_int_def takeWhile_append dropWhile_append intro!: tw split: list.splits if_splits)
qed

lemma lex_num_append:
  assumes "int_literal t" "ends_number s"
  shows "lex_num (t @ s) = Some (t, s)"
proof -
  obtain sg u where su: "num_sign t = (sg, u)" by fastforce
  obtain i u1 where i: "lex_int u = Some (i, u1)"
    using assms(1) su by (auto simp: int_literal_def lex_num_def split: option.splits)
  have tu: "t = sg @ u" using su by (auto simp: num_sign_def split: list.splits if_splits)
  have ui: "u = i @ u1" using i by (auto simp: lex_int_def split: list.splits if_splits)
  have "\<forall>c\<in>set u1. c \<notin> {CHR ''.'', CHR ''e'', CHR ''E''}"
  proof -
    have "\<forall>c\<in>set u1. is_digit c \<or> c = CHR ''-''" using assms(1) tu ui by (auto simp: int_literal_def list_all_iff)
    moreover have "\<not> is_digit (CHR ''.'')" "\<not> is_digit (CHR ''e'')" "\<not> is_digit (CHR ''E'')" by (simp_all add: is_digit_def)
    ultimately show ?thesis by fastforce
  qed
  then have "lex_frac u1 = Some ([], u1)" "lex_exp u1 = Some ([], u1)"
    by (auto simp: lex_frac_def lex_exp_def split: list.splits)
  then have "u1 = []" using assms(1) su i by (auto simp: int_literal_def lex_num_def)
  have s: "lex_frac s = Some ([], s)" "lex_exp s = Some ([], s)"
    using assms(2) by (auto simp: ends_number_def lex_frac_def lex_exp_def split: list.splits)
  have "lex_int (u @ s) = Some (i, s)" using lex_int_append i \<open>u1 = []\<close> assms(2) by simp
  moreover have "num_sign (t @ s) = (sg, u @ s)"
    using su i by (cases t) (auto simp: lex_int_def num_sign_def split: if_splits)
  ultimately show ?thesis using s tu ui \<open>u1 = []\<close> by (simp add: lex_num_def)
qed

lemma lex_num_head: "int_literal t \<Longrightarrow> \<exists>c cs. t = c # cs \<and> (is_digit c \<or> c = CHR ''-'')"
  by (cases t) (auto simp: int_literal_def lex_num_def num_sign_def lex_int_def)

lemma lex_tok_text:
  assumes "tok_ok t" "\<forall>b. t = TNum b \<longrightarrow> ends_number s"
  shows "lex_tok (tok_text t @ s) = Some (clean_tok t, s)"
proof (cases t)
  case (TNum b)
  obtain c cs where b: "b = c # cs" "is_digit c \<or> c = CHR ''-''"
    using assms(1) lex_num_head [of b] by (auto simp: TNum tok_ok_def)
  then have "punct c = None" "c \<noteq> CHR 0x22" "c \<noteq> CHR ''t''" "c \<noteq> CHR ''f''" "c \<noteq> CHR ''n''"
    by (auto simp: punct_def is_digit_def)
  moreover have "lex_num (b @ s) = Some (b, s)" using lex_num_append assms TNum by (simp add: tok_ok_def)
  ultimately show ?thesis using b TNum by (simp add: tok_text_def clean_tok_def lex_tok_def)
next
  case (TStr b)
  then show ?thesis using parse_str_escape [of b s] by (simp add: tok_text_def clean_tok_def lex_tok_def punct_def)
qed (simp_all add: tok_text_def clean_tok_def lex_tok_def punct_def)

lemma tok_text_head: "tok_ok t \<Longrightarrow> \<exists>c cs. tok_text t = c # cs \<and> \<not> is_ws c"
  using lex_num_head by (cases t) (force simp: tok_text_def tok_ok_def is_ws_def is_digit_def)+

text \<open>Token sequences in which every number is followed by punctuation.\<close>

fun spaced :: "token list \<Rightarrow> bool" where
  "spaced (TNum b # t # ts) = (t \<in> {TComma, TRBrack, TRBrace} \<and> spaced (t # ts))"
| "spaced (t # ts) = spaced ts"
| "spaced [] = True"

lemma lex_text: "list_all tok_ok ts \<Longrightarrow> spaced ts \<Longrightarrow> lex (concat (map tok_text ts)) = Some (map clean_tok ts)"
proof (induction ts)
  case (Cons t ts)
  let ?s = "concat (map tok_text ts)"
  have "spaced ts" using Cons.prems(2) by (cases t; cases ts) auto
  have "\<forall>b. t = TNum b \<longrightarrow> ends_number ?s"
    using Cons.prems(2) by (cases ts) (auto simp: ends_number_def tok_text_def is_digit_def)
  then have lt: "lex_tok (tok_text t @ ?s) = Some (clean_tok t, ?s)" using lex_tok_text Cons.prems(1) by simp
  obtain c cs where c: "tok_text t = c # cs" "\<not> is_ws c" using tok_text_head [of t] Cons.prems(1) by auto
  have "lex (tok_text t @ ?s) = map_option ((#) (clean_tok t)) (lex ?s)"
    using c lt by (simp add: lex.simps(2))
  then show ?case using Cons.IH Cons.prems(1) \<open>spaced ts\<close> by simp
qed simp

lemma spaced_append:
  "spaced xs \<Longrightarrow> spaced ys \<Longrightarrow> ys = [] \<or> hd ys \<in> {TComma, TRBrack, TRBrace} \<Longrightarrow> spaced (xs @ ys)"
proof (induction xs)
  case (Cons t ts)
  have "spaced ts" using Cons.prems(1) by (cases t; cases ts) auto
  moreover have "spaced (t # ys)" if "ts = []" using Cons.prems(2,3) by (cases t; cases ys) auto
  ultimately show ?case using Cons by (cases t; cases ts) auto
qed simp

lemma spaced_commas: "\<forall>x\<in>set xs. spaced x \<Longrightarrow> spaced (commas xs)"
  by (induction xs rule: commas.induct) (auto intro!: spaced_append)

lemma spaced_toks: "spaced (json_toks v)"
proof (induction v)
  case (JArr xs)
  then have "spaced (commas (map json_toks xs))" by (intro spaced_commas) auto
  then show ?case by (simp add: spaced_append)
next
  case (JObj ms)
  then have "spaced (commas (map (\<lambda>(k, v). TStr k # TColon # json_toks v) ms))"
    by (intro spaced_commas) (auto simp: snds.simps)
  then show ?case by (simp add: spaced_append)
qed auto

lemma set_commas: "set (commas xs) \<subseteq> insert TComma (\<Union> (set ` set xs))"
  by (induction xs rule: commas.induct) auto

lemma toks_ok: "ints_only v \<Longrightarrow> list_all tok_ok (json_toks v)"
proof (induction v)
  case (JArr xs)
  then have "\<forall>t\<in>\<Union> (set ` set (map json_toks xs)). tok_ok t" by (auto simp: list_all_iff)
  then show ?case using set_commas [of "map json_toks xs"] by (fastforce simp: list_all_iff tok_ok_def)
next
  case (JObj ms)
  let ?f = "\<lambda>(k, v). TStr k # TColon # json_toks v"
  have "\<forall>t\<in>\<Union> (set ` set (map ?f ms)). tok_ok t"
    using JObj by (fastforce simp: list_all_iff tok_ok_def snds.simps)
  then show ?case using set_commas [of "map ?f ms"] by (fastforce simp: list_all_iff tok_ok_def)
qed (auto simp: tok_ok_def)

lemma map_commas: "f TComma = TComma \<Longrightarrow> map f (commas xs) = commas (map (map f) xs)"
  by (induction xs rule: commas.induct) auto

lemma clean_tok_simps [simp]:
  "clean_tok TComma = TComma" "clean_tok TColon = TColon" "clean_tok TLBrack = TLBrack" "clean_tok TRBrack = TRBrack"
  "clean_tok TLBrace = TLBrace" "clean_tok TRBrace = TRBrace" "clean_tok (TStr s) = TStr (sanitize s)"
  by (simp_all add: clean_tok_def)

lemma clean_toks: "map clean_tok (json_toks v) = json_toks (sanitize_json v)"
proof (induction v)
  case (JArr xs)
  then have "map (\<lambda>x. map clean_tok (json_toks x)) xs = map (\<lambda>x. json_toks (sanitize_json x)) xs" by simp
  then show ?case by (simp only: json_toks.simps sanitize_json.simps list.map map_append map_commas clean_tok_simps map_map comp_def)
next
  case (JObj ms)
  then have "map (\<lambda>x. map clean_tok ((\<lambda>(k, v). TStr k # TColon # json_toks v) x)) ms =
      map (\<lambda>x. (\<lambda>(k, v). TStr k # TColon # json_toks v) ((\<lambda>(k, v). (sanitize k, sanitize_json v)) x)) ms"
    by (force simp: snds.simps)
  then show ?case by (simp only: json_toks.simps sanitize_json.simps list.map map_append map_commas clean_tok_simps map_map comp_def)
qed (auto simp: clean_tok_def)

lemma begin_value_PValue: "step_tok t PValue st = begin_value t st"
  by (simp add: step_tok_def)

lemma toks_head: "\<exists>t ts. json_toks v = t # ts \<and> t \<noteq> TRBrack"
  by (cases v) auto

lemma parse_elem_start:
  assumes "json_toks x = t # ts" "t \<noteq> TRBrack"
  shows "parse_toks (json_toks x @ us) PElemOrClose st = parse_toks (json_toks x @ us) PValue (FArr [] # st)"
  using assms by (simp add: step_tok_def)

lemma parse_array:
  assumes "\<forall>x\<in>set (x # xs). \<forall>us st'. length st' = Suc n \<longrightarrow> parse_toks (json_toks x @ us) PValue st' = parse_toks us (PAfter x) st'"
    and "length st = n"
  shows "parse_toks (commas (map json_toks (x # xs)) @ TRBrack # us) PValue (FArr acc # st) =
    parse_toks us (PAfter (JArr (rev acc @ x # xs))) st"
  using assms
proof (induction xs arbitrary: x acc)
  case Nil
  then show ?case by (simp add: step_tok_def)
next
  case (Cons y ys)
  have "parse_toks (commas (map json_toks (x # y # ys)) @ TRBrack # us) PValue (FArr acc # st) =
      parse_toks (commas (map json_toks (y # ys)) @ TRBrack # us) PValue (FArr (x # acc) # st)"
    using Cons.prems by (simp add: step_tok_def)
  then show ?case using Cons.IH [of y "x # acc"] Cons.prems by simp
qed

abbreviation member_toks :: "string \<times> json \<Rightarrow> token list" where
  "member_toks \<equiv> \<lambda>(k, v). TStr k # TColon # json_toks v"

lemma parse_object:
  assumes "\<forall>(k, x)\<in>set ((k, v) # ms). \<forall>us st'. length st' = Suc n \<longrightarrow> parse_toks (json_toks x @ us) PValue st' = parse_toks us (PAfter x) st'"
    and "length st = n"
  shows "parse_toks (TColon # json_toks v @ (if ms = [] then [] else TComma # commas (map member_toks ms)) @ TRBrace # us) (PColon acc k) st =
    parse_toks us (PAfter (JObj (rev acc @ (k, v) # ms))) st"
  using assms
proof (induction ms arbitrary: k v acc)
  case Nil
  then show ?case by (simp add: step_tok_def)
next
  case (Cons m ms)
  obtain k' v' where m: "m = (k', v')" by fastforce
  have c: "commas (map member_toks (m # ms)) = TStr k' # TColon # json_toks v' @ (if ms = [] then [] else TComma # commas (map member_toks ms))"
    by (cases ms) (simp_all add: m)
  have "parse_toks (TColon # json_toks v @ (TComma # commas (map member_toks (m # ms))) @ TRBrace # us) (PColon acc k) st =
      parse_toks (TColon # json_toks v' @ (if ms = [] then [] else TComma # commas (map member_toks ms)) @ TRBrace # us)
        (PColon ((k, v) # acc) k') st"
    using Cons.prems unfolding c by (simp add: step_tok_def)
  then show ?case using Cons.IH [of k' v' "(k, v) # acc"] Cons.prems by (simp add: m)
qed

lemma foldr_max_le: "foldr max xs 0 \<le> (n::nat) \<longleftrightarrow> (\<forall>x\<in>set xs. x \<le> n)"
  by (induction xs) auto

lemma parse_json_toks:
  "json_depth v + length st \<le> maxNestingDepth \<Longrightarrow> parse_toks (json_toks v @ us) PValue st = parse_toks us (PAfter v) st"
proof (induction v arbitrary: st us)
  case (JArr xs)
  have d: "\<forall>x\<in>set xs. json_depth x + Suc (length st) \<le> maxNestingDepth"
    using JArr.prems foldr_max_le [of "map json_depth xs" "maxNestingDepth - Suc (length st)"] by fastforce
  have IH: "\<forall>x\<in>set xs. \<forall>us st'. length st' = Suc (length st) \<longrightarrow> parse_toks (json_toks x @ us) PValue st' = parse_toks us (PAfter x) st'"
    using JArr.IH d by simp
  show ?case
  proof (cases xs)
    case Nil
    then show ?thesis using JArr.prems by (simp add: step_tok_def begin_value_def)
  next
    case (Cons y ys)
    have "parse_toks (commas (map json_toks xs) @ TRBrack # us) PElemOrClose st =
        parse_toks (commas (map json_toks xs) @ TRBrack # us) PValue (FArr [] # st)"
      using toks_head [of y] parse_elem_start [of y] by (cases ys) (fastforce simp: Cons)+
    then show ?thesis
      using parse_array [of y ys "length st" st us "[]"] IH JArr.prems by (simp add: Cons step_tok_def begin_value_def)
  qed
next
  case (JObj ms)
  have d: "\<forall>x\<in>set ms. json_depth (snd x) + Suc (length st) \<le> maxNestingDepth"
    using JObj.prems foldr_max_le [of "map (\<lambda>(k, v). json_depth v) ms" "maxNestingDepth - Suc (length st)"] by fastforce
  have IH: "\<forall>(k, x)\<in>set ms. \<forall>us st'. length st' = Suc (length st) \<longrightarrow> parse_toks (json_toks x @ us) PValue st' = parse_toks us (PAfter x) st'"
    using JObj.IH d by (fastforce simp: snds.simps)
  show ?case
  proof (cases ms)
    case Nil
    then show ?thesis using JObj.prems by (simp add: step_tok_def begin_value_def)
  next
    case (Cons m ns)
    obtain k v where m: "m = (k, v)" by fastforce
    have "commas (map member_toks ms) = TStr k # TColon # json_toks v @ (if ns = [] then [] else TComma # commas (map member_toks ns))"
      by (cases ns) (simp_all add: m Cons)
    then show ?thesis
      using parse_object [of k v ns "length st" st us "[]"] IH JObj.prems by (simp add: Cons m step_tok_def begin_value_def)
  qed
qed (simp_all add: step_tok_def begin_value_def)

lemma sanitize_depth [simp]: "json_depth (sanitize_json v) = json_depth v"
proof (induction v)
  case (JArr xs)
  then have "map (\<lambda>x. json_depth (sanitize_json x)) xs = map json_depth xs" by simp
  then show ?case by (simp only: sanitize_json.simps json_depth.simps map_map comp_def)
next
  case (JObj ms)
  then have "map (\<lambda>x. case (case x of (k, v) \<Rightarrow> (sanitize k, sanitize_json v)) of (k, v) \<Rightarrow> json_depth v) ms =
      map (\<lambda>(k, v). json_depth v) ms" by (force simp: snds.simps)
  then show ?case by (simp only: sanitize_json.simps json_depth.simps map_map comp_def)
qed auto

lemma json_roundtrip_sanitize:
  assumes "ints_only v" "json_depth v \<le> maxNestingDepth"
  shows "json_parse (json_print v) = Some (sanitize_json v)"
  using lex_text [OF toks_ok [OF assms(1)] spaced_toks] parse_json_toks [of "sanitize_json v" "[]" "[]"] assms(2)
  by (simp add: json_parse_def json_print_def clean_toks)

subsection \<open>Valid and invalid strings\<close>

lemma runes_concat: "\<forall>r\<in>set rs. rune_ok r \<Longrightarrow> runes (concat rs) = map Some rs"
proof (induction rs)
  case (Cons r rs)
  obtain c cs where r: "r = c # cs" using Cons.prems by (cases r) (auto simp: rune_ok_def)
  have "rune_size (c # cs @ concat rs) = Suc (length cs)" using rune_ok_append [of r "concat rs"] Cons.prems by (simp add: r)
  then show ?case using Cons by (simp add: r runes.simps(2))
qed simp

lemma sanitize_id [simp]: "valid_utf8 s \<Longrightarrow> sanitize s = s"
proof -
  have "\<forall>x\<in>set (runes s). x \<noteq> None \<Longrightarrow> concat (map rune_out (runes s)) = s"
  proof (induction s rule: runes.induct)
    case (2 c cs)
    let ?n = "rune_size (c # cs)"
    have n: "?n \<noteq> 0" using 2(3) by (auto simp: runes.simps(2) Let_def split: if_splits)
    then have "take ?n (c # cs) @ drop (?n - 1) cs = c # cs" by (cases ?n) simp_all
    moreover have r: "runes (c # cs) = Some (take ?n (c # cs)) # runes (drop (?n - 1) cs)"
      using n by (simp add: runes.simps(2) Let_def)
    moreover have "concat (map rune_out (runes (drop (?n - 1) cs))) = drop (?n - 1) cs"
      using 2(2) [OF refl n] 2(3) unfolding r by simp
    moreover have "rune_out (Some x) = x" for x by (simp add: rune_out_def)
    ultimately show ?case by simp
  qed simp
  then show "valid_utf8 s \<Longrightarrow> sanitize s = s" by (simp add: valid_utf8_def sanitize_def list_all_iff)
qed

lemma rune_ok_replacement: "rune_ok replacement"
  by (simp add: rune_ok_def replacement_def rune_size.simps(2) between_def cont_def)

lemma rune_out_ok: "r \<in> set (runes s) \<Longrightarrow> rune_ok (rune_out r)"
  using runes_ok rune_ok_replacement by (cases r) (auto simp: rune_out_def)

lemma runes_sanitize: "runes (sanitize s) = map (\<lambda>r. Some (rune_out r)) (runes s)"
  using runes_concat [of "map rune_out (runes s)"] rune_out_ok by (auto simp: sanitize_def comp_def)

lemma valid_sanitize [simp]: "valid_utf8 (sanitize s)"
  by (simp add: valid_utf8_def runes_sanitize list_all_iff)

lemma esc_rune_out: "esc_rune (Some (rune_out r)) = (if r = None then replacement else esc_rune r)"
  by (cases r) (simp_all add: rune_out_def esc_rune_def replacement_def)

text \<open>Printing the sanitised string again gives a shorter text as soon as there was an invalid byte: the
  replacement character is written as itself, not as an escape.\<close>

lemma escape_sanitize:
  "length (json_escape (sanitize s)) \<le> length (json_escape s)"
  "\<not> valid_utf8 s \<Longrightarrow> length (json_escape (sanitize s)) < length (json_escape s)"
proof -
  have len: "length (esc_rune (Some (rune_out r))) \<le> length (esc_rune r)"
    "r = None \<Longrightarrow> length (esc_rune (Some (rune_out r))) < length (esc_rune r)" for r
    by (simp_all add: esc_rune_out) (simp_all add: replacement_def esc_rune_def u_escape_def)
  have "length (concat (map (\<lambda>r. esc_rune (Some (rune_out r))) rs)) \<le> length (concat (map esc_rune rs))
    \<and> (None \<in> set rs \<longrightarrow> length (concat (map (\<lambda>r. esc_rune (Some (rune_out r))) rs)) < length (concat (map esc_rune rs)))" for rs
  proof (induction rs)
    case (Cons r rs)
    then show ?case using len [of r] by auto
  qed simp
  then show "length (json_escape (sanitize s)) \<le> length (json_escape s)"
    "\<not> valid_utf8 s \<Longrightarrow> length (json_escape (sanitize s)) < length (json_escape s)"
    by (auto simp: json_escape_def runes_sanitize comp_def valid_utf8_def list_all_iff)
qed

fun valid_json :: "json \<Rightarrow> bool" where
  "valid_json (JStr s) = valid_utf8 s"
| "valid_json (JArr xs) = list_all valid_json xs"
| "valid_json (JObj ms) = list_all (\<lambda>(k, v). valid_utf8 k \<and> valid_json v) ms"
| "valid_json v = True"

lemma sanitize_json_id: "valid_json v \<Longrightarrow> sanitize_json v = v"
proof (induction v)
  case (JArr xs)
  then show ?case by (simp add: list_all_iff map_idI)
next
  case (JObj ms)
  then show ?case by (auto simp: list_all_iff snds.simps intro!: map_idI)
qed auto

lemma json_roundtrip:
  "ints_only v \<Longrightarrow> json_depth v \<le> maxNestingDepth \<Longrightarrow> valid_json v \<Longrightarrow> json_parse (json_print v) = Some v"
  by (simp add: json_roundtrip_sanitize sanitize_json_id)

lemma in_commas: "x \<in> set ys \<Longrightarrow> set x \<subseteq> set (commas ys)"
  by (induction ys rule: commas.induct) auto

lemma invalid_token: "\<not> valid_json v \<Longrightarrow> \<exists>s. TStr s \<in> set (json_toks v) \<and> \<not> valid_utf8 s"
proof (induction v)
  case (JArr xs)
  obtain x where x: "x \<in> set xs" "\<not> valid_json x" using JArr.prems by (auto simp: list_all_iff)
  then show ?case using JArr.IH [OF x] in_commas [of "json_toks x" "map json_toks xs"] by auto
next
  case (JObj ms)
  obtain k v where x: "(k, v) \<in> set ms" "\<not> valid_utf8 k \<or> \<not> valid_json v" using JObj.prems by (auto simp: list_all_iff)
  then have "set (member_toks (k, v)) \<subseteq> set (json_toks (JObj ms))"
    using in_commas [of "member_toks (k, v)" "map member_toks ms"] by force
  then show ?case using JObj.IH [of "(k, v)" v] x by (auto simp: snds.simps)
qed auto

lemma json_print_length:
  "length (json_print (sanitize_json v)) \<le> length (json_print v)"
  "\<not> valid_json v \<Longrightarrow> length (json_print (sanitize_json v)) < length (json_print v)"
proof -
  have len: "length (tok_text (clean_tok t)) \<le> length (tok_text t)"
    "t = TStr s \<Longrightarrow> \<not> valid_utf8 s \<Longrightarrow> length (tok_text (clean_tok t)) < length (tok_text t)" for t s
    using escape_sanitize by (cases t; simp add: tok_text_def clean_tok_def)+
  have ts: "length (concat (map tok_text (map clean_tok ts))) \<le> length (concat (map tok_text ts)) \<and>
    ((\<exists>s. TStr s \<in> set ts \<and> \<not> valid_utf8 s) \<longrightarrow>
      length (concat (map tok_text (map clean_tok ts))) < length (concat (map tok_text ts)))" for ts
  proof (induction ts)
    case (Cons t ts)
    then show ?case using len [of t] by fastforce
  qed simp
  show "length (json_print (sanitize_json v)) \<le> length (json_print v)"
    "\<not> valid_json v \<Longrightarrow> length (json_print (sanitize_json v)) < length (json_print v)"
    using ts [of "json_toks v"] invalid_token [of v] by (auto simp: json_print_def simp flip: clean_toks)
qed

subsection \<open>Structs\<close>

text \<open>Field names are compared after folding: ASCII letters to lower case, and the two characters
  outside ASCII whose case folding is an ASCII letter (the Kelvin sign and the long s).\<close>

function fold_name :: "string \<Rightarrow> string" where
  "fold_name [] = []"
| "fold_name (c # cs) =
     (if c = CHR 0xE2 \<and> take 2 cs = [CHR 0x84, CHR 0xAA] then CHR ''k'' # fold_name (drop 2 cs)
      else if c = CHR 0xC5 \<and> take 1 cs = [CHR 0xBF] then CHR ''s'' # fold_name (drop 1 cs)
      else to_lower_char c # fold_name cs)"
  by pat_completeness auto
termination by (relation "measure length") auto

declare fold_name.simps(2) [simp del]

definition selects :: "string \<Rightarrow> string \<Rightarrow> bool" where
  "selects key field = (fold_name key = field)"

text \<open>Assigning a decoded value to a field: \<^verbatim>\<open>null\<close> leaves it alone, another type is an error.\<close>

definition set_str :: "(string \<Rightarrow> 'r \<Rightarrow> 'r) \<Rightarrow> json \<Rightarrow> 'r \<Rightarrow> 'r option" where
  "set_str f v r = (case v of JStr s \<Rightarrow> Some (f s r) | JNull \<Rightarrow> Some r | _ \<Rightarrow> None)"

definition set_int :: "(int \<Rightarrow> 'r \<Rightarrow> 'r) \<Rightarrow> json \<Rightarrow> 'r \<Rightarrow> 'r option" where
  "set_int f v r = (case v of JNum t \<Rightarrow> map_option (\<lambda>i. f i r) (atoi t) | JNull \<Rightarrow> Some r | _ \<Rightarrow> None)"

fun str_elems :: "json list \<Rightarrow> string list option" where
  "str_elems [] = Some []"
| "str_elems (v # vs) =
     (case v of
        JStr s \<Rightarrow> map_option ((#) s) (str_elems vs)
      | JNull \<Rightarrow> map_option ((#) []) (str_elems vs)
      | _ \<Rightarrow> None)"

definition set_strs :: "(string list \<Rightarrow> 'r \<Rightarrow> 'r) \<Rightarrow> json \<Rightarrow> 'r \<Rightarrow> 'r option" where
  "set_strs f v r =
     (case v of JArr xs \<Rightarrow> map_option (\<lambda>ss. f ss r) (str_elems xs) | JNull \<Rightarrow> Some (f [] r) | _ \<Rightarrow> None)"

text \<open>Filling a struct from an object, member by member; unknown keys are ignored.\<close>

type_synonym 'r field_table = "(string \<times> (json \<Rightarrow> 'r \<Rightarrow> 'r option)) list"

fun decode_fields :: "'r field_table \<Rightarrow> (string \<times> json) list \<Rightarrow> 'r \<Rightarrow> 'r option" where
  "decode_fields tab [] r = Some r"
| "decode_fields tab ((k, v) # ms) r =
     (case map_of tab (fold_name k) of
        None \<Rightarrow> decode_fields tab ms r
      | Some f \<Rightarrow> (case f v r of None \<Rightarrow> None | Some r' \<Rightarrow> decode_fields tab ms r'))"

definition unmarshal_struct :: "'r field_table \<Rightarrow> 'r \<Rightarrow> bytes \<Rightarrow> 'r option" where
  "unmarshal_struct tab zero b =
     (case json_parse b of
        Some (JObj ms) \<Rightarrow> decode_fields tab ms zero
      | Some JNull \<Rightarrow> Some zero
      | _ \<Rightarrow> None)"

text \<open>Printing fields, with and without \<^verbatim>\<open>omitempty\<close>.\<close>

definition int_field :: "string \<Rightarrow> int \<Rightarrow> (string \<times> json) list" where
  "int_field k i = [(k, JNum (int_text i))]"

definition str_field :: "string \<Rightarrow> string \<Rightarrow> (string \<times> json) list" where
  "str_field k s = [(k, JStr s)]"

definition opt_int :: "string \<Rightarrow> int \<Rightarrow> (string \<times> json) list" where
  "opt_int k i = (if i = 0 then [] else int_field k i)"

definition opt_str :: "string \<Rightarrow> string \<Rightarrow> (string \<times> json) list" where
  "opt_str k s = (if s = [] then [] else str_field k s)"

definition opt_strs :: "string \<Rightarrow> string list \<Rightarrow> (string \<times> json) list" where
  "opt_strs k ss = (if ss = [] then [] else [(k, JArr (map JStr ss))])"

lemmas field_defs = int_field_def str_field_def opt_int_def opt_str_def opt_strs_def

lemma int_literal_int_text: "int_literal (int_text i)"
proof -
  have li: "lex_int (nat_dec n) = Some (nat_dec n, [])" for n
  proof -
    obtain c cs where c: "nat_dec n = c # cs" "is_digit c" using nat_dec_head by blast
    have "cs = []" if "c = CHR ''0''"
      using that nat_dec_zero [of n cs] c by (auto simp: nat_dec.simps)
    moreover have "takeWhile is_digit cs = cs" "dropWhile is_digit cs = []"
      using nat_dec_all_digits [of n] c by (simp_all add: takeWhile_eq_all_conv list_all_iff)
    ultimately show ?thesis using c by (auto simp: lex_int_def)
  qed
  obtain c cs where c: "nat_dec (nat i) = c # cs" "c \<noteq> CHR ''-''" using nat_dec_head by blast
  show ?thesis
    using li [of "nat (- i)"] li [of "nat i", unfolded c] c nat_dec_all_digits [of "nat i"] nat_dec_all_digits [of "nat (- i)"]
    by (auto simp: int_literal_def int_text_def lex_num_def num_sign_def lex_frac_def lex_exp_def list_all_iff split: list.splits)
qed

lemma ints_only_field [simp]:
  "list_all (\<lambda>(k, v). ints_only v) (int_field k i)" "list_all (\<lambda>(k, v). ints_only v) (str_field k s)"
  "list_all (\<lambda>(k, v). ints_only v) (opt_int k i)" "list_all (\<lambda>(k, v). ints_only v) (opt_str k s)"
  "list_all (\<lambda>(k, v). ints_only v) (opt_strs k ss)"
  by (simp_all add: field_defs int_literal_int_text list_all_iff)

text \<open>Decoding what was printed, one field at a time.\<close>

lemma decode_append:
  "decode_fields tab (xs @ ys) r = (case decode_fields tab xs r of None \<Rightarrow> None | Some r' \<Rightarrow> decode_fields tab ys r')"
  by (induction tab xs r rule: decode_fields.induct) (auto split: option.split)

lemma decode_int_field:
  "map_of tab (fold_name k) = Some (set_int f) \<Longrightarrow> - (2 ^ 63) \<le> i \<Longrightarrow> i < 2 ^ 63 \<Longrightarrow> decode_fields tab (int_field k i) r = Some (f i r)"
  by (simp add: int_field_def set_int_def atoi_int_text)

lemma decode_str_field:
  "map_of tab (fold_name k) = Some (set_str f) \<Longrightarrow> decode_fields tab (str_field k s) r = Some (f s r)"
  by (simp add: str_field_def set_str_def)

lemma decode_opt_int:
  "map_of tab (fold_name k) = Some (set_int f) \<Longrightarrow> - (2 ^ 63) \<le> i \<Longrightarrow> i < 2 ^ 63 \<Longrightarrow> f 0 r = r \<Longrightarrow>
     decode_fields tab (opt_int k i) r = Some (f i r)"
  by (simp add: opt_int_def decode_int_field)

lemma decode_opt_str:
  "map_of tab (fold_name k) = Some (set_str f) \<Longrightarrow> f [] r = r \<Longrightarrow> decode_fields tab (opt_str k s) r = Some (f s r)"
  by (simp add: opt_str_def decode_str_field)

lemma str_elems_map: "str_elems (map JStr ss) = Some ss"
  by (induction ss) auto

lemma decode_opt_strs:
  "map_of tab (fold_name k) = Some (set_strs f) \<Longrightarrow> f [] r = r \<Longrightarrow> decode_fields tab (opt_strs k ss) r = Some (f ss r)"
  by (simp add: opt_strs_def set_strs_def str_elems_map)

subsection \<open>Decoded documents are valid\<close>

lemma valid_append: "rune_ok r \<Longrightarrow> valid_utf8 (r @ s) = valid_utf8 s"
proof -
  assume r: "rune_ok r"
  then obtain c cs where c: "r = c # cs" by (cases r) (auto simp: rune_ok_def)
  have "rune_size (c # cs @ s) = Suc (length cs)" using rune_ok_append [OF r] by (simp add: c)
  then show ?thesis by (simp add: c valid_utf8_def runes.simps(2))
qed

lemma rune_ok_char: "code c < 128 \<Longrightarrow> rune_ok [c]"
  by (simp add: rune_ok_def rune_size_char)

lemma rune_ok_2: "2 \<le> a \<Longrightarrow> a < 32 \<Longrightarrow> b < 64 \<Longrightarrow> rune_ok [char_of (0xC0 + a :: nat), char_of (0x80 + b :: nat)]"
  by (simp add: rune_ok_def rune_size.simps(2) between_def cont_def)

lemma rune_ok_3:
  "a < 16 \<Longrightarrow> b < 64 \<Longrightarrow> c < 64 \<Longrightarrow> a = 0 \<longrightarrow> 32 \<le> b \<Longrightarrow> a = 13 \<longrightarrow> b < 32 \<Longrightarrow>
     rune_ok [char_of (0xE0 + a :: nat), char_of (0x80 + b :: nat), char_of (0x80 + c :: nat)]"
  by (auto simp: rune_ok_def rune_size.simps(2) between_def cont_def)

lemma rune_ok_4:
  "a \<le> 4 \<Longrightarrow> b < 64 \<Longrightarrow> c < 64 \<Longrightarrow> d < 64 \<Longrightarrow> a = 0 \<longrightarrow> 16 \<le> b \<Longrightarrow> a = 4 \<longrightarrow> b < 16 \<Longrightarrow>
     rune_ok [char_of (0xF0 + a :: nat), char_of (0x80 + b :: nat), char_of (0x80 + c :: nat), char_of (0x80 + d :: nat)]"
  by (auto simp: rune_ok_def rune_size.simps(2) between_def cont_def)

lemma rune_ok_encode: "rune_ok (encode_rune n)"
proof -
  have m: "m mod 64 < 64" for m :: nat by simp
  consider "n < 0x80" | "0x80 \<le> n" "n < 0x800" | "0x800 \<le> n" "n < 0x10000" "\<not> (0xD800 \<le> n \<and> n \<le> 0xDFFF)"
    | "0x10000 \<le> n" "n < 0x110000" | "0xD800 \<le> n" "n \<le> 0xDFFF \<or> 0x110000 \<le> n"
    by linarith
  then show ?thesis
  proof cases
    case 1
    then show ?thesis by (simp add: encode_rune_def rune_ok_char)
  next
    case 2
    then have "n div 64 < 32" "2 \<le> n div 64" by auto
    then have "rune_ok [char_of (0xC0 + n div 64), char_of (0x80 + n mod 64)]" using m by (intro rune_ok_2)
    then show ?thesis using 2 by (simp add: encode_rune_def)
  next
    case 3
    have d: "n div 4096 < 16" "n div 64 = 64 * (n div 4096) + n div 64 mod 64"
      using 3 div_mult2_eq [of n 64 64] mult_div_mod_eq [of 64 "n div 64"] by (auto simp: mult.commute)
    have "n div 4096 = 0 \<longrightarrow> 32 \<le> n div 64 mod 64" using 3(1) d(2) by auto
    moreover have "n div 4096 = 13 \<longrightarrow> n div 64 mod 64 < 32"
    proof
      assume a: "n div 4096 = 13"
      then have "n < 0xE000" by auto
      then have "n < 0xD800" using 3 by auto
      then show "n div 64 mod 64 < 32" using a d(2) by auto
    qed
    ultimately have "rune_ok [char_of (0xE0 + n div 4096), char_of (0x80 + n div 64 mod 64), char_of (0x80 + n mod 64)]"
      using d(1) m by (intro rune_ok_3)
    then show ?thesis using 3 by (auto simp: encode_rune_def)
  next
    case 4
    have d: "n div 262144 \<le> 4" "n div 4096 = 64 * (n div 262144) + n div 4096 mod 64"
      using 4 div_mult2_eq [of n 4096 64] mult_div_mod_eq [of 64 "n div 4096"] by (auto simp: mult.commute)
    have "n div 262144 = 0 \<longrightarrow> 16 \<le> n div 4096 mod 64" "n div 262144 = 4 \<longrightarrow> n div 4096 mod 64 < 16"
      using 4 d(2) by auto
    then have "rune_ok [char_of (0xF0 + n div 262144), char_of (0x80 + n div 4096 mod 64), char_of (0x80 + n div 64 mod 64), char_of (0x80 + n mod 64)]"
      using d(1) m by (intro rune_ok_4)
    then show ?thesis using 4 by (simp add: encode_rune_def)
  next
    case 5
    then have "encode_rune n = replacement" by (auto simp: encode_rune_def)
    then show ?thesis by (simp add: rune_ok_replacement)
  qed
qed

lemma unescape_u_ok: "unescape_u cs = Some (b, r) \<Longrightarrow> rune_ok b"
  by (auto simp: unescape_u_def rune_ok_encode rune_ok_replacement split: option.splits if_splits)

lemma simple_escape_ok: "simple_escape c = Some x \<Longrightarrow> rune_ok [x]"
  by (auto simp: simple_escape_def rune_ok_char split: if_splits)

lemma parse_str_valid: "parse_str cs = Some (s, r) \<Longrightarrow> valid_utf8 s"
proof (induction "length cs" arbitrary: cs s r rule: less_induct)
  case less
  have IH: "parse_str u = Some (a, r) \<Longrightarrow> length u < length cs \<Longrightarrow> valid_utf8 a" for u a
    using less(1) [of u a r] by simp
  obtain c ds where cs: "cs = c # ds" using less(2) by (cases cs) auto
  have take_ok: "rune_ok (take (rune_size cs) cs)" if "rune_size cs \<noteq> 0"
    using that rune_size_take [of cs "[]"] rune_size_bounds(1) [of cs] by (auto simp: rune_ok_def min_def)
  have esc: "valid_utf8 s" if c: "c = CHR 0x5C"
  proof -
    obtain e es where ds: "ds = e # es" using less(2) c cs by (cases ds) (auto simp: parse_str.simps(2))
    show ?thesis
    proof (cases "e = CHR ''u''")
      case True
      then obtain b u a where u: "unescape_u es = Some (b, u)" "parse_str u = Some (a, r)" "s = b @ a"
        using less(2) c cs ds by (auto simp: parse_str.simps(2) [of "CHR 0x5C"] map_option_pair_Some split: option.splits)
      then show ?thesis using IH [OF u(2)] unescape_u_length [OF u(1)] unescape_u_ok [OF u(1)] cs ds by (simp add: valid_append)
    next
      case False
      then obtain x a where x: "simple_escape e = Some x" "parse_str es = Some (a, r)" "s = x # a"
        using less(2) c cs ds by (auto simp: parse_str.simps(2) [of "CHR 0x5C"] map_option_pair_Some split: option.splits)
      then show ?thesis using IH [OF x(2)] simple_escape_ok [OF x(1)] valid_append [of "[x]" a] cs ds by simp
    qed
  qed
  have raw: "valid_utf8 s" if c: "c \<noteq> CHR 0x5C" "c \<noteq> CHR 0x22"
  proof (cases "rune_size cs = 0")
    case True
    then obtain a where a: "parse_str ds = Some (a, r)" "s = replacement @ a"
      using less(2) c cs by (auto simp: parse_str.simps(2) [of c] map_option_pair_Some Let_def split: if_splits)
    then show ?thesis using IH [OF a(1)] cs rune_ok_replacement by (simp add: valid_append)
  next
    case False
    then obtain a where a: "parse_str (drop (rune_size cs - 1) ds) = Some (a, r)" "s = take (rune_size cs) cs @ a"
      using less(2) c cs by (auto simp: parse_str.simps(2) [of c] map_option_pair_Some Let_def split: if_splits)
    then show ?thesis using IH [OF a(1)] cs take_ok [OF False] by (simp add: valid_append)
  qed
  show ?case using esc raw less(2) cs by (cases "c = CHR 0x22") (auto simp: parse_str.simps(2) valid_utf8_def)
qed

definition tok_valid :: "token \<Rightarrow> bool" where
  "tok_valid t = (case t of TStr s \<Rightarrow> valid_utf8 s | _ \<Rightarrow> True)"

lemma lex_tok_valid: "lex_tok s = Some (t, r) \<Longrightarrow> tok_valid t"
  by (auto simp: lex_tok_def tok_valid_def punct_def dest: parse_str_valid split: list.splits option.splits if_splits)

lemma lex_valid: "lex s = Some ts \<Longrightarrow> list_all tok_valid ts"
proof (induction "length s" arbitrary: s ts rule: less_induct)
  case less
  show ?case
  proof (cases s)
    case Nil
    then show ?thesis using less(2) by simp
  next
    case (Cons c cs)
    show ?thesis
    proof (cases "is_ws c")
      case True
      then show ?thesis using less(2) less(1) [of cs ts] Cons by (simp add: lex.simps(2) [of c])
    next
      case False
      then obtain t r us where t: "lex_tok s = Some (t, r)" "lex r = Some us" "ts = t # us"
        using less(2) Cons by (auto simp: lex.simps(2) [of c] split: option.splits)
      then show ?thesis using less(1) [OF lex_tok_length [OF t(1)] t(2)] lex_tok_valid [OF t(1)] by simp
    qed
  qed
qed

abbreviation members_valid :: "(string \<times> json) list \<Rightarrow> bool" where
  "members_valid ms \<equiv> list_all (\<lambda>(k, v). valid_utf8 k \<and> valid_json v) ms"

fun frame_valid :: "frame \<Rightarrow> bool" where
  "frame_valid (FArr xs) = list_all valid_json xs"
| "frame_valid (FObj ms k) = (valid_utf8 k \<and> members_valid ms)"

fun pstate_valid :: "pstate \<Rightarrow> bool" where
  "pstate_valid (PKey ms) = members_valid ms"
| "pstate_valid (PColon ms k) = (valid_utf8 k \<and> members_valid ms)"
| "pstate_valid (PAfter v) = valid_json v"
| "pstate_valid _ = True"

lemma step_tok_valid:
  "step_tok t p st = Some (p', st') \<Longrightarrow> tok_valid t \<Longrightarrow> pstate_valid p \<Longrightarrow> list_all frame_valid st \<Longrightarrow>
     pstate_valid p' \<and> list_all frame_valid st'"
  by (cases p; cases t)
    (auto simp: step_tok_def begin_value_def tok_valid_def split: if_splits list.splits frame.splits)

lemma parse_toks_valid:
  "parse_toks ts p st = Some v \<Longrightarrow> list_all tok_valid ts \<Longrightarrow> pstate_valid p \<Longrightarrow> list_all frame_valid st \<Longrightarrow> valid_json v"
proof (induction ts p st rule: parse_toks.induct)
  case (1 p st)
  then show ?case by (auto split: pstate.splits list.splits)
next
  case (2 t ts p st)
  then obtain p' st' where s: "step_tok t p st = Some (p', st')" "parse_toks ts p' st' = Some v"
    by (auto split: option.splits)
  then show ?case using 2(1) [OF s(1) refl s(2)] step_tok_valid [OF s(1)] 2(3-5) by simp
qed

lemma json_parse_valid: "json_parse s = Some v \<Longrightarrow> valid_json v"
  using lex_valid [of s] parse_toks_valid [of _ PValue "[]" v] by (auto simp: json_parse_def split: option.splits)

lemma atoi_range: "atoi t = Some i \<Longrightarrow> - (2 ^ 63) \<le> i \<and> i < 2 ^ 63"
  by (auto simp: atoi_def Let_def split: if_splits)

text \<open>An invariant that every field assignment keeps holds of the decoded struct.\<close>

lemma decode_fields_inv:
  assumes "\<forall>(k, f)\<in>set tab. \<forall>v r r'. valid_json v \<longrightarrow> P r \<longrightarrow> f v r = Some r' \<longrightarrow> P r'"
  shows "decode_fields tab ms r = Some r' \<Longrightarrow> members_valid ms \<Longrightarrow> P r \<Longrightarrow> P r'"
proof (induction ms arbitrary: r)
  case (Cons m ms)
  obtain k v where m: "m = (k, v)" by fastforce
  show ?case
  proof (cases "map_of tab (fold_name k)")
    case None
    then show ?thesis using Cons by (simp add: m)
  next
    case (Some f)
    then obtain q where q: "f v r = Some q" "decode_fields tab ms q = Some r'"
      using Cons.prems(1) by (auto simp: m split: option.splits)
    have "\<forall>v r r'. valid_json v \<longrightarrow> P r \<longrightarrow> f v r = Some r' \<longrightarrow> P r'"
      using bspec [OF assms map_of_SomeD [OF Some]] by simp
    then have "P q" using q(1) Cons.prems(2,3) by (auto simp: m)
    then show ?thesis using Cons.IH [OF q(2)] Cons.prems(2) by simp
  qed
qed simp

lemma unmarshal_struct_inv:
  assumes "\<forall>(k, f)\<in>set tab. \<forall>v r r'. valid_json v \<longrightarrow> P r \<longrightarrow> f v r = Some r' \<longrightarrow> P r'" "P zero"
    and "unmarshal_struct tab zero b = Some r"
  shows "P r"
  using assms(2,3) decode_fields_inv [OF assms(1)] json_parse_valid [of b]
  by (auto simp: unmarshal_struct_def split: option.splits json.splits)

lemma str_elems_valid: "str_elems vs = Some ss \<Longrightarrow> list_all valid_json vs \<Longrightarrow> list_all valid_utf8 ss"
  by (induction vs arbitrary: ss) (auto simp: valid_utf8_def split: json.splits)

lemma set_str_valid: "set_str f v r = Some r' \<Longrightarrow> valid_json v \<Longrightarrow> r' = r \<or> (\<exists>s. valid_utf8 s \<and> r' = f s r)"
  by (auto simp: set_str_def split: json.splits)

lemma set_int_valid: "set_int g v r = Some r' \<Longrightarrow> r' = r \<or> (\<exists>i. - (2 ^ 63) \<le> i \<and> i < 2 ^ 63 \<and> r' = g i r)"
proof -
  assume "set_int g v r = Some r'"
  then have "r' = r \<or> (\<exists>t i. atoi t = Some i \<and> r' = g i r)" by (auto simp: set_int_def split: json.splits)
  then show ?thesis using atoi_range by blast
qed

lemma set_strs_valid: "set_strs h v r = Some r' \<Longrightarrow> valid_json v \<Longrightarrow> \<exists>ss. list_all valid_utf8 ss \<and> r' = h ss r"
proof -
  assume a: "set_strs h v r = Some r'" "valid_json v"
  show ?thesis
  proof (cases v)
    case (JArr xs)
    then show ?thesis using a str_elems_valid [of xs] by (auto simp: set_strs_def)
  next
    case JNull
    then show ?thesis using a by (auto simp: set_strs_def intro!: exI [of _ "[]"])
  qed (use a in \<open>simp_all add: set_strs_def\<close>)
qed

lemma valid_ascii: "list_all (\<lambda>c. code c < 128) s \<Longrightarrow> valid_utf8 s"
  unfolding valid_utf8_def by (induction s rule: runes.induct) (simp_all add: runes.simps(2) rune_size_char)

lemma depth_field [simp]:
  "list_all (\<lambda>(k, v). json_depth v \<le> Suc 0) (int_field k i)" "list_all (\<lambda>(k, v). json_depth v \<le> Suc 0) (str_field k s)"
  "list_all (\<lambda>(k, v). json_depth v \<le> Suc 0) (opt_int k i)" "list_all (\<lambda>(k, v). json_depth v \<le> Suc 0) (opt_str k s)"
  "list_all (\<lambda>(k, v). json_depth v \<le> Suc 0) (opt_strs k ss)"
proof -
  have "foldr max (map (json_depth \<circ> JStr) ss) 0 = 0" by (induction ss) simp_all
  then show "list_all (\<lambda>(k, v). json_depth v \<le> Suc 0) (opt_strs k ss)" by (simp add: opt_strs_def)
qed (simp_all add: field_defs)

lemma json_depth_obj: "list_all (\<lambda>(k, v). json_depth v \<le> 1) ms \<Longrightarrow> json_depth (JObj ms) \<le> maxNestingDepth"
  using foldr_max_le [of "map (\<lambda>(k, v). json_depth v) ms" 1] by (fastforce simp: maxNestingDepth_def list_all_iff)

lemma valid_field [simp]:
  "members_valid (int_field k i) = valid_utf8 k" "members_valid (str_field k s) = (valid_utf8 k \<and> valid_utf8 s)"
  "members_valid (opt_int k i) = (i = 0 \<or> valid_utf8 k)" "members_valid (opt_str k s) = (s = [] \<or> valid_utf8 k \<and> valid_utf8 s)"
  "members_valid (opt_strs k ss) = (ss = [] \<or> valid_utf8 k \<and> list_all valid_utf8 ss)"
  by (auto simp: field_defs list_all_iff)

subsection \<open>Printed documents are single lines\<close>

lemma hex_digit_range: "32 \<le> code (hex_digit n) \<and> code (hex_digit n) < 128"
proof -
  have "hex_digit n \<in> set ''0123456789abcdef''" unfolding hex_digit_def by (rule nth_mem) simp
  then show ?thesis by auto
qed

lemma u_escape_no_ctl: "c \<in> set (u_escape n) \<Longrightarrow> 32 \<le> code c"
  by (auto simp: u_escape_def hex_digit_range)

lemma esc_char_no_ctl: "c \<in> set (esc_char d) \<Longrightarrow> 32 \<le> code c"
  by (auto simp: esc_char_def u_escape_no_ctl split: if_splits)

lemma rune_ok_no_ctl: "rune_ok (c # d # cs) \<Longrightarrow> x \<in> set (c # d # cs) \<Longrightarrow> 128 \<le> code x"
proof -
  assume ok: "rune_ok (c # d # cs)" and x: "x \<in> set (c # d # cs)"
  have n: "rune_size (c # d # cs) = length (c # d # cs)" "rune_size (c # d # cs) \<noteq> 0" using ok by (auto simp: rune_ok_def)
  from n(2) show ?thesis
  proof (cases rule: rune_size_cases)
    case one
    then show ?thesis using n(1) by simp
  next
    case two
    then show ?thesis using n(1) x by (auto simp: between_def cont_def)
  next
    case three
    then show ?thesis using n(1) x by (auto simp: between_def cont_def split: if_splits)
  next
    case four
    then show ?thesis using n(1) x by (auto simp: between_def cont_def split: if_splits)
  qed
qed

lemma json_escape_no_ctl: "c \<in> set (json_escape s) \<Longrightarrow> 32 \<le> code c"
proof -
  assume "c \<in> set (json_escape s)"
  then obtain r where r: "r \<in> set (runes s)" "c \<in> set (esc_rune r)" by (auto simp: json_escape_def)
  show ?thesis
  proof (cases r)
    case None
    then show ?thesis using r(2) u_escape_no_ctl by (simp add: esc_rune_def)
  next
    case (Some b)
    then have ok: "rune_ok b" using r(1) runes_ok by blast
    then obtain x xs where b: "b = x # xs" by (cases b) (auto simp: rune_ok_def)
    show ?thesis
    proof (cases xs)
      case Nil
      then show ?thesis using r(2) Some b esc_char_no_ctl by (simp add: esc_rune_def)
    next
      case (Cons y ys)
      then show ?thesis using r(2) Some b u_escape_no_ctl rune_ok_no_ctl [of x y ys c] ok by (auto simp: esc_rune_def split: if_splits)
    qed
  qed
qed

lemma json_print_no_newline: "ints_only v \<Longrightarrow> CHR 0x0A \<notin> set (json_print v)"
proof -
  assume i: "ints_only v"
  have "CHR 0x0A \<notin> set (tok_text t)" if "t \<in> set (json_toks v)" for t
  proof (cases t)
    case (TStr s)
    then show ?thesis using json_escape_no_ctl [of "CHR 0x0A" s] by (auto simp: tok_text_def)
  next
    case (TNum s)
    then have "int_literal s" using toks_ok [OF i] that by (auto simp: list_all_iff tok_ok_def)
    then show ?thesis using TNum by (auto simp: tok_text_def int_literal_def list_all_iff is_digit_def)
  qed (auto simp: tok_text_def)
  then show ?thesis by (auto simp: json_print_def)
qed

lemma trim_print_obj: "trim_space (json_print (JObj ms)) = json_print (JObj ms)" "hd (json_print (JObj ms)) = CHR ''{''"
  by (simp_all add: json_print_def tok_text_def trim_space_def is_space_def)

lemma print_obj_ne [simp]: "json_print (JObj ms) \<noteq> []"
  by (simp add: json_print_def tok_text_def)

lemma valid_hex [simp]: "valid_utf8 (hex_encode b)"
  by (rule valid_ascii) (auto simp: hex_encode_def list_all_iff hex_digit_range)

subsection \<open>The size of printed documents\<close>

lemma esc_char_length: "length (esc_char c) \<le> 6"
  by (simp add: esc_char_def u_escape_def)

lemma esc_rune_length:
  assumes "r \<noteq> Some []"
  shows "length (esc_rune r) \<le> 6 * (case r of None \<Rightarrow> 1 | Some b \<Rightarrow> length b)"
proof (cases r)
  case None
  then show ?thesis by (simp add: esc_rune_def u_escape_def)
next
  case (Some b)
  then obtain c cs where b: "b = c # cs" using assms by (cases b) auto
  then show ?thesis using Some esc_char_length [of c] by (cases cs) (auto simp: esc_rune_def u_escape_def)
qed

lemma json_escape_length: "length (json_escape s) \<le> 6 * length s"
proof (induction s rule: runes.induct)
  case (2 c cs)
  let ?n = "rune_size (c # cs)"
  show ?case
  proof (cases "?n = 0")
    case True
    then show ?thesis using "2.IH"(1) [OF refl] esc_rune_length [of None] by (simp add: json_escape_def runes.simps(2))
  next
    case False
    then have "length (esc_rune (Some (take ?n (c # cs)))) \<le> 6 * length (take ?n (c # cs))"
      using esc_rune_length [of "Some (take ?n (c # cs))"] by simp
    moreover have "length (take ?n (c # cs)) + length (drop (?n - 1) cs) = length (c # cs)"
      using False by (cases ?n) auto
    moreover have "length (json_escape (drop (?n - 1) cs)) \<le> 6 * length (drop (?n - 1) cs)" using "2.IH"(2) [OF refl] False by simp
    ultimately show ?thesis using False by (simp add: json_escape_def runes.simps(2) Let_def del: length_drop length_take)
  qed
qed (simp add: json_escape_def)

fun json_size :: "json \<Rightarrow> nat" where
  "json_size (JStr s) = 6 * length s + 2"
| "json_size (JNum t) = length t"
| "json_size (JArr xs) = 2 + sum_list (map (\<lambda>x. Suc (json_size x)) xs)"
| "json_size (JObj ms) = 2 + sum_list (map (\<lambda>(k, v). 6 * length k + 4 + json_size v) ms)"
| "json_size v = 5"

definition toks_length :: "token list \<Rightarrow> nat" where
  "toks_length ts = length (concat (map tok_text ts))"

lemma toks_length_simps [simp]: "toks_length [] = 0" "toks_length (t # ts) = length (tok_text t) + toks_length ts"
  "toks_length (ts @ us) = toks_length ts + toks_length us"
  by (simp_all add: toks_length_def)

lemma toks_length_commas: "toks_length (commas xs) \<le> sum_list (map (\<lambda>x. Suc (toks_length x)) xs)"
  by (induction xs rule: commas.induct) (auto simp: tok_text_def)

lemma json_print_size: "length (json_print v) \<le> json_size v"
proof -
  have "toks_length (json_toks v) \<le> json_size v"
  proof (induction v)
    case (JStr s)
    then show ?case using json_escape_length [of s] by (simp add: tok_text_def)
  next
    case (JArr xs)
    have "sum_list (map (\<lambda>x. Suc (toks_length x)) (map json_toks xs)) \<le> sum_list (map (\<lambda>x. Suc (json_size x)) xs)"
      using JArr.IH unfolding map_map comp_def by (intro sum_list_mono) simp
    then show ?case using toks_length_commas [of "map json_toks xs"] by (simp add: tok_text_def)
  next
    case (JObj ms)
    let ?f = "\<lambda>(k, v). TStr k # TColon # json_toks v"
    have "Suc (toks_length (?f m)) \<le> (\<lambda>(k, v). 6 * length k + 4 + json_size v) m" if "m \<in> set ms" for m
      using JObj.IH [of m "snd m"] that json_escape_length [of "fst m"] by (cases m) (auto simp: tok_text_def snds.simps)
    then have "sum_list (map (\<lambda>x. Suc (toks_length x)) (map ?f ms)) \<le> sum_list (map (\<lambda>(k, v). 6 * length k + 4 + json_size v) ms)"
      unfolding map_map comp_def by (intro sum_list_mono) simp
    then show ?case using toks_length_commas [of "map ?f ms"] by (simp add: tok_text_def)
  qed (simp_all add: tok_text_def)
  then show ?thesis by (simp add: toks_length_def json_print_def)
qed

text \<open>The members of an object, counted field by field.\<close>

definition members_size :: "(string \<times> json) list \<Rightarrow> nat" where
  "members_size ms = sum_list (map (\<lambda>(k, v). 6 * length k + 4 + json_size v) ms)"

lemma members_size_append: "members_size (ms @ ns) = members_size ms + members_size ns"
  by (simp add: members_size_def)

lemma print_members_size: "length (json_print (JObj ms)) \<le> 2 + members_size ms"
  using json_print_size [of "JObj ms"] by (simp add: members_size_def)

lemma nat_dec_length: "n < 10 ^ k \<Longrightarrow> 0 < k \<Longrightarrow> length (nat_dec n) \<le> k"
proof (induction n arbitrary: k rule: nat_dec.induct)
  case (1 n)
  show ?case
  proof (cases "n < 10")
    case True
    then show ?thesis using "1.prems" by (simp add: nat_dec.simps [of n])
  next
    case False
    then obtain j where k: "k = Suc j" "0 < j" using "1.prems" by (cases k; cases "k - 1") auto
    then have "length (nat_dec (n div 10)) \<le> j" using "1.IH" [OF False, of j] "1.prems"(1) by (simp add: less_mult_imp_div_less)
    then show ?thesis using False k by (simp add: nat_dec.simps [of n])
  qed
qed

lemma int_text_length: "- (2 ^ 63) \<le> i \<and> i < 2 ^ 63 \<Longrightarrow> length (int_text i) \<le> 20"
proof -
  assume i: "- (2 ^ 63) \<le> i \<and> i < 2 ^ 63"
  then have "nat i < 10 ^ 19" "nat (- i) < 10 ^ 19" by (auto simp: nat_less_iff)
  then show ?thesis using nat_dec_length [of "nat i" 19] nat_dec_length [of "nat (- i)" 19] by (simp add: int_text_def)
qed

lemma field_size:
  "- (2 ^ 63) \<le> i \<and> i < 2 ^ 63 \<Longrightarrow> members_size (int_field k i) \<le> 6 * length k + 24"
  "- (2 ^ 63) \<le> i \<and> i < 2 ^ 63 \<Longrightarrow> members_size (opt_int k i) \<le> 6 * length k + 24"
  "members_size (str_field k s) \<le> 6 * length k + 6 * length s + 6"
  "members_size (opt_str k s) \<le> 6 * length k + 6 * length s + 6"
  "members_size (opt_strs k ss) \<le> 6 * length k + 6 + sum_list (map (\<lambda>s. Suc (Suc (Suc (6 * length s)))) ss)"
  using int_text_length [of i] by (auto simp: members_size_def field_defs comp_def)

end
