(* ===== verification/Rpc.thy ===== *)
theory Rpc
  imports Json
begin

text \<open>
  Classification of a JSON-RPC line (\<^verbatim>\<open>src/policy/classify.go\<close>, the duplicate-key scan of
  \<^verbatim>\<open>filter.go\<close>) and the removal of security tokens from \<^verbatim>\<open>params._meta\<close>.  A struct is filled as \<^verbatim>\<open>json.Unmarshal\<close> does it: an object key selects a field
  when it equals the field's name up to letter case, and of several keys that select the same
  field the last one wins.
\<close>

text \<open>\<^verbatim>\<open>scanNoDupKeys\<close>: no object at any depth repeats a key; keys are compared exactly.\<close>

fun no_dup :: "json \<Rightarrow> bool"
  and no_dup_elems :: "json list \<Rightarrow> bool"
  and no_dup_members :: "string list \<Rightarrow> (string \<times> json) list \<Rightarrow> bool" where
  "no_dup (JObj ms) = no_dup_members [] ms"
| "no_dup (JArr xs) = no_dup_elems xs"
| "no_dup _ = True"
| "no_dup_elems [] = True"
| "no_dup_elems (x # xs) = (no_dup x \<and> no_dup_elems xs)"
| "no_dup_members seen [] = True"
| "no_dup_members seen ((k, v) # ms) = (k \<notin> set seen \<and> no_dup v \<and> no_dup_members (k # seen) ms)"

text \<open>\<^verbatim>\<open>rpcPeek\<close> and how it is filled.\<close>

record peek =
  pk_method :: string
  pk_id :: "json option"
  pk_name :: string
  pk_args :: "json option"

definition zero_peek :: peek where
  "zero_peek = \<lparr>pk_method = [], pk_id = None, pk_name = [], pk_args = None\<rparr>"

fun decode_params :: "(string \<times> json) list \<Rightarrow> peek \<Rightarrow> peek option" where
  "decode_params [] p = Some p"
| "decode_params ((k, v) # ms) p =
     (if selects k ''name'' then
        (case v of JStr s \<Rightarrow> decode_params ms (p\<lparr>pk_name := s\<rparr>) | JNull \<Rightarrow> decode_params ms p | _ \<Rightarrow> None)
      else if selects k ''arguments'' then decode_params ms (p\<lparr>pk_args := Some v\<rparr>)
      else decode_params ms p)"

fun decode_members :: "(string \<times> json) list \<Rightarrow> peek \<Rightarrow> peek option" where
  "decode_members [] p = Some p"
| "decode_members ((k, v) # ms) p =
     (if selects k ''method'' then
        (case v of JStr s \<Rightarrow> decode_members ms (p\<lparr>pk_method := s\<rparr>) | JNull \<Rightarrow> decode_members ms p | _ \<Rightarrow> None)
      else if selects k ''id'' then decode_members ms (p\<lparr>pk_id := Some v\<rparr>)
      else if selects k ''params'' then
        (case v of
           JObj ps \<Rightarrow> (case decode_params ps p of None \<Rightarrow> None | Some q \<Rightarrow> decode_members ms q)
         | JNull \<Rightarrow> decode_members ms p
         | _ \<Rightarrow> None)
      else decode_members ms p)"

definition unmarshal_peek :: "json \<Rightarrow> peek option" where
  "unmarshal_peek v = (case v of JObj ms \<Rightarrow> decode_members ms zero_peek | JNull \<Rightarrow> Some zero_peek | _ \<Rightarrow> None)"

datatype invalid_reason = Unparseable | DuplicateKey | BadID | NoToolName

datatype rpc_class =
    RPCEmpty | RPCBatch
  | RPCInvalid (inv_method: string) (inv_tool: string) (inv_id: "json option") (inv_why: invalid_reason)
  | RPCToolCall (call_tool: string) (call_id: json) (call_args: "json option")
  | RPCNotification (note_method: string)
  | RPCMethod (req_method: string) (req_id: json)

definition invalid_text :: "invalid_reason \<Rightarrow> string" where
  "invalid_text why = (case why of
       Unparseable \<Rightarrow> ''unparseable JSON-RPC line rejected by mesh policy''
     | DuplicateKey \<Rightarrow> ''ambiguous JSON-RPC (duplicate key) rejected by mesh policy''
     | BadID \<Rightarrow> ''tools/call rejected: missing or null JSON-RPC id (invalid MCP request)''
     | NoToolName \<Rightarrow> ''tools/call rejected: missing or empty params.name'')"

definition validRequestID :: "json option \<Rightarrow> bool" where
  "validRequestID i = (case i of None \<Rightarrow> False | Some v \<Rightarrow> v \<noteq> JNull)"

definition ClassifyRPC :: "bytes \<Rightarrow> rpc_class" where
  "ClassifyRPC line =
     (let trimmed = trim_space line in
      if trimmed = [] then RPCEmpty
      else if hd trimmed = CHR ''['' then RPCBatch
      else case json_parse trimmed of
        None \<Rightarrow> RPCInvalid [] [] None Unparseable
      | Some doc \<Rightarrow>
          (case unmarshal_peek doc of
             None \<Rightarrow> RPCInvalid [] [] None Unparseable
           | Some msg \<Rightarrow>
               (if \<not> no_dup doc then RPCInvalid [] [] None DuplicateKey
                else if pk_method msg = ''tools/call'' then
                  (case pk_id msg of
                     None \<Rightarrow> RPCInvalid ''tools/call'' (pk_name msg) None BadID
                   | Some i \<Rightarrow>
                       (if \<not> validRequestID (Some i) then RPCInvalid ''tools/call'' (pk_name msg) None BadID
                        else if pk_name msg = [] then RPCInvalid ''tools/call'' [] (Some i) NoToolName
                        else RPCToolCall (pk_name msg) i (pk_args msg)))
                else case pk_id msg of
                  None \<Rightarrow> RPCNotification (pk_method msg)
                | Some i \<Rightarrow> RPCMethod (pk_method msg) i)))"

subsection \<open>Stripping tokens\<close>

fun last_value :: "string \<Rightarrow> (string \<times> json) list \<Rightarrow> json option" where
  "last_value k [] = None"
| "last_value k ((k', v) # ms) =
     (case last_value k ms of Some w \<Rightarrow> Some w | None \<Rightarrow> if k' = k then Some v else None)"

definition del_key :: "string \<Rightarrow> (string \<times> json) list \<Rightarrow> (string \<times> json) list" where
  "del_key k ms = filter (\<lambda>(k', v). k' \<noteq> k) ms"

definition set_key :: "string \<Rightarrow> json \<Rightarrow> (string \<times> json) list \<Rightarrow> (string \<times> json) list" where
  "set_key k v ms = del_key k ms @ [(k, v)]"

text \<open>\<^verbatim>\<open>stripMetaToken\<close> on the tree: the token and the document without it, or \<^term>\<open>None\<close> when there
  is nothing to remove and the line is left byte for byte.\<close>

definition strip_meta :: "string \<Rightarrow> json \<Rightarrow> (string \<times> json) option" where
  "strip_meta key doc =
     (case doc of
        JObj ms \<Rightarrow>
          (case last_value ''params'' ms of
             Some (JObj pm) \<Rightarrow>
               (case last_value ''_meta'' pm of
                  Some (JObj meta) \<Rightarrow>
                    (case last_value key meta of
                       None \<Rightarrow> None
                     | Some v \<Rightarrow>
                         (let meta' = del_key key meta;
                              pm' = (if meta' = [] then del_key ''_meta'' pm else set_key ''_meta'' (JObj meta') pm)
                          in Some ((case v of JStr s \<Rightarrow> s | _ \<Rightarrow> []), JObj (set_key ''params'' (JObj pm') ms))))
                | _ \<Rightarrow> None)
           | _ \<Rightarrow> None)
      | _ \<Rightarrow> None)"

subsection \<open>Properties\<close>

lemma last_value_del_key: "last_value k (del_key k ms) = None"
  by (induction ms) (auto simp: del_key_def split: option.splits)

lemma last_value_append: "last_value k (xs @ ys) = (case last_value k ys of Some v \<Rightarrow> Some v | None \<Rightarrow> last_value k xs)"
  by (induction xs) (auto split: option.splits)

lemma last_value_set_key [simp]: "last_value k (set_key k v ms) = Some v"
  by (simp add: set_key_def last_value_append)

text \<open>The value at \<^verbatim>\<open>params._meta.key\<close>.\<close>

definition meta_at :: "string \<Rightarrow> json \<Rightarrow> json option" where
  "meta_at key doc =
     (case doc of
        JObj ms \<Rightarrow> (case last_value ''params'' ms of
          Some (JObj pm) \<Rightarrow> (case last_value ''_meta'' pm of Some (JObj meta) \<Rightarrow> last_value key meta | _ \<Rightarrow> None)
        | _ \<Rightarrow> None)
      | _ \<Rightarrow> None)"

lemma strip_meta_removes: "strip_meta key doc = Some (tok, doc') \<Longrightarrow> meta_at key doc' = None"
  by (auto simp: strip_meta_def meta_at_def Let_def last_value_del_key split: json.splits option.splits if_splits)

lemma strip_meta_None: "strip_meta key doc = None \<Longrightarrow> meta_at key doc = None"
  by (auto simp: strip_meta_def meta_at_def Let_def split: json.splits option.splits)

text \<open>Only a well-formed request is governed as a tool call, and a tool call is never taken for
  anything else. A line classified as a tool call parses to an object without repeated keys, has
  a request id that is present and not null, and a non-empty tool name; and a line whose decoded
  method is \<^verbatim>\<open>tools/call\<close> is never classified as a notification or an ordinary method, with or
  without an id.\<close>
theorem tools_call_classified_by_name:
  "(case ClassifyRPC line of
      RPCToolCall tool i args \<Rightarrow> tool \<noteq> [] \<and> i \<noteq> JNull \<and>
        (\<exists>doc msg. json_parse (trim_space line) = Some doc \<and> no_dup doc \<and> unmarshal_peek doc = Some msg \<and>
           pk_method msg = ''tools/call'' \<and> pk_name msg = tool \<and> pk_args msg = args)
    | RPCNotification m \<Rightarrow> m \<noteq> ''tools/call''
    | RPCMethod m i \<Rightarrow> m \<noteq> ''tools/call''
    | _ \<Rightarrow> True)"
  by (auto simp: ClassifyRPC_def validRequestID_def Let_def split: option.splits)

lemma lower_keys:
  "fold_name ''METHOD'' = ''method''" "fold_name ''method'' = ''method''" "fold_name ''id'' = ''id''"
  "fold_name ''params'' = ''params''" "fold_name ''name'' = ''name''" "fold_name ''_meta'' = ''_meta''"
  by code_simp+

lemma int_literal_one: "int_literal ''1''"
  by (simp add: int_literal_def lex_num_def num_sign_def lex_int_def lex_frac_def lex_exp_def is_digit_def)

text \<open>Two spellings of one key get past the duplicate check. The scan compares keys exactly
  while the decoder matches them up to letter case, so a message that says \<^verbatim>\<open>tools/call\<close> under
  \<^verbatim>\<open>method\<close> and, later, anything else under an upper-case \<^verbatim>\<open>METHOD\<close> has no repeated key and is
  classified as that other method, while a reader that matches keys exactly sees
  \<^verbatim>\<open>tools/call\<close>.\<close>
theorem case_variant_key_bypass:
  assumes "other \<noteq> ''tools/call''" "valid_utf8 tool" "valid_utf8 other"
    and "line = json_print (JObj [(''method'', JStr ''tools/call''), (''id'', JNum ''1''),
           (''params'', JObj [(''name'', JStr tool)]), (''METHOD'', JStr other)])"
  shows "ClassifyRPC line = RPCMethod other (JNum ''1'') \<and>
    (\<exists>ms. json_parse line = Some (JObj ms) \<and> last_value ''method'' ms = Some (JStr ''tools/call''))"
proof -
  let ?ms = "[(''method'', JStr ''tools/call''), (''id'', JNum ''1''), (''params'', JObj [(''name'', JStr tool)]), (''METHOD'', JStr other)]"
  have "json_parse line = Some (JObj ?ms)"
    unfolding assms(4) using assms(2,3) int_literal_one by (intro json_roundtrip) (simp_all add: maxNestingDepth_def valid_ascii)
  then show ?thesis
    using assms(1) trim_print_obj [of ?ms] print_obj_ne [of ?ms] unfolding assms(4)
    by (simp add: ClassifyRPC_def unmarshal_peek_def selects_def lower_keys zero_peek_def validRequestID_def)
qed

theorem case_variant_key_bypass_witness:
  "ClassifyRPC (json_print (JObj [(''method'', JStr ''tools/call''), (''id'', JNum ''1''),
     (''params'', JObj [(''name'', JStr ''drop'')]), (''METHOD'', JStr ''ping'')])) = RPCMethod ''ping'' (JNum ''1'')"
  by (rule conjunct1, rule case_variant_key_bypass) (simp_all add: valid_ascii)

end
