(* ===== verification/ToolFilter.thy ===== *)
theory ToolFilter
  imports Engine Capability Delegation Rpc
begin

text \<open>
  The enforcement point itself (\<^verbatim>\<open>src/policy/filter.go\<close>): reassembly of lines, stripping of
  tokens, and the handlers for tool calls, other methods and notifications, composed from the
  engine, the capability fold, router delegation, plugin hooks and grant consumption in the
  order the source runs them.  What the filter emits is recorded: lines forwarded to the
  backend, answers sent to the peer, audit entries and held co-sign requests.  Whether the audit
  sink fails on a given write is an argument; tracing and the event hook are pure output and are
  left out.
\<close>

subsection \<open>State\<close>

record caller =
  cl_backend :: string
  cl_peer :: string
  cl_key :: string
  cl_addr :: string
  cl_spiffe :: string

text \<open>A line on its way to the backend: the bytes the peer sent, or a document rewritten by a strip.\<close>

datatype fwd = Verbatim bytes | Rewritten json

datatype denial =
    DeniedBatch | DeniedInvalid "json option" invalid_reason
  | DeniedAudit json | DeniedSecret json | DeniedCosign json reason | DeniedTool json reason duration
  | DeniedMethod json

record deleg_audit =
  da_relevant :: bool
  da_caller :: string
  da_nonce :: string

record audit_entry =
  ae_caller :: caller
  ae_method :: string
  ae_tool :: string
  ae_rpc_id :: "json option"
  ae_outcome :: outcome
  ae_reason :: reason
  ae_rule :: int
  ae_cost :: int
  ae_deleg :: "(string \<times> string \<times> string) option"

record pending_call =
  pe_peer :: string
  pe_peer_key :: string
  pe_backend :: string
  pe_tool :: string
  pe_rpc_id :: json
  pe_args_hash :: string
  pe_policy_hash :: string

type_synonym tool_info = "string \<times> bytes \<times> labels"

record ('a, 'n) tool_filter =
  f_caller :: caller
  f_eng :: "'a engine option"
  f_cap :: "'n verifier option"
  f_capRequired :: bool
  f_deleg :: "'n deleg_verifier option"
  f_delegRequired :: bool
  f_hooks :: "tool_info hook option list"
  f_secrets :: "(string \<Rightarrow> fwd \<Rightarrow> labels \<Rightarrow> fwd option) option"
  f_failClosed :: bool
  f_tracing :: bool
  f_labels :: labels
  f_wbuf :: bytes
  f_audit :: "audit_entry list"
  f_pending :: "pending_call list option"
  f_inner :: "fwd list"
  f_out :: "denial list"

record ('a, 'n) fenv =
  fe_env :: "'a env"
  fe_crypto :: crypto
  fe_cap :: cap_codec
  fe_deleg :: deleg_codec
  fe_use :: "'n use_op"
  fe_raw :: "json \<Rightarrow> bytes"

definition maxLineBytes :: nat where "maxLineBytes = 16777216"

definition addLabels :: "string list \<Rightarrow> labels \<Rightarrow> labels" where
  "addLabels ls m = (\<lambda>l. l \<in> set ls \<or> m l)"

definition audited :: "bool \<Rightarrow> audit_entry \<Rightarrow> ('a, 'n) tool_filter \<Rightarrow> ('a, 'n) tool_filter" where
  "audited fails r f = (if fails then f else f\<lparr>f_audit := f_audit f @ [r]\<rparr>)"

text \<open>\<^verbatim>\<open>record\<close>: the caller's five identity fields are copied into every entry.\<close>

definition audit_record :: "('a, 'n) tool_filter \<Rightarrow> string \<Rightarrow> string \<Rightarrow> json option \<Rightarrow> decision \<Rightarrow> audit_entry" where
  "audit_record f meth tool i dec = \<lparr>ae_caller = f_caller f, ae_method = meth, ae_tool = tool, ae_rpc_id = i,
     ae_outcome = Outcome dec, ae_reason = Reason dec,
     ae_rule = RuleID dec, ae_cost = Cost dec, ae_deleg = None\<rparr>"

definition forward :: "fwd \<Rightarrow> ('a, 'n) tool_filter \<Rightarrow> ('a, 'n) tool_filter" where
  "forward l f = f\<lparr>f_inner := f_inner f @ [l]\<rparr>"

definition answer :: "denial \<Rightarrow> ('a, 'n) tool_filter \<Rightarrow> ('a, 'n) tool_filter" where
  "answer d f = f\<lparr>f_out := f_out f @ [d]\<rparr>"

subsection \<open>Authorising a tool call\<close>

definition call_of :: "('a, 'n) tool_filter \<Rightarrow> string \<Rightarrow> string \<Rightarrow> string \<Rightarrow> bytes \<Rightarrow> call" where
  "call_of f fqdn key tool args = \<lparr>c_fqdn = fqdn, c_key = key, c_backend = cl_backend (f_caller f), c_tool = tool,
     c_args = args, c_labels = f_labels f\<rparr>"

text \<open>\<^verbatim>\<open>applyDelegation\<close>.\<close>

definition applyDelegation ::
    "('a, 'n) fenv \<Rightarrow> ('a, 'n) tool_filter \<Rightarrow> 'a engine \<Rightarrow> 'n deleg_verifier \<Rightarrow> instant \<Rightarrow> decision \<Rightarrow> string \<Rightarrow> string \<Rightarrow> bytes \<Rightarrow>
     (decision \<times> deleg_audit) \<times> 'a engine \<times> 'n deleg_verifier" where
  "applyDelegation fe f e dv now dec token tool args =
     (if token = [] then
        (if f_delegRequired f
         then ((zero_decision\<lparr>Outcome := OutcomeDeny, RuleID := - 1, Reason := DelegRequired\<rparr>,
                \<lparr>da_relevant = True, da_caller = [], da_nonce = []\<rparr>), e, dv)
         else ((dec, \<lparr>da_relevant = False, da_caller = [], da_nonce = []\<rparr>), e, dv))
      else
        (let ((tok, err), dv') = Check (fe_crypto fe) (fe_deleg fe) (env_args_hash (fe_env fe)) (fe_use fe) dv now token
                                   (cl_key (f_caller f)) (cl_backend (f_caller f)) tool args;
             (callerDec, e') = (if err = None \<and> Outcome dec = OutcomeAllow
                                then DecideToolCallBound (fe_env fe) e (call_of f (DTCaller tok) (DTCaller tok) tool args) now
                                else (zero_decision, e))
         in ((AuthorizeDelegated callerDec dec err,
              \<lparr>da_relevant = True, da_caller = DTCaller tok, da_nonce = DTNonce tok\<rparr>), e', dv')))"

text \<open>The stages of the decision pipeline of \<^verbatim>\<open>handleToolCall\<close> after the engine: the capability fold,
  delegation, hooks, and consumption of a load-bearing single-use grant.\<close>

definition stage_cap ::
    "('a, 'n) fenv \<Rightarrow> ('a, 'n) tool_filter \<Rightarrow> instant \<Rightarrow> decision \<Rightarrow> string \<Rightarrow> string \<Rightarrow> decision \<times> claims option" where
  "stage_cap fe f now dec capToken tool =
     (case f_cap f of
        None \<Rightarrow> (dec, None)
      | Some v \<Rightarrow> FoldCapability (fe_crypto fe) (fe_cap fe) dec (Some v) (f_capRequired f) now capToken
                   (cl_key (f_caller f)) (cl_backend (f_caller f)) tool)"

definition stage_deleg ::
    "('a, 'n) fenv \<Rightarrow> ('a, 'n) tool_filter \<Rightarrow> 'a engine \<Rightarrow> instant \<Rightarrow> decision \<Rightarrow> string \<Rightarrow> string \<Rightarrow> bytes \<Rightarrow>
     (decision \<times> deleg_audit) \<times> 'a engine \<times> 'n deleg_verifier option" where
  "stage_deleg fe f e now dec delegToken tool args =
     (case f_deleg f of
        None \<Rightarrow> ((dec, \<lparr>da_relevant = False, da_caller = [], da_nonce = []\<rparr>), e, None)
      | Some dv \<Rightarrow> (case applyDelegation fe f e dv now dec delegToken tool args of (r, e', dv') \<Rightarrow> (r, e', Some dv')))"

definition stage_hooks :: "('a, 'n) tool_filter \<Rightarrow> string \<Rightarrow> bytes \<Rightarrow> decision \<Rightarrow> decision" where
  "stage_hooks f tool args dec =
     (if f_hooks f \<noteq> [] then applyDecisionHooks (f_hooks f) (tool, args, f_labels f) dec else dec)"

definition stage_consume ::
    "('a, 'n) fenv \<Rightarrow> ('a, 'n) tool_filter \<Rightarrow> instant \<Rightarrow> decision \<Rightarrow> claims option \<Rightarrow> decision \<times> 'n verifier option" where
  "stage_consume fe f now dec pend =
     (case (pend, f_cap f) of
        (Some c, Some v) \<Rightarrow>
          (if Outcome dec = OutcomeAllow
           then (case Consume (fe_crypto fe) (fe_use fe) v now c of
                   (Some err, v') \<Rightarrow>
                     (zero_decision\<lparr>Outcome := OutcomeDeny, RuleID := RuleID dec, Reason := CapInvalid err\<rparr>, Some v')
                 | (None, v') \<Rightarrow> (dec, Some v'))
           else (dec, f_cap f))
      | _ \<Rightarrow> (dec, f_cap f))"

definition engine_call :: "('a, 'n) tool_filter \<Rightarrow> string \<Rightarrow> bytes \<Rightarrow> call" where
  "engine_call f tool args = call_of f (cl_peer (f_caller f)) (cl_key (f_caller f)) tool args"

definition decide_call ::
    "('a, 'n) fenv \<Rightarrow> ('a, 'n) tool_filter \<Rightarrow> 'a engine \<Rightarrow> instant \<Rightarrow> string \<Rightarrow> bytes \<Rightarrow> string \<Rightarrow> string \<Rightarrow>
     (decision \<times> deleg_audit) \<times> ('a, 'n) tool_filter" where
  "decide_call fe f e now tool args capToken delegToken =
     (let (dec0, e1) = DecideToolCallBound (fe_env fe) e (engine_call f tool args) now;
          (dec1, pend) = stage_cap fe f now dec0 capToken tool;
          ((dec2, da), e2, dv) = stage_deleg fe f e1 now dec1 delegToken tool args;
          dec3 = stage_hooks f tool args dec2;
          (dec4, cap) = stage_consume fe f now dec3 pend
      in ((dec4, da), f\<lparr>f_eng := Some e2, f_deleg := dv, f_cap := cap\<rparr>))"

definition call_record :: "('a, 'n) tool_filter \<Rightarrow> string \<Rightarrow> json \<Rightarrow> decision \<Rightarrow> deleg_audit \<Rightarrow> audit_entry" where
  "call_record f tool i dec da =
     (audit_record f ''tools/call'' tool (Some i) dec)\<lparr>ae_deleg :=
        (if da_relevant da then Some (da_caller da, cl_key (f_caller f), da_nonce da) else None)\<rparr>"

definition handleToolCall ::
    "('a, 'n) fenv \<Rightarrow> ('a, 'n) tool_filter \<Rightarrow> 'a engine \<Rightarrow> instant \<Rightarrow> bool \<Rightarrow> fwd \<Rightarrow> string \<Rightarrow> json \<Rightarrow> bytes \<Rightarrow> string \<Rightarrow> string \<Rightarrow>
     ('a, 'n) tool_filter" where
  "handleToolCall fe f e now auditFails line tool i args capToken delegToken =
     (let ((dec, da), f1) = decide_call fe f e now tool args capToken delegToken;
          f2 = audited auditFails (call_record f tool i dec da) f1
      in if auditFails \<and> f_failClosed f then answer (DeniedAudit i) f2
         else case Outcome dec of
           OutcomeAllow \<Rightarrow>
             (let f3 = f2\<lparr>f_labels := addLabels (AddLabels dec) (f_labels f2)\<rparr>
              in case f_secrets f of
                   None \<Rightarrow> forward line f3
                 | Some res \<Rightarrow>
                     (case res tool line (f_labels f3) of
                        None \<Rightarrow> answer (DeniedSecret i) f3
                      | Some line' \<Rightarrow> forward line' f3))
         | OutcomeCosign \<Rightarrow>
             answer (DeniedCosign i (Reason dec))
               (case f_pending f2 of
                  None \<Rightarrow> f2
                | Some ps \<Rightarrow> f2\<lparr>f_pending := Some (ps @ [\<lparr>pe_peer = cl_peer (f_caller f), pe_peer_key = cl_key (f_caller f),
                      pe_backend = cl_backend (f_caller f), pe_tool = tool, pe_rpc_id = i, pe_args_hash = env_args_hash (fe_env fe) args,
                      pe_policy_hash = (case f_eng f2 of None \<Rightarrow> [] | Some e' \<Rightarrow> ph e')\<rparr>])\<rparr>)
         | OutcomeDeny \<Rightarrow> answer (DeniedTool i (Reason dec) (RetryAfter dec)) f2)"

subsection \<open>Other methods and notifications\<close>

definition handleMethod ::
    "('a, 'n) tool_filter \<Rightarrow> 'a engine \<Rightarrow> bool \<Rightarrow> fwd \<Rightarrow> string \<Rightarrow> json \<Rightarrow> ('a, 'n) tool_filter" where
  "handleMethod f e auditFails line meth i =
     (let dec = DecideMethod (pol e) (cl_peer (f_caller f)) (cl_key (f_caller f)) meth in
      if RuleID dec = - 1 then forward line f
      else let f1 = audited auditFails (audit_record f meth [] (Some i) dec) f
           in if Allow dec then
                (if auditFails \<and> f_failClosed f then answer (DeniedAudit i) f1 else forward line f1)
              else answer (DeniedMethod i) f1)"

definition handleNotification ::
    "('a, 'n) tool_filter \<Rightarrow> 'a engine \<Rightarrow> bool \<Rightarrow> fwd \<Rightarrow> string \<Rightarrow> ('a, 'n) tool_filter" where
  "handleNotification f e auditFails line meth =
     (let dec = DecideMethod (pol e) (cl_peer (f_caller f)) (cl_key (f_caller f)) meth in
      if RuleID dec = - 1 then forward line f
      else let f1 = audited auditFails (audit_record f meth [] None dec) f
           in if \<not> Allow dec then f1
              else if auditFails \<and> f_failClosed f then f1 else forward line f1)"

subsection \<open>A line\<close>

definition cap_meta_key :: string where "cap_meta_key = ''com.meshmcp/capability''"
definition deleg_meta_key :: string where "deleg_meta_key = ''com.meshmcp/delegation''"

text \<open>Strip one token from a line when its verifier is configured.\<close>

definition strip_token :: "bool \<Rightarrow> string \<Rightarrow> fwd \<Rightarrow> string \<times> fwd" where
  "strip_token configured key line =
     (if \<not> configured then ([], line)
      else case (case line of Verbatim b \<Rightarrow> json_parse b | Rewritten d \<Rightarrow> Some d) of
        None \<Rightarrow> ([], line)
      | Some d \<Rightarrow> (case strip_meta key d of None \<Rightarrow> ([], line) | Some (tok, d') \<Rightarrow> (tok, Rewritten d')))"

definition raw_args :: "('a, 'n) fenv \<Rightarrow> json option \<Rightarrow> bytes" where
  "raw_args fe a = (case a of None \<Rightarrow> [] | Some v \<Rightarrow> fe_raw fe v)"

definition handleLine ::
    "('a, 'n) fenv \<Rightarrow> instant \<Rightarrow> bool \<Rightarrow> bytes \<Rightarrow> ('a, 'n) tool_filter \<Rightarrow> ('a, 'n) tool_filter" where
  "handleLine fe now auditFails line f =
     (case f_eng f of
        None \<Rightarrow> (if trim_space line = [] then f else forward (Verbatim line) f)
      | Some e \<Rightarrow>
          (let cls = ClassifyRPC line;
               (capToken, l1) = strip_token (f_cap f \<noteq> None) cap_meta_key (Verbatim line);
               (delegToken, l2) = strip_token (f_deleg f \<noteq> None) deleg_meta_key l1
           in case cls of
                RPCEmpty \<Rightarrow> f
              | RPCBatch \<Rightarrow>
                  answer DeniedBatch (audited auditFails
                    (audit_record f ''<batch>'' [] None (zero_decision\<lparr>RuleID := - 1, Reason := ProtocolReason ''batches unsupported''\<rparr>)) f)
              | RPCInvalid m t i why \<Rightarrow>
                  answer (DeniedInvalid i why) (audited auditFails
                    (audit_record f (if m = [] then ''<invalid>'' else m) t i (zero_decision\<lparr>RuleID := - 1, Reason := ProtocolReason (invalid_text why)\<rparr>)) f)
              | RPCToolCall tool i a \<Rightarrow> handleToolCall fe f e now auditFails l2 tool i (raw_args fe a) capToken delegToken
              | RPCNotification m \<Rightarrow> handleNotification f e auditFails l2 m
              | RPCMethod m i \<Rightarrow> handleMethod f e auditFails l2 m i))"

text \<open>\<^verbatim>\<open>Write\<close>: append to the reassembly buffer, refuse an over-long line, handle each complete one.
  The result is \<^term>\<open>None\<close> when the connection is torn down.\<close>

fun complete_lines :: "bytes \<Rightarrow> bytes \<Rightarrow> bytes list \<times> bytes" where
  "complete_lines acc [] = ([], rev acc)"
| "complete_lines acc (c # cs) =
     (if c = CHR 0x0A then (let (ls, r) = complete_lines [] cs in (rev (c # acc) # ls, r))
      else complete_lines (c # acc) cs)"

fun handle_lines :: "('a, 'n) fenv \<Rightarrow> instant \<Rightarrow> bool \<Rightarrow> bytes list \<Rightarrow> ('a, 'n) tool_filter \<Rightarrow> ('a, 'n) tool_filter" where
  "handle_lines fe now auditFails [] f = f"
| "handle_lines fe now auditFails (l # ls) f = handle_lines fe now auditFails ls (handleLine fe now auditFails l f)"

definition filter_Write :: "('a, 'n) fenv \<Rightarrow> instant \<Rightarrow> bool \<Rightarrow> bytes \<Rightarrow> ('a, 'n) tool_filter \<Rightarrow> ('a, 'n) tool_filter option" where
  "filter_Write fe now auditFails p f =
     (if f_eng f = None \<and> \<not> f_tracing f then Some (forward (Verbatim p) f)
      else let buf = f_wbuf f @ p in
      if length buf > maxLineBytes then None
      else let (ls, rest) = complete_lines [] buf
           in Some ((handle_lines fe now auditFails ls f)\<lparr>f_wbuf := rest\<rparr>))"

subsection \<open>What a final allow rests on\<close>

lemma stage_cap_Allow:
  assumes "Outcome (fst (stage_cap fe f now dec tok tool)) = OutcomeAllow"
  shows "Outcome dec = OutcomeAllow \<or> Outcome dec = OutcomeDeny \<and> RuleID dec = - 1 \<and>
    (\<exists>v c. f_cap f = Some v \<and>
       verifyClaims (fe_crypto fe) (fe_cap fe) v now tok (cl_key (f_caller f)) (cl_backend (f_caller f)) tool = Inr c)"
  using assms
  by (cases "Outcome dec")
    (auto simp: stage_cap_def FoldCapability_def Let_def zero_decision_def cap_deny_def
      split: option.splits if_splits sum.splits)

lemma applyDelegation_Allow:
  assumes "applyDelegation fe f e dv now dec token tool args = ((d, da), e', dv')" "Outcome d = OutcomeAllow"
  shows "Outcome dec = OutcomeAllow"
  using assms
  by (auto simp: applyDelegation_def Let_def AuthorizeDelegated_Allow_iff zero_decision_def split: if_splits prod.splits)

lemma stage_deleg_Allow:
  assumes "stage_deleg fe f e now dec token tool args = ((d, da), e', dv')" "Outcome d = OutcomeAllow"
  shows "Outcome dec = OutcomeAllow"
  using assms applyDelegation_Allow
  by (auto simp: stage_deleg_def split: option.splits prod.splits)

lemma stage_hooks_Allow: "Outcome (stage_hooks f tool args dec) = OutcomeAllow \<Longrightarrow> Outcome dec = OutcomeAllow"
  using hooks_Allow_imp by (auto simp: stage_hooks_def split: if_splits)

lemma stage_consume_Allow:
  "Outcome (fst (stage_consume fe f now dec pend)) = OutcomeAllow \<Longrightarrow> fst (stage_consume fe f now dec pend) = dec"
  by (auto simp: stage_consume_def zero_decision_def split: option.splits prod.splits if_splits)

text \<open>The engine's own verdict on the call, before any token or plugin.\<close>

definition engine_verdict ::
    "('a, 'n) fenv \<Rightarrow> ('a, 'n) tool_filter \<Rightarrow> 'a engine \<Rightarrow> instant \<Rightarrow> string \<Rightarrow> bytes \<Rightarrow> decision" where
  "engine_verdict fe f e now tool args = fst (DecideToolCallBound (fe_env fe) e (engine_call f tool args) now)"

lemma decide_call_Allow:
  assumes "decide_call fe f e now tool args ct dt = ((dec, da), f')" "Outcome dec = OutcomeAllow"
  shows "Outcome (engine_verdict fe f e now tool args) = OutcomeAllow \<or>
    Outcome (engine_verdict fe f e now tool args) = OutcomeDeny \<and> RuleID (engine_verdict fe f e now tool args) = - 1 \<and>
    (\<exists>v c. f_cap f = Some v \<and>
       verifyClaims (fe_crypto fe) (fe_cap fe) v now ct (cl_key (f_caller f)) (cl_backend (f_caller f)) tool = Inr c)"
proof -
  obtain d0 e1 where d0: "DecideToolCallBound (fe_env fe) e (engine_call f tool args) now = (d0, e1)" by fastforce
  obtain d1 pend where d1: "stage_cap fe f now d0 ct tool = (d1, pend)" by fastforce
  obtain d2 da2 e2 dv where d2: "stage_deleg fe f e1 now d1 dt tool args = ((d2, da2), e2, dv)"
    by (metis prod.exhaust)
  obtain d4 cap where d4: "stage_consume fe f now (stage_hooks f tool args d2) pend = (d4, cap)" by fastforce
  have "dec = d4" using assms(1) d0 d1 d2 d4 by (simp add: decide_call_def Let_def)
  then have "Outcome (stage_hooks f tool args d2) = OutcomeAllow"
    using stage_consume_Allow [of fe f now "stage_hooks f tool args d2" pend] d4 assms(2) by simp
  then have "Outcome d1 = OutcomeAllow"
    using stage_hooks_Allow stage_deleg_Allow [OF d2] by blast
  then show ?thesis
    using stage_cap_Allow [of fe f now d0 ct tool] d0 d1 by (simp add: engine_verdict_def)
qed

lemma decide_call_state:
  assumes "decide_call fe f e now tool args ct dt = ((dec, da), f')"
  shows "f_labels f' = f_labels f" "f_inner f' = f_inner f" "f_failClosed f' = f_failClosed f"
    "f_audit f' = f_audit f" "f_caller f' = f_caller f" "f_hooks f' = f_hooks f" "f_secrets f' = f_secrets f"
  using assms by (auto simp: decide_call_def Let_def split: prod.splits)

lemma DecideToolCallBound_pol: "pol (snd (DecideToolCallBound env e c now)) = pol e"
  by (simp add: DecideToolCallBound_def decideTool_pol)

lemma applyDelegation_pol:
  "pol (fst (snd (applyDelegation fe f e dv now dec token tool args))) = pol e"
  by (auto simp: applyDelegation_def Let_def DecideToolCallBound_pol split: prod.splits if_splits
      dest!: arg_cong [where f = snd] intro: DecideToolCallBound_pol)

subsection \<open>Forwarding\<close>

lemma audited_fields [simp]:
  "f_inner (audited b r f) = f_inner f" "f_labels (audited b r f) = f_labels f" "f_eng (audited b r f) = f_eng f"
  "f_failClosed (audited b r f) = f_failClosed f" "f_pending (audited b r f) = f_pending f"
  "f_cap (audited b r f) = f_cap f" "f_deleg (audited b r f) = f_deleg f"
  "f_audit (audited b r f) = (if b then f_audit f else f_audit f @ [r])"
  by (simp_all add: audited_def)

lemma answer_fields [simp]:
  "f_inner (answer d f) = f_inner f" "f_labels (answer d f) = f_labels f" "f_eng (answer d f) = f_eng f"
  "f_audit (answer d f) = f_audit f" "f_cap (answer d f) = f_cap f" "f_deleg (answer d f) = f_deleg f"
  by (simp_all add: answer_def)

lemma forward_fields [simp]:
  "f_inner (forward l f) = f_inner f @ [l]" "f_labels (forward l f) = f_labels f" "f_eng (forward l f) = f_eng f"
  "f_audit (forward l f) = f_audit f" "f_cap (forward l f) = f_cap f" "f_deleg (forward l f) = f_deleg f"
  by (simp_all add: forward_def)

lemma handleToolCall_forwards:
  assumes dc: "decide_call fe f e now tool args ct dt = ((dec, da), f1)"
    and "f' = handleToolCall fe f e now af line tool i args ct dt"
  shows "f_inner f' = f_inner f \<or>
    Outcome dec = OutcomeAllow \<and> \<not> (af \<and> f_failClosed f) \<and> (\<exists>x. f_inner f' = f_inner f @ [x] \<and> (f_secrets f = None \<longrightarrow> x = line))"
    "f_labels f' = f_labels f \<or> Outcome dec = OutcomeAllow \<and> f_labels f' = addLabels (AddLabels dec) (f_labels f)"
    "f_audit f' = (if af then f_audit f else f_audit f @ [call_record f tool i dec da])"
    "f_eng f' = f_eng f1" "f_cap f' = f_cap f1" "f_deleg f' = f_deleg f1"
  using assms(2) decide_call_state [OF dc]
  by (auto simp: handleToolCall_def dc Let_def split: outcome.splits option.splits)

text \<open>C1: Nothing reaches the backend unauthorised. If handling a tool-call line hands anything to
  the backend, it is exactly one line, the final decision of the pipeline on the tokens stripped from
  that line was allow, the engine's own verdict was allow or it was the default deny lifted by the
  stripped capability, which verifies for this peer, backend and tool, and on a fail-closed audit
  log exactly that decision is on record.\<close>
theorem forwarded_call_authorised:
  assumes "f_eng f = Some e" "ClassifyRPC line = RPCToolCall tool i a"
    and "f' = handleLine fe now af line f" "f_inner f' \<noteq> f_inner f"
  shows "\<exists>ct l1 dt l2 dec da f1 x.
    strip_token (f_cap f \<noteq> None) cap_meta_key (Verbatim line) = (ct, l1) \<and>
    strip_token (f_deleg f \<noteq> None) deleg_meta_key l1 = (dt, l2) \<and>
    decide_call fe f e now tool (raw_args fe a) ct dt = ((dec, da), f1) \<and>
    f_inner f' = f_inner f @ [x] \<and> Outcome dec = OutcomeAllow \<and>
    (Outcome (engine_verdict fe f e now tool (raw_args fe a)) = OutcomeAllow \<or>
     Outcome (engine_verdict fe f e now tool (raw_args fe a)) = OutcomeDeny \<and>
     RuleID (engine_verdict fe f e now tool (raw_args fe a)) = - 1 \<and>
     (\<exists>v c. f_cap f = Some v \<and> verifyClaims (fe_crypto fe) (fe_cap fe) v now ct
        (cl_key (f_caller f)) (cl_backend (f_caller f)) tool = Inr c)) \<and>
    (f_failClosed f \<longrightarrow> f_audit f' = f_audit f @ [call_record f tool i dec da])"
proof -
  obtain ct l1 where s1: "strip_token (f_cap f \<noteq> None) cap_meta_key (Verbatim line) = (ct, l1)" by fastforce
  obtain dt l2 where s2: "strip_token (f_deleg f \<noteq> None) deleg_meta_key l1 = (dt, l2)" by fastforce
  have f': "f' = handleToolCall fe f e now af l2 tool i (raw_args fe a) ct dt"
    using assms(1-3) s1 s2 by (simp add: handleLine_def)
  obtain dec da f1 where dc: "decide_call fe f e now tool (raw_args fe a) ct dt = ((dec, da), f1)"
    by (metis prod.exhaust)
  note fw = handleToolCall_forwards [OF dc f']
  have al: "Outcome dec = OutcomeAllow" "\<not> (af \<and> f_failClosed f)" using fw(1) assms(4) by auto
  obtain x where x: "f_inner f' = f_inner f @ [x]" using fw(1) assms(4) by auto
  have "f_failClosed f \<longrightarrow> f_audit f' = f_audit f @ [call_record f tool i dec da]" using al(2) fw(3) by simp
  then show ?thesis
    using s1 s2 dc x al(1) decide_call_Allow [OF dc al(1)] by blast
qed

subsection \<open>Data-flow labels\<close>

type_synonym line_input = "instant \<times> bool \<times> bytes"

fun run_lines :: "('a, 'n) fenv \<Rightarrow> line_input list \<Rightarrow> ('a, 'n) tool_filter \<Rightarrow> ('a, 'n) tool_filter" where
  "run_lines fe [] f = f"
| "run_lines fe ((now, af, line) # xs) f = run_lines fe xs (handleLine fe now af line f)"

lemma handleMethod_labels [simp]:
  "f_labels (handleMethod f e af line m i) = f_labels f" "f_labels (handleNotification f e af line m) = f_labels f"
  by (simp_all add: handleMethod_def handleNotification_def Let_def)

lemma handleLine_labels: "f_labels f l \<Longrightarrow> f_labels (handleLine fe now af line f) l"
proof (cases "f_eng f")
  case None
  then show "f_labels f l \<Longrightarrow> ?thesis" by (simp add: handleLine_def)
next
  case (Some e)
  assume l: "f_labels f l"
  have "f_labels (handleToolCall fe f e now af ln tool i args ct dt) l" for ln tool i args ct dt
  proof -
    obtain dec da f1 where dc: "decide_call fe f e now tool args ct dt = ((dec, da), f1)" by (metis prod.exhaust)
    show ?thesis using handleToolCall_forwards(2) [OF dc refl, of af ln i] l by (auto simp: addLabels_def)
  qed
  then show ?thesis using Some l by (auto simp: handleLine_def Let_def split: rpc_class.split prod.split)
qed

lemma run_lines_labels: "f_labels f l \<Longrightarrow> f_labels (run_lines fe xs f) l"
  by (induction fe xs f rule: run_lines.induct) (simp_all add: handleLine_labels)

lemma blocked_verdict:
  assumes "first_idx (rule_applies (fe_env fe) e (engine_call f tool args) now) (Rules (pol e)) = Some j"
    and "l \<in> set (blockSet (Rules (pol e) ! j))" "[] \<notin> set (blockSet (Rules (pol e) ! j))" "f_labels f l"
  shows "Outcome (engine_verdict fe f e now tool args) = OutcomeDeny \<and>
    RuleID (engine_verdict fe f e now tool args) = int j"
proof -
  have "c_labels (engine_call f tool args) l" using assms(4) by (simp add: engine_call_def call_of_def)
  then have "firstPresent (blockSet (Rules (pol e) ! j)) (c_labels (engine_call f tool args)) \<noteq> []"
    using firstPresent_Nil [OF _ assms(3,2)] by blast
  then show ?thesis
    using assms(1) by (simp add: engine_verdict_def DecideToolCallBound_def decideTool_first rule_verdict_eq)
qed


text \<open>A delegated call leaves no labels. On a filter with router delegation and no plugin, a tool
  call that presents a delegation token never changes the session's labels, even when it is
  forwarded and the rules that allowed it declare the tool a taint source or emit labels: the
  intersection of the caller's and the router's decisions carries none.\<close>
theorem delegated_calls_leave_no_labels:
  assumes "f_deleg f = Some dv" "dt \<noteq> []" "f_hooks f = []"
  shows "f_labels (handleToolCall fe f e now af line tool i args ct dt) = f_labels f"
proof -
  obtain d0 e1 where d0: "DecideToolCallBound (fe_env fe) e (engine_call f tool args) now = (d0, e1)" by fastforce
  obtain d1 pend where d1: "stage_cap fe f now d0 ct tool = (d1, pend)" by fastforce
  obtain d2 da2 e2 dv2 where d2: "stage_deleg fe f e1 now d1 dt tool args = ((d2, da2), e2, dv2)"
    by (metis prod.exhaust)
  have "AddLabels d2 = []"
    using d2 assms(1,2)
    by (auto simp: stage_deleg_def applyDelegation_def Let_def AuthorizeDelegated_labels split: prod.splits)
  then have "AddLabels (fst (stage_consume fe f now d2 pend)) = []"
    by (simp add: stage_consume_def zero_decision_def split: option.split prod.split)
  moreover obtain dec da f1 where dc: "decide_call fe f e now tool args ct dt = ((dec, da), f1)" by (metis prod.exhaust)
  ultimately have "AddLabels dec = []"
    using d0 d1 d2 assms(3) by (auto simp: decide_call_def stage_hooks_def Let_def split: prod.splits)
  then show ?thesis using handleToolCall_forwards(2) [OF dc refl, of af line i] by (auto simp: addLabels_def)
qed

subsection \<open>Tokens stay at the filter\<close>

definition line_doc :: "fwd \<Rightarrow> json option" where
  "line_doc l = (case l of Verbatim b \<Rightarrow> json_parse b | Rewritten d \<Rightarrow> Some d)"

text \<open>The line carries no token under the key.\<close>

definition token_free :: "string \<Rightarrow> fwd \<Rightarrow> bool" where
  "token_free key l = (case line_doc l of None \<Rightarrow> True | Some d \<Rightarrow> meta_at key d = None)"

lemma last_value_del_key_other: "k \<noteq> k' \<Longrightarrow> last_value k (del_key k' ms) = last_value k ms"
  by (induction ms) (auto simp: del_key_def split: option.splits)

lemma strip_meta_keeps:
  "meta_at k doc = None \<Longrightarrow> strip_meta k' doc = Some (tok, doc') \<Longrightarrow> meta_at k doc' = None"
  by (cases "k = k'")
    (auto simp: strip_meta_def meta_at_def Let_def last_value_del_key last_value_del_key_other
      split: json.splits option.splits if_splits)

lemma strip_token_clean: "strip_token True key l = (tok, l') \<Longrightarrow> token_free key l'"
  using strip_meta_removes [of key] strip_meta_None [of key]
  by (auto simp: strip_token_def token_free_def line_doc_def split: option.splits fwd.splits prod.splits)

lemma strip_token_keeps:
  "token_free k l \<Longrightarrow> strip_token conf k' l = (tok, l') \<Longrightarrow> token_free k l'"
  using strip_meta_keeps [of k]
  by (auto simp: strip_token_def token_free_def line_doc_def split: option.splits fwd.splits prod.splits if_splits)

lemma handle_other_forwards:
  "f_inner (handleMethod f e af line m i) \<in> {f_inner f, f_inner f @ [line]}"
  "f_inner (handleNotification f e af line m) \<in> {f_inner f, f_inner f @ [line]}"
  by (simp_all add: handleMethod_def handleNotification_def Let_def)


subsection \<open>A concrete session\<close>

definition demo_fenv :: "(unit, mem_nonces) fenv" where
  "demo_fenv = \<lparr>fe_env = demo_env, fe_crypto = demo_crypto, fe_cap = demo_cap_codec, fe_deleg = demo_dcodec, fe_use = Use,
     fe_raw = (\<lambda>v. [])\<rparr>"

definition demo_line :: bytes where
  "demo_line = json_print (JObj [(''method'', JStr ''tools/call''), (''id'', JNum ''1''), (''params'', JObj [(''name'', JStr ''read'')])])"

definition demo_filter :: "(unit, mem_nonces) tool_filter" where
  "demo_filter = \<lparr>f_caller = \<lparr>cl_backend = ''fs'', cl_peer = ''box'', cl_key = ''k'', cl_addr = [], cl_spiffe = []\<rparr>, f_eng = Some demo_engine, f_cap = None,
     f_capRequired = False, f_deleg = None, f_delegRequired = False, f_hooks = [], f_secrets = None, f_failClosed = True,
     f_tracing = False, f_labels = (\<lambda>_. False), f_wbuf = [], f_audit = [], f_pending = None, f_inner = [], f_out = []\<rparr>"

lemma demo_parse:
  "json_parse demo_line = Some (JObj [(''method'', JStr ''tools/call''), (''id'', JNum ''1''), (''params'', JObj [(''name'', JStr ''read'')])])"
  unfolding demo_line_def using int_literal_one by (intro json_roundtrip) (simp_all add: maxNestingDepth_def valid_ascii)

lemma demo_class: "ClassifyRPC demo_line = RPCToolCall ''read'' (JNum ''1'') None"
  using demo_parse trim_print_obj print_obj_ne unfolding demo_line_def
  by (simp add: ClassifyRPC_def unmarshal_peek_def selects_def lower_keys zero_peek_def validRequestID_def)

lemma demo_engine_call: "engine_call demo_filter ''read'' [] = demo_call"
  by (simp add: engine_call_def call_of_def demo_filter_def demo_call_def)

lemma demo_forwarded: "f_inner (handleLine demo_fenv 0 False demo_line demo_filter) = [Verbatim demo_line]"
proof -
  have v: "Outcome (fst (DecideToolCallBound (fe_env demo_fenv) demo_engine demo_call 0)) = OutcomeAllow"
    using demo_decision by (simp add: DecideToolCallBound_def demo_fenv_def)
  obtain d0 e1 where d0: "DecideToolCallBound (fe_env demo_fenv) demo_engine demo_call 0 = (d0, e1)" by fastforce
  have out: "Outcome d0 = OutcomeAllow" using v d0 by simp
  have args: "raw_args demo_fenv None = []" by (simp add: raw_args_def)
  have f: "f_eng demo_filter = Some demo_engine" "f_cap demo_filter = None" "f_deleg demo_filter = None" "f_hooks demo_filter = []"
      "f_secrets demo_filter = None" "f_inner demo_filter = []"
    by (simp_all add: demo_filter_def)
  have dc: "decide_call demo_fenv demo_filter demo_engine 0 ''read'' [] [] [] =
      ((d0, \<lparr>da_relevant = False, da_caller = [], da_nonce = []\<rparr>), demo_filter\<lparr>f_eng := Some e1, f_deleg := None, f_cap := None\<rparr>)"
    using d0 f by (simp add: decide_call_def demo_engine_call stage_cap_def stage_deleg_def stage_hooks_def stage_consume_def)
  have "f_inner (handleToolCall demo_fenv demo_filter demo_engine 0 False (Verbatim demo_line) ''read'' (JNum ''1'') [] [] []) = [Verbatim demo_line]"
    using out f by (simp add: handleToolCall_def dc)
  then show ?thesis using f demo_class args by (simp add: handleLine_def strip_token_def)
qed

theorem forwarded_call_authorised_witness:
  "\<exists>x. f_inner (handleLine demo_fenv 0 False demo_line demo_filter) = f_inner demo_filter @ [x] \<and>
     length (f_audit (handleLine demo_fenv 0 False demo_line demo_filter)) = 1"
proof -
  have "f_eng demo_filter = Some demo_engine" "f_inner demo_filter = []" "f_failClosed demo_filter" "f_audit demo_filter = []"
    by (simp_all add: demo_filter_def)
  then show ?thesis
    using forwarded_call_authorised [where f = demo_filter and e = demo_engine and fe = demo_fenv and now = 0 and af = False, OF _ demo_class refl] demo_forwarded by auto
qed


text \<open>A delegated call of a tool whose rule emits a label, allowed on both legs.\<close>

definition routed_filter :: "(unit, mem_nonces) tool_filter" where
  "routed_filter = demo_filter\<lparr>f_caller := \<lparr>cl_backend = ''be'', cl_peer = ''router'', cl_key = ''rt'', cl_addr = [], cl_spiffe = []\<rparr>,
     f_deleg := Some \<lparr>pins = [PubKeyHex demo_signer], dv_audience = ''up'', dv_nonces = (\<lambda>_. None)\<rparr>\<rparr>"

lemma demo_rule_allows:
  assumes "pol e = pol demo_engine" "groups e = None" "c_tool c = ''read''" "\<not> c_labels c tainted_label"
    and "buckets e (bucket_key 0 (c_key c)) = None"
  shows "Outcome (fst (DecideToolCallBound demo_env e c t)) = OutcomeAllow"
    and "k \<noteq> c_key c \<Longrightarrow> buckets (snd (DecideToolCallBound demo_env e c t)) (bucket_key 0 k) = buckets e (bucket_key 0 k)"
    and "groups (snd (DecideToolCallBound demo_env e c t)) = groups e"
proof -
  have app: "rule_applies demo_env e c t demo_rule"
    using assms(3) by (simp add: rule_applies_def demo_rule_def peerMatches_def matchesTool_def)
  have rate: "rate_ok e 0 demo_rule (c_key c) t"
    using assms(5) by (simp add: rate_ok_def demo_rule_def allowRate_pos bucket_take_fields demo_limit_rate)
  have lab: "firstPresent (blockSet demo_rule) (c_labels c) = []"
    using assms(4) by (simp add: blockSet_def demo_rule_def)
  have d: "DecideToolCallBound demo_env e c t = rule_verdict demo_env e 0 demo_rule c True t"
    using app assms(1) by (simp add: DecideToolCallBound_def decideTool_first demo_rules)
  have rv: "rule_verdict demo_env e 0 demo_rule c True t = (allow_verdict 0 demo_rule NoReason, after_rate e 0 demo_rule (c_key c) t)"
    using rate lab by (simp add: rule_verdict_eq) (simp add: demo_rule_def)
  show "Outcome (fst (DecideToolCallBound demo_env e c t)) = OutcomeAllow" by (simp add: d rv)
  show "groups (snd (DecideToolCallBound demo_env e c t)) = groups e" by (simp add: d rv)
  show "buckets (snd (DecideToolCallBound demo_env e c t)) (bucket_key 0 k) = buckets e (bucket_key 0 k)" if "k \<noteq> c_key c"
    using that allowRate_other [of 0 "c_key c" 0 k e demo_limit t]
    by (simp add: d rv after_rate_def) (simp add: demo_rule_def)
qed

theorem delegated_calls_leave_no_labels_witness:
  "let f' = handleToolCall demo_fenv routed_filter demo_engine 5 False (Verbatim ''x'') ''read'' (JNum ''1'') ''a'' [] ''t''
   in f_labels f' = (\<lambda>_. False) \<and> f_inner f' = [Verbatim ''x''] \<and> emitSet demo_rule = [''web'']"
proof -
  define f' where "f' = handleToolCall demo_fenv routed_filter demo_engine 5 False (Verbatim ''x'') ''read'' (JNum ''1'') ''a'' [] ''t''"
  have fr: "f_deleg routed_filter = Some \<lparr>pins = [PubKeyHex demo_signer], dv_audience = ''up'', dv_nonces = (\<lambda>_. None)\<rparr>"
      "f_hooks routed_filter = []" "f_cap routed_filter = None" "f_secrets routed_filter = None" "f_inner routed_filter = []"
      "f_caller routed_filter = \<lparr>cl_backend = ''be'', cl_peer = ''router'', cl_key = ''rt'', cl_addr = [], cl_spiffe = []\<rparr>" "f_labels routed_filter = (\<lambda>_. False)"
    by (simp_all add: routed_filter_def demo_filter_def)
  have fe: "fe_env demo_fenv = demo_env" "env_args_hash demo_env = (\<lambda>a. a)" by (simp_all add: demo_fenv_def demo_env_def fun_eq_iff)
  have ge: "groups demo_engine = None" by (simp add: demo_engine_def NewEngine_def engine_setPolicy_def)
  let ?c0 = "engine_call routed_filter ''read'' ''a''"
  let ?c1 = "call_of routed_filter ''alice'' ''alice'' ''read'' ''a''"
  have c0: "c_tool ?c0 = ''read''" "c_key ?c0 = ''rt''" "c_labels ?c0 = (\<lambda>_. False)"
    and c1: "c_tool ?c1 = ''read''" "c_key ?c1 = ''alice''" "c_labels ?c1 = (\<lambda>_. False)"
    using fr by (simp_all add: engine_call_def call_of_def)
  obtain d0 e1 where d0: "DecideToolCallBound demo_env demo_engine ?c0 5 = (d0, e1)" by fastforce
  have o0: "Outcome d0 = OutcomeAllow" and b1: "buckets e1 (bucket_key 0 ''alice'') = None" and g1: "groups e1 = None"
    and p1: "pol e1 = pol demo_engine"
    using demo_rule_allows [of demo_engine ?c0, where t = 5] c0 d0 ge DecideToolCallBound_pol [of demo_env demo_engine ?c0 5]
    by (simp_all add: demo_rules)
  obtain d1 e2 where d1: "DecideToolCallBound demo_env e1 ?c1 5 = (d1, e2)" by fastforce
  have o1: "Outcome d1 = OutcomeAllow" using demo_rule_allows(1) [of e1 ?c1 5] c1 d1 b1 g1 p1 by simp
  obtain dv where ck: "Check demo_crypto demo_dcodec (\<lambda>a. a) Use \<lparr>pins = [PubKeyHex demo_signer], dv_audience = ''up'', dv_nonces = (\<lambda>_. None)\<rparr>
     5 ''t'' ''rt'' ''be'' ''read'' ''a'' = ((demo_deleg, None), dv)" using demo_check by blast
  have ca: "DTCaller demo_deleg = ''alice''" by (simp add: demo_deleg_def)
  have ad: "applyDelegation demo_fenv routed_filter e1 \<lparr>pins = [PubKeyHex demo_signer], dv_audience = ''up'', dv_nonces = (\<lambda>_. None)\<rparr>
      5 d0 ''t'' ''read'' ''a'' = ((AuthorizeDelegated d1 d0 None, \<lparr>da_relevant = True, da_caller = ''alice'', da_nonce = DTNonce demo_deleg\<rparr>), e2, dv)"
    using ck o0 d1 fe fr ca by (simp add: applyDelegation_def) (simp add: demo_fenv_def)
  obtain dec da f1 where dc: "decide_call demo_fenv routed_filter demo_engine 5 ''read'' ''a'' [] ''t'' = ((dec, da), f1)"
    by (metis prod.exhaust)
  have dec: "dec = AuthorizeDelegated d1 d0 None"
    using dc d0 ad fe fr by (simp add: decide_call_def stage_cap_def stage_deleg_def stage_hooks_def stage_consume_def)
  then have od: "Outcome dec = OutcomeAllow" using o0 o1 by (simp add: AuthorizeDelegated_Allow_iff)
  have "f_inner f' = [Verbatim ''x'']"
    using fr decide_call_state [OF dc] by (simp add: f'_def handleToolCall_def dc Let_def od)
  moreover have "f_labels f' = (\<lambda>_. False)"
    using delegated_calls_leave_no_labels [OF fr(1) _ fr(2), of "''t''"] fr(7) by (simp add: f'_def)
  ultimately show ?thesis by (simp add: Let_def f'_def demo_rule_def emitSet_def)
qed

text \<open>A listing request that carries both tokens, on a filter that verifies both.\<close>

definition token_doc :: json where
  "token_doc = JObj [(''method'', JStr ''tools/list''), (''id'', JNum ''1''),
     (''params'', JObj [(''_meta'', JObj [(cap_meta_key, JStr ''cap''), (deleg_meta_key, JStr ''dt'')])])]"

definition token_line :: bytes where
  "token_line = json_print token_doc"

definition token_filter :: "(unit, mem_nonces) tool_filter" where
  "token_filter = routed_filter\<lparr>f_cap := Some demo_verifier\<rparr>"

lemma token_parse: "json_parse token_line = Some token_doc"
  unfolding token_line_def token_doc_def using int_literal_one
  by (intro json_roundtrip) (simp_all add: maxNestingDepth_def valid_ascii cap_meta_key_def deleg_meta_key_def)

lemma token_class: "ClassifyRPC token_line = RPCMethod ''tools/list'' (JNum ''1'')"
  using token_parse trim_print_obj print_obj_ne unfolding token_line_def token_doc_def
  by (simp add: ClassifyRPC_def unmarshal_peek_def selects_def lower_keys zero_peek_def cap_meta_key_def deleg_meta_key_def)

lemma token_strip:
  "strip_meta cap_meta_key token_doc = Some (''cap'', JObj [(''method'', JStr ''tools/list''), (''id'', JNum ''1''),
     (''params'', JObj [(''_meta'', JObj [(deleg_meta_key, JStr ''dt'')])])])"
  "strip_meta deleg_meta_key (JObj [(''method'', JStr ''tools/list''), (''id'', JNum ''1''),
     (''params'', JObj [(''_meta'', JObj [(deleg_meta_key, JStr ''dt'')])])]) =
   Some (''dt'', JObj [(''method'', JStr ''tools/list''), (''id'', JNum ''1''), (''params'', JObj [])])"
  by (simp_all add: strip_meta_def token_doc_def del_key_def set_key_def cap_meta_key_def deleg_meta_key_def)


end
