(* ===== verification/AuditRecord.thy ===== *)
theory AuditRecord
  imports Json Crypto
begin

text \<open>
  Audit records as they are stored (\<^verbatim>\<open>src/policy/audit.go\<close>): the lines of a file as a scanner sees them,
  the record with its JSON fields, its encoding and decoding, and the hash of a record over its
  text with the hash field cleared.  Records whose strings are valid UTF-8 survive a round trip.
\<close>

subsection \<open>Lines of a file\<close>

function raw_lines :: "bytes \<Rightarrow> bytes list" where
  "raw_lines s =
     (case cut_at (CHR 0x0A) s of
        Some (l, r) \<Rightarrow> l # raw_lines r
      | None \<Rightarrow> if s = [] then [] else [s])"
  by pat_completeness auto

lemma cut_at_Some: "cut_at c s = Some (a, b) \<longleftrightarrow> s = a @ c # b \<and> c \<notin> set a"
proof
  show "cut_at c s = Some (a, b) \<Longrightarrow> s = a @ c # b \<and> c \<notin> set a"
    by (induction s arbitrary: a) (auto split: if_splits option.splits)
next
  have "c \<notin> set a \<Longrightarrow> cut_at c (a @ c # b) = Some (a, b)" by (induction a) auto
  then show "s = a @ c # b \<and> c \<notin> set a \<Longrightarrow> cut_at c s = Some (a, b)" by blast
qed

lemma cut_at_None: "cut_at c s = None \<longleftrightarrow> c \<notin> set s"
  by (induction s) (auto split: option.splits)

termination raw_lines by (relation "measure length") (auto simp: cut_at_Some)

declare raw_lines.simps [simp del]

text \<open>A \<^verbatim>\<open>bufio.Scanner\<close> with a 16 MiB buffer: the lines before the first one that does not fit, and
  whether there was one.\<close>

definition max_token :: nat where "max_token = 16777216"

definition scan_lines :: "bytes \<Rightarrow> bytes list \<times> bool" where
  "scan_lines s = (takeWhile (\<lambda>l. length l < max_token) (raw_lines s), \<exists>l\<in>set (raw_lines s). max_token \<le> length l)"

subsection \<open>Records\<close>

record audit_rec =
  Time :: string
  ABackend :: string
  APeer :: string
  APeerKey :: string
  APeerAddr :: string
  AMethod :: string
  ATool :: string
  ARPCID :: string
  ADecision :: string
  AReason :: string
  ARule :: int
  ACost :: int
  Provenance :: "string list"
  Seq :: int
  PrevHash :: string
  Hash :: string
  PeerSpiffeID :: string
  SchemaVersion :: int
  DelegatedCaller :: string
  DelegationRouter :: string
  DelegationNonce :: string

definition auditSchemaVersion :: int where "auditSchemaVersion = 1"

definition zero_audit :: audit_rec where
  "zero_audit = \<lparr>Time = [], ABackend = [], APeer = [], APeerKey = [], APeerAddr = [], AMethod = [], ATool = [], ARPCID = [],
     ADecision = [], AReason = [], ARule = 0, ACost = 0, Provenance = [], Seq = 0, PrevHash = [], Hash = [], PeerSpiffeID = [],
     SchemaVersion = 0, DelegatedCaller = [], DelegationRouter = [], DelegationNonce = []\<rparr>"

definition audit_members :: "audit_rec \<Rightarrow> (string \<times> json) list" where
  "audit_members r =
     str_field ''time'' (Time r) @ str_field ''backend'' (ABackend r) @ str_field ''peer'' (APeer r) @
     opt_str ''peer_key'' (APeerKey r) @ opt_str ''peer_addr'' (APeerAddr r) @ str_field ''method'' (AMethod r) @
     opt_str ''tool'' (ATool r) @ opt_str ''rpc_id'' (ARPCID r) @ str_field ''decision'' (ADecision r) @
     opt_str ''reason'' (AReason r) @ int_field ''rule'' (ARule r) @ opt_int ''cost'' (ACost r) @
     opt_strs ''provenance'' (Provenance r) @ int_field ''seq'' (Seq r) @ str_field ''prev_hash'' (PrevHash r) @
     opt_str ''hash'' (Hash r) @ opt_str ''peer_spiffe_id'' (PeerSpiffeID r) @
     opt_int ''schema_version'' (SchemaVersion r) @ opt_str ''delegated_caller'' (DelegatedCaller r) @
     opt_str ''delegation_router'' (DelegationRouter r) @ opt_str ''delegation_nonce'' (DelegationNonce r)"

definition audit_marshal :: "audit_rec \<Rightarrow> bytes" where
  "audit_marshal r = json_print (JObj (audit_members r))"

definition audit_fields :: "audit_rec field_table" where
  "audit_fields =
     [(''time'', set_str (\<lambda>s r. r\<lparr>Time := s\<rparr>)), (''backend'', set_str (\<lambda>s r. r\<lparr>ABackend := s\<rparr>)),
      (''peer'', set_str (\<lambda>s r. r\<lparr>APeer := s\<rparr>)), (''peer_key'', set_str (\<lambda>s r. r\<lparr>APeerKey := s\<rparr>)),
      (''peer_addr'', set_str (\<lambda>s r. r\<lparr>APeerAddr := s\<rparr>)), (''method'', set_str (\<lambda>s r. r\<lparr>AMethod := s\<rparr>)),
      (''tool'', set_str (\<lambda>s r. r\<lparr>ATool := s\<rparr>)), (''rpc_id'', set_str (\<lambda>s r. r\<lparr>ARPCID := s\<rparr>)),
      (''decision'', set_str (\<lambda>s r. r\<lparr>ADecision := s\<rparr>)), (''reason'', set_str (\<lambda>s r. r\<lparr>AReason := s\<rparr>)),
      (''rule'', set_int (\<lambda>i r. r\<lparr>ARule := i\<rparr>)), (''cost'', set_int (\<lambda>i r. r\<lparr>ACost := i\<rparr>)),
      (''provenance'', set_strs (\<lambda>ss r. r\<lparr>Provenance := ss\<rparr>)), (''seq'', set_int (\<lambda>i r. r\<lparr>Seq := i\<rparr>)),
      (''prev_hash'', set_str (\<lambda>s r. r\<lparr>PrevHash := s\<rparr>)), (''hash'', set_str (\<lambda>s r. r\<lparr>Hash := s\<rparr>)),
      (''peer_spiffe_id'', set_str (\<lambda>s r. r\<lparr>PeerSpiffeID := s\<rparr>)),
      (''schema_version'', set_int (\<lambda>i r. r\<lparr>SchemaVersion := i\<rparr>)),
      (''delegated_caller'', set_str (\<lambda>s r. r\<lparr>DelegatedCaller := s\<rparr>)),
      (''delegation_router'', set_str (\<lambda>s r. r\<lparr>DelegationRouter := s\<rparr>)),
      (''delegation_nonce'', set_str (\<lambda>s r. r\<lparr>DelegationNonce := s\<rparr>))]"

definition audit_unmarshal :: "bytes \<Rightarrow> audit_rec option" where
  "audit_unmarshal b = unmarshal_struct audit_fields zero_audit b"

definition chainHash :: "crypto \<Rightarrow> audit_rec \<Rightarrow> string" where
  "chainHash cr r = hash_hex cr (audit_marshal (r\<lparr>Hash := []\<rparr>))"

subsection \<open>Records survive printing\<close>

abbreviation int64 :: "int \<Rightarrow> bool" where "int64 i \<equiv> - (2 ^ 63) \<le> i \<and> i < 2 ^ 63"

text \<open>Every string field is valid UTF-8 and every number an \<^verbatim>\<open>int64\<close>, as in any decoded record.\<close>

definition rec_ok :: "audit_rec \<Rightarrow> bool" where
  "rec_ok r \<longleftrightarrow> list_all valid_utf8 [Time r, ABackend r, APeer r, APeerKey r, APeerAddr r, AMethod r, ATool r, ARPCID r,
       ADecision r, AReason r, PrevHash r, Hash r, PeerSpiffeID r, DelegatedCaller r, DelegationRouter r, DelegationNonce r] \<and>
     list_all valid_utf8 (Provenance r) \<and> int64 (ARule r) \<and> int64 (ACost r) \<and> int64 (Seq r) \<and> int64 (SchemaVersion r)"

lemma audit_names:
  "fold_name ''time'' = ''time''" "fold_name ''backend'' = ''backend''" "fold_name ''peer'' = ''peer''"
  "fold_name ''peer_key'' = ''peer_key''" "fold_name ''peer_addr'' = ''peer_addr''" "fold_name ''method'' = ''method''"
  "fold_name ''tool'' = ''tool''" "fold_name ''rpc_id'' = ''rpc_id''" "fold_name ''decision'' = ''decision''"
  "fold_name ''reason'' = ''reason''" "fold_name ''rule'' = ''rule''" "fold_name ''cost'' = ''cost''"
  "fold_name ''provenance'' = ''provenance''" "fold_name ''seq'' = ''seq''" "fold_name ''prev_hash'' = ''prev_hash''"
  "fold_name ''hash'' = ''hash''" "fold_name ''peer_spiffe_id'' = ''peer_spiffe_id''"
  "fold_name ''schema_version'' = ''schema_version''" "fold_name ''delegated_caller'' = ''delegated_caller''"
  "fold_name ''delegation_router'' = ''delegation_router''" "fold_name ''delegation_nonce'' = ''delegation_nonce''"
  by code_simp+

lemma audit_decode_str:
  "decode_fields audit_fields (str_field ''time'' s) r = Some (r\<lparr>Time := s\<rparr>)"
  "decode_fields audit_fields (str_field ''backend'' s) r = Some (r\<lparr>ABackend := s\<rparr>)"
  "decode_fields audit_fields (str_field ''peer'' s) r = Some (r\<lparr>APeer := s\<rparr>)"
  "decode_fields audit_fields (str_field ''method'' s) r = Some (r\<lparr>AMethod := s\<rparr>)"
  "decode_fields audit_fields (str_field ''decision'' s) r = Some (r\<lparr>ADecision := s\<rparr>)"
  "decode_fields audit_fields (str_field ''prev_hash'' s) r = Some (r\<lparr>PrevHash := s\<rparr>)"
  by (simp_all add: str_field_def set_str_def audit_fields_def audit_names)

lemma audit_decode_int:
  "int64 i \<Longrightarrow> decode_fields audit_fields (int_field ''rule'' i) r = Some (r\<lparr>ARule := i\<rparr>)"
  "int64 i \<Longrightarrow> decode_fields audit_fields (int_field ''seq'' i) r = Some (r\<lparr>Seq := i\<rparr>)"
  "int64 i \<Longrightarrow> ACost r = 0 \<Longrightarrow> decode_fields audit_fields (opt_int ''cost'' i) r = Some (r\<lparr>ACost := i\<rparr>)"
  "int64 i \<Longrightarrow> SchemaVersion r = 0 \<Longrightarrow> decode_fields audit_fields (opt_int ''schema_version'' i) r = Some (r\<lparr>SchemaVersion := i\<rparr>)"
  by (simp_all add: int_field_def opt_int_def set_int_def atoi_int_text audit_fields_def audit_names)

lemma audit_decode_opt:
  "APeerKey r = [] \<Longrightarrow> decode_fields audit_fields (opt_str ''peer_key'' s) r = Some (r\<lparr>APeerKey := s\<rparr>)"
  "APeerAddr r = [] \<Longrightarrow> decode_fields audit_fields (opt_str ''peer_addr'' s) r = Some (r\<lparr>APeerAddr := s\<rparr>)"
  "ATool r = [] \<Longrightarrow> decode_fields audit_fields (opt_str ''tool'' s) r = Some (r\<lparr>ATool := s\<rparr>)"
  "ARPCID r = [] \<Longrightarrow> decode_fields audit_fields (opt_str ''rpc_id'' s) r = Some (r\<lparr>ARPCID := s\<rparr>)"
  "AReason r = [] \<Longrightarrow> decode_fields audit_fields (opt_str ''reason'' s) r = Some (r\<lparr>AReason := s\<rparr>)"
  "Hash r = [] \<Longrightarrow> decode_fields audit_fields (opt_str ''hash'' s) r = Some (r\<lparr>Hash := s\<rparr>)"
  "PeerSpiffeID r = [] \<Longrightarrow> decode_fields audit_fields (opt_str ''peer_spiffe_id'' s) r = Some (r\<lparr>PeerSpiffeID := s\<rparr>)"
  "DelegatedCaller r = [] \<Longrightarrow> decode_fields audit_fields (opt_str ''delegated_caller'' s) r = Some (r\<lparr>DelegatedCaller := s\<rparr>)"
  "DelegationRouter r = [] \<Longrightarrow> decode_fields audit_fields (opt_str ''delegation_router'' s) r = Some (r\<lparr>DelegationRouter := s\<rparr>)"
  "DelegationNonce r = [] \<Longrightarrow> decode_fields audit_fields (opt_str ''delegation_nonce'' s) r = Some (r\<lparr>DelegationNonce := s\<rparr>)"
  "Provenance r = [] \<Longrightarrow> decode_fields audit_fields (opt_strs ''provenance'' ss) r = Some (r\<lparr>Provenance := ss\<rparr>)"
  by (simp_all add: opt_str_def opt_strs_def str_field_def set_str_def set_strs_def str_elems_map audit_fields_def audit_names)

lemma audit_decode_members:
  assumes "int64 (ARule r)" "int64 (ACost r)" "int64 (Seq r)" "int64 (SchemaVersion r)"
  shows "decode_fields audit_fields (audit_members r) zero_audit = Some r"
proof -
  note ds = audit_decode_str audit_decode_opt audit_decode_int
  show ?thesis
    using assms unfolding audit_members_def decode_append by (simp add: ds zero_audit_def)
qed

lemma audit_json_shape: "ints_only (JObj (audit_members r))" "json_depth (JObj (audit_members r)) \<le> maxNestingDepth"
proof -
  show "ints_only (JObj (audit_members r))" by (simp add: audit_members_def)
  have "list_all (\<lambda>(k, v). json_depth v \<le> 1) (audit_members r)" by (simp add: audit_members_def)
  then show "json_depth (JObj (audit_members r)) \<le> maxNestingDepth" by (rule json_depth_obj)
qed

lemma audit_roundtrip_sanitize:
  "audit_unmarshal (audit_marshal r) = decode_fields audit_fields (map (\<lambda>(k, v). (sanitize k, sanitize_json v)) (audit_members r)) zero_audit"
  using audit_json_shape [of r]
  by (simp add: audit_unmarshal_def audit_marshal_def unmarshal_struct_def json_roundtrip_sanitize)

lemma audit_members_valid: "rec_ok r \<Longrightarrow> members_valid (audit_members r)"
  by (simp add: rec_ok_def audit_members_def valid_ascii)

lemma audit_roundtrip: "rec_ok r \<Longrightarrow> audit_unmarshal (audit_marshal r) = Some r"
proof -
  assume ok: "rec_ok r"
  have "sanitize_json (JObj (audit_members r)) = JObj (audit_members r)"
    using audit_members_valid [OF ok] by (intro sanitize_json_id) simp
  then show ?thesis using audit_roundtrip_sanitize [of r] audit_decode_members [of r] ok by (simp add: rec_ok_def)
qed

lemma audit_marshal_inj: "rec_ok r \<Longrightarrow> rec_ok r' \<Longrightarrow> audit_marshal r = audit_marshal r' \<Longrightarrow> r = r'"
  by (metis audit_roundtrip option.inject)

lemma audit_fields_ok:
  "\<forall>(k, f)\<in>set audit_fields. \<forall>v r r'. valid_json v \<longrightarrow> rec_ok r \<longrightarrow> f v r = Some r' \<longrightarrow> rec_ok r'"
proof -
  have "list_all (\<lambda>(k, f). \<forall>v r r'. valid_json v \<longrightarrow> rec_ok r \<longrightarrow> f v r = Some r' \<longrightarrow> rec_ok r') audit_fields"
    unfolding audit_fields_def list.pred_inject(2) prod.case
    by (intro conjI allI impI list.pred_inject(1);
        (drule (1) set_str_valid | drule set_int_valid | drule (1) set_strs_valid); auto simp: rec_ok_def)
  then show ?thesis by (simp add: list_all_iff)
qed

lemma unmarshal_ok: "audit_unmarshal b = Some r \<Longrightarrow> rec_ok r"
proof -
  assume a: "audit_unmarshal b = Some r"
  have "rec_ok zero_audit" by (simp add: rec_ok_def zero_audit_def valid_utf8_def)
  then show "rec_ok r" using a unfolding audit_unmarshal_def by (rule unmarshal_struct_inv [OF audit_fields_ok])
qed

subsection \<open>Files of records\<close>

abbreviation newline :: bytes where "newline \<equiv> [CHR 0x0A]"

definition file_of :: "bytes list \<Rightarrow> bytes" where
  "file_of ls = concat (map (\<lambda>l. l @ newline) ls)"

lemma file_of_simps [simp]: "file_of [] = []" "file_of (l # ls) = l @ newline @ file_of ls" "file_of (ls @ ms) = file_of ls @ file_of ms"
  by (simp_all add: file_of_def)

lemma raw_lines_Nil [simp]: "raw_lines [] = []"
  by (simp add: raw_lines.simps)

lemma raw_lines_line: "CHR 0x0A \<notin> set l \<Longrightarrow> raw_lines (l @ CHR 0x0A # r) = l # raw_lines r"
  by (subst raw_lines.simps) (simp add: cut_at_Some [THEN iffD2])

abbreviation one_line :: "bytes \<Rightarrow> bool" where "one_line l \<equiv> CHR 0x0A \<notin> set l"

lemma raw_lines_file: "list_all one_line ls \<Longrightarrow> raw_lines (file_of ls @ s) = ls @ raw_lines s"
  by (induction ls) (simp_all add: raw_lines_line)

lemma raw_lines_file': "list_all one_line ls \<Longrightarrow> raw_lines (file_of ls) = ls"
  using raw_lines_file [of ls "[]"] by simp

lemma scan_lines_file:
  "list_all one_line ls \<Longrightarrow> list_all (\<lambda>l. length l < max_token) ls \<Longrightarrow> scan_lines (file_of ls) = (ls, False)"
  by (auto simp: scan_lines_def raw_lines_file' takeWhile_eq_all_conv list_all_iff)

lemma audit_line [simp]: "one_line (audit_marshal r)" "trim_space (audit_marshal r) = audit_marshal r" "audit_marshal r \<noteq> []"
  using json_print_no_newline [OF audit_json_shape(1) [of r]] by (simp_all add: audit_marshal_def trim_print_obj)

text \<open>The size of a record's text, in terms of its strings.\<close>

definition strings_size :: "audit_rec \<Rightarrow> nat" where
  "strings_size r = sum_list (map length ([Time r, ABackend r, APeer r, APeerKey r, APeerAddr r, AMethod r, ATool r, ARPCID r,
     ADecision r, AReason r, PrevHash r, Hash r, PeerSpiffeID r, DelegatedCaller r, DelegationRouter r, DelegationNonce r])) +
     sum_list (map (\<lambda>s. Suc (length s)) (Provenance r))"

lemma audit_marshal_size:
  assumes "int64 (ARule r)" "int64 (ACost r)" "int64 (Seq r)" "int64 (SchemaVersion r)"
  shows "length (audit_marshal r) \<le> 6 * strings_size r + 2000"
proof -
  note sz = field_size(1) [OF assms(1), of "''rule''"] field_size(2) [OF assms(2), of "''cost''"] field_size(1) [OF assms(3), of "''seq''"]
    field_size(2) [OF assms(4), of "''schema_version''"] field_size(3) [of "''time''" "Time r"]
    field_size(3) [of "''backend''" "ABackend r"] field_size(3) [of "''peer''" "APeer r"] field_size(4) [of "''peer_key''" "APeerKey r"]
    field_size(4) [of "''peer_addr''" "APeerAddr r"] field_size(3) [of "''method''" "AMethod r"] field_size(4) [of "''tool''" "ATool r"]
    field_size(4) [of "''rpc_id''" "ARPCID r"] field_size(3) [of "''decision''" "ADecision r"] field_size(4) [of "''reason''" "AReason r"]
    field_size(3) [of "''prev_hash''" "PrevHash r"] field_size(4) [of "''hash''" "Hash r"]
    field_size(4) [of "''peer_spiffe_id''" "PeerSpiffeID r"] field_size(4) [of "''delegated_caller''" "DelegatedCaller r"]
    field_size(4) [of "''delegation_router''" "DelegationRouter r"] field_size(4) [of "''delegation_nonce''" "DelegationNonce r"]
    field_size(5) [of "''provenance''" "Provenance r"]
  have "(\<Sum>s\<leftarrow>ss. Suc (Suc (Suc (6 * length s)))) \<le> 6 * (\<Sum>s\<leftarrow>ss. Suc (length s))" for ss :: "string list"
    by (induction ss) simp_all
  from this [of "Provenance r"] have "members_size (audit_members r) \<le> 6 * strings_size r + 1998"
    using sz unfolding audit_members_def members_size_append strings_size_def by simp
  then show ?thesis using print_members_size [of "audit_members r"] by (simp add: audit_marshal_def)
qed

end
