(* ===== verification/AuditChain.thy ===== *)
theory AuditChain
  imports AuditRecord
begin

text \<open>
  Verification of the audit log's hash chain (\<^verbatim>\<open>src/policy/chain.go\<close>).  The results: a chain is
  determined by its head, repair drops nothing but one trailing line that does not parse, and the
  two verifiers agree.
\<close>

subsection \<open>Verification\<close>

datatype chain_break = NotBroken | BadJSON | NewerSchema | WrongSeq | BrokenLink | Edited | TornTail

record verify_result =
  VCount :: nat
  VOK :: bool
  BreakSeq :: int
  VReason :: chain_break
  LastHash :: string

text \<open>The checks of a parsed record against the position it must have.\<close>

definition check_record :: "crypto \<Rightarrow> int \<Rightarrow> string \<Rightarrow> audit_rec \<Rightarrow> chain_break" where
  "check_record cr expectSeq prev r =
     (if Seq r \<noteq> expectSeq then WrongSeq
      else if PrevHash r \<noteq> prev then BrokenLink
      else if Hash r \<noteq> chainHash cr r then Edited
      else NotBroken)"

definition broken :: "nat \<Rightarrow> int \<Rightarrow> chain_break \<Rightarrow> verify_result" where
  "broken n s why = \<lparr>VCount = n, VOK = False, BreakSeq = s, VReason = why, LastHash = []\<rparr>"

definition intact :: "nat \<Rightarrow> string \<Rightarrow> verify_result" where
  "intact n prev = \<lparr>VCount = n, VOK = True, BreakSeq = 0, VReason = NotBroken, LastHash = prev\<rparr>"

text \<open>\<^verbatim>\<open>VerifyChain\<close>: the result and whether the scanner failed.\<close>

fun verify_lines :: "crypto \<Rightarrow> bool \<Rightarrow> bytes list \<Rightarrow> nat \<Rightarrow> string \<Rightarrow> verify_result \<times> bool" where
  "verify_lines cr err [] n prev = (if err then (broken n 0 NotBroken, True) else (intact n prev, False))"
| "verify_lines cr err (l # ls) n prev =
     (if trim_space l = [] then verify_lines cr err ls n prev
      else case audit_unmarshal (trim_space l) of
        None \<Rightarrow> (broken (Suc n) (int (Suc n)) BadJSON, False)
      | Some r \<Rightarrow>
          (if SchemaVersion r > auditSchemaVersion then (broken (Suc n) (int (Suc n)) NewerSchema, False)
           else let why = check_record cr (int (Suc n)) prev r
                in if why = NotBroken then verify_lines cr err ls (Suc n) (Hash r)
                   else (broken (Suc n) (Seq r) why, False)))"

definition VerifyChain :: "crypto \<Rightarrow> bytes \<Rightarrow> verify_result \<times> bool" where
  "VerifyChain cr data = (case scan_lines data of (ls, err) \<Rightarrow> verify_lines cr err ls 0 [])"

definition hasMoreContent :: "bytes \<Rightarrow> bool" where
  "hasMoreContent rest = (trim_space rest \<noteq> [])"

text \<open>\<^verbatim>\<open>VerifyForRepairFrom\<close>: the loop over the rest of the data, with the number of bytes read, the
  truncation offset so far, the records counted and the last hash.\<close>

function repair_loop ::
    "crypto \<Rightarrow> int \<Rightarrow> bytes \<Rightarrow> nat \<Rightarrow> nat \<Rightarrow> nat \<Rightarrow> string \<Rightarrow> verify_result \<times> nat \<times> bool" where
  "repair_loop cr seed rest off trunc n prev =
     (if rest = [] then (intact n prev, trunc, False)
      else let (l, rest', off') = (case cut_at (CHR 0x0A) rest of
                   Some (l, r) \<Rightarrow> (l, r, off + Suc (length l))
                 | None \<Rightarrow> (rest, [], off + length rest));
               cur = seed + int n + 1;
               bad = (\<lambda>s why. \<lparr>VCount = n, VOK = False, BreakSeq = s, VReason = why, LastHash = (if n = 0 then [] else prev)\<rparr>)
           in if trim_space l = [] then repair_loop cr seed rest' off' off' n prev
              else case audit_unmarshal (trim_space l) of
                None \<Rightarrow> (if \<not> hasMoreContent rest' then (bad cur TornTail, off, True) else (bad cur BadJSON, 0, False))
              | Some r \<Rightarrow>
                  (if SchemaVersion r > auditSchemaVersion then (bad (Seq r) NewerSchema, 0, False)
                   else let why = check_record cr cur prev r
                        in if why = NotBroken then repair_loop cr seed rest' off' off' (Suc n) (Hash r)
                           else (bad (Seq r) why, 0, False)))"
  by pat_completeness auto
termination by (relation "measure (\<lambda>(cr, seed, rest, _). length rest)") (auto simp: cut_at_Some split: option.splits)

declare repair_loop.simps [simp del]

definition VerifyForRepairFrom :: "crypto \<Rightarrow> bytes \<Rightarrow> int \<Rightarrow> string \<Rightarrow> verify_result \<times> nat \<times> bool" where
  "VerifyForRepairFrom cr data seedSeq seedHash = repair_loop cr seedSeq data 0 0 0 seedHash"

definition VerifyForRepair :: "crypto \<Rightarrow> bytes \<Rightarrow> verify_result \<times> nat \<times> bool" where
  "VerifyForRepair cr data = VerifyForRepairFrom cr data 0 []"

text \<open>\<^verbatim>\<open>LastLink\<close>; \<^term>\<open>None\<close> when a line does not parse or does not fit.\<close>

fun last_link :: "bytes list \<Rightarrow> int \<times> string \<Rightarrow> (int \<times> string) option" where
  "last_link [] acc = Some acc"
| "last_link (l # ls) acc =
     (if trim_space l = [] then last_link ls acc
      else case audit_unmarshal (trim_space l) of None \<Rightarrow> None | Some r \<Rightarrow> last_link ls (Seq r, Hash r))"

definition LastLink :: "bytes \<Rightarrow> (int \<times> string) option" where
  "LastLink data = (case scan_lines data of (ls, err) \<Rightarrow>
     (case last_link ls (0, []) of None \<Rightarrow> None | Some x \<Rightarrow> if err then None else Some x))"

subsection \<open>What an intact chain is\<close>

text \<open>The records of the non-blank lines, \<^term>\<open>None\<close> when one does not parse.\<close>

fun parse_lines :: "bytes list \<Rightarrow> audit_rec list option" where
  "parse_lines [] = Some []"
| "parse_lines (l # ls) =
     (if trim_space l = [] then parse_lines ls
      else case audit_unmarshal (trim_space l) of None \<Rightarrow> None | Some r \<Rightarrow> map_option ((#) r) (parse_lines ls))"

fun chain_ok :: "crypto \<Rightarrow> int \<Rightarrow> string \<Rightarrow> audit_rec list \<Rightarrow> bool" where
  "chain_ok cr n prev [] = True"
| "chain_ok cr n prev (r # rs) =
     (SchemaVersion r \<le> auditSchemaVersion \<and> check_record cr (1 + n) prev r = NotBroken \<and> chain_ok cr (1 + n) (Hash r) rs)"

definition head_of :: "string \<Rightarrow> audit_rec list \<Rightarrow> string" where
  "head_of prev rs = (if rs = [] then prev else Hash (last rs))"

lemma head_of_simps [simp]: "head_of prev [] = prev" "head_of prev (r # rs) = head_of (Hash r) rs"
  by (simp_all add: head_of_def)

lemma head_of_append [simp]: "head_of prev (rs @ [r]) = Hash r"
  by (simp add: head_of_def)

lemma result_simps [simp]: "VOK (intact n h)" "\<not> VOK (broken n s why)" "VCount (intact n h) = n" "LastHash (intact n h) = h"
  "VCount (broken n s why) = n"
  by (simp_all add: intact_def broken_def)

lemma verify_lines_VOK:
  "VOK (fst (verify_lines cr err ls n prev)) \<longleftrightarrow>
     \<not> err \<and> (\<exists>rs. parse_lines ls = Some rs \<and> chain_ok cr (int n) prev rs)"
proof (induction ls arbitrary: n prev)
  case (Cons l ls)
  show ?case using Cons.IH [of n prev] Cons.IH [of "Suc n"] by (auto simp: Let_def split: option.splits)
qed simp

lemma verify_lines_intact:
  "\<not> err \<Longrightarrow> parse_lines ls = Some rs \<Longrightarrow> chain_ok cr (int n) prev rs \<Longrightarrow>
     verify_lines cr err ls n prev = (intact (n + length rs) (head_of prev rs), False)"
proof (induction ls arbitrary: n prev rs)
  case (Cons l ls)
  show ?case using Cons.prems Cons.IH [of _ n prev] Cons.IH [of _ "Suc n"] by (auto simp: Let_def split: option.splits if_splits)
qed simp

lemma VerifyChain_OK:
  "VerifyChain cr d = (intact n h, False) \<longleftrightarrow>
     (\<forall>l\<in>set (raw_lines d). length l < max_token) \<and>
     (\<exists>rs. parse_lines (raw_lines d) = Some rs \<and> chain_ok cr 0 [] rs \<and> n = length rs \<and> h = head_of [] rs)"
proof -
  have tw: "takeWhile (\<lambda>l. length l < max_token) (raw_lines d) = raw_lines d" if "\<forall>l\<in>set (raw_lines d). length l < max_token"
    using that by (simp add: takeWhile_eq_all_conv)
  have v: "VerifyChain cr d = verify_lines cr (\<exists>l\<in>set (raw_lines d). max_token \<le> length l)
      (takeWhile (\<lambda>l. length l < max_token) (raw_lines d)) 0 []"
    by (simp add: VerifyChain_def scan_lines_def)
  have fit: "(\<exists>l\<in>set (raw_lines d). max_token \<le> length l) = False" if "\<forall>l\<in>set (raw_lines d). length l < max_token"
    using that by (auto simp: not_le)
  have inj: "intact a b = intact c e \<longleftrightarrow> a = c \<and> b = e" for a b c e by (auto simp: intact_def)
  show ?thesis
  proof
    assume a: "VerifyChain cr d = (intact n h, False)"
    then have "VOK (fst (VerifyChain cr d))" by simp
    then have lines: "\<forall>l\<in>set (raw_lines d). length l < max_token" unfolding v verify_lines_VOK by auto
    from \<open>VOK (fst (VerifyChain cr d))\<close> obtain rs where rs: "parse_lines (raw_lines d) = Some rs" "chain_ok cr 0 [] rs"
      unfolding v verify_lines_VOK tw [OF lines] by auto
    then have "VerifyChain cr d = (intact (length rs) (head_of [] rs), False)"
      using verify_lines_intact [of False "raw_lines d" rs cr 0 "[]"] unfolding v tw [OF lines] fit [OF lines] by simp
    then show "(\<forall>l\<in>set (raw_lines d). length l < max_token) \<and>
        (\<exists>rs. parse_lines (raw_lines d) = Some rs \<and> chain_ok cr 0 [] rs \<and> n = length rs \<and> h = head_of [] rs)"
      using a rs lines by (simp add: inj)
  next
    assume a: "(\<forall>l\<in>set (raw_lines d). length l < max_token) \<and>
        (\<exists>rs. parse_lines (raw_lines d) = Some rs \<and> chain_ok cr 0 [] rs \<and> n = length rs \<and> h = head_of [] rs)"
    then obtain rs where "parse_lines (raw_lines d) = Some rs" "chain_ok cr 0 [] rs" "n = length rs" "h = head_of [] rs" by blast
    then show "VerifyChain cr d = (intact n h, False)"
      using verify_lines_intact [of False "raw_lines d" rs cr 0 "[]"]
      unfolding v tw [OF conjunct1 [OF a]] fit [OF conjunct1 [OF a]] by simp
  qed
qed

lemma chain_ok_append:
  "chain_ok cr n prev (rs @ [r]) \<longleftrightarrow> chain_ok cr n prev rs \<and> SchemaVersion r \<le> auditSchemaVersion \<and>
     check_record cr (1 + (n + int (length rs))) (head_of prev rs) r = NotBroken"
  by (induction rs arbitrary: n prev) (auto simp: ac_simps)

lemma check_record_NotBroken:
  "check_record cr n prev r = NotBroken \<longleftrightarrow> Seq r = n \<and> PrevHash r = prev \<and> Hash r = chainHash cr r"
  by (simp add: check_record_def)

definition hashed_texts :: "audit_rec list \<Rightarrow> bytes set" where
  "hashed_texts rs = (\<lambda>r. audit_marshal (r\<lparr>Hash := []\<rparr>)) ` set rs"

lemma hashed_texts_append: "hashed_texts (rs @ [r]) = insert (audit_marshal (r\<lparr>Hash := []\<rparr>)) (hashed_texts rs)"
  by (simp add: hashed_texts_def)

lemma rec_ok_Hash: "rec_ok r \<Longrightarrow> rec_ok (r\<lparr>Hash := []\<rparr>)"
  by (simp add: rec_ok_def valid_utf8_def)

text \<open>Two chains that end in the same hash are the same chain.\<close>

lemma chain_head_determines:
  assumes "chain_ok cr 0 [] rs" "chain_ok cr 0 [] qs" "list_all rec_ok rs" "list_all rec_ok qs"
    and "inj_on (sha256 cr) (hashed_texts rs \<union> hashed_texts qs)"
    and "rs \<noteq> []" "qs \<noteq> []" "Hash (last rs) = Hash (last qs)"
  shows "rs = qs"
  using assms
proof (induction rs arbitrary: qs rule: rev_induct)
  case (snoc r rs)
  obtain q ys where q: "qs = ys @ [q]" using snoc.prems(7) by (cases qs rule: rev_cases) auto
  have r: "Seq r = int (length rs) + 1" "PrevHash r = head_of [] rs" "Hash r = chainHash cr r"
    and q': "Seq q = int (length ys) + 1" "PrevHash q = head_of [] ys" "Hash q = chainHash cr q"
    using snoc.prems(1,2) by (auto simp: q chain_ok_append check_record_NotBroken)
  have "sha256 cr (audit_marshal (r\<lparr>Hash := []\<rparr>)) = sha256 cr (audit_marshal (q\<lparr>Hash := []\<rparr>))"
    using snoc.prems(8) r(3) q'(3) by (simp add: q chainHash_def hash_hex_inj)
  then have "audit_marshal (r\<lparr>Hash := []\<rparr>) = audit_marshal (q\<lparr>Hash := []\<rparr>)"
    by (rule inj_onD [OF snoc.prems(5)]) (simp_all add: q hashed_texts_append)
  then have rq: "r\<lparr>Hash := []\<rparr> = q\<lparr>Hash := []\<rparr>"
    using snoc.prems(3,4) by (intro audit_marshal_inj rec_ok_Hash) (simp_all add: q)
  have hq: "Hash r = Hash q" using snoc.prems(8) by (simp add: q)
  have "(r\<lparr>Hash := []\<rparr>)\<lparr>Hash := Hash r\<rparr> = (q\<lparr>Hash := []\<rparr>)\<lparr>Hash := Hash q\<rparr>" by (simp only: rq hq)
  then have "r = q" by simp
  then have len: "length rs = length ys" using r(1) q'(1) by simp
  show ?case
  proof (cases "rs = []")
    case True
    then show ?thesis using len \<open>r = q\<close> by (simp add: q)
  next
    case False
    then have "ys \<noteq> []" using len by auto
    then have "Hash (last rs) = Hash (last ys)" using r(2) q'(2) False \<open>r = q\<close> by (simp add: head_of_def)
    moreover have "inj_on (sha256 cr) (hashed_texts rs \<union> hashed_texts ys)"
      using snoc.prems(5) by (auto simp: q hashed_texts_append intro: inj_on_subset)
    ultimately have "rs = ys"
      using snoc.IH [of ys] snoc.prems(1-4) False \<open>ys \<noteq> []\<close> by (simp add: q chain_ok_append)
    then show ?thesis using \<open>r = q\<close> by (simp add: q)
  qed
qed simp

lemma parse_lines_ok: "parse_lines ls = Some rs \<Longrightarrow> list_all rec_ok rs"
  by (induction ls arbitrary: rs) (auto split: if_splits option.splits dest: unmarshal_ok)

definition log_records :: "bytes \<Rightarrow> audit_rec list" where
  "log_records d = (case parse_lines (raw_lines d) of None \<Rightarrow> [] | Some rs \<Rightarrow> rs)"

text \<open>C14: The head of the chain determines the log. If two files both verify and report the same last
  hash, and SHA-256 does not collide on the texts hashed in them, then they hold exactly the same
  records in the same order: no edit, insertion, deletion or reordering of a log goes unnoticed by
  someone who knows its head.\<close>
theorem log_head_determines_records:
  assumes "VerifyChain cr d1 = (intact n h, False)" "VerifyChain cr d2 = (intact m h, False)" "0 < n" "0 < m"
    and "inj_on (sha256 cr) (hashed_texts (log_records d1) \<union> hashed_texts (log_records d2))"
  shows "log_records d1 = log_records d2 \<and> length (log_records d1) = n"
proof -
  obtain rs where rs: "parse_lines (raw_lines d1) = Some rs" "chain_ok cr 0 [] rs" "n = length rs" "h = head_of [] rs"
    using assms(1) unfolding VerifyChain_OK by blast
  obtain qs where qs: "parse_lines (raw_lines d2) = Some qs" "chain_ok cr 0 [] qs" "m = length qs" "h = head_of [] qs"
    using assms(2) unfolding VerifyChain_OK by blast
  have ne: "rs \<noteq> []" "qs \<noteq> []" using assms(3,4) rs(3) qs(3) by auto
  have "rs = qs"
    using rs qs assms(5) ne parse_lines_ok [OF rs(1)] parse_lines_ok [OF qs(1)]
    by (intro chain_head_determines [of cr]) (simp_all add: log_records_def head_of_def)
  then show ?thesis using rs qs by (simp add: log_records_def)
qed

subsection \<open>Repair\<close>

lemma repair_loop_step:
  "rest \<noteq> [] \<Longrightarrow> repair_loop cr seed rest off off n prev =
     (let (l, rest', off') = (case cut_at (CHR 0x0A) rest of
             Some (l, r) \<Rightarrow> (l, r, off + Suc (length l)) | None \<Rightarrow> (rest, [], off + length rest));
          cur = seed + int n + 1;
          bad = (\<lambda>s why. \<lparr>VCount = n, VOK = False, BreakSeq = s, VReason = why, LastHash = (if n = 0 then [] else prev)\<rparr>)
      in if trim_space l = [] then repair_loop cr seed rest' off' off' n prev
         else case audit_unmarshal (trim_space l) of
           None \<Rightarrow> (if \<not> hasMoreContent rest' then (bad cur TornTail, off, True) else (bad cur BadJSON, 0, False))
         | Some r \<Rightarrow>
             (if SchemaVersion r > auditSchemaVersion then (bad (Seq r) NewerSchema, 0, False)
              else let why = check_record cr cur prev r
                   in if why = NotBroken then repair_loop cr seed rest' off' off' (Suc n) (Hash r)
                      else (bad (Seq r) why, 0, False)))"
  by (subst repair_loop.simps) simp

lemma cut_at_append: "c \<notin> set l \<Longrightarrow> cut_at c (l @ c # r) = Some (l, r)"
  by (simp add: cut_at_Some)

lemma repair_loop_Nil [simp]: "repair_loop cr seed [] off trunc n prev = (intact n prev, trunc, False)"
  by (subst repair_loop.simps) simp

text \<open>One line of the data and what follows it.\<close>

definition next_line :: "bytes \<Rightarrow> bytes \<times> bytes" where
  "next_line s = (case cut_at (CHR 0x0A) s of Some (l, r) \<Rightarrow> (l, r) | None \<Rightarrow> (s, []))"

lemma next_line_raw: "s \<noteq> [] \<Longrightarrow> next_line s = (l, r) \<Longrightarrow> raw_lines s = l # raw_lines r"
  by (subst raw_lines.simps) (auto simp: next_line_def raw_lines.simps [of "[]"] split: option.splits)

lemma next_line_shape:
  "s \<noteq> [] \<Longrightarrow> next_line s = (l, r) \<Longrightarrow> (s = l @ CHR 0x0A # r \<or> s = l \<and> r = []) \<and> CHR 0x0A \<notin> set l \<and> length r < length s"
  by (auto simp: next_line_def cut_at_Some cut_at_None split: option.splits)

text \<open>The loop as a function of the next line.\<close>

lemma repair_loop_line:
  assumes "s \<noteq> []" "next_line s = (l, r)" "off' = off + (length s - length r)"
  shows "repair_loop cr seed s off off n prev =
    (let bad = (\<lambda>s why. \<lparr>VCount = n, VOK = False, BreakSeq = s, VReason = why, LastHash = (if n = 0 then [] else prev)\<rparr>) in
     if trim_space l = [] then repair_loop cr seed r off' off' n prev
     else case audit_unmarshal (trim_space l) of
       None \<Rightarrow> (if trim_space r = [] then (bad (seed + int n + 1) TornTail, off, True) else (bad (seed + int n + 1) BadJSON, 0, False))
     | Some q \<Rightarrow>
         (if SchemaVersion q > auditSchemaVersion then (bad (Seq q) NewerSchema, 0, False)
          else let why = check_record cr (seed + int n + 1) prev q
               in if why = NotBroken then repair_loop cr seed r off' off' (Suc n) (Hash q)
                  else (bad (Seq q) why, 0, False)))"
proof -
  have "(case cut_at (CHR 0x0A) s of Some (l, r) \<Rightarrow> (l, r, off + Suc (length l)) | None \<Rightarrow> (s, [], off + length s)) = (l, r, off')"
  proof (cases "cut_at (CHR 0x0A) s")
    case None
    then show ?thesis using assms(2,3) by (simp add: next_line_def)
  next
    case (Some p)
    then have "p = (l, r)" using assms(2) by (cases p) (simp add: next_line_def)
    moreover have "s = l @ CHR 0x0A # r" using Some calculation by (simp add: cut_at_Some)
    ultimately show ?thesis using Some assms(3) by simp
  qed
  then show ?thesis unfolding repair_loop_step [OF assms(1)] hasMoreContent_def Let_def not_not by (simp only: prod.case)
qed

text \<open>The four things a line can be at a position of the chain.\<close>

lemma line_cases:
  obtains (blank) "trim_space l = []" | (bad) "trim_space l \<noteq> []" "audit_unmarshal (trim_space l) = None"
  | (rej) q where "trim_space l \<noteq> []" "audit_unmarshal (trim_space l) = Some q"
      "auditSchemaVersion < SchemaVersion q \<or> check_record cr cur prev q \<noteq> NotBroken"
  | (good) q where "trim_space l \<noteq> []" "audit_unmarshal (trim_space l) = Some q"
      "\<not> auditSchemaVersion < SchemaVersion q" "check_record cr cur prev q = NotBroken"
  by fastforce

lemma repair_loop_chain:
  "(\<forall>rs. parse_lines (raw_lines s) = Some rs \<and> chain_ok cr (seed + int n) prev rs \<longrightarrow>
      repair_loop cr seed s off off n prev = (intact (n + length rs) (head_of prev rs), off + length s, False)) \<and>
   (VOK (fst (repair_loop cr seed s off off n prev)) \<longrightarrow>
      (\<exists>rs. parse_lines (raw_lines s) = Some rs \<and> chain_ok cr (seed + int n) prev rs))"
proof (induction "length s" arbitrary: s off n prev rule: less_induct)
  case less
  show ?case
  proof (cases "s = []")
    case True
    then show ?thesis by (simp add: raw_lines.simps)
  next
    case False
    obtain l r where lr: "next_line s = (l, r)" by fastforce
    note line = repair_loop_line [OF False lr refl, of cr seed off n prev]
    note IH = less(1) [of r _ _ "off + (length s - length r)"]
    have len: "length r < length s" "off + (length s - length r) + length r = off + length s"
      using next_line_shape [OF False lr] by simp_all
    have sd: "seed + int (Suc n) = 1 + (seed + int n)" "seed + int n + 1 = 1 + (seed + int n)" by simp_all
    note raw = next_line_raw [OF False lr]
    show ?thesis
    proof (cases rule: line_cases [where l = l and cr = cr and cur = "1 + (seed + int n)" and prev = prev])
      case blank
      then show ?thesis using IH [OF len(1), of n prev] len(2) raw unfolding line by simp
    next
      case bad
      then show ?thesis using raw unfolding line by (simp add: Let_def)
    next
      case rej
      then show ?thesis using raw unfolding line sd by (auto simp: Let_def)
    next
      case (good q)
      then show ?thesis using IH [OF len(1), of "Suc n" "Hash q"] len(2) raw unfolding line sd by (auto simp: Let_def)
    qed
  qed
qed

lemma repair_loop_VOK:
  "VOK (fst (repair_loop cr seed s off off n prev)) \<longleftrightarrow>
     (\<exists>rs. parse_lines (raw_lines s) = Some rs \<and> chain_ok cr (seed + int n) prev rs)"
  using repair_loop_chain [of s cr seed n prev off] by (metis fst_conv result_simps(1))

text \<open>What is cut off when a torn tail is reported, and what stays.\<close>

definition torn_tail :: "bytes \<Rightarrow> bool" where
  "torn_tail s \<longleftrightarrow> (\<exists>l r. s \<noteq> [] \<and> next_line s = (l, r) \<and> trim_space l \<noteq> [] \<and> audit_unmarshal (trim_space l) = None \<and>
     trim_space r = [])"

text \<open>A line the loop reads past, and the position after it.\<close>

definition advances :: "crypto \<Rightarrow> int \<Rightarrow> nat \<Rightarrow> string \<Rightarrow> bytes \<Rightarrow> nat \<Rightarrow> string \<Rightarrow> bool" where
  "advances cr seed n prev l n' prev' \<longleftrightarrow> trim_space l = [] \<and> n' = n \<and> prev' = prev \<or>
     (\<exists>q. trim_space l \<noteq> [] \<and> audit_unmarshal (trim_space l) = Some q \<and> \<not> auditSchemaVersion < SchemaVersion q \<and>
        check_record cr (seed + int n + 1) prev q = NotBroken \<and> n' = Suc n \<and> prev' = Hash q)"

lemma repair_advance:
  assumes "s \<noteq> []" "next_line s = (l, r)" "advances cr seed n prev l n' prev'"
  shows "repair_loop cr seed s off off n prev =
    repair_loop cr seed r (off + (length s - length r)) (off + (length s - length r)) n' prev'"
  using assms(3) unfolding repair_loop_line [OF assms(1,2) refl] advances_def
  by (elim disjE exE conjE) (simp_all add: Let_def)

lemma repair_stop:
  assumes "s \<noteq> []" "next_line s = (l, r)" "\<nexists>n' prev'. advances cr seed n prev l n' prev'"
    and "repair_loop cr seed s off off n prev = (res, o', torn)"
  shows "\<not> VOK res \<and> VCount res = n \<and>
    (if torn then o' = off \<and> trim_space l \<noteq> [] \<and> audit_unmarshal (trim_space l) = None \<and> trim_space r = [] else o' = 0)"
proof (cases rule: line_cases [where l = l and cr = cr and cur = "seed + int n + 1" and prev = prev])
  case blank
  then show ?thesis using assms(3) by (simp add: advances_def)
next
  case bad
  then show ?thesis using assms(4) unfolding repair_loop_line [OF assms(1,2) refl] by (auto simp: Let_def split: if_splits)
next
  case (rej q)
  then show ?thesis using assms(4) unfolding repair_loop_line [OF assms(1,2) refl] by (auto simp: Let_def split: if_splits)
next
  case (good q)
  then show ?thesis using assms(3) by (auto simp: advances_def)
qed

lemma next_line_take:
  assumes "s \<noteq> []" "next_line s = (l, r)"
  shows "next_line (take (length s - length r + k) s) = (l, take k r)" "take (length s - length r + k) s \<noteq> []"
    "drop (length s - length r + k) s = drop k r" "length r < length s"
proof -
  note shape = next_line_shape [OF assms]
  show "next_line (take (length s - length r + k) s) = (l, take k r)"
    using shape assms(1) cut_at_append [of "CHR 0x0A" l] cut_at_None [THEN iffD2, of "CHR 0x0A" l]
    by (auto simp: next_line_def split: option.splits)
  show "take (length s - length r + k) s \<noteq> []" "drop (length s - length r + k) s = drop k r" "length r < length s"
    using shape assms(1) by auto
qed

lemma repair_loop_torn:
  "repair_loop cr seed s off off n prev = (res, o', True) \<Longrightarrow>
     \<exists>k h. k \<le> length s \<and> o' = off + k \<and> torn_tail (drop k s) \<and>
       repair_loop cr seed (take k s) off off n prev = (intact (VCount res) h, off + k, False)"
proof (induction "length s" arbitrary: s off n prev rule: less_induct)
  case less
  have ne: "s \<noteq> []" using less(2) by auto
  obtain l r where lr: "next_line s = (l, r)" by fastforce
  let ?m = "length s - length r"
  note cut = next_line_take [OF ne lr]
  show ?case
  proof (cases "\<exists>n' prev'. advances cr seed n prev l n' prev'")
    case True
    then obtain n' prev' where adv: "advances cr seed n prev l n' prev'" by blast
    have e: "repair_loop cr seed r (off + ?m) (off + ?m) n' prev' = (res, o', True)"
      using repair_advance [OF ne lr adv] less(2) by (rule subst)
    obtain k h where k: "k \<le> length r" "o' = off + ?m + k" "torn_tail (drop k r)"
        "repair_loop cr seed (take k r) (off + ?m) (off + ?m) n' prev' = (intact (VCount res) h, off + ?m + k, False)"
      using less(1) [OF cut(4) e] by blast
    have "length (take (?m + k) s) - length (take k r) = ?m" using k(1) cut(4) by simp
    then have "repair_loop cr seed (take (?m + k) s) off off n prev = (intact (VCount res) h, off + (?m + k), False)"
      using repair_advance [OF cut(2,1) adv, of k off] k(4) by (simp add: add.assoc)
    moreover have "?m + k \<le> length s" using k(1) cut(4) by simp
    ultimately show ?thesis using k(2,3) cut(3) [of k] by (intro exI [of _ "?m + k"] exI [of _ h]) (simp add: add.assoc)
  next
    case False
    have "VCount res = n \<and> o' = off \<and> trim_space l \<noteq> [] \<and> audit_unmarshal (trim_space l) = None \<and> trim_space r = []"
      using repair_stop [OF ne lr False less(2)] by simp
    then show ?thesis using ne lr by (intro exI [of _ 0] exI [of _ prev]) (auto simp: torn_tail_def)
  qed
qed

lemma repair_loop_broken:
  "repair_loop cr seed s off off n prev = (res, o', False) \<Longrightarrow> \<not> VOK res \<Longrightarrow> o' = 0"
proof (induction "length s" arbitrary: s off n prev rule: less_induct)
  case less
  have ne: "s \<noteq> []" using less(2,3) by (cases "s = []") auto
  obtain l r where lr: "next_line s = (l, r)" by fastforce
  show ?case
  proof (cases "\<exists>n' prev'. advances cr seed n prev l n' prev'")
    case True
    then obtain n' prev' where adv: "advances cr seed n prev l n' prev'" by blast
    show ?thesis
      using repair_advance [OF ne lr adv] less(2) by (intro less(1) [OF next_line_take(4) [OF ne lr] _ less(3)]) (rule subst)
  next
    case False
    then show ?thesis using repair_stop [OF ne lr False less(2)] by simp
  qed
qed

text \<open>Repair drops a torn tail and nothing else. If the repair check reports a torn write at an
  offset, everything from there on is one non-blank line that is not valid JSON for a record,
  followed by nothing but blank space, and the file truncated to that offset passes the same
  check with the same number of records; if it reports an intact chain, nothing is cut; in every
  other case it reports no repair.\<close>
theorem repair_drops_only_torn_tail:
  assumes "VerifyForRepairFrom cr data seedSeq seedHash = (res, off, torn)"
  shows "if torn
    then off \<le> length data \<and> torn_tail (drop off data) \<and>
      (\<exists>h. VerifyForRepairFrom cr (take off data) seedSeq seedHash = (intact (VCount res) h, off, False))
    else VOK res \<and> off = length data \<or> \<not> VOK res \<and> off = 0"
proof (cases torn)
  case True
  then show ?thesis using assms repair_loop_torn [of cr seedSeq data 0 0 seedHash res off]
    by (auto simp: VerifyForRepairFrom_def)
next
  case False
  show ?thesis
  proof (cases "VOK res")
    case True
    then obtain rs where "parse_lines (raw_lines data) = Some rs" "chain_ok cr seedSeq seedHash rs"
      using assms repair_loop_VOK [of cr seedSeq data 0 0 seedHash] by (auto simp: VerifyForRepairFrom_def)
    then show ?thesis using True False assms repair_loop_chain [of data cr seedSeq 0 seedHash 0] by (simp add: VerifyForRepairFrom_def)
  next
    case bad: False
    then show ?thesis
      using False assms repair_loop_broken [of cr seedSeq data 0 0 seedHash res off] by (simp add: VerifyForRepairFrom_def)
  qed
qed

text \<open>The two verifiers agree. On a file whose lines fit the scanner, the start-up check that can
  repair a log finds the chain intact exactly when \<^verbatim>\<open>VerifyChain\<close> does, and both then report the
  same number of records and the same head.\<close>
theorem verifiers_agree:
  assumes "\<forall>l\<in>set (raw_lines d). length l < max_token"
  shows "VOK (fst (VerifyChain cr d)) = VOK (fst (VerifyForRepair cr d)) \<and>
    (VOK (fst (VerifyChain cr d)) \<longrightarrow> fst (VerifyChain cr d) = fst (VerifyForRepair cr d))"
proof -
  have tw: "takeWhile (\<lambda>l. length l < max_token) (raw_lines d) = raw_lines d" using assms by (simp add: takeWhile_eq_all_conv)
  have fit: "(\<exists>l\<in>set (raw_lines d). max_token \<le> length l) = False" using assms by (auto simp: not_le)
  have v: "VerifyChain cr d = verify_lines cr False (raw_lines d) 0 []" by (simp only: VerifyChain_def scan_lines_def tw fit prod.case)
  have r: "VerifyForRepair cr d = repair_loop cr 0 d 0 0 0 []" by (simp add: VerifyForRepair_def VerifyForRepairFrom_def)
  show ?thesis
  proof (cases "\<exists>rs. parse_lines (raw_lines d) = Some rs \<and> chain_ok cr 0 [] rs")
    case True
    then obtain rs where rs: "parse_lines (raw_lines d) = Some rs" "chain_ok cr 0 [] rs" by blast
    then show ?thesis
      using repair_loop_chain [of d cr 0 0 "[]" 0] verify_lines_intact [of False "raw_lines d" rs cr 0 "[]"] unfolding v r by simp
  next
    case False
    then show ?thesis
      using verify_lines_VOK [of cr False "raw_lines d" 0 "[]"] repair_loop_VOK [of cr 0 d 0 0 "[]"] unfolding v r by auto
  qed
qed

subsection \<open>Logs as they are written\<close>

text \<open>A record takes its place in the chain: sequence number, link and hash.\<close>

definition link_record :: "crypto \<Rightarrow> int \<Rightarrow> string \<Rightarrow> audit_rec \<Rightarrow> audit_rec" where
  "link_record cr n prev r = (let q = r\<lparr>Seq := n, PrevHash := prev\<rparr> in q\<lparr>Hash := chainHash cr q\<rparr>)"

lemma link_record_simps [simp]:
  "Seq (link_record cr n prev r) = n" "PrevHash (link_record cr n prev r) = prev"
  "SchemaVersion (link_record cr n prev r) = SchemaVersion r" "check_record cr n prev (link_record cr n prev r) = NotBroken"
  "Hash (link_record cr n prev r) = chainHash cr (link_record cr n prev r)"
  by (simp_all add: link_record_def Let_def check_record_def chainHash_def)

lemma link_record_ok: "rec_ok r \<Longrightarrow> valid_utf8 prev \<Longrightarrow> int64 n \<Longrightarrow> rec_ok (link_record cr n prev r)"
  by (simp add: link_record_def Let_def rec_ok_def chainHash_def hash_hex_def)

definition log_text :: "audit_rec list \<Rightarrow> bytes" where
  "log_text rs = file_of (map audit_marshal rs)"

lemma log_text_simps [simp]: "log_text [] = []" "log_text (rs @ qs) = log_text rs @ log_text qs" "log_text [r] = audit_marshal r @ newline"
  by (simp_all add: log_text_def)

lemma log_text_lines: "raw_lines (log_text rs @ s) = map audit_marshal rs @ raw_lines s" "raw_lines (log_text rs) = map audit_marshal rs"
  by (simp_all add: log_text_def raw_lines_file raw_lines_file' list_all_iff)

lemma parse_lines_append:
  "list_all rec_ok rs \<Longrightarrow> parse_lines (map audit_marshal rs @ ls) = map_option ((@) rs) (parse_lines ls)"
  by (cases "parse_lines ls"; induction rs; simp add: audit_roundtrip)

lemma parse_log: "list_all rec_ok rs \<Longrightarrow> parse_lines (map audit_marshal rs) = Some rs"
  using parse_lines_append [of rs "[]"] by simp

lemma log_records_text: "list_all rec_ok rs \<Longrightarrow> log_records (log_text rs) = rs"
  by (simp add: log_records_def log_text_lines parse_log)

abbreviation lines_fit :: "audit_rec list \<Rightarrow> bool" where
  "lines_fit rs \<equiv> list_all (\<lambda>r. length (audit_marshal r) < max_token) rs"

lemma VerifyChain_log:
  "list_all rec_ok rs \<Longrightarrow> lines_fit rs \<Longrightarrow> chain_ok cr 0 [] rs \<Longrightarrow>
     VerifyChain cr (log_text rs) = (intact (length rs) (head_of [] rs), False)"
  by (subst VerifyChain_OK) (simp add: log_text_lines parse_log list_all_iff)

lemma last_link_records:
  "list_all rec_ok rs \<Longrightarrow> last_link (map audit_marshal rs) acc = Some (if rs = [] then acc else (Seq (last rs), Hash (last rs)))"
  by (induction rs arbitrary: acc) (simp_all add: audit_roundtrip)

lemma LastLink_log:
  "list_all rec_ok rs \<Longrightarrow> lines_fit rs \<Longrightarrow> LastLink (log_text rs) = Some (if rs = [] then (0, []) else (Seq (last rs), Hash (last rs)))"
  unfolding LastLink_def log_text_def by (subst scan_lines_file) (simp_all add: last_link_records list_all_iff)

lemma chain_ok_Seq: "chain_ok cr n prev rs \<Longrightarrow> rs \<noteq> [] \<Longrightarrow> Seq (last rs) = n + int (length rs)"
  by (cases rs rule: rev_cases) (auto simp: chain_ok_append check_record_NotBroken)

subsection \<open>A log of one record\<close>

definition demo_rec :: audit_rec where
  "demo_rec = link_record demo_crypto 1 [] (zero_audit\<lparr>AMethod := ''tools/call'', SchemaVersion := 1\<rparr>)"

lemma demo_rec_ok [simp]: "rec_ok demo_rec" "chain_ok demo_crypto 0 [] [demo_rec]"
proof -
  have "rec_ok (zero_audit\<lparr>AMethod := ''tools/call'', SchemaVersion := 1\<rparr>)"
    using valid_ascii [of "''tools/call''"] valid_ascii [of "[]"] by (simp add: rec_ok_def zero_audit_def)
  then show "rec_ok demo_rec" using valid_ascii [of "[]"] by (simp add: demo_rec_def link_record_ok)
  show "chain_ok demo_crypto 0 [] [demo_rec]" by (simp add: demo_rec_def auditSchemaVersion_def zero_audit_def)
qed

lemma demo_rec_fits [simp]: "length (audit_marshal demo_rec) < max_token"
proof -
  let ?r = "zero_audit\<lparr>AMethod := ''tools/call'', SchemaVersion := 1, Seq := 1\<rparr>"
  have "length (audit_marshal ?r) \<le> 2060"
    using audit_marshal_size [of ?r] by (simp add: strings_size_def zero_audit_def)
  moreover have d: "demo_rec = ?r\<lparr>Hash := chainHash demo_crypto ?r\<rparr>" by (simp add: demo_rec_def link_record_def zero_audit_def)
  moreover have "length (Hash demo_rec) = 2 * length (audit_marshal ?r)"
    unfolding d by (simp add: chainHash_def hash_hex_def zero_audit_def)
  ultimately have "length (Hash demo_rec) \<le> 4120" by linarith
  moreover have "length (audit_marshal demo_rec) \<le> 6 * (10 + length (Hash demo_rec)) + 2000"
    using audit_marshal_size [of demo_rec] by (simp add: d strings_size_def zero_audit_def)
  ultimately show ?thesis by (simp add: max_token_def)
qed

lemma demo_log: "VerifyChain demo_crypto (log_text [demo_rec]) = (intact 1 (Hash demo_rec), False)" "log_records (log_text [demo_rec]) = [demo_rec]"
proof -
  show "VerifyChain demo_crypto (log_text [demo_rec]) = (intact 1 (Hash demo_rec), False)"
    using VerifyChain_log [of "[demo_rec]" demo_crypto] demo_rec_ok(1,2) demo_rec_fits by simp
  show "log_records (log_text [demo_rec]) = [demo_rec]" by (rule log_records_text) simp
qed

lemma trim_space_Nil: "trim_space [] = []"
  by (simp add: trim_space_def)

theorem log_head_determines_records_witness:
  "log_records (log_text [demo_rec]) = log_records (log_text [demo_rec] @ newline) \<and> length (log_records (log_text [demo_rec])) = 1"
proof (rule log_head_determines_records [OF demo_log(1)])
  have r: "raw_lines (log_text [demo_rec] @ newline) = [audit_marshal demo_rec, []]"
    unfolding log_text_lines by (simp add: raw_lines.simps [of newline])
  have p: "parse_lines [audit_marshal demo_rec, []] = Some [demo_rec]" using trim_space_Nil by (simp add: audit_roundtrip)
  show "VerifyChain demo_crypto (log_text [demo_rec] @ newline) = (intact 1 (Hash demo_rec), False)"
    unfolding VerifyChain_OK r using p demo_rec_ok(2) demo_rec_fits by (simp add: max_token_def)
  show "inj_on (sha256 demo_crypto) (hashed_texts (log_records (log_text [demo_rec])) \<union> hashed_texts (log_records (log_text [demo_rec] @ newline)))"
    by (simp add: inj_on_def)
qed simp_all

theorem repair_drops_only_torn_tail_witness:
  "VerifyForRepairFrom demo_crypto (log_text [demo_rec] @ ''{'') 0 [] =
     (\<lparr>VCount = 1, VOK = False, BreakSeq = 2, VReason = TornTail, LastHash = Hash demo_rec\<rparr>, length (log_text [demo_rec]), True) \<and>
   torn_tail ''{'' \<and> (\<exists>h. VerifyForRepairFrom demo_crypto (log_text [demo_rec]) 0 [] = (intact 1 h, length (log_text [demo_rec]), False))"
proof -
  have n: "next_line (log_text [demo_rec] @ ''{'') = (audit_marshal demo_rec, ''{'')"
    by (simp add: next_line_def cut_at_append)
  have a: "advances demo_crypto 0 0 [] (audit_marshal demo_rec) 1 (Hash demo_rec)"
    using demo_rec_ok by (simp add: advances_def audit_roundtrip)
  have b: "next_line ''{'' = (''{'', [])" "trim_space ''{'' = ''{''" "audit_unmarshal ''{'' = None" "trim_space [] = []" by code_simp+
  have "repair_loop demo_crypto 0 ''{'' (length (log_text [demo_rec])) (length (log_text [demo_rec])) 1 (Hash demo_rec) =
      (\<lparr>VCount = 1, VOK = False, BreakSeq = 2, VReason = TornTail, LastHash = Hash demo_rec\<rparr>, length (log_text [demo_rec]), True)"
    by (subst repair_loop_line [OF _ b(1) refl]) (simp_all add: b Let_def)
  then have r: "VerifyForRepairFrom demo_crypto (log_text [demo_rec] @ ''{'') 0 [] =
      (\<lparr>VCount = 1, VOK = False, BreakSeq = 2, VReason = TornTail, LastHash = Hash demo_rec\<rparr>, length (log_text [demo_rec]), True)"
    unfolding VerifyForRepairFrom_def by (subst repair_advance [OF _ n a]) simp_all
  show ?thesis using repair_drops_only_torn_tail [OF r] r by simp
qed

theorem verifiers_agree_witness:
  "VOK (fst (VerifyForRepair demo_crypto (log_text [demo_rec]))) \<and>
   fst (VerifyChain demo_crypto (log_text [demo_rec])) = fst (VerifyForRepair demo_crypto (log_text [demo_rec]))"
proof -
  have "\<forall>l\<in>set (raw_lines (log_text [demo_rec])). length l < max_token"
    unfolding log_text_lines(2) [of "[demo_rec]"] using demo_rec_fits by simp
  from verifiers_agree [OF this, of demo_crypto] show ?thesis using demo_log(1) by simp
qed

end
