(* ===== verification/Merkle.thy ===== *)
theory Merkle
  imports Crypto
begin

text \<open>
  The Merkle tree of the audit checkpoints (\<^verbatim>\<open>src/policy/merkle.go\<close>): the level-by-level loop of the
  source, its equivalence with hashing an explicit tree, and that the root commits to the whole
  list of leaves.
\<close>

definition leafHash :: "crypto \<Rightarrow> bytes \<Rightarrow> bytes" where
  "leafHash cr b = sha256 cr (CHR 0x00 # b)"

definition nodeHash :: "crypto \<Rightarrow> bytes \<Rightarrow> bytes \<Rightarrow> bytes" where
  "nodeHash cr l r = sha256 cr (CHR 0x01 # l @ r)"

text \<open>One pass of the inner loop: neighbours are combined, an odd node is promoted.\<close>

fun next_level :: "crypto \<Rightarrow> bytes list \<Rightarrow> bytes list" where
  "next_level cr (a # b # xs) = nodeHash cr a b # next_level cr xs"
| "next_level cr xs = xs"

lemma next_level_length: "length (next_level cr xs) = (length xs + 1) div 2"
  by (induction cr xs rule: next_level.induct) auto

function merkle_up :: "crypto \<Rightarrow> bytes list \<Rightarrow> bytes" where
  "merkle_up cr level = (if length level > 1 then merkle_up cr (next_level cr level) else hd level)"
  by pat_completeness auto
termination by (relation "measure (\<lambda>(cr, level). length level)") (auto simp: next_level_length)

declare merkle_up.simps [simp del]

definition MerkleRoot :: "crypto \<Rightarrow> bytes list \<Rightarrow> bytes" where
  "MerkleRoot cr leaves = (if leaves = [] then leafHash cr [] else merkle_up cr (map (leafHash cr) leaves))"

subsection \<open>The tree behind the loop\<close>

datatype mtree = MLeaf bytes | MNode mtree mtree

primrec tree_hash :: "crypto \<Rightarrow> mtree \<Rightarrow> bytes" where
  "tree_hash cr (MLeaf b) = leafHash cr b"
| "tree_hash cr (MNode l r) = nodeHash cr (tree_hash cr l) (tree_hash cr r)"

primrec leaves_of :: "mtree \<Rightarrow> bytes list" where
  "leaves_of (MLeaf b) = [b]"
| "leaves_of (MNode l r) = leaves_of l @ leaves_of r"

text \<open>Everything that is hashed on the way to the root.\<close>

primrec hash_inputs :: "crypto \<Rightarrow> mtree \<Rightarrow> bytes set" where
  "hash_inputs cr (MLeaf b) = {CHR 0x00 # b}"
| "hash_inputs cr (MNode l r) = insert (CHR 0x01 # tree_hash cr l @ tree_hash cr r) (hash_inputs cr l \<union> hash_inputs cr r)"

fun tree_level :: "mtree list \<Rightarrow> mtree list" where
  "tree_level (a # b # xs) = MNode a b # tree_level xs"
| "tree_level xs = xs"

lemma tree_level_length: "length (tree_level xs) = (length xs + 1) div 2"
  by (induction xs rule: tree_level.induct) auto

function tree_up :: "mtree list \<Rightarrow> mtree" where
  "tree_up ts = (if length ts > 1 then tree_up (tree_level ts) else hd ts)"
  by pat_completeness auto
termination by (relation "measure length") (auto simp: tree_level_length)

declare tree_up.simps [simp del]

definition merkle_tree :: "bytes list \<Rightarrow> mtree" where
  "merkle_tree leaves = (if leaves = [] then MLeaf [] else tree_up (map MLeaf leaves))"

lemma next_level_hash: "next_level cr (map (tree_hash cr) ts) = map (tree_hash cr) (tree_level ts)"
  by (induction ts rule: tree_level.induct) auto

lemma merkle_up_hash: "ts \<noteq> [] \<Longrightarrow> merkle_up cr (map (tree_hash cr) ts) = tree_hash cr (tree_up ts)"
proof (induction ts rule: tree_up.induct)
  case (1 ts)
  have "tree_level ts \<noteq> []" using 1(2) tree_level_length [of ts] by (cases ts) auto
  then show ?case
    using 1 by (simp add: merkle_up.simps [of cr "map (tree_hash cr) ts"] tree_up.simps [of ts] next_level_hash hd_map)
qed

lemma MerkleRoot_tree: "MerkleRoot cr leaves = tree_hash cr (merkle_tree leaves)"
proof -
  have "tree_hash cr \<circ> MLeaf = leafHash cr" by (simp add: fun_eq_iff)
  then show ?thesis using merkle_up_hash [of "map MLeaf leaves" cr] by (auto simp: MerkleRoot_def merkle_tree_def)
qed

lemma leaves_tree_level: "concat (map leaves_of (tree_level ts)) = concat (map leaves_of ts)"
  by (induction ts rule: tree_level.induct) auto

lemma leaves_tree_up: "ts \<noteq> [] \<Longrightarrow> leaves_of (tree_up ts) = concat (map leaves_of ts)"
proof (induction ts rule: tree_up.induct)
  case (1 ts)
  show ?case
  proof (cases "length ts > 1")
    case True
    then have "tree_level ts \<noteq> []" using tree_level_length [of ts] by (cases "tree_level ts") auto
    then show ?thesis using 1 True by (simp add: tree_up.simps [of ts] leaves_tree_level)
  next
    case False
    then obtain t where "ts = [t]" using 1(2) by (cases ts) auto
    then show ?thesis by (simp add: tree_up.simps)
  qed
qed

lemma leaves_merkle_tree: "leaves \<noteq> [] \<Longrightarrow> leaves_of (merkle_tree leaves) = leaves"
  using leaves_tree_up [of "map MLeaf leaves"] by (simp add: merkle_tree_def comp_def)

lemma tree_hash_inj:
  assumes "\<forall>b. length (sha256 cr b) = 32"
  shows "tree_hash cr t = tree_hash cr u \<Longrightarrow> inj_on (sha256 cr) (hash_inputs cr t \<union> hash_inputs cr u) \<Longrightarrow> t = u"
proof (induction t arbitrary: u)
  case (MLeaf b)
  then have "CHR 0x00 # b \<in> hash_inputs cr (MLeaf b)" by simp
  show ?case
  proof (cases u)
    case (MLeaf c)
    then show ?thesis using MLeaf.prems by (auto simp: leafHash_def dest: inj_onD)
  next
    case (MNode l r)
    then show ?thesis
      using inj_onD [OF MLeaf.prems(2), of "CHR 0x00 # b" "CHR 0x01 # tree_hash cr l @ tree_hash cr r"] MLeaf.prems(1)
      by (simp add: leafHash_def nodeHash_def)
  qed
next
  case (MNode l r)
  have len: "length (tree_hash cr x) = 32" for x using assms by (cases x) (simp_all add: leafHash_def nodeHash_def)
  show ?case
  proof (cases u)
    case (MLeaf c)
    then show ?thesis
      using inj_onD [OF MNode.prems(2), of "CHR 0x01 # tree_hash cr l @ tree_hash cr r" "CHR 0x00 # c"] MNode.prems(1)
      by (simp add: leafHash_def nodeHash_def)
  next
    case u: (MNode l' r')
    have "CHR 0x01 # tree_hash cr l @ tree_hash cr r = CHR 0x01 # tree_hash cr l' @ tree_hash cr r'"
      by (rule inj_onD [OF MNode.prems(2)]) (use MNode.prems(1) in \<open>simp_all add: u nodeHash_def\<close>)
    then have h: "tree_hash cr l = tree_hash cr l'" "tree_hash cr r = tree_hash cr r'"
      using append_eq_append_conv [of "tree_hash cr l" "tree_hash cr l'" "tree_hash cr r" "tree_hash cr r'"] len [of l] len [of l']
      by simp_all
    have "inj_on (sha256 cr) (hash_inputs cr l \<union> hash_inputs cr l')" "inj_on (sha256 cr) (hash_inputs cr r \<union> hash_inputs cr r')"
      by (rule inj_on_subset [OF MNode.prems(2)]; force simp: u)+
    then have "l = l'" "r = r'" using MNode.IH h by blast+
    then show ?thesis by (simp add: u)
  qed
qed

text \<open>The Merkle root commits to the leaves. If SHA-256 digests have 32 bytes and do not collide on
  what is hashed for two non-empty lists of leaves, equal roots mean equal lists: same leaves,
  same order, same number. (The empty list is excluded: its root is the root of a single empty
  leaf.)\<close>
theorem merkle_root_binding:
  assumes "\<forall>b. length (sha256 cr b) = 32" "xs \<noteq> []" "ys \<noteq> []"
    and "inj_on (sha256 cr) (hash_inputs cr (merkle_tree xs) \<union> hash_inputs cr (merkle_tree ys))"
  shows "(MerkleRoot cr xs = MerkleRoot cr ys) = (xs = ys)"
proof
  assume "MerkleRoot cr xs = MerkleRoot cr ys"
  then have "merkle_tree xs = merkle_tree ys" unfolding MerkleRoot_tree by (rule tree_hash_inj [OF assms(1) _ assms(4)])
  then have "leaves_of (merkle_tree xs) = leaves_of (merkle_tree ys)" by simp
  then show "xs = ys" unfolding leaves_merkle_tree [OF assms(2)] leaves_merkle_tree [OF assms(3)] .
qed simp

text \<open>A digest of 32 bytes that does not collide on the inputs below.\<close>

definition pad_crypto :: crypto where
  "pad_crypto = demo_crypto\<lparr>sha256 := (\<lambda>b. take 32 (b @ replicate 32 (CHR 0x00)))\<rparr>"

lemma pad_length: "length (sha256 pad_crypto b) = 32"
  by (simp add: pad_crypto_def)

theorem merkle_root_binding_witness:
  "MerkleRoot pad_crypto [''a'', ''b''] \<noteq> MerkleRoot pad_crypto [''c'', ''b'']"
proof -
  have t: "merkle_tree [x, ''b''] = MNode (MLeaf x) (MLeaf ''b'')" for x
    by (simp add: merkle_tree_def tree_up.simps)
  have "inj_on (sha256 pad_crypto) (hash_inputs pad_crypto (merkle_tree [''a'', ''b'']) \<union> hash_inputs pad_crypto (merkle_tree [''c'', ''b'']))"
  proof (rule inj_on_imageI2)
    have "take 3 \<circ> sha256 pad_crypto = (\<lambda>x. take 3 (x @ replicate 32 (CHR 0x00)))" by (auto simp: pad_crypto_def fun_eq_iff min_def)
    moreover have "tree_hash pad_crypto (MLeaf x) = sha256 pad_crypto (CHR 0x00 # x)" for x by (simp add: leafHash_def)
    ultimately show "inj_on (take 3 \<circ> sha256 pad_crypto) (hash_inputs pad_crypto (merkle_tree [''a'', ''b'']) \<union> hash_inputs pad_crypto (merkle_tree [''c'', ''b'']))"
      by (simp add: t) (auto simp: pad_crypto_def numeral_3_eq_3)
  qed
  from merkle_root_binding [OF _ _ _ this] pad_length show ?thesis by simp
qed

end
