(* ===== verification/Checkpoint.thy ===== *)
theory Checkpoint
  imports AuditChain Merkle
begin

text \<open>
  Signed checkpoints over the audit log (\<^verbatim>\<open>src/policy/sign.go\<close>, \<^verbatim>\<open>src/policy/checkpoint.go\<close>): the
  checkpoint record with its JSON text, signing and verification, the batching checkpointer and
  the self-linked anchor file.  Whether a write reaches its file in full is an argument: a
  failure carries the number of bytes that were written.
\<close>

subsection \<open>Checkpoints\<close>

record checkpoint =
  CVersion :: int
  CSeq :: int
  FromSeq :: int
  ToSeq :: int
  CCount :: int
  CRoot :: string
  ChainHead :: string
  PrevCP :: string
  CTime :: string
  CPubKey :: string
  CSig :: string

definition zero_cp :: checkpoint where
  "zero_cp = \<lparr>CVersion = 0, CSeq = 0, FromSeq = 0, ToSeq = 0, CCount = 0, CRoot = [], ChainHead = [], PrevCP = [], CTime = [],
     CPubKey = [], CSig = []\<rparr>"

definition cp_members :: "checkpoint \<Rightarrow> (string \<times> json) list" where
  "cp_members c =
     int_field ''version'' (CVersion c) @ int_field ''checkpoint_seq'' (CSeq c) @ int_field ''from_seq'' (FromSeq c) @
     int_field ''to_seq'' (ToSeq c) @ int_field ''count'' (CCount c) @ str_field ''merkle_root'' (CRoot c) @
     str_field ''chain_head'' (ChainHead c) @ str_field ''prev_checkpoint'' (PrevCP c) @ str_field ''time'' (CTime c) @
     str_field ''pubkey'' (CPubKey c) @ str_field ''signature'' (CSig c)"

definition cp_marshal :: "checkpoint \<Rightarrow> bytes" where
  "cp_marshal c = json_print (JObj (cp_members c))"

definition cp_fields :: "checkpoint field_table" where
  "cp_fields =
     [(''version'', set_int (\<lambda>i c. c\<lparr>CVersion := i\<rparr>)), (''checkpoint_seq'', set_int (\<lambda>i c. c\<lparr>CSeq := i\<rparr>)),
      (''from_seq'', set_int (\<lambda>i c. c\<lparr>FromSeq := i\<rparr>)), (''to_seq'', set_int (\<lambda>i c. c\<lparr>ToSeq := i\<rparr>)),
      (''count'', set_int (\<lambda>i c. c\<lparr>CCount := i\<rparr>)), (''merkle_root'', set_str (\<lambda>s c. c\<lparr>CRoot := s\<rparr>)),
      (''chain_head'', set_str (\<lambda>s c. c\<lparr>ChainHead := s\<rparr>)), (''prev_checkpoint'', set_str (\<lambda>s c. c\<lparr>PrevCP := s\<rparr>)),
      (''time'', set_str (\<lambda>s c. c\<lparr>CTime := s\<rparr>)), (''pubkey'', set_str (\<lambda>s c. c\<lparr>CPubKey := s\<rparr>)),
      (''signature'', set_str (\<lambda>s c. c\<lparr>CSig := s\<rparr>))]"

definition cp_unmarshal :: "bytes \<Rightarrow> checkpoint option" where
  "cp_unmarshal b = unmarshal_struct cp_fields zero_cp b"

definition cp_signingBytes :: "checkpoint \<Rightarrow> bytes" where
  "cp_signingBytes c = cp_marshal (c\<lparr>CSig := []\<rparr>)"

definition cp_Hash :: "crypto \<Rightarrow> checkpoint \<Rightarrow> string" where
  "cp_Hash cr c = hash_hex cr (cp_signingBytes c @ CSig c)"

definition cp_sign :: "crypto \<Rightarrow> signer \<Rightarrow> checkpoint \<Rightarrow> checkpoint" where
  "cp_sign cr s c =
     (let c' = c\<lparr>CPubKey := PubKeyHex s\<rparr> in c'\<lparr>CSig := hex_encode (ed_sign cr (priv s) (cp_signingBytes c'))\<rparr>)"

datatype cp_error = UnexpectedKey | InvalidKey | InvalidSigEncoding | SigMismatch

definition VerifyCheckpoint :: "crypto \<Rightarrow> checkpoint \<Rightarrow> string \<Rightarrow> cp_error option" where
  "VerifyCheckpoint cr c expectPub =
     (if expectPub \<noteq> [] \<and> CPubKey c \<noteq> expectPub then Some UnexpectedKey
      else case hex_decode (CPubKey c) of
        None \<Rightarrow> Some InvalidKey
      | Some pk \<Rightarrow>
          (if length pk \<noteq> 32 then Some InvalidKey
           else case hex_decode (CSig c) of
             None \<Rightarrow> Some InvalidSigEncoding
           | Some sg \<Rightarrow> (if ed_verify cr pk (cp_signingBytes c) sg then None else Some SigMismatch)))"

subsection \<open>Anchors\<close>

record anchor_rec =
  AnV :: int
  AnSeq :: int
  AnChainHead :: string
  AnCheckpoint :: string
  AnTime :: string
  AnSigner :: string
  AnPrev :: string

definition anchor_members :: "anchor_rec \<Rightarrow> (string \<times> json) list" where
  "anchor_members a =
     int_field ''v'' (AnV a) @ int_field ''checkpoint_seq'' (AnSeq a) @ str_field ''chain_head'' (AnChainHead a) @
     str_field ''checkpoint'' (AnCheckpoint a) @ str_field ''time'' (AnTime a) @ opt_str ''signer'' (AnSigner a) @
     str_field ''prev_anchor'' (AnPrev a)"

definition anchor_marshal :: "anchor_rec \<Rightarrow> bytes" where
  "anchor_marshal a = json_print (JObj (anchor_members a))"

definition AnchorLineHash :: "crypto \<Rightarrow> bytes \<Rightarrow> string" where
  "AnchorLineHash cr line = hash_hex cr line"

record file_anchor =
  fa_W :: bytes
  fa_prev :: string

type_synonym write_fault = "nat option"

definition NewFileAnchor :: "bytes \<Rightarrow> string \<Rightarrow> file_anchor" where
  "NewFileAnchor w prev = \<lparr>fa_W = w, fa_prev = prev\<rparr>"

definition anchor_of :: "crypto \<Rightarrow> checkpoint \<Rightarrow> string \<Rightarrow> string \<Rightarrow> anchor_rec" where
  "anchor_of cr c signer prev =
     \<lparr>AnV = 1, AnSeq = CSeq c, AnChainHead = ChainHead c, AnCheckpoint = cp_Hash cr c, AnTime = CTime c, AnSigner = signer, AnPrev = prev\<rparr>"

definition anchor_append :: "crypto \<Rightarrow> write_fault \<Rightarrow> checkpoint \<Rightarrow> string \<Rightarrow> file_anchor \<Rightarrow> bool \<times> file_anchor" where
  "anchor_append cr fault c signer a =
     (let b = anchor_marshal (anchor_of cr c signer (fa_prev a)) in
      case fault of
        Some k \<Rightarrow> (False, a\<lparr>fa_W := fa_W a @ take k (b @ newline)\<rparr>)
      | None \<Rightarrow> (True, \<lparr>fa_W = fa_W a @ b @ newline, fa_prev = AnchorLineHash cr b\<rparr>))"

definition Anchor :: "crypto \<Rightarrow> write_fault \<Rightarrow> checkpoint \<Rightarrow> file_anchor \<Rightarrow> bool \<times> file_anchor" where
  "Anchor cr fault c a = anchor_append cr fault c [] a"

definition Witness :: "crypto \<Rightarrow> write_fault \<Rightarrow> checkpoint \<Rightarrow> string \<Rightarrow> file_anchor \<Rightarrow> bool \<times> file_anchor" where
  "Witness cr fault c signer a = anchor_append cr fault c signer a"

subsection \<open>The checkpointer\<close>

datatype cp_report = CheckpointWrite | CheckpointAnchor

record checkpointer =
  ck_signer :: signer
  ck_w :: bytes
  ck_anchor :: "file_anchor option"
  ck_every :: nat
  ck_reported :: "cp_report list"
  ck_leaves :: "bytes list"
  ck_fromSeq :: int
  ck_cpSeq :: int
  ck_prevCP :: string

definition NewCheckpointer :: "signer \<Rightarrow> bytes \<Rightarrow> int \<Rightarrow> file_anchor option \<Rightarrow> checkpointer" where
  "NewCheckpointer s w every anchor =
     \<lparr>ck_signer = s, ck_w = w, ck_anchor = anchor, ck_every = (if every \<le> 0 then 128 else nat every), ck_reported = [],
      ck_leaves = [], ck_fromSeq = 0, ck_cpSeq = 0, ck_prevCP = []\<rparr>"

text \<open>The faults of one flush, the checkpoint write's and the anchor write's, and the clock's reading.\<close>

record flush_env =
  fl_write :: write_fault
  fl_anchor :: write_fault
  fl_time :: string

definition cp_SeedFrom :: "int \<Rightarrow> string \<Rightarrow> checkpointer \<Rightarrow> checkpointer" where
  "cp_SeedFrom cpSeq prevCPHash c = c\<lparr>ck_cpSeq := cpSeq, ck_prevCP := prevCPHash\<rparr>"

definition next_checkpoint :: "crypto \<Rightarrow> checkpointer \<Rightarrow> int \<Rightarrow> string \<Rightarrow> string \<Rightarrow> checkpoint" where
  "next_checkpoint cr c toSeq chainHead t =
     cp_sign cr (ck_signer c)
       \<lparr>CVersion = 1, CSeq = ck_cpSeq c + 1, FromSeq = ck_fromSeq c, ToSeq = toSeq, CCount = int (length (ck_leaves c)),
        CRoot = hex_encode (MerkleRoot cr (ck_leaves c)), ChainHead = chainHead, PrevCP = ck_prevCP c, CTime = t, CPubKey = [], CSig = []\<rparr>"

definition flushLocked :: "crypto \<Rightarrow> flush_env \<Rightarrow> int \<Rightarrow> string \<Rightarrow> checkpointer \<Rightarrow> checkpointer" where
  "flushLocked cr fe toSeq chainHead c =
     (let cp = next_checkpoint cr c toSeq chainHead (fl_time fe);
          b = cp_marshal cp @ newline
      in case fl_write fe of
           Some k \<Rightarrow> c\<lparr>ck_w := ck_w c @ take k b, ck_reported := ck_reported c @ [CheckpointWrite]\<rparr>
         | None \<Rightarrow>
             (let c1 = c\<lparr>ck_w := ck_w c @ b\<rparr>;
                  c2 = (case ck_anchor c1 of
                          None \<Rightarrow> c1
                        | Some a \<Rightarrow>
                            (case Anchor cr (fl_anchor fe) cp a of
                               (True, a') \<Rightarrow> c1\<lparr>ck_anchor := Some a'\<rparr>
                             | (False, a') \<Rightarrow> c1\<lparr>ck_anchor := Some a', ck_reported := ck_reported c1 @ [CheckpointAnchor]\<rparr>))
              in c2\<lparr>ck_cpSeq := ck_cpSeq c + 1, ck_prevCP := cp_Hash cr cp, ck_leaves := [], ck_fromSeq := 0\<rparr>))"

definition cp_add :: "crypto \<Rightarrow> flush_env \<Rightarrow> int \<Rightarrow> string \<Rightarrow> checkpointer \<Rightarrow> checkpointer" where
  "cp_add cr fe seq hashHex c =
     (case hex_decode hashHex of
        None \<Rightarrow> c
      | Some raw \<Rightarrow>
          (let c1 = (if ck_fromSeq c = 0 then c\<lparr>ck_fromSeq := seq\<rparr> else c);
               c2 = c1\<lparr>ck_leaves := ck_leaves c1 @ [raw]\<rparr>
           in if ck_every c2 \<le> length (ck_leaves c2) then flushLocked cr fe seq hashHex c2 else c2))"

definition cp_Flush :: "crypto \<Rightarrow> flush_env \<Rightarrow> int \<Rightarrow> string \<Rightarrow> checkpointer \<Rightarrow> checkpointer" where
  "cp_Flush cr fe lastSeq lastHash c =
     (if ck_leaves c = [] then c else flushLocked cr fe lastSeq lastHash c)"

subsection \<open>Checkpoints survive printing\<close>

definition cp_ok :: "checkpoint \<Rightarrow> bool" where
  "cp_ok c \<longleftrightarrow> list_all valid_utf8 [CRoot c, ChainHead c, PrevCP c, CTime c, CPubKey c, CSig c] \<and>
     int64 (CVersion c) \<and> int64 (CSeq c) \<and> int64 (FromSeq c) \<and> int64 (ToSeq c) \<and> int64 (CCount c)"

lemma cp_names:
  "fold_name ''version'' = ''version''" "fold_name ''checkpoint_seq'' = ''checkpoint_seq''" "fold_name ''from_seq'' = ''from_seq''"
  "fold_name ''to_seq'' = ''to_seq''" "fold_name ''count'' = ''count''" "fold_name ''merkle_root'' = ''merkle_root''"
  "fold_name ''chain_head'' = ''chain_head''" "fold_name ''prev_checkpoint'' = ''prev_checkpoint''" "fold_name ''time'' = ''time''"
  "fold_name ''pubkey'' = ''pubkey''" "fold_name ''signature'' = ''signature''"
  by code_simp+

lemma cp_decode_members:
  assumes "cp_ok c"
  shows "decode_fields cp_fields (cp_members c) zero_cp = Some c"
  using assms unfolding cp_members_def decode_append cp_ok_def
  by (simp add: str_field_def set_str_def int_field_def set_int_def atoi_int_text cp_fields_def cp_names zero_cp_def)

lemma cp_json_shape: "ints_only (JObj (cp_members c))" "json_depth (JObj (cp_members c)) \<le> maxNestingDepth"
proof -
  show "ints_only (JObj (cp_members c))" by (simp add: cp_members_def)
  have "list_all (\<lambda>(k, v). json_depth v \<le> 1) (cp_members c)" by (simp add: cp_members_def)
  then show "json_depth (JObj (cp_members c)) \<le> maxNestingDepth" by (rule json_depth_obj)
qed

lemma cp_roundtrip: "cp_ok c \<Longrightarrow> cp_unmarshal (cp_marshal c) = Some c"
proof -
  assume ok: "cp_ok c"
  have "members_valid (cp_members c)" using ok by (simp add: cp_ok_def cp_members_def valid_ascii)
  then have "valid_json (JObj (cp_members c))" by simp
  then have "json_parse (cp_marshal c) = Some (JObj (cp_members c))"
    using cp_json_shape [of c] by (simp add: cp_marshal_def json_roundtrip)
  then show ?thesis using cp_decode_members [OF ok] by (simp add: cp_unmarshal_def unmarshal_struct_def)
qed

lemma cp_line [simp]: "one_line (cp_marshal c)" "trim_space (cp_marshal c) = cp_marshal c" "cp_marshal c \<noteq> []"
  using json_print_no_newline [OF cp_json_shape(1) [of c]] by (simp_all add: cp_marshal_def trim_print_obj)

lemma cp_marshal_inj: "cp_ok c \<Longrightarrow> cp_ok c' \<Longrightarrow> cp_marshal c = cp_marshal c' \<Longrightarrow> c = c'"
  by (metis cp_roundtrip option.inject)

lemma cp_unmarshal_ok: "cp_unmarshal b = Some c \<Longrightarrow> cp_ok c"
proof -
  assume a: "cp_unmarshal b = Some c"
  have "list_all (\<lambda>(k, f). \<forall>v r r'. valid_json v \<longrightarrow> cp_ok r \<longrightarrow> f v r = Some r' \<longrightarrow> cp_ok r') cp_fields"
    unfolding cp_fields_def list.pred_inject(2) prod.case
    by (intro conjI allI impI list.pred_inject(1); (drule (1) set_str_valid | drule set_int_valid); auto simp: cp_ok_def)
  then have tab: "\<forall>(k, f)\<in>set cp_fields. \<forall>v r r'. valid_json v \<longrightarrow> cp_ok r \<longrightarrow> f v r = Some r' \<longrightarrow> cp_ok r'" by (simp add: list_all_iff)
  have "cp_ok zero_cp" by (simp add: cp_ok_def zero_cp_def valid_utf8_def)
  then show "cp_ok c" using a unfolding cp_unmarshal_def by (rule unmarshal_struct_inv [OF tab])
qed

subsection \<open>Signing\<close>

lemma VerifyCheckpoint_None:
  "VerifyCheckpoint cr c ex = None \<longleftrightarrow> (ex = [] \<or> CPubKey c = ex) \<and> hex_sig_ok cr (CPubKey c) (cp_signingBytes c) (CSig c)"
  by (auto simp: VerifyCheckpoint_def hex_sig_ok_def split: option.splits if_splits)

lemma cp_sign_simps [simp]:
  "CPubKey (cp_sign cr s c) = PubKeyHex s" "CVersion (cp_sign cr s c) = CVersion c" "CSeq (cp_sign cr s c) = CSeq c"
  "FromSeq (cp_sign cr s c) = FromSeq c" "ToSeq (cp_sign cr s c) = ToSeq c" "CCount (cp_sign cr s c) = CCount c"
  "CRoot (cp_sign cr s c) = CRoot c" "ChainHead (cp_sign cr s c) = ChainHead c" "PrevCP (cp_sign cr s c) = PrevCP c"
  "CTime (cp_sign cr s c) = CTime c"
  by (simp_all add: cp_sign_def Let_def)

lemma cp_sign_verifies:
  assumes "signer_ok cr s"
  shows "VerifyCheckpoint cr (cp_sign cr s c) (PubKeyHex s) = None"
proof -
  have "CSig (cp_sign cr s c) = hex_encode (ed_sign cr (priv s) (cp_signingBytes (cp_sign cr s c)))"
    by (simp add: cp_sign_def Let_def cp_signingBytes_def)
  then show ?thesis using hex_sig_ok_sign [OF assms] by (simp add: VerifyCheckpoint_None)
qed

lemma cp_sign_ok: "cp_ok (c\<lparr>CPubKey := [], CSig := []\<rparr>) \<Longrightarrow> cp_ok (cp_sign cr s c)"
  by (simp add: cp_ok_def cp_sign_def Let_def PubKeyHex_def)

lemma cp_Hash_valid [simp]: "valid_utf8 (cp_Hash cr c)"
  by (simp add: cp_Hash_def hash_hex_def)

end
