(* ===== verification/VerifySigned.thy ===== *)
theory VerifySigned
  imports Checkpoint
begin

text \<open>
  Verification of an audit log against its signed checkpoints (\<^verbatim>\<open>src/policy/verify_signed.go\<close>).
  The verdict is characterised by what the two files say: the records form a hash chain, the
  checkpoints verify under one key and are linked, and each commits to the next block of records.
\<close>

datatype signed_status = StatusInvalid | StatusUntrustedKey | StatusUnsealed | StatusSealed

datatype signed_why = NoReason | BadRecordLine | NonMonotonic | HashMismatch | ChainBroken | BadCheckpointLine | MixedSigners
  | BadCheckpoint cp_error | CheckpointLink | CoverageGap | InvertedRange | CountMismatch | MissingRecord | RootMismatch
  | HeadMismatch | NoCheckpoints | KeyNotPinned | UnsealedTail

record signed_result =
  Records :: nat
  Checkpoints :: nat
  CoveredRecords :: int
  SOK :: bool
  Sealed :: bool
  Trusted :: bool
  Status :: "signed_status option"
  SReason :: signed_why
  SignerPub :: string

definition zero_signed :: signed_result where
  "zero_signed = \<lparr>Records = 0, Checkpoints = 0, CoveredRecords = 0, SOK = False, Sealed = False, Trusted = False, Status = None,
     SReason = NoReason, SignerPub = []\<rparr>"

definition signed_invalid :: "signed_why \<Rightarrow> signed_result \<Rightarrow> signed_result" where
  "signed_invalid why res = res\<lparr>Status := Some StatusInvalid, SReason := why\<rparr>"

text \<open>The first pass: the last sequence number, the last hash, the hashes by sequence number, the result
  so far.  An early return is \<^term>\<open>Inl\<close>.\<close>

type_synonym rec_pass = "int \<times> string \<times> (int \<rightharpoonup> bytes) \<times> signed_result"

definition raw_hash :: "string \<Rightarrow> bytes" where
  "raw_hash h = (case hex_decode h of Some raw \<Rightarrow> raw | None \<Rightarrow> [])"

fun signed_records :: "crypto \<Rightarrow> bytes list \<Rightarrow> rec_pass \<Rightarrow> signed_result + rec_pass" where
  "signed_records cr [] st = Inr st"
| "signed_records cr (l # ls) (lastSeq, prevHash, hashBySeq, res) =
     (if trim_space l = [] then signed_records cr ls (lastSeq, prevHash, hashBySeq, res)
      else case audit_unmarshal (trim_space l) of
        None \<Rightarrow> Inl (signed_invalid BadRecordLine res)
      | Some r \<Rightarrow>
          (if Seq r \<le> lastSeq then Inl (signed_invalid NonMonotonic res)
           else let h = chainHash cr r in
             if Hash r \<noteq> h then Inl (signed_invalid HashMismatch res)
             else if PrevHash r \<noteq> prevHash then Inl (signed_invalid ChainBroken res)
             else signed_records cr ls (Seq r, h, hashBySeq(Seq r \<mapsto> raw_hash h), res\<lparr>Records := Suc (Records res)\<rparr>)))"

text \<open>The checks of one checkpoint, in order.\<close>

definition checkpoint_fault ::
    "crypto \<Rightarrow> string \<Rightarrow> (int \<rightharpoonup> bytes) \<Rightarrow> string \<Rightarrow> int \<Rightarrow> checkpoint \<Rightarrow> signed_why option" where
  "checkpoint_fault cr expectPub hashBySeq prevCP prevTo cp =
     (case VerifyCheckpoint cr cp expectPub of
        Some e \<Rightarrow> Some (BadCheckpoint e)
      | None \<Rightarrow>
          (if PrevCP cp \<noteq> prevCP then Some CheckpointLink
           else if FromSeq cp \<noteq> prevTo + 1 then Some CoverageGap
           else if ToSeq cp < FromSeq cp then Some InvertedRange
           else if CCount cp \<noteq> ToSeq cp - FromSeq cp + 1 then Some CountMismatch
           else case those (map hashBySeq [FromSeq cp..ToSeq cp]) of
             None \<Rightarrow> Some MissingRecord
           | Some leaves \<Rightarrow>
               (if hex_encode (MerkleRoot cr leaves) \<noteq> CRoot cp then Some RootMismatch
                else case hashBySeq (ToSeq cp) of
                  Some head \<Rightarrow> (if hex_encode head \<noteq> ChainHead cp then Some HeadMismatch else None)
                | None \<Rightarrow> None)))"

type_synonym cp_pass = "string \<times> int \<times> signed_result"

fun signed_checkpoints ::
    "crypto \<Rightarrow> string \<Rightarrow> (int \<rightharpoonup> bytes) \<Rightarrow> bytes list \<Rightarrow> cp_pass \<Rightarrow> signed_result + cp_pass" where
  "signed_checkpoints cr expectPub hashBySeq [] st = Inr st"
| "signed_checkpoints cr expectPub hashBySeq (l # ls) (prevCP, prevTo, res) =
     (if trim_space l = [] then signed_checkpoints cr expectPub hashBySeq ls (prevCP, prevTo, res)
      else case cp_unmarshal (trim_space l) of
        None \<Rightarrow> Inl (signed_invalid BadCheckpointLine res)
      | Some cp \<Rightarrow>
          (let res1 = res\<lparr>Checkpoints := Suc (Checkpoints res)\<rparr>;
               res2 = (if SignerPub res1 = [] then res1\<lparr>SignerPub := CPubKey cp\<rparr> else res1)
           in if CPubKey cp \<noteq> SignerPub res2 then Inl (signed_invalid MixedSigners res2)
              else case checkpoint_fault cr expectPub hashBySeq prevCP prevTo cp of
                Some why \<Rightarrow> Inl (signed_invalid why res2)
              | None \<Rightarrow> signed_checkpoints cr expectPub hashBySeq ls
                  (cp_Hash cr cp, ToSeq cp, res2\<lparr>CoveredRecords := CoveredRecords res2 + CCount cp\<rparr>)))"

definition signed_verdict :: "string \<Rightarrow> int \<Rightarrow> int \<Rightarrow> signed_result \<Rightarrow> signed_result" where
  "signed_verdict expectPub maxSeq prevTo res =
     (let sealed = (0 < Records res \<and> prevTo = maxSeq \<and> CoveredRecords res = int (Records res));
          trusted = (expectPub \<noteq> []);
          res1 = res\<lparr>SOK := True, Sealed := sealed, Trusted := trusted\<rparr>
      in if \<not> trusted then res1\<lparr>Status := Some StatusUntrustedKey, SReason := KeyNotPinned\<rparr>
         else if \<not> sealed then res1\<lparr>Status := Some StatusUnsealed, SReason := UnsealedTail\<rparr>
         else res1\<lparr>Status := Some StatusSealed\<rparr>)"

text \<open>The result, and whether a scanner failed.\<close>

definition VerifySigned :: "crypto \<Rightarrow> bytes \<Rightarrow> bytes \<Rightarrow> string \<Rightarrow> signed_result \<times> bool" where
  "VerifySigned cr auditR checkpointR expectPub =
     (case scan_lines auditR of (ls, err) \<Rightarrow>
        (case signed_records cr ls (0, [], Map.empty, zero_signed) of
           Inl res \<Rightarrow> (res, False)
         | Inr (maxSeq, _, hashBySeq, res) \<Rightarrow>
             (if err then (res, True)
              else case scan_lines checkpointR of (cs, cerr) \<Rightarrow>
                (case signed_checkpoints cr expectPub hashBySeq cs ([], 0, res) of
                   Inl res \<Rightarrow> (res, False)
                 | Inr (_, prevTo, res) \<Rightarrow>
                     (if cerr then (res, True)
                      else if Checkpoints res = 0 then (signed_invalid NoCheckpoints res, False)
                      else (signed_verdict expectPub maxSeq prevTo res, False))))))"

subsection \<open>What the verdict says\<close>

fun parse_cps :: "bytes list \<Rightarrow> checkpoint list option" where
  "parse_cps [] = Some []"
| "parse_cps (l # ls) =
     (if trim_space l = [] then parse_cps ls
      else case cp_unmarshal (trim_space l) of None \<Rightarrow> None | Some c \<Rightarrow> map_option ((#) c) (parse_cps ls))"

text \<open>Records with rising sequence numbers whose hashes are right and linked.\<close>

fun linked :: "crypto \<Rightarrow> int \<Rightarrow> string \<Rightarrow> audit_rec list \<Rightarrow> bool" where
  "linked cr n prev [] = True"
| "linked cr n prev (r # rs) = (n < Seq r \<and> Hash r = chainHash cr r \<and> PrevHash r = prev \<and> linked cr (Seq r) (Hash r) rs)"

text \<open>The records the checkpoints leave uncovered: each checkpoint takes the next block.\<close>

fun uncovered :: "crypto \<Rightarrow> string \<Rightarrow> int \<Rightarrow> checkpoint list \<Rightarrow> audit_rec list \<Rightarrow> audit_rec list option" where
  "uncovered cr prevCP n [] rs = Some rs"
| "uncovered cr prevCP n (c # cs) rs =
     (let block = take (nat (ToSeq c - n)) rs
      in if PrevCP c = prevCP \<and> FromSeq c = n + 1 \<and> FromSeq c \<le> ToSeq c \<and> CCount c = int (length block) \<and>
            map Seq block = [FromSeq c..ToSeq c] \<and>
            CRoot c = hex_encode (MerkleRoot cr (map (raw_hash \<circ> Hash) block)) \<and> ChainHead c = Hash (last block)
         then uncovered cr (cp_Hash cr c) (ToSeq c) cs (drop (length block) rs) else None)"

definition signed_by :: "crypto \<Rightarrow> string \<Rightarrow> checkpoint list \<Rightarrow> bool" where
  "signed_by cr expectPub cps = list_all (\<lambda>c. VerifyCheckpoint cr c expectPub = None \<and> CPubKey c = CPubKey (hd cps)) cps"

definition hash_map :: "(int \<rightharpoonup> bytes) \<Rightarrow> audit_rec list \<Rightarrow> (int \<rightharpoonup> bytes)" where
  "hash_map = foldl (\<lambda>m r. m(Seq r \<mapsto> raw_hash (Hash r)))"

lemma hash_map_simps [simp]: "hash_map m [] = m" "hash_map m (r # rs) = hash_map (m(Seq r \<mapsto> raw_hash (Hash r))) rs"
  by (simp_all add: hash_map_def)

lemma signed_records_Inr:
  "signed_records cr ls (n, prev, hs, res) = Inr st \<longleftrightarrow>
     (\<exists>rs. parse_lines ls = Some rs \<and> linked cr n prev rs \<and>
        st = (if rs = [] then n else Seq (last rs), head_of prev rs, hash_map hs rs, res\<lparr>Records := Records res + length rs\<rparr>))"
proof (induction ls arbitrary: n prev hs res)
  case (Cons l ls)
  show ?case
  proof (cases "trim_space l = []")
    case True
    then show ?thesis using Cons.IH by simp
  next
    case False
    show ?thesis
    proof (cases "audit_unmarshal (trim_space l)")
      case None
      then show ?thesis using False by simp
    next
      case (Some r)
      have p: "parse_lines (l # ls) = map_option ((#) r) (parse_lines ls)" using Some False by simp
      show ?thesis
      proof (cases "n < Seq r \<and> Hash r = chainHash cr r \<and> PrevHash r = prev")
        case True
        then have s: "signed_records cr (l # ls) (n, prev, hs, res) =
            signed_records cr ls (Seq r, Hash r, hs(Seq r \<mapsto> raw_hash (Hash r)), res\<lparr>Records := Suc (Records res)\<rparr>)"
          using Some False by (simp add: Let_def)
        have q: "(\<exists>rs. map_option ((#) r) (parse_lines ls) = Some rs \<and> P rs) \<longleftrightarrow> (\<exists>rs. parse_lines ls = Some rs \<and> P (r # rs))" for P by auto
        have l: "linked cr n prev (r # rs) = linked cr (Seq r) (Hash r) rs" for rs using True by simp
        show ?thesis unfolding s Cons.IH p q l by (simp only: hash_map_simps head_of_simps last.simps list.simps if_False) simp
      next
        case bad: False
        have "\<exists>e. signed_records cr (l # ls) (n, prev, hs, res) = Inl e" using Some False bad by (auto simp: Let_def)
        moreover have "\<not> linked cr n prev (r # rs)" for rs using bad by auto
        ultimately show ?thesis unfolding p by auto
      qed
    qed
  qed
qed auto

text \<open>The table of hashes beyond a sequence number is the list of the records still to be covered.\<close>

definition agree :: "(int \<rightharpoonup> bytes) \<Rightarrow> int \<Rightarrow> audit_rec list \<Rightarrow> bool" where
  "agree hs n rs \<longleftrightarrow> sorted_wrt (<) (n # map Seq rs) \<and> (\<forall>s>n. \<forall>h. hs s = Some h \<longleftrightarrow> (\<exists>r\<in>set rs. Seq r = s \<and> h = raw_hash (Hash r))) \<and>
     (\<forall>r\<in>set rs. hex_encode (raw_hash (Hash r)) = Hash r)"

lemma agree_drop1: "agree hs n (r # rs) \<Longrightarrow> agree hs (Seq r) rs"
  by (fastforce simp: agree_def)

lemma agree_missing: "agree hs n rs \<Longrightarrow> rs = [] \<or> Seq (hd rs) \<noteq> n + 1 \<Longrightarrow> hs (n + 1) = None"
proof -
  assume a: "agree hs n rs" "rs = [] \<or> Seq (hd rs) \<noteq> n + 1"
  have "Seq r \<noteq> n + 1" if "r \<in> set rs" for r
    using a that by (cases rs) (auto simp: agree_def)
  moreover have "hs (n + 1) = Some h \<longleftrightarrow> (\<exists>r\<in>set rs. Seq r = n + 1 \<and> h = raw_hash (Hash r))" for h
    using a(1) unfolding agree_def by simp
  ultimately show "hs (n + 1) = None" by (cases "hs (n + 1)") auto
qed

lemma those_block:
  "agree hs n rs \<Longrightarrow> n \<le> m \<Longrightarrow> those (map hs [n + 1..m]) =
     (let block = take (nat (m - n)) rs in if map Seq block = [n + 1..m] then Some (map (raw_hash \<circ> Hash) block) else None)"
proof (induction "nat (m - n)" arbitrary: n rs)
  case (Suc k)
  have up: "[n + 1..m] = (n + 1) # [n + 1 + 1..m]" using Suc.hyps(2) by (subst upto.simps) simp
  show ?case
  proof (cases "rs = [] \<or> Seq (hd rs) \<noteq> n + 1")
    case True
    then show ?thesis using agree_missing [OF Suc.prems(1) True] Suc.hyps(2) unfolding up by (cases rs) (auto simp: take_Cons')
  next
    case False
    then obtain r qs where rs: "rs = r # qs" "Seq r = n + 1" by (cases rs) auto
    have ag: "agree hs (n + 1) qs" using Suc.prems(1) agree_drop1 [of hs n r qs] by (simp add: rs)
    have k: "k = nat (m - (n + 1))" "n + 1 \<le> m" "nat (m - n) = Suc (nat (m - (n + 1)))" using Suc.hyps(2) Suc.prems(2) by linarith+
    have "hs (n + 1) = Some (raw_hash (Hash r))" using Suc.prems(1) by (auto simp: agree_def rs)
    then show ?thesis unfolding up using Suc.hyps(1) [OF k(1) ag k(2)] rs k(3) by (simp add: Let_def)
  qed
qed simp

lemma agree_drop: "agree hs n rs \<Longrightarrow> n \<le> m \<Longrightarrow> map Seq (take (nat (m - n)) rs) = [n + 1..m] \<Longrightarrow> agree hs m (drop (nat (m - n)) rs)"
proof (induction "nat (m - n)" arbitrary: n rs)
  case 0
  then show ?case by simp
next
  case (Suc k)
  have up: "[n + 1..m] = (n + 1) # [n + 1 + 1..m]" using Suc.hyps(2) by (subst upto.simps) simp
  have k: "k = nat (m - (n + 1))" "n + 1 \<le> m" "nat (m - n) = Suc (nat (m - (n + 1)))" using Suc.hyps(2) Suc.prems(2) by linarith+
  obtain r qs where rs: "rs = r # qs" "Seq r = n + 1" "map Seq (take (nat (m - (n + 1))) qs) = [n + 1 + 1..m]"
    using Suc.prems(3) unfolding up k(3) by (cases rs) auto
  have "agree hs (n + 1) qs" using Suc.prems(1) agree_drop1 [of hs n r qs] by (simp add: rs)
  then show ?case using Suc.hyps(1) [OF k(1) _ k(2) rs(3)] k(3) by (simp add: rs(1))
qed

text \<open>The next block of records, and a checkpoint that commits to it.\<close>

definition next_block :: "int \<Rightarrow> checkpoint \<Rightarrow> audit_rec list \<Rightarrow> audit_rec list" where
  "next_block n c rs = take (nat (ToSeq c - n)) rs"

definition commits_to :: "crypto \<Rightarrow> string \<Rightarrow> int \<Rightarrow> checkpoint \<Rightarrow> audit_rec list \<Rightarrow> bool" where
  "commits_to cr prevCP n c block \<longleftrightarrow> PrevCP c = prevCP \<and> FromSeq c = n + 1 \<and> FromSeq c \<le> ToSeq c \<and> CCount c = int (length block) \<and>
     map Seq block = [FromSeq c..ToSeq c] \<and> CRoot c = hex_encode (MerkleRoot cr (map (raw_hash \<circ> Hash) block)) \<and>
     ChainHead c = Hash (last block)"

lemma uncovered_Cons:
  "uncovered cr prevCP n (c # cs) rs =
     (if commits_to cr prevCP n c (next_block n c rs)
      then uncovered cr (cp_Hash cr c) (ToSeq c) cs (drop (length (next_block n c rs)) rs) else None)"
  by (simp add: commits_to_def next_block_def Let_def)

declare uncovered.simps(2) [simp del]

lemma block_length: "commits_to cr prevCP n c block \<Longrightarrow> int (length block) = ToSeq c - n \<and> block \<noteq> []"
proof -
  assume "commits_to cr prevCP n c block"
  then have "map Seq block = [n + 1..ToSeq c]" "n < ToSeq c" by (auto simp: commits_to_def)
  then have "length (map Seq block) = length [n + 1..ToSeq c]" "n < ToSeq c" by simp_all
  then have "length block = nat (ToSeq c - n)" by simp
  then show ?thesis using \<open>n < ToSeq c\<close> by auto
qed

lemma checkpoint_fault_None:
  assumes "agree hs n rs"
  shows "checkpoint_fault cr ex hs prevCP n c = None \<longleftrightarrow>
    VerifyCheckpoint cr c ex = None \<and> commits_to cr prevCP n c (next_block n c rs)"
proof (cases "VerifyCheckpoint cr c ex = None \<and> PrevCP c = prevCP \<and> FromSeq c = n + 1 \<and> FromSeq c \<le> ToSeq c \<and> CCount c = ToSeq c - n")
  case False
  then show ?thesis using block_length [of cr prevCP n c "next_block n c rs"]
    by (auto simp: checkpoint_fault_def commits_to_def split: option.splits)
next
  case True
  note b = those_block [OF assms, of "ToSeq c", folded next_block_def]
  have le: "n \<le> ToSeq c" "n < ToSeq c" using True by linarith+
  show ?thesis
  proof (cases "map Seq (next_block n c rs) = [n + 1..ToSeq c]")
    case False
    then show ?thesis using True b [OF le(1)] by (simp add: checkpoint_fault_def commits_to_def)
  next
    case seq: True
    have len: "int (length (next_block n c rs)) = ToSeq c - n"
      using arg_cong [where f = length, OF seq] le by simp
    then have ne: "next_block n c rs \<noteq> []" using le by auto
    let ?r = "last (next_block n c rs)"
    have "last (map Seq (next_block n c rs)) = ToSeq c" unfolding seq using le(2) by (metis add1_zle_eq last_snoc upto_rec2)
    then have r: "Seq ?r = ToSeq c" "?r \<in> set rs"
      using ne in_set_takeD [OF last_in_set [OF ne, unfolded next_block_def]] by (simp_all add: last_map next_block_def)
    have "hs (ToSeq c) = Some (raw_hash (Hash ?r))" "hex_encode (raw_hash (Hash ?r)) = Hash ?r"
      using assms r le(2) unfolding agree_def by auto
    then show ?thesis using True b [OF le(1)] seq len by (auto simp: checkpoint_fault_def commits_to_def)
  qed
qed

definition one_key :: "string \<Rightarrow> checkpoint list \<Rightarrow> bool" where
  "one_key k cps \<longleftrightarrow> (\<forall>c\<in>set cps. CPubKey c = (if k = [] then CPubKey (hd cps) else k))"

lemma one_key_Cons: "CPubKey c \<noteq> [] \<Longrightarrow> one_key k (c # cs) \<longleftrightarrow> (k = [] \<or> CPubKey c = k) \<and> one_key (CPubKey c) cs"
  by (auto simp: one_key_def)

lemma verified_key_ne: "VerifyCheckpoint cr c ex = None \<Longrightarrow> CPubKey c \<noteq> []"
  by (auto simp: VerifyCheckpoint_None hex_sig_ok_def)

definition cp_result :: "signed_result \<Rightarrow> checkpoint list \<Rightarrow> int \<Rightarrow> signed_result" where
  "cp_result res cps k = res\<lparr>Checkpoints := Checkpoints res + length cps, CoveredRecords := CoveredRecords res + k,
     SignerPub := (if SignerPub res = [] \<and> cps \<noteq> [] then CPubKey (hd cps) else SignerPub res)\<rparr>"

lemma uncovered_length: "uncovered cr prevCP n cps rs = Some rest \<Longrightarrow> length rest \<le> length rs \<and> rest = drop (length rs - length rest) rs"
proof (induction cps arbitrary: prevCP n rs)
  case (Cons c cs)
  let ?k = "length (next_block n c rs)"
  have "uncovered cr (cp_Hash cr c) (ToSeq c) cs (drop ?k rs) = Some rest"
    using Cons.prems by (simp add: uncovered_Cons split: if_splits)
  from Cons.IH [OF this] have IH: "length rest \<le> length (drop ?k rs)" "rest = drop (length (drop ?k rs) - length rest) (drop ?k rs)" by blast+
  have "rest = drop (length (drop ?k rs) - length rest + ?k) rs" using IH(2) by (metis drop_drop)
  moreover have "?k \<le> length rs" by (simp add: next_block_def)
  ultimately show ?case using IH(1) by simp
qed simp

lemma agree_uncovered:
  "agree hs n rs \<Longrightarrow> commits_to cr prevCP n c (next_block n c rs) \<Longrightarrow> agree hs (ToSeq c) (drop (length (next_block n c rs)) rs)"
proof -
  assume a: "agree hs n rs" "commits_to cr prevCP n c (next_block n c rs)"
  have "n \<le> ToSeq c" "map Seq (take (nat (ToSeq c - n)) rs) = [n + 1..ToSeq c]" "length (next_block n c rs) = nat (ToSeq c - n)"
    using a(2) block_length [OF a(2)] by (auto simp: commits_to_def next_block_def)
  then show ?thesis using agree_drop [OF a(1)] by simp
qed

lemma signed_checkpoints_Inr:
  "agree hs n rs \<Longrightarrow> (\<exists>p. signed_checkpoints cr ex hs ls (prevCP, n, res) = Inr (p, m, res')) \<longleftrightarrow>
     (\<exists>cps rest. parse_cps ls = Some cps \<and> list_all (\<lambda>c. VerifyCheckpoint cr c ex = None) cps \<and> one_key (SignerPub res) cps \<and>
        uncovered cr prevCP n cps rs = Some rest \<and> m = n + (int (length rs) - int (length rest)) \<and>
        res' = cp_result res cps (int (length rs) - int (length rest)))"
proof (induction ls arbitrary: prevCP n rs res)
  case Nil
  show ?case by (auto simp: cp_result_def one_key_def)
next
  case (Cons l ls)
  show ?case
  proof (cases "trim_space l = []")
    case True
    then show ?thesis using Cons.IH [OF Cons.prems] by simp
  next
    case False
    show ?thesis
    proof (cases "cp_unmarshal (trim_space l)")
      case None
      then show ?thesis using False by simp
    next
      case (Some c)
      let ?blk = "next_block n c rs"
      let ?ok = "(SignerPub res = [] \<or> CPubKey c = SignerPub res) \<and> VerifyCheckpoint cr c ex = None \<and> commits_to cr prevCP n c ?blk"
      let ?res = "res\<lparr>Checkpoints := Suc (Checkpoints res), SignerPub := CPubKey c, CoveredRecords := CoveredRecords res + CCount c\<rparr>"
      note fault = checkpoint_fault_None [OF Cons.prems, of cr ex prevCP c]
      have p: "parse_cps (l # ls) = map_option ((#) c) (parse_cps ls)" using Some False by simp
      have q: "(\<exists>cps rest. map_option ((#) c) (parse_cps ls) = Some cps \<and> P cps rest) \<longleftrightarrow>
          (\<exists>cps rest. parse_cps ls = Some cps \<and> P (c # cps) rest)" for P by auto
      show ?thesis
      proof (cases ?ok)
        case True
        have s: "signed_checkpoints cr ex hs (l # ls) (prevCP, n, res) = signed_checkpoints cr ex hs ls (cp_Hash cr c, ToSeq c, ?res)"
          using True fault Some False by (cases "SignerPub res = []") (simp_all add: Let_def)
        have ag: "agree hs (ToSeq c) (drop (length ?blk) rs)" using agree_uncovered [OF Cons.prems] True by blast
        have len: "int (length ?blk) = ToSeq c - n" "CCount c = ToSeq c - n" "int (length (drop (length ?blk) rs)) = int (length rs) - (ToSeq c - n)"
          using block_length [of cr prevCP n c ?blk] True by (auto simp: commits_to_def next_block_def)
        have un: "uncovered cr prevCP n (c # cps) rs = uncovered cr (cp_Hash cr c) (ToSeq c) cps (drop (length ?blk) rs)" for cps
          using True by (simp add: uncovered_Cons)
        have k: "one_key (SignerPub res) (c # cps) = one_key (SignerPub ?res) cps" for cps
          using one_key_Cons [OF verified_key_ne, of cr c ex] True by simp
        have ex: "ToSeq c + (int (length rs) - (ToSeq c - n) - x) = n + (int (length rs) - x)" for x by simp
        have r: "cp_result ?res cps (int (length rs) - (ToSeq c - n) - x) = cp_result res (c # cps) (int (length rs) - x)" for cps x
          using True verified_key_ne [of cr c ex] len(2) by (cases res) (auto simp: cp_result_def)
        show ?thesis unfolding p q s Cons.IH [OF ag] un k len(3) ex r using True by (simp add: list.pred_inject)
      next
        case bad: False
        have "\<exists>e. signed_checkpoints cr ex hs (l # ls) (prevCP, n, res) = Inl e"
        proof (cases "checkpoint_fault cr ex hs prevCP n c")
          case None
          then show ?thesis using fault Some False bad by (simp add: Let_def)
        next
          case (Some why)
          then show ?thesis using \<open>cp_unmarshal (trim_space l) = Some c\<close> False by (simp add: Let_def)
        qed
        moreover have "\<not> (list_all (\<lambda>c. VerifyCheckpoint cr c ex = None) (c # cps) \<and> one_key (SignerPub res) (c # cps) \<and>
            uncovered cr prevCP n (c # cps) rs = Some rest)" for cps rest
          using bad one_key_Cons [OF verified_key_ne, of cr c ex "SignerPub res" cps] by (auto simp: uncovered_Cons split: if_splits)
        ultimately show ?thesis unfolding p q by auto
      qed
    qed
  qed
qed

lemma raw_hash_chain [simp]: "hex_encode (raw_hash (chainHash cr r)) = chainHash cr r"
  by (simp add: raw_hash_def chainHash_def hash_hex_def)

lemma linked_sorted: "linked cr n prev rs \<Longrightarrow> sorted_wrt (<) (n # map Seq rs)"
proof (induction rs arbitrary: n prev)
  case (Cons r rs)
  then have "sorted_wrt (<) (Seq r # map Seq rs)" "n < Seq r" by auto
  then show ?case by force
qed simp

lemma linked_hashes: "linked cr n prev rs \<Longrightarrow> \<forall>r\<in>set rs. Hash r = chainHash cr r"
  by (induction rs arbitrary: n prev) auto

lemma hash_map_Some:
  "sorted_wrt (<) (map Seq rs) \<Longrightarrow>
     hash_map m rs s = Some h \<longleftrightarrow> (\<exists>r\<in>set rs. Seq r = s \<and> h = raw_hash (Hash r)) \<or> s \<notin> Seq ` set rs \<and> m s = Some h"
proof (induction rs arbitrary: m)
  case (Cons r rs)
  then have lt: "\<forall>q\<in>set rs. Seq r < Seq q" and st: "sorted_wrt (<) (map Seq rs)" by auto
  then have "Seq r \<notin> Seq ` set rs" by auto
  then show ?case unfolding hash_map_simps Cons.IH [OF st] using lt by auto
qed simp

lemma linked_agree: "linked cr 0 [] rs \<Longrightarrow> agree (hash_map Map.empty rs) 0 rs"
  using linked_sorted [of cr 0 "[]" rs] linked_hashes [of cr 0 "[]" rs] hash_map_Some [of rs Map.empty]
  by (simp add: agree_def)

lemma linked_last: "linked cr n prev rs \<Longrightarrow> rs \<noteq> [] \<Longrightarrow> n < Seq (last rs)"
  using linked_sorted [of cr n prev rs] by (cases rs rule: rev_cases) auto

lemma uncovered_last: "uncovered cr prevCP n cps rs = Some [] \<Longrightarrow> rs \<noteq> [] \<Longrightarrow> Seq (last rs) = n + int (length rs)"
proof (induction cps arbitrary: prevCP n rs)
  case (Cons c cs)
  let ?b = "next_block n c rs"
  have com: "commits_to cr prevCP n c ?b" and un: "uncovered cr (cp_Hash cr c) (ToSeq c) cs (drop (length ?b) rs) = Some []"
    using Cons.prems(1) by (simp_all add: uncovered_Cons split: if_splits)
  have len: "int (length ?b) = ToSeq c - n" "?b \<noteq> []" using block_length [OF com] by auto
  show ?case
  proof (cases "drop (length ?b) rs = []")
    case True
    then have b: "?b = rs" by (auto simp: next_block_def)
    have m: "map Seq ?b = [n + 1..ToSeq c]" "n < ToSeq c" using com by (auto simp: commits_to_def)
    have "last (map Seq ?b) = ToSeq c" unfolding m(1) using m(2) by (metis add1_zle_eq last_snoc upto_rec2)
    then show ?thesis using b len Cons.prems(2) by (simp add: last_map)
  next
    case False
    then show ?thesis using Cons.IH [OF un False] len by (simp add: last_drop)
  qed
qed simp

abbreviation fits :: "bytes \<Rightarrow> bool" where "fits d \<equiv> \<forall>l\<in>set (raw_lines d). length l < max_token"

lemma scan_fits: "fits d \<Longrightarrow> scan_lines d = (raw_lines d, False)" "\<not> fits d \<Longrightarrow> snd (scan_lines d)"
  by (auto simp: scan_lines_def takeWhile_eq_all_conv not_le not_less)

text \<open>Two files that pass, as what they contain: the records, the checkpoints and the uncovered tail.\<close>

definition signed_files ::
    "crypto \<Rightarrow> string \<Rightarrow> bytes \<Rightarrow> bytes \<Rightarrow> audit_rec list \<Rightarrow> checkpoint list \<Rightarrow> audit_rec list \<Rightarrow> bool" where
  "signed_files cr ex a c rs cps rest \<longleftrightarrow> fits a \<and> fits c \<and> parse_lines (raw_lines a) = Some rs \<and> linked cr 0 [] rs \<and>
     parse_cps (raw_lines c) = Some cps \<and> cps \<noteq> [] \<and> signed_by cr ex cps \<and> uncovered cr [] 0 cps rs = Some rest"

definition signed_outcome :: "string \<Rightarrow> audit_rec list \<Rightarrow> checkpoint list \<Rightarrow> audit_rec list \<Rightarrow> signed_result" where
  "signed_outcome ex rs cps rest =
     \<lparr>Records = length rs, Checkpoints = length cps, CoveredRecords = int (length rs) - int (length rest), SOK = True,
      Sealed = (rest = []), Trusted = (ex \<noteq> []),
      Status = Some (if ex = [] then StatusUntrustedKey else if rest = [] then StatusSealed else StatusUnsealed),
      SReason = (if ex = [] then KeyNotPinned else if rest = [] then NoReason else UnsealedTail), SignerPub = CPubKey (hd cps)\<rparr>"

lemma one_key_signed: "list_all (\<lambda>c. VerifyCheckpoint cr c ex = None) cps \<and> one_key [] cps \<longleftrightarrow> signed_by cr ex cps"
  by (auto simp: signed_by_def one_key_def list_all_iff)

lemma covered_something: "uncovered cr prevCP n cps rs = Some rest \<Longrightarrow> cps \<noteq> [] \<Longrightarrow> length rest < length rs"
proof (cases cps)
  case (Cons c cs)
  assume u: "uncovered cr prevCP n cps rs = Some rest"
  let ?b = "next_block n c rs"
  have com: "commits_to cr prevCP n c ?b" and un: "uncovered cr (cp_Hash cr c) (ToSeq c) cs (drop (length ?b) rs) = Some rest"
    using u by (simp_all add: Cons uncovered_Cons split: if_splits)
  have "length rest \<le> length (drop (length ?b) rs)" using uncovered_length [OF un] by simp
  moreover have "0 < length ?b" "length ?b \<le> length rs" using block_length [OF com] by (auto simp: next_block_def)
  ultimately show "length rest < length rs" unfolding length_drop by linarith
qed simp

lemma VerifySigned_accepts:
  assumes "signed_files cr ex a c rs cps rest"
  shows "VerifySigned cr a c ex = (signed_outcome ex rs cps rest, False)"
proof -
  note f = assms [unfolded signed_files_def]
  let ?hs = "hash_map Map.empty rs" and ?res = "zero_signed\<lparr>Records := length rs\<rparr>"
  let ?m = "if rs = [] then 0 else Seq (last rs)" and ?k = "int (length rs) - int (length rest)"
  have "signed_records cr (raw_lines a) (0, [], Map.empty, zero_signed) = Inr (?m, head_of [] rs, ?hs, ?res)"
    unfolding signed_records_Inr using f by (intro exI [of _ rs]) (simp add: zero_signed_def)
  moreover obtain p where "signed_checkpoints cr ex ?hs (raw_lines c) ([], 0, ?res) = Inr (p, ?k, cp_result ?res cps ?k)"
    using signed_checkpoints_Inr [OF linked_agree [of cr rs], of cr ex "raw_lines c" "[]" ?res ?k "cp_result ?res cps ?k"] f
      one_key_signed [of cr ex cps] by (auto simp: zero_signed_def)
  moreover have "Checkpoints (cp_result ?res cps ?k) \<noteq> 0" using f by (simp add: cp_result_def)
  ultimately have v: "VerifySigned cr a c ex = (signed_verdict ex ?m ?k (cp_result ?res cps ?k), False)"
    using f by (simp add: VerifySigned_def scan_fits)
  have lt: "length rest < length rs" using covered_something f by blast
  moreover have "rest = [] \<longrightarrow> ?m = int (length rs)" using uncovered_last [of cr "[]" 0 cps rs] f lt by auto
  ultimately have "signed_verdict ex ?m ?k (cp_result ?res cps ?k) = signed_outcome ex rs cps rest"
    using f by (auto simp: signed_verdict_def Let_def cp_result_def zero_signed_def signed_outcome_def)
  then show ?thesis using v by simp
qed

lemma signed_records_SOK: "signed_records cr ls (n, p, hs, res) = Inl res' \<Longrightarrow> SOK res' = SOK res"
  by (induction ls arbitrary: n p hs res) (auto simp: Let_def signed_invalid_def split: if_splits option.splits)

lemma signed_checkpoints_SOK: "signed_checkpoints cr ex hs ls (p, n, res) = Inl res' \<Longrightarrow> SOK res' = SOK res"
  by (induction ls arbitrary: n p res) (auto simp: Let_def signed_invalid_def split: if_splits option.splits)

lemma VerifySigned_OK: "SOK (fst (VerifySigned cr a c ex)) \<longleftrightarrow> (\<exists>rs cps rest. signed_files cr ex a c rs cps rest)"
proof
  assume ok: "SOK (fst (VerifySigned cr a c ex))"
  obtain ls err where a: "scan_lines a = (ls, err)" by fastforce
  obtain cs cerr where c: "scan_lines c = (cs, cerr)" by fastforce
  obtain m h hs res where r: "signed_records cr ls (0, [], Map.empty, zero_signed) = Inr (m, h, hs, res)"
    using ok a signed_records_SOK [of cr ls 0 "[]" Map.empty zero_signed]
    by (auto simp: VerifySigned_def zero_signed_def split: sum.splits)
  then obtain rs where rs: "parse_lines ls = Some rs" "linked cr 0 [] rs" "hs = hash_map Map.empty rs"
      "res = zero_signed\<lparr>Records := length rs\<rparr>"
    unfolding signed_records_Inr by (auto simp: zero_signed_def)
  have res: "\<not> SOK res" "SignerPub res = []" using rs(4) by (simp_all add: zero_signed_def)
  have err: "\<not> err" using ok a r res by (auto simp: VerifySigned_def)
  obtain p t res' where k: "signed_checkpoints cr ex hs cs ([], 0, res) = Inr (p, t, res')"
    using ok a r err c res signed_checkpoints_SOK [of cr ex hs cs "[]" 0 res] by (auto simp: VerifySigned_def split: sum.splits)
  then obtain cps rest where cps: "parse_cps cs = Some cps" "signed_by cr ex cps" "uncovered cr [] 0 cps rs = Some rest"
      "res' = cp_result res cps (int (length rs) - int (length rest))"
    using signed_checkpoints_Inr [OF linked_agree [OF rs(2)], of cr ex cs "[]" res t res'] rs(3) res(2) one_key_signed [of cr ex] by auto
  have "\<not> SOK res'" using cps(4) res by (simp add: cp_result_def)
  then have "\<not> cerr" "Checkpoints res' \<noteq> 0" using ok a r err c k by (auto simp: VerifySigned_def signed_invalid_def split: if_splits)
  moreover have "cps \<noteq> []" using cps(4) calculation rs(4) by (auto simp: cp_result_def zero_signed_def)
  moreover have "fits a" "ls = raw_lines a" using scan_fits [of a] a err by (cases "fits a"; simp)+
  moreover have "fits c" "cs = raw_lines c" using scan_fits [of c] c calculation by (cases "fits c"; simp)+
  ultimately have "signed_files cr ex a c rs cps rest" using rs cps by (simp add: signed_files_def)
  then show "\<exists>rs cps rest. signed_files cr ex a c rs cps rest" by blast
next
  assume "\<exists>rs cps rest. signed_files cr ex a c rs cps rest"
  then show "SOK (fst (VerifySigned cr a c ex))" using VerifySigned_accepts by (force simp: signed_outcome_def)
qed

lemma linked_append:
  "linked cr n prev (rs @ [r]) \<longleftrightarrow> linked cr n prev rs \<and> (if rs = [] then n else Seq (last rs)) < Seq r \<and>
     Hash r = chainHash cr r \<and> PrevHash r = head_of prev rs"
  by (induction rs arbitrary: n prev) auto

lemma linked_take: "linked cr n prev rs \<Longrightarrow> linked cr n prev (take k rs)"
  by (induction rs arbitrary: n prev k) (auto simp: take_Cons' split: if_splits)

text \<open>Two linked lists of the same length with the same last hash are equal.\<close>

lemma linked_determines:
  assumes "length rs = length qs" "linked cr n prev rs" "linked cr n prev qs" "list_all rec_ok rs" "list_all rec_ok qs"
    and "inj_on (sha256 cr) (hashed_texts rs \<union> hashed_texts qs)" "head_of prev rs = head_of prev qs"
  shows "rs = qs"
  using assms
proof (induction rs arbitrary: qs rule: rev_induct)
  case (snoc r rs)
  obtain q ys where q: "qs = ys @ [q]" using snoc.prems(1) by (cases qs rule: rev_cases) auto
  have r: "PrevHash r = head_of prev rs" "Hash r = chainHash cr r" and q': "PrevHash q = head_of prev ys" "Hash q = chainHash cr q"
    using snoc.prems(2,3) by (auto simp: q linked_append)
  have hq: "Hash r = Hash q" using snoc.prems(7) by (simp add: q)
  then have "sha256 cr (audit_marshal (r\<lparr>Hash := []\<rparr>)) = sha256 cr (audit_marshal (q\<lparr>Hash := []\<rparr>))"
    using r(2) q'(2) by (simp add: chainHash_def hash_hex_inj)
  then have "audit_marshal (r\<lparr>Hash := []\<rparr>) = audit_marshal (q\<lparr>Hash := []\<rparr>)"
    by (rule inj_onD [OF snoc.prems(6)]) (simp_all add: q hashed_texts_append)
  then have rq: "r\<lparr>Hash := []\<rparr> = q\<lparr>Hash := []\<rparr>"
    using snoc.prems(4,5) by (intro audit_marshal_inj rec_ok_Hash) (simp_all add: q)
  have "(r\<lparr>Hash := []\<rparr>)\<lparr>Hash := Hash r\<rparr> = (q\<lparr>Hash := []\<rparr>)\<lparr>Hash := Hash q\<rparr>" by (simp only: rq hq)
  then have "r = q" by simp
  moreover have "inj_on (sha256 cr) (hashed_texts rs \<union> hashed_texts ys)"
    using snoc.prems(6) by (auto simp: q hashed_texts_append intro: inj_on_subset)
  then have "rs = ys" using snoc.IH [of ys] snoc.prems(1-5) r(1) q'(1) \<open>r = q\<close> by (simp add: q linked_append)
  ultimately show ?case by (simp add: q)
qed simp

text \<open>The last checkpoint names the last covered record.\<close>

lemma uncovered_head:
  "uncovered cr prevCP n cps rs = Some rest \<Longrightarrow> cps \<noteq> [] \<Longrightarrow>
     int (length rs) - int (length rest) = ToSeq (last cps) - n \<and> ChainHead (last cps) = Hash (last (take (length rs - length rest) rs))"
proof (induction cps arbitrary: prevCP n rs)
  case (Cons c cs)
  let ?b = "next_block n c rs"
  have com: "commits_to cr prevCP n c ?b" and un: "uncovered cr (cp_Hash cr c) (ToSeq c) cs (drop (length ?b) rs) = Some rest"
    using Cons.prems(1) by (simp_all add: uncovered_Cons split: if_splits)
  have b: "int (length ?b) = ToSeq c - n" "?b \<noteq> []" "length ?b \<le> length rs" "?b = take (length ?b) rs"
    using block_length [OF com] by (auto simp: next_block_def)
  show ?case
  proof (cases "cs = []")
    case True
    then show ?thesis using un b com by (auto simp: commits_to_def)
  next
    case False
    have IH: "int (length (drop (length ?b) rs)) - int (length rest) = ToSeq (last cs) - ToSeq c"
      "ChainHead (last cs) = Hash (last (take (length (drop (length ?b) rs) - length rest) (drop (length ?b) rs)))"
      using Cons.IH [OF un False] by blast+
    let ?k = "length (drop (length ?b) rs) - length rest"
    have lt: "length rest < length (drop (length ?b) rs)" using covered_something [OF un False] .
    have "length rs - length rest = length ?b + ?k" using lt b(3) by simp
    then have "take (length rs - length rest) rs = ?b @ take ?k (drop (length ?b) rs)" using b(4) by (metis take_add)
    moreover have "take ?k (drop (length ?b) rs) \<noteq> []" using lt by (auto simp: not_le)
    ultimately have "last (take (length rs - length rest) rs) = last (take ?k (drop (length ?b) rs))" by (simp only: last_appendR if_False not_False_eq_True)
    then show ?thesis using IH b False by simp
  qed
qed simp

lemma Inl_status:
  "signed_records cr ls (n, p, hs, res) = Inl res' \<Longrightarrow> Status res' = Some StatusInvalid"
  by (induction ls arbitrary: n p hs res) (auto simp: Let_def signed_invalid_def split: if_splits option.splits)

lemma Inl_cp_status:
  "signed_checkpoints cr ex hs ls (p, n, res) = Inl res' \<Longrightarrow> Status res' = Some StatusInvalid"
  "signed_checkpoints cr ex hs ls (p, n, res) = Inr (p', n', res') \<Longrightarrow> Status res' = Status res"
  by (induction ls arbitrary: n p res) (auto simp: Let_def signed_invalid_def split: if_splits option.splits)

lemma rejected_status: "\<not> SOK (fst (VerifySigned cr a c ex)) \<Longrightarrow> Status (fst (VerifySigned cr a c ex)) \<noteq> Some StatusSealed"
proof
  assume no: "\<not> SOK (fst (VerifySigned cr a c ex))" "Status (fst (VerifySigned cr a c ex)) = Some StatusSealed"
  obtain ls err where a: "scan_lines a = (ls, err)" by fastforce
  obtain cs cerr where c: "scan_lines c = (cs, cerr)" by fastforce
  obtain m h hs res where r: "signed_records cr ls (0, [], Map.empty, zero_signed) = Inr (m, h, hs, res)"
    using no(2) a Inl_status [of cr ls 0 "[]" Map.empty zero_signed] by (auto simp: VerifySigned_def split: sum.splits)
  then have "Status res = None" unfolding signed_records_Inr by (auto simp: zero_signed_def)
  moreover obtain p t res' where k: "signed_checkpoints cr ex hs cs ([], 0, res) = Inr (p, t, res')" "\<not> err"
    using no(2) a r c calculation Inl_cp_status(1) [of cr ex hs cs "[]" 0 res] by (auto simp: VerifySigned_def split: sum.splits if_splits)
  ultimately have "Status res' = None" using Inl_cp_status(2) by metis
  moreover have "SOK (signed_verdict ex m t res')" by (simp add: signed_verdict_def Let_def)
  ultimately show False using no a r c k by (auto simp: VerifySigned_def signed_invalid_def split: if_splits)
qed

text \<open>C10: A log is reported sealed exactly when it is. \<^verbatim>\<open>VerifySigned\<close> reports "sealed" if and only if a key was
  pinned, every line of both files fits and parses, the records form a hash chain with rising
  sequence numbers, there is at least one checkpoint, every checkpoint verifies under the pinned
  key and links to the one before, and the checkpoints commit, block after block from sequence
  number 1, to the Merkle root and the head of the records, with no record left over.\<close>
theorem sealed_iff_committed:
  "Status (fst (VerifySigned cr a c ex)) = Some StatusSealed \<longleftrightarrow> ex \<noteq> [] \<and> (\<exists>rs cps. signed_files cr ex a c rs cps [])"
proof (cases "SOK (fst (VerifySigned cr a c ex))")
  case True
  then obtain rs cps rest where f: "signed_files cr ex a c rs cps rest" unfolding VerifySigned_OK by blast
  have v: "VerifySigned cr a c ex = (signed_outcome ex rs cps rest, False)" by (rule VerifySigned_accepts [OF f])
  have "rest = []" if "signed_files cr ex a c rs' cps' []" for rs' cps'
    using that f by (simp add: signed_files_def)
  then show ?thesis using v f by (auto simp: signed_outcome_def)
next
  case False
  then show ?thesis using rejected_status [OF False] VerifySigned_OK [of cr a c ex] by blast
qed

text \<open>C12: Checkpoints pin the records they cover. If two audit logs both pass verification against the
  same checkpoint file, and SHA-256 does not collide on the texts hashed in them, then the same
  number of records is covered and those records are identical: nobody can edit, drop, insert or
  reorder a covered record without a new checkpoint.\<close>
theorem covered_records_pinned:
  assumes "SOK (fst (VerifySigned cr a1 c ex1))" "SOK (fst (VerifySigned cr a2 c ex2))"
    and "inj_on (sha256 cr) (hashed_texts (log_records a1) \<union> hashed_texts (log_records a2))"
  shows "CoveredRecords (fst (VerifySigned cr a1 c ex1)) = CoveredRecords (fst (VerifySigned cr a2 c ex2)) \<and>
    (let k = nat (CoveredRecords (fst (VerifySigned cr a1 c ex1)))
     in 0 < k \<and> k \<le> length (log_records a1) \<and> take k (log_records a1) = take k (log_records a2))"
proof -
  obtain rs cps rest where f: "signed_files cr ex1 a1 c rs cps rest" using assms(1) unfolding VerifySigned_OK by blast
  obtain qs cps' rest' where g: "signed_files cr ex2 a2 c qs cps' rest'" using assms(2) unfolding VerifySigned_OK by blast
  have c': "cps' = cps" "cps \<noteq> []" using f g by (auto simp: signed_files_def)
  note uf = uncovered_head [of cr "[]" 0 cps rs rest] covered_something [of cr "[]" 0 cps rs rest]
  note ug = uncovered_head [of cr "[]" 0 cps qs rest'] covered_something [of cr "[]" 0 cps qs rest']
  let ?k = "length rs - length rest"
  have k: "int (length rs) - int (length rest) = ToSeq (last cps)" "int (length qs) - int (length rest') = ToSeq (last cps)"
    "length rest < length rs" "length rest' < length qs"
    using uf ug f g c' by (simp_all add: signed_files_def)
  then have k': "length qs - length rest' = ?k" by linarith
  have h: "Hash (last (take ?k rs)) = Hash (last (take ?k qs))" using uf(1) ug(1) f g c' k' by (simp add: signed_files_def)
  have lr: "log_records a1 = rs" "log_records a2 = qs" using f g by (simp_all add: signed_files_def log_records_def)
  have "list_all rec_ok rs" "list_all rec_ok qs" using f g parse_lines_ok by (auto simp: signed_files_def)
  then have ok: "list_all rec_ok (take ?k rs)" "list_all rec_ok (take ?k qs)" by (auto simp: list_all_iff dest: in_set_takeD)
  have "take ?k rs = take ?k qs"
  proof (rule linked_determines [of _ _ cr 0 "[]"])
    show "length (take ?k rs) = length (take ?k qs)" using k k' by simp
    show "linked cr 0 [] (take ?k rs)" "linked cr 0 [] (take ?k qs)" using f g linked_take by (auto simp: signed_files_def)
    show "inj_on (sha256 cr) (hashed_texts (take ?k rs) \<union> hashed_texts (take ?k qs))"
      using assms(3) unfolding lr by (rule inj_on_subset) (auto simp: hashed_texts_def dest: in_set_takeD)
    show "head_of [] (take ?k rs) = head_of [] (take ?k qs)" using h k k' by (auto simp: head_of_def)
  qed (use ok in auto)
  moreover have "nat (ToSeq (last cps)) = ?k" using k by linarith
  ultimately show ?thesis
    using VerifySigned_accepts [OF f] VerifySigned_accepts [OF g] k by (simp add: lr signed_outcome_def Let_def)
qed

end
