(* ===== verification/AuditLog.thy ===== *)
theory AuditLog
  imports VerifySigned
begin

text \<open>
  Writing the audit log (\<^verbatim>\<open>src/policy/audit.go\<close>): clipping, chaining, committing, checkpointing,
  syncing and fanning out.  The sink is the bytes written so far; a write that fails says how many
  bytes it wrote.  The results: a log written with whole writes verifies, can be resumed, and once
  flushed is sealed; a torn write or an invalid UTF-8 string makes it unverifiable.
\<close>

record audit_log =
  al_w :: "bytes option"
  al_seq :: int
  al_prev :: string
  al_cp :: "checkpointer option"
  al_lastSeq :: int
  al_lastHash :: string
  al_failClosed :: bool
  al_sync :: bool
  al_canSync :: bool
  al_secondary :: "audit_rec list list"

definition NewAuditLog :: "bytes option \<Rightarrow> bool \<Rightarrow> audit_log" where
  "NewAuditLog w canSync =
     \<lparr>al_w = w, al_seq = 0, al_prev = [], al_cp = None, al_lastSeq = 0, al_lastHash = [], al_failClosed = False, al_sync = False,
      al_canSync = canSync, al_secondary = []\<rparr>"

definition AddSink :: "audit_log \<Rightarrow> audit_log" where
  "AddSink a = a\<lparr>al_secondary := al_secondary a @ [[]]\<rparr>"

definition WithFailClosed :: "bool \<Rightarrow> audit_log \<Rightarrow> audit_log" where
  "WithFailClosed b a = a\<lparr>al_failClosed := b\<rparr>"

definition FailClosed :: "audit_log option \<Rightarrow> bool" where
  "FailClosed a = (case a of None \<Rightarrow> False | Some a \<Rightarrow> al_failClosed a)"

definition WithSync :: "bool \<Rightarrow> audit_log \<Rightarrow> audit_log" where
  "WithSync b a = a\<lparr>al_sync := b\<rparr>"

definition WithCheckpointer :: "checkpointer \<Rightarrow> audit_log \<Rightarrow> audit_log" where
  "WithCheckpointer c a = a\<lparr>al_cp := Some c\<rparr>"

definition log_SeedFrom :: "int \<Rightarrow> string \<Rightarrow> audit_log \<Rightarrow> audit_log" where
  "log_SeedFrom seq prevHash a = a\<lparr>al_seq := seq, al_prev := prevHash\<rparr>"

definition log_Flush :: "crypto \<Rightarrow> flush_env \<Rightarrow> audit_log \<Rightarrow> audit_log" where
  "log_Flush cr fe a = a\<lparr>al_cp := map_option (cp_Flush cr fe (al_lastSeq a) (al_lastHash a)) (al_cp a)\<rparr>"

subsection \<open>Bounding a record\<close>

definition maxReasonBytes :: nat where "maxReasonBytes = 8192"

definition maxFieldBytes :: nat where "maxFieldBytes = 4096"

definition truncated :: bytes where
  "truncated = [CHR 0xE2, CHR 0x80, CHR 0xA6] @ ''(truncated)''"

definition clip_at :: "nat \<Rightarrow> bytes \<Rightarrow> bytes" where
  "clip_at n s = (if n < length s then take n s @ truncated else s)"

definition clipField :: "bytes \<Rightarrow> bytes" where
  "clipField s = clip_at maxFieldBytes s"

definition prepare_record :: "string \<Rightarrow> audit_rec \<Rightarrow> audit_rec" where
  "prepare_record t r = r\<lparr>Time := t, AReason := clip_at maxReasonBytes (AReason r), ATool := clipField (ATool r),
     AMethod := clipField (AMethod r), ARPCID := clipField (ARPCID r), DelegatedCaller := clipField (DelegatedCaller r),
     DelegationRouter := clipField (DelegationRouter r), DelegationNonce := clipField (DelegationNonce r),
     SchemaVersion := auditSchemaVersion\<rparr>"

subsection \<open>Writing\<close>

text \<open>What the world does during one write: the sink's fault, whether the sync fails, the clock, and the
  faults of a checkpoint flush.\<close>

record write_env =
  we_write :: write_fault
  we_syncFails :: bool
  we_time :: string
  we_flush :: flush_env

datatype write_error = WriteFailed | SyncFailed

definition AuditLog_write :: "crypto \<Rightarrow> write_env \<Rightarrow> audit_rec \<Rightarrow> audit_log \<Rightarrow> write_error option \<times> audit_log" where
  "AuditLog_write cr e r a =
     (case al_w a of
        None \<Rightarrow> (None, a)
      | Some out \<Rightarrow>
          (let r1 = prepare_record (we_time e) r;
               nextSeq = al_seq a + 1;
               r2 = link_record cr nextSeq (al_prev a) r1;
               h = Hash r2;
               b = audit_marshal r2 @ newline
           in case we_write e of
                Some n \<Rightarrow> (Some WriteFailed, a\<lparr>al_w := Some (out @ take n b)\<rparr>)
              | None \<Rightarrow>
                  (let a1 = a\<lparr>al_w := Some (out @ b), al_seq := nextSeq, al_prev := h, al_lastSeq := nextSeq, al_lastHash := h,
                              al_cp := map_option (cp_add cr (we_flush e) nextSeq h) (al_cp a)\<rparr>
                   in if al_sync a \<and> al_canSync a \<and> we_syncFails e then (Some SyncFailed, a1)
                      else (None, a1\<lparr>al_secondary := map (\<lambda>s. s @ [r2]) (al_secondary a)\<rparr>))))"

definition AuditLog_Append :: "crypto \<Rightarrow> write_env \<Rightarrow> audit_rec \<Rightarrow> audit_log \<Rightarrow> write_error option \<times> audit_log" where
  "AuditLog_Append cr e r a = AuditLog_write cr e r a"

fun run_log :: "crypto \<Rightarrow> (write_env \<times> audit_rec) list \<Rightarrow> audit_log \<Rightarrow> audit_log" where
  "run_log cr [] a = a"
| "run_log cr ((e, r) # es) a = run_log cr es (snd (AuditLog_write cr e r a))"

subsection \<open>Sizes\<close>

text \<open>The strings of a record that are not clipped.\<close>

definition ident_size :: "audit_rec \<Rightarrow> nat" where
  "ident_size r = length (ABackend r) + length (APeer r) + length (APeerKey r) + length (APeerAddr r) + length (ADecision r) +
     length (PeerSpiffeID r) + sum_list (map (\<lambda>s. Suc (length s)) (Provenance r))"

lemma clip_length: "length (clip_at n s) \<le> n + 14"
  by (simp add: clip_at_def truncated_def)

lemma prepare_size:
  "strings_size (link_record cr n prev (prepare_record t r)) \<le>
     length t + ident_size r + length prev + length (Hash (link_record cr n prev (prepare_record t r))) + 32866"
  using clip_length [of maxReasonBytes "AReason r"] clip_length [of maxFieldBytes "ATool r"] clip_length [of maxFieldBytes "AMethod r"]
    clip_length [of maxFieldBytes "ARPCID r"] clip_length [of maxFieldBytes "DelegatedCaller r"]
    clip_length [of maxFieldBytes "DelegationRouter r"] clip_length [of maxFieldBytes "DelegationNonce r"]
  unfolding maxReasonBytes_def maxFieldBytes_def
  by (simp add: strings_size_def ident_size_def link_record_def Let_def prepare_record_def clipField_def maxReasonBytes_def maxFieldBytes_def)

definition digest_sized :: "crypto \<Rightarrow> bool" where
  "digest_sized cr \<longleftrightarrow> (\<forall>b. length (sha256 cr b) = 32)"

lemma hash_sized: "digest_sized cr \<Longrightarrow> length (hash_hex cr b) = 64"
  by (simp add: digest_sized_def hash_hex_def)

text \<open>No record can make the log unreadable by its size. SHA-256 digests being 32 bytes, the line that is
  written for any record, however long the tool name, method, request id, reason and delegation
  fields the caller sent, stays below the 16 MiB a verifier reads, as long as the gateway's own
  strings (the peer's identity, the backend, the labels and the time) stay within one MiB.\<close>
theorem written_line_fits:
  assumes "digest_sized cr" "length t + ident_size r \<le> 1048576" "length prev \<le> 64" "int64 n" "int64 (ARule r)" "int64 (ACost r)"
  shows "length (audit_marshal (link_record cr n prev (prepare_record t r)) @ newline) < max_token"
proof -
  let ?q = "link_record cr n prev (prepare_record t r)"
  have "length (Hash ?q) = 64" using hash_sized [OF assms(1)] by (simp add: chainHash_def)
  then have "strings_size ?q \<le> 1048576 + 32994" using prepare_size [of cr n prev t r] assms(2,3) by simp
  moreover have "ARule ?q = ARule r" "ACost ?q = ACost r" "SchemaVersion ?q = 1" "Seq ?q = n"
    by (simp_all add: link_record_def Let_def prepare_record_def auditSchemaVersion_def)
  ultimately show ?thesis using audit_marshal_size [of ?q] assms(4-6) by (simp add: max_token_def)
qed

subsection \<open>The log's invariant\<close>

text \<open>The sink holds the lines of a chain whose head is the cursor.\<close>

definition holds_log :: "crypto \<Rightarrow> audit_rec list \<Rightarrow> audit_log \<Rightarrow> bool" where
  "holds_log cr rs a \<longleftrightarrow> al_w a = Some (log_text rs) \<and> list_all rec_ok rs \<and> lines_fit rs \<and> chain_ok cr 0 [] rs \<and>
     al_seq a = int (length rs) \<and> al_prev a = head_of [] rs"

text \<open>A record the log can take: its strings are valid once clipped, and the gateway's own strings are short.\<close>

definition admissible :: "string \<Rightarrow> audit_rec \<Rightarrow> bool" where
  "admissible t r \<longleftrightarrow> rec_ok (prepare_record t r) \<and> length t + ident_size r \<le> 1048576"

definition logged :: "crypto \<Rightarrow> string \<Rightarrow> audit_rec \<Rightarrow> audit_rec list \<Rightarrow> audit_rec" where
  "logged cr t r rs = link_record cr (int (length rs) + 1) (head_of [] rs) (prepare_record t r)"

lemma head_valid: "list_all rec_ok rs \<Longrightarrow> valid_utf8 (head_of [] rs)"
  by (cases rs rule: rev_cases) (auto simp: rec_ok_def valid_utf8_def)

lemma head_sized: "digest_sized cr \<Longrightarrow> chain_ok cr 0 [] rs \<Longrightarrow> length (head_of [] rs) \<le> 64"
  by (cases rs rule: rev_cases) (auto simp: chain_ok_append check_record_NotBroken chainHash_def hash_sized)

lemma prepare_record_simps [simp]: "SchemaVersion (prepare_record t r) = 1" "ARule (prepare_record t r) = ARule r"
  "ACost (prepare_record t r) = ACost r"
  by (simp_all add: prepare_record_def auditSchemaVersion_def)

lemma logged_extends:
  assumes "digest_sized cr" "admissible t r" "list_all rec_ok rs" "lines_fit rs" "chain_ok cr 0 [] rs" "int (length rs) + 1 < 2 ^ 63"
  shows "list_all rec_ok (rs @ [logged cr t r rs]) \<and> lines_fit (rs @ [logged cr t r rs]) \<and> chain_ok cr 0 [] (rs @ [logged cr t r rs])"
proof -
  have ok: "rec_ok (prepare_record t r)" "length t + ident_size r \<le> 1048576" using assms(2) by (auto simp: admissible_def)
  have "int64 (ARule r)" "int64 (ACost r)" using ok(1) by (auto simp: rec_ok_def)
  then have "length (audit_marshal (logged cr t r rs) @ newline) < max_token"
    using ok(2) assms(1,6) head_sized [OF assms(1,5)] unfolding logged_def by (intro written_line_fits) simp_all
  moreover have "rec_ok (logged cr t r rs)"
    using ok(1) head_valid [OF assms(3)] assms(6) unfolding logged_def by (intro link_record_ok) simp_all
  moreover have "chain_ok cr 0 [] (rs @ [logged cr t r rs])"
    using assms(5) link_record_simps(4) [of cr "1 + int (length rs)" "head_of [] rs" "prepare_record t r"]
    by (simp add: chain_ok_append logged_def auditSchemaVersion_def add.commute)
  ultimately show ?thesis using assms(3,4) by simp
qed

text \<open>Either nothing of a failed write reaches the sink, or the record is committed whole.\<close>

definition clean :: "write_fault \<Rightarrow> bool" where
  "clean f = (f = None \<or> f = Some 0)"

lemma write_holds:
  assumes "holds_log cr rs a" "digest_sized cr" "admissible (we_time e) r" "int (length rs) + 1 < 2 ^ 63" "clean (we_write e)"
  shows "holds_log cr (if we_write e = None then rs @ [logged cr (we_time e) r rs] else rs) (snd (AuditLog_write cr e r a))"
  using assms(1,5) logged_extends [OF assms(2,3) _ _ _ assms(4)]
  by (auto simp: holds_log_def AuditLog_write_def Let_def clean_def logged_def log_text_def)

lemma holds_verifies:
  assumes "holds_log cr rs a" "al_w a = Some d"
  shows "VerifyChain cr d = (intact (length rs) (al_prev a), False) \<and> LastLink d = Some (al_seq a, al_prev a) \<and> log_records d = rs"
proof -
  have d: "d = log_text rs" using assms by (simp add: holds_log_def)
  have f: "list_all rec_ok rs" "lines_fit rs" "chain_ok cr 0 [] rs" "al_seq a = int (length rs)" "al_prev a = head_of [] rs"
    using assms(1) by (auto simp: holds_log_def)
  show ?thesis unfolding d using VerifyChain_log [OF f(1-3)] LastLink_log [OF f(1,2)] log_records_text [OF f(1)] f(4,5) chain_ok_Seq [OF f(3)]
    by (auto simp: head_of_def)
qed

fun written :: "crypto \<Rightarrow> (write_env \<times> audit_rec) list \<Rightarrow> audit_rec list \<Rightarrow> audit_rec list" where
  "written cr [] rs = rs"
| "written cr ((e, r) # es) rs = written cr es (if we_write e = None then rs @ [logged cr (we_time e) r rs] else rs)"

lemma run_holds:
  assumes "digest_sized cr" "list_all (\<lambda>(e, r). clean (we_write e) \<and> admissible (we_time e) r) es"
  shows "holds_log cr rs a \<Longrightarrow> int (length rs + length es) < 2 ^ 63 \<Longrightarrow> holds_log cr (written cr es rs) (run_log cr es a)"
  using assms(2)
proof (induction es arbitrary: rs a)
  case (Cons x es)
  obtain e r where x: "x = (e, r)" by fastforce
  have "holds_log cr (if we_write e = None then rs @ [logged cr (we_time e) r rs] else rs) (snd (AuditLog_write cr e r a))"
    using Cons.prems assms(1) by (intro write_holds) (simp_all add: x)
  then show ?case using Cons.IH Cons.prems by (simp add: x)
qed simp

lemma written_extends: "\<exists>qs. written cr es rs = rs @ qs \<and> length qs = length (filter (\<lambda>(e, r). we_write e = None) es)"
proof (induction es arbitrary: rs)
  case (Cons x es)
  obtain e r where x: "x = (e, r)" by fastforce
  show ?case using Cons.IH [of rs] Cons.IH [of "rs @ [logged cr (we_time e) r rs]"] by (auto simp: x)
qed simp


subsection \<open>What makes a log unverifiable\<close>

lemma verify_lines_prefix:
  "list_all rec_ok rs \<Longrightarrow> chain_ok cr (int n) prev rs \<Longrightarrow>
     verify_lines cr err (map audit_marshal rs @ ls) n prev = verify_lines cr err ls (n + length rs) (head_of prev rs)"
proof (induction rs arbitrary: n prev)
  case (Cons r rs)
  then show ?case using Cons.IH [of "Suc n" "Hash r"] by (auto simp: audit_roundtrip)
qed simp

lemma VerifyChain_prefix:
  assumes "list_all rec_ok rs" "lines_fit rs" "chain_ok cr 0 [] rs" "fits s"
  shows "VerifyChain cr (log_text rs @ s) = verify_lines cr False (raw_lines s) (length rs) (head_of [] rs)"
proof -
  have "fits (log_text rs @ s)" using assms(2,4) by (auto simp: log_text_lines list_all_iff)
  then have "VerifyChain cr (log_text rs @ s) = verify_lines cr False (map audit_marshal rs @ raw_lines s) 0 []"
    by (simp add: VerifyChain_def scan_fits log_text_lines)
  then show ?thesis using verify_lines_prefix [OF assms(1), of cr 0 "[]"] assms(3) by simp
qed

text \<open>A record as it is read back: invalid bytes have become the replacement character.\<close>

definition sanitize_rec :: "audit_rec \<Rightarrow> audit_rec" where
  "sanitize_rec r = \<lparr>Time = sanitize (Time r), ABackend = sanitize (ABackend r), APeer = sanitize (APeer r), APeerKey = sanitize (APeerKey r),
     APeerAddr = sanitize (APeerAddr r), AMethod = sanitize (AMethod r), ATool = sanitize (ATool r), ARPCID = sanitize (ARPCID r),
     ADecision = sanitize (ADecision r), AReason = sanitize (AReason r), ARule = ARule r, ACost = ACost r,
     Provenance = map sanitize (Provenance r), Seq = Seq r, PrevHash = sanitize (PrevHash r), Hash = sanitize (Hash r),
     PeerSpiffeID = sanitize (PeerSpiffeID r), SchemaVersion = SchemaVersion r, DelegatedCaller = sanitize (DelegatedCaller r),
     DelegationRouter = sanitize (DelegationRouter r), DelegationNonce = sanitize (DelegationNonce r)\<rparr>"

lemma sanitize_Nil [simp]: "sanitize s = [] \<longleftrightarrow> s = []"
proof -
  have "sanitize (c # cs) \<noteq> []" for c cs
    by (simp add: sanitize_def runes.simps(2) Let_def rune_out_def replacement_def)
  then show ?thesis by (cases s) (auto simp: sanitize_def)
qed

lemma sanitize_fields:
  "valid_utf8 k \<Longrightarrow> map (\<lambda>(k, v). (sanitize k, sanitize_json v)) (str_field k s) = str_field k (sanitize s)"
  "valid_utf8 k \<Longrightarrow> map (\<lambda>(k, v). (sanitize k, sanitize_json v)) (opt_str k s) = opt_str k (sanitize s)"
  "valid_utf8 k \<Longrightarrow> map (\<lambda>(k, v). (sanitize k, sanitize_json v)) (opt_strs k ss) = opt_strs k (map sanitize ss)"
  "valid_utf8 k \<Longrightarrow> map (\<lambda>(k, v). (sanitize k, sanitize_json v)) (int_field k i) = int_field k i"
  "valid_utf8 k \<Longrightarrow> map (\<lambda>(k, v). (sanitize k, sanitize_json v)) (opt_int k i) = opt_int k i"
  by (simp_all add: field_defs)

lemma sanitize_members: "map (\<lambda>(k, v). (sanitize k, sanitize_json v)) (audit_members r) = audit_members (sanitize_rec r)"
  unfolding audit_members_def map_append by (simp add: sanitize_fields valid_ascii sanitize_rec_def)

lemma audit_read_back:
  assumes "int64 (ARule r)" "int64 (ACost r)" "int64 (Seq r)" "int64 (SchemaVersion r)"
  shows "audit_unmarshal (audit_marshal r) = Some (sanitize_rec r)"
  unfolding audit_roundtrip_sanitize sanitize_members using assms by (intro audit_decode_members) (simp_all add: sanitize_rec_def)

definition strings_valid :: "audit_rec \<Rightarrow> bool" where
  "strings_valid r \<longleftrightarrow> members_valid (audit_members r)"

lemma sanitized_shorter: "\<not> strings_valid r \<Longrightarrow> length (audit_marshal (sanitize_rec r)) < length (audit_marshal r)"
  using json_print_length(2) [of "JObj (audit_members r)"]
  by (simp add: strings_valid_def audit_marshal_def sanitize_members)

lemma chainHash_read_back: "chainHash cr (sanitize_rec r) = hash_hex cr (audit_marshal (sanitize_rec (r\<lparr>Hash := []\<rparr>)))"
  using sanitize_Nil [of "[]"] by (simp add: chainHash_def sanitize_rec_def del: sanitize_Nil)

lemma strings_valid_link:
  "valid_utf8 prev \<Longrightarrow> strings_valid ((link_record cr n prev r)\<lparr>Hash := []\<rparr>) \<longleftrightarrow> strings_valid (r\<lparr>PrevHash := [], Hash := []\<rparr>)"
  by (simp add: strings_valid_def audit_members_def link_record_def Let_def valid_ascii)

text \<open>A record with a string that is not valid UTF-8 breaks the log it is written to. The JSON encoder writes
  the invalid byte as the escape of U+FFFD, and the hash is taken over that text; a verifier decodes
  the line and encodes it again, now with the character itself, and gets another text. So, the digests
  of the two texts being different, the write succeeds, the cursor advances, and from then on
  \<^verbatim>\<open>VerifyChain\<close> reports the record as edited. A request id that is passed through raw, or a
  field that clipping cuts inside a character, is enough.\<close>
theorem invalid_utf8_breaks_log:
  assumes "holds_log cr rs a" "digest_sized cr" "int (length rs) + 1 < 2 ^ 63" "we_write e = None" "al_sync a = False"
    and "int64 (ARule r)" "int64 (ACost r)" "length (we_time e) + ident_size r \<le> 1048576"
    and "\<not> strings_valid ((prepare_record (we_time e) r)\<lparr>PrevHash := [], Hash := []\<rparr>)"
    and "inj_on (sha256 cr) {audit_marshal ((logged cr (we_time e) r rs)\<lparr>Hash := []\<rparr>),
           audit_marshal (sanitize_rec ((logged cr (we_time e) r rs)\<lparr>Hash := []\<rparr>))}"
  shows "\<exists>a' d. AuditLog_write cr e r a = (None, a') \<and> al_seq a' = int (length rs) + 1 \<and> al_w a' = Some d \<and>
    VerifyChain cr d = (broken (Suc (length rs)) (int (length rs) + 1) Edited, False)"
proof -
  let ?q = "logged cr (we_time e) r rs"
  have h: "list_all rec_ok rs" "lines_fit rs" "chain_ok cr 0 [] rs" "al_w a = Some (log_text rs)" "al_seq a = int (length rs)" "al_prev a = head_of [] rs"
    using assms(1) by (auto simp: holds_log_def)
  have hv: "valid_utf8 (head_of [] rs)" using head_valid [OF h(1)] .
  have q: "Seq ?q = int (length rs) + 1" "PrevHash ?q = head_of [] rs" "SchemaVersion ?q = 1" "ARule ?q = ARule r" "ACost ?q = ACost r"
      "Hash ?q = chainHash cr ?q"
    by (simp_all add: logged_def) (simp_all add: link_record_def Let_def)
  have fit: "fits (audit_marshal ?q @ newline)"
  proof -
    have "length (audit_marshal ?q @ newline) < max_token"
      using assms head_sized [OF assms(2) h(3)] unfolding logged_def by (intro written_line_fits) simp_all
    then show ?thesis by (simp add: raw_lines_line)
  qed
  have rb: "audit_unmarshal (audit_marshal ?q) = Some (sanitize_rec ?q)" using assms(3,6,7) q by (intro audit_read_back) simp_all
  have "\<not> strings_valid (?q\<lparr>Hash := []\<rparr>)" using assms(9) strings_valid_link [OF hv] by (simp add: logged_def)
  from sanitized_shorter [OF this]
  have "audit_marshal (?q\<lparr>Hash := []\<rparr>) \<noteq> audit_marshal (sanitize_rec (?q\<lparr>Hash := []\<rparr>))" by auto
  then have "sha256 cr (audit_marshal (?q\<lparr>Hash := []\<rparr>)) \<noteq> sha256 cr (audit_marshal (sanitize_rec (?q\<lparr>Hash := []\<rparr>)))"
    using inj_onD [OF assms(10)] by blast
  moreover have "Hash (sanitize_rec ?q) = chainHash cr ?q" using q(6) by (simp add: sanitize_rec_def chainHash_def hash_hex_def)
  ultimately have "Hash (sanitize_rec ?q) \<noteq> chainHash cr (sanitize_rec ?q)"
    unfolding chainHash_read_back by (simp add: chainHash_def hash_hex_inj)
  then have "check_record cr (int (length rs) + 1) (head_of [] rs) (sanitize_rec ?q) = Edited"
    using q(1,2) hv by (simp add: check_record_def sanitize_rec_def)
  then have "verify_lines cr False (raw_lines (audit_marshal ?q @ newline)) (length rs) (head_of [] rs) =
      (broken (Suc (length rs)) (int (length rs) + 1) Edited, False)"
    using rb q by (simp add: raw_lines_line Let_def auditSchemaVersion_def sanitize_rec_def add.commute)
  then have v: "VerifyChain cr (log_text rs @ audit_marshal ?q @ newline) = (broken (Suc (length rs)) (int (length rs) + 1) Edited, False)"
    using VerifyChain_prefix [OF h(1-3) fit] by simp
  have "fst (AuditLog_write cr e r a) = None" "al_seq (snd (AuditLog_write cr e r a)) = int (length rs) + 1"
    "al_w (snd (AuditLog_write cr e r a)) = Some (log_text rs @ audit_marshal ?q @ newline)"
    using assms(4,5) h(4-6) by (simp_all add: AuditLog_write_def Let_def logged_def)
  then show ?thesis using v by (cases "AuditLog_write cr e r a") auto
qed

lemma log_text_Cons: "log_text (r # rs) = audit_marshal r @ newline @ log_text rs"
  by (simp add: log_text_def)

lemma repair_loop_prefix:
  "list_all rec_ok rs \<Longrightarrow> chain_ok cr (seed + int n) prev rs \<Longrightarrow>
     repair_loop cr seed (log_text rs @ s) off off n prev =
       repair_loop cr seed s (off + length (log_text rs)) (off + length (log_text rs)) (n + length rs) (head_of prev rs)"
proof (induction rs arbitrary: n prev off)
  case (Cons r rs)
  let ?s = "audit_marshal r @ newline @ log_text rs @ s"
  have n: "next_line ?s = (audit_marshal r, log_text rs @ s)" by (simp add: next_line_def cut_at_append)
  have c: "SchemaVersion r \<le> auditSchemaVersion" "check_record cr (seed + int n + 1) prev r = NotBroken" "chain_ok cr (seed + int (Suc n)) (Hash r) rs"
    using Cons.prems(2) by (simp_all add: add.commute add.left_commute)
  then have "advances cr seed n prev (audit_marshal r) (Suc n) (Hash r)"
    using Cons.prems(1) by (simp add: advances_def audit_roundtrip)
  then have "repair_loop cr seed ?s off off n prev =
      repair_loop cr seed (log_text rs @ s) (off + Suc (length (audit_marshal r))) (off + Suc (length (audit_marshal r))) (Suc n) (Hash r)"
    by (subst repair_advance [OF _ n]) simp_all
  then show ?case using Cons.IH [OF _ c(3)] Cons.prems(1) by (simp add: log_text_Cons add.assoc)
qed simp

lemma trim_space_all: "trim_space s = [] \<Longrightarrow> list_all is_space s"
  unfolding trim_space_def by (auto simp: list_all_iff dropWhile_eq_Nil_conv dest: set_dropWhileD) (metis Un_iff set_append takeWhile_dropWhile_id set_takeWhileD)

text \<open>A torn write takes the next record with it. If a write fails after some bytes of its record have
  reached the file, the writer reports the failure and keeps its cursor, but leaves the bytes; the
  next record, whose write succeeds and whose cursor advances, is glued to them. When the glued
  line does not parse, the repair at the next start cuts the file before it: the record that was
  reported as committed is dropped.\<close>
theorem torn_write_loses_record:
  assumes "holds_log cr rs a" "al_sync a = False" "we_write e1 = Some k" "we_write e2 = None"
    and "k \<le> length (audit_marshal (logged cr (we_time e1) r1 rs))"
    and "audit_unmarshal (trim_space (take k (audit_marshal (logged cr (we_time e1) r1 rs)) @ audit_marshal (logged cr (we_time e2) r2 rs))) = None"
  shows "\<exists>a1 a2 d res. AuditLog_write cr e1 r1 a = (Some WriteFailed, a1) \<and> AuditLog_write cr e2 r2 a1 = (None, a2) \<and>
    al_seq a2 = int (length rs) + 1 \<and> al_w a2 = Some d \<and> VerifyForRepair cr d = (res, length (log_text rs), True) \<and> VCount res = length rs"
proof -
  have h: "list_all rec_ok rs" "chain_ok cr 0 [] rs" "al_w a = Some (log_text rs)" "al_seq a = int (length rs)" "al_prev a = head_of [] rs"
    using assms(1) by (auto simp: holds_log_def)
  let ?q1 = "logged cr (we_time e1) r1 rs" and ?q2 = "logged cr (we_time e2) r2 rs"
  let ?l = "take k (audit_marshal ?q1) @ audit_marshal ?q2"
  let ?a1 = "a\<lparr>al_w := Some (log_text rs @ take k (audit_marshal ?q1))\<rparr>"
  have w1: "AuditLog_write cr e1 r1 a = (Some WriteFailed, ?a1)"
    using h(3-5) assms(3,5) by (simp add: AuditLog_write_def Let_def logged_def)
  have w2: "fst (AuditLog_write cr e2 r2 ?a1) = None" "al_seq (snd (AuditLog_write cr e2 r2 ?a1)) = int (length rs) + 1"
    "al_w (snd (AuditLog_write cr e2 r2 ?a1)) = Some (log_text rs @ ?l @ newline)"
    using h(3-5) assms(2,4) by (simp_all add: AuditLog_write_def Let_def logged_def)
  have one: "one_line ?l" by (auto dest: in_set_takeD)
  have ne: "trim_space ?l \<noteq> []"
  proof
    assume "trim_space ?l = []"
    then have "is_space (hd (audit_marshal ?q2))" using trim_space_all [of ?l] by (cases "audit_marshal ?q2") auto
    then show False by (simp add: audit_marshal_def trim_print_obj is_space_def)
  qed
  have nl: "next_line (?l @ newline) = (?l, [])" using cut_at_append [OF one, of "[]"] by (simp add: next_line_def)
  obtain res where res: "repair_loop cr 0 (?l @ newline) (length (log_text rs)) (length (log_text rs)) (length rs) (head_of [] rs) =
      (res, length (log_text rs), True)" "VCount res = length rs"
    using ne assms(6) repair_loop_line [OF _ nl refl, of cr 0 "length (log_text rs)" "length rs" "head_of [] rs"]
    by (simp add: Let_def trim_space_Nil)
  have "VerifyForRepair cr (log_text rs @ ?l @ newline) = (res, length (log_text rs), True)"
    unfolding VerifyForRepair_def VerifyForRepairFrom_def using repair_loop_prefix [OF h(1), of cr 0 0 "[]" "?l @ newline" 0] h(2) res(1) by simp
  then show ?thesis using w1 w2 res(2) by (cases "AuditLog_write cr e2 r2 ?a1") auto
qed

subsection \<open>Checkpoints over a growing log\<close>

lemma uncovered_extend: "uncovered cr p n cps rs = Some rest \<Longrightarrow> uncovered cr p n cps (rs @ [r]) = Some (rest @ [r])"
proof (induction cps arbitrary: p n rs)
  case (Cons c cs)
  let ?b = "next_block n c rs"
  have com: "commits_to cr p n c ?b" and un: "uncovered cr (cp_Hash cr c) (ToSeq c) cs (drop (length ?b) rs) = Some rest"
    using Cons.prems by (simp_all add: uncovered_Cons split: if_splits)
  have "nat (ToSeq c - n) = length ?b" "length ?b \<le> length rs" using block_length [OF com] by (auto simp: next_block_def)
  then have b: "next_block n c (rs @ [r]) = ?b" "drop (length ?b) (rs @ [r]) = drop (length ?b) rs @ [r]"
    by (simp_all add: next_block_def)
  show ?case using com Cons.IH [OF un] by (simp add: uncovered_Cons b del: drop_append)
qed simp

definition cp_head :: "crypto \<Rightarrow> checkpoint list \<Rightarrow> string" where
  "cp_head cr cps = (if cps = [] then [] else cp_Hash cr (last cps))"

lemma uncovered_append:
  "uncovered cr p n (cps @ [c]) rs =
     (case uncovered cr p n cps rs of None \<Rightarrow> None
      | Some rest \<Rightarrow> uncovered cr (if cps = [] then p else cp_Hash cr (last cps)) (if cps = [] then n else ToSeq (last cps)) [c] rest)"
  by (induction cps arbitrary: p n rs) (auto simp: uncovered_Cons split: option.splits)

lemma uncovered_count: "uncovered cr p n cps rs = Some rest \<Longrightarrow> length cps + length rest \<le> length rs"
proof (induction cps arbitrary: p n rs)
  case (Cons c cs)
  let ?b = "next_block n c rs"
  have com: "commits_to cr p n c ?b" and un: "uncovered cr (cp_Hash cr c) (ToSeq c) cs (drop (length ?b) rs) = Some rest"
    using Cons.prems by (simp_all add: uncovered_Cons split: if_splits)
  have "0 < length ?b" "length ?b \<le> length rs" using block_length [OF com] by (auto simp: next_block_def)
  then show ?case using Cons.IH [OF un] unfolding length_drop list.size by linarith
qed simp

lemma chain_ok_split:
  "chain_ok cr n prev (rs @ qs) \<longleftrightarrow> chain_ok cr n prev rs \<and> chain_ok cr (n + int (length rs)) (head_of prev rs) qs"
  by (induction rs arbitrary: n prev) (auto simp: algebra_simps)

lemma chain_seqs: "chain_ok cr n prev rs \<Longrightarrow> map Seq rs = [n + 1..n + int (length rs)]"
proof (induction rs arbitrary: n prev)
  case (Cons r rs)
  then have "map Seq rs = [1 + n + 1..1 + n + int (length rs)]" "Seq r = n + 1" by (auto simp: check_record_NotBroken)
  moreover have "[n + 1..n + int (length (r # rs))] = (n + 1) # [1 + n + 1..1 + n + int (length rs)]"
    by (subst upto.simps) (simp add: algebra_simps)
  ultimately show ?case by simp
qed simp

lemma chain_hex: "chain_ok cr n prev rs \<Longrightarrow> r \<in> set rs \<Longrightarrow> hex_decode (Hash r) = Some (raw_hash (Hash r))"
  by (induction rs arbitrary: n prev) (auto simp: check_record_NotBroken chainHash_def hash_hex_def raw_hash_def)

subsection \<open>Sizes of checkpoints\<close>

lemma cp_marshal_size:
  assumes "cp_ok c"
  shows "length (cp_marshal c) \<le> 6 * (length (CRoot c) + length (ChainHead c) + length (PrevCP c) + length (CTime c) +
    length (CPubKey c) + length (CSig c)) + 1000"
proof -
  have i: "int64 (CVersion c)" "int64 (CSeq c)" "int64 (FromSeq c)" "int64 (ToSeq c)" "int64 (CCount c)" using assms by (auto simp: cp_ok_def)
  note sz = field_size(1) [OF i(1), of "''version''"] field_size(1) [OF i(2), of "''checkpoint_seq''"]
    field_size(1) [OF i(3), of "''from_seq''"] field_size(1) [OF i(4), of "''to_seq''"] field_size(1) [OF i(5), of "''count''"]
    field_size(3) [of "''merkle_root''" "CRoot c"] field_size(3) [of "''chain_head''" "ChainHead c"]
    field_size(3) [of "''prev_checkpoint''" "PrevCP c"] field_size(3) [of "''time''" "CTime c"]
    field_size(3) [of "''pubkey''" "CPubKey c"] field_size(3) [of "''signature''" "CSig c"]
  show ?thesis using print_members_size [of "cp_members c"] sz unfolding cp_marshal_def cp_members_def members_size_append by simp
qed

text \<open>An Ed25519 key whose signatures have their documented 64 bytes.\<close>

definition sig_sized :: "crypto \<Rightarrow> signer \<Rightarrow> bool" where
  "sig_sized cr s \<longleftrightarrow> (\<forall>m. length (ed_sign cr (priv s) m) = 64)"

lemma merkle_up_sized: "xs \<noteq> [] \<Longrightarrow> \<forall>x\<in>set xs. length x = 32 \<Longrightarrow> digest_sized cr \<Longrightarrow> length (merkle_up cr xs) = 32"
proof (induction cr xs rule: merkle_up.induct)
  case (1 cr level)
  have lv: "\<forall>x\<in>set (next_level cr ys). length x = 32" if "\<forall>x\<in>set ys. length x = 32" for ys
    using that "1.prems"(3) by (induction cr ys rule: next_level.induct) (auto simp: nodeHash_def digest_sized_def)
  have ne: "next_level cr ys \<noteq> []" if "ys \<noteq> []" for ys
    using that next_level_length [of cr ys] by (cases ys) auto
  show ?case
  proof (cases "1 < length level")
    case True
    then show ?thesis using "1.IH" [OF True ne [OF "1.prems"(1)] lv [OF "1.prems"(2)] "1.prems"(3)] by (subst merkle_up.simps) simp
  next
    case False
    then show ?thesis using "1.prems"(1,2) by (subst merkle_up.simps) (cases level; auto)
  qed
qed

lemma MerkleRoot_sized: "digest_sized cr \<Longrightarrow> length (MerkleRoot cr xs) = 32"
proof -
  assume d: "digest_sized cr"
  show ?thesis
  proof (cases "xs = []")
    case True
    then show ?thesis using d by (simp add: MerkleRoot_def leafHash_def digest_sized_def)
  next
    case False
    then have "length (merkle_up cr (map (leafHash cr) xs)) = 32" using d by (intro merkle_up_sized) (auto simp: leafHash_def digest_sized_def)
    then show ?thesis using False by (simp add: MerkleRoot_def)
  qed
qed

subsection \<open>The checkpointer keeps up with the log\<close>

text \<open>The checkpoint file holds signed checkpoints that cover all but the buffered records.\<close>

definition sealing :: "crypto \<Rightarrow> audit_rec list \<Rightarrow> checkpoint list \<Rightarrow> audit_rec list \<Rightarrow> checkpointer \<Rightarrow> bool" where
  "sealing cr rs cps rest c \<longleftrightarrow> ck_w c = file_of (map cp_marshal cps) \<and> list_all cp_ok cps \<and>
     list_all (\<lambda>k. length (cp_marshal k) < max_token) cps \<and>
     list_all (\<lambda>k. VerifyCheckpoint cr k (PubKeyHex (ck_signer c)) = None) cps \<and> uncovered cr [] 0 cps rs = Some rest \<and>
     ck_leaves c = map (raw_hash \<circ> Hash) rest \<and>
     ck_fromSeq c = (if rest = [] then 0 else int (length rs) - int (length rest) + 1) \<and>
     ck_prevCP c = cp_head cr cps \<and> ck_cpSeq c = int (length cps)"

definition flush_ok :: "flush_env \<Rightarrow> bool" where
  "flush_ok fe \<longleftrightarrow> clean (fl_write fe) \<and> valid_utf8 (fl_time fe) \<and> length (fl_time fe) \<le> 1048576"

lemma flush_fields:
  "fl_write fe = None \<Longrightarrow> ck_w (flushLocked cr fe n h c) = ck_w c @ cp_marshal (next_checkpoint cr c n h (fl_time fe)) @ newline"
  "fl_write fe = None \<Longrightarrow> ck_leaves (flushLocked cr fe n h c) = []" "fl_write fe = None \<Longrightarrow> ck_fromSeq (flushLocked cr fe n h c) = 0"
  "fl_write fe = None \<Longrightarrow> ck_prevCP (flushLocked cr fe n h c) = cp_Hash cr (next_checkpoint cr c n h (fl_time fe))"
  "fl_write fe = None \<Longrightarrow> ck_cpSeq (flushLocked cr fe n h c) = ck_cpSeq c + 1" "ck_signer (flushLocked cr fe n h c) = ck_signer c"
  by (simp_all add: flushLocked_def Let_def split: option.splits prod.splits bool.splits)

lemma flush_failed: "fl_write fe = Some 0 \<Longrightarrow> sealing cr rs cps rest (flushLocked cr fe n h c) = sealing cr rs cps rest c"
  by (simp add: flushLocked_def Let_def sealing_def)

text \<open>The next checkpoint commits to the buffered records.\<close>

lemma next_checkpoint_commits:
  assumes "sealing cr rs cps rest c" "chain_ok cr 0 [] rs" "rest \<noteq> []"
  shows "commits_to cr (cp_head cr cps) (int (length rs) - int (length rest)) (next_checkpoint cr c (int (length rs)) (head_of [] rs) t) rest"
proof -
  let ?n = "int (length rs) - int (length rest)"
  have un: "uncovered cr [] 0 cps rs = Some rest" using assms(1) by (simp add: sealing_def)
  have split: "length rest \<le> length rs" "rs = take (length rs - length rest) rs @ rest"
    using uncovered_length [OF un] by (metis append_take_drop_id)+
  have "chain_ok cr (int (length (take (length rs - length rest) rs))) (head_of [] (take (length rs - length rest) rs)) rest"
    using assms(2) chain_ok_split [of cr 0 "[]" "take (length rs - length rest) rs" rest] split(2) by simp
  then have "chain_ok cr ?n (head_of [] (take (length rs - length rest) rs)) rest" using split(1) by (simp add: of_nat_diff)
  from chain_seqs [OF this] have "map Seq rest = [?n + 1..int (length rs)]" by simp
  moreover have "head_of [] rs = Hash (last rest)" using split(2) assms(3) by (metis append_is_Nil_conv head_of_def last_appendR)
  moreover have "Suc 0 \<le> length rest" using assms(3) by (simp add: Suc_le_eq)
  ultimately show ?thesis using assms by (simp add: commits_to_def next_checkpoint_def sealing_def)
qed

text \<open>A checkpointer whose counters, link and head are in range makes checkpoints that fit and survive printing.\<close>

lemma next_checkpoint_ok:
  assumes "0 \<le> ck_fromSeq c \<and> ck_fromSeq c < 2 ^ 63" "0 \<le> ck_cpSeq c \<and> ck_cpSeq c + 1 < 2 ^ 63" "int (length (ck_leaves c)) < 2 ^ 63"
    and "valid_utf8 (ck_prevCP c)" "valid_utf8 h" "int64 n" "flush_ok fe"
  shows "cp_ok (next_checkpoint cr c n h (fl_time fe))"
proof -
  have "valid_utf8 (fl_time fe)" using assms(7) by (simp add: flush_ok_def)
  then show ?thesis unfolding next_checkpoint_def using assms(1-6) valid_ascii [of "[]"] by (intro cp_sign_ok) (simp add: cp_ok_def)
qed

lemma next_checkpoint_fits:
  assumes "cp_ok (next_checkpoint cr c n h (fl_time fe))" "digest_sized cr" "sig_sized cr (ck_signer c)" "signer_ok cr (ck_signer c)"
    and "length h \<le> 64" "length (ck_prevCP c) \<le> 64" "flush_ok fe"
  shows "length (cp_marshal (next_checkpoint cr c n h (fl_time fe))) < max_token"
proof -
  let ?cp = "next_checkpoint cr c n h (fl_time fe)"
  have "length (CRoot ?cp) = 64" using MerkleRoot_sized [OF assms(2)] by (simp add: next_checkpoint_def)
  moreover have "length (ChainHead ?cp) \<le> 64" "length (PrevCP ?cp) \<le> 64" using assms(5,6) by (simp_all add: next_checkpoint_def)
  moreover have "length (CTime ?cp) \<le> 1048576" using assms(7) by (simp add: next_checkpoint_def flush_ok_def)
  moreover have "length (CPubKey ?cp) = 64" using PubKeyHex_length [OF assms(4)] by (simp add: next_checkpoint_def)
  moreover have "length (CSig ?cp) = 128" using assms(3) by (simp add: next_checkpoint_def cp_sign_def Let_def sig_sized_def)
  ultimately show ?thesis using cp_marshal_size [OF assms(1)] by (simp add: max_token_def)
qed

lemma cp_head_ok: "valid_utf8 (cp_head cr cps)" "digest_sized cr \<Longrightarrow> length (cp_head cr cps) \<le> 64"
  using valid_ascii [of "[]"] by (simp_all add: cp_head_def) (simp add: cp_Hash_def hash_sized)

lemma next_checkpoint_sized:
  assumes "sealing cr rs cps rest c" "digest_sized cr" "sig_sized cr (ck_signer c)" "signer_ok cr (ck_signer c)" "list_all rec_ok rs"
    and "chain_ok cr 0 [] rs" "flush_ok fe" "int (length rs) + 1 < 2 ^ 63"
  shows "cp_ok (next_checkpoint cr c (int (length rs)) (head_of [] rs) (fl_time fe)) \<and>
    length (cp_marshal (next_checkpoint cr c (int (length rs)) (head_of [] rs) (fl_time fe))) < max_token"
proof -
  have s: "uncovered cr [] 0 cps rs = Some rest" "ck_cpSeq c = int (length cps)" "length (ck_leaves c) = length rest" "ck_prevCP c = cp_head cr cps"
    "ck_fromSeq c = (if rest = [] then 0 else int (length rs) - int (length rest) + 1)"
    using assms(1) by (simp_all add: sealing_def)
  have n: "length cps + length rest \<le> length rs" using uncovered_count [OF s(1)] .
  have "0 \<le> ck_fromSeq c \<and> ck_fromSeq c < 2 ^ 63" "0 \<le> ck_cpSeq c \<and> ck_cpSeq c + 1 < 2 ^ 63" "int (length (ck_leaves c)) < 2 ^ 63"
    unfolding s(2,3,5) using n assms(8) by (cases "rest = []"; linarith?; simp)+
  then have "cp_ok (next_checkpoint cr c (int (length rs)) (head_of [] rs) (fl_time fe))"
    using assms(8) cp_head_ok(1) [of cr cps] head_valid [OF assms(5)] s(4) by (intro next_checkpoint_ok assms(7)) simp_all
  then show ?thesis using next_checkpoint_fits assms(2,3,4,7) head_sized [OF assms(2,6)] cp_head_ok(2) [OF assms(2)] s(4) by metis
qed

text \<open>The checkpoints on file after a flush.\<close>

definition flushed_cps :: "crypto \<Rightarrow> flush_env \<Rightarrow> int \<Rightarrow> string \<Rightarrow> checkpointer \<Rightarrow> checkpoint list \<Rightarrow> checkpoint list" where
  "flushed_cps cr fe n h c cps = (if fl_write fe = None then cps @ [next_checkpoint cr c n h (fl_time fe)] else cps)"

lemma flush_seals:
  assumes "sealing cr rs cps rest c" "rest \<noteq> []" "digest_sized cr" "sig_sized cr (ck_signer c)" "signer_ok cr (ck_signer c)"
    and "list_all rec_ok rs" "chain_ok cr 0 [] rs" "flush_ok fe" "int (length rs) + 1 < 2 ^ 63"
  shows "sealing cr rs (flushed_cps cr fe (int (length rs)) (head_of [] rs) c cps) (if fl_write fe = None then [] else rest)
    (flushLocked cr fe (int (length rs)) (head_of [] rs) c)"
proof (cases "fl_write fe = None")
  case True
  let ?cp = "next_checkpoint cr c (int (length rs)) (head_of [] rs) (fl_time fe)"
  have un: "uncovered cr [] 0 cps rs = Some rest" using assms(1) by (simp add: sealing_def)
  have com: "commits_to cr (cp_head cr cps) (int (length rs) - int (length rest)) ?cp rest" using next_checkpoint_commits assms(1,2,7) by blast
  have "(if cps = [] then 0 else ToSeq (last cps)) = int (length rs) - int (length rest)"
    using un uncovered_head [OF un] by (cases "cps = []") auto
  moreover have "(if cps = [] then [] else cp_Hash cr (last cps)) = cp_head cr cps" by (simp add: cp_head_def)
  ultimately have "uncovered cr [] 0 (cps @ [?cp]) rs = uncovered cr (cp_head cr cps) (int (length rs) - int (length rest)) [?cp] rest"
    unfolding uncovered_append un by simp
  moreover have "next_block (int (length rs) - int (length rest)) ?cp rest = rest" by (simp add: next_block_def next_checkpoint_def)
  ultimately have "uncovered cr [] 0 (cps @ [?cp]) rs = Some []" using com by (simp add: uncovered_Cons)
  moreover have "VerifyCheckpoint cr ?cp (PubKeyHex (ck_signer c)) = None" using cp_sign_verifies [OF assms(5)] by (simp add: next_checkpoint_def)
  ultimately have "sealing cr rs (cps @ [?cp]) [] (flushLocked cr fe (int (length rs)) (head_of [] rs) c)"
    using assms(1) True next_checkpoint_sized [OF assms(1,3,4,5,6,7,8,9)] by (simp add: sealing_def flush_fields cp_head_def)
  then show ?thesis using True by (simp add: flushed_cps_def)
next
  case False
  then have "fl_write fe = Some 0" using assms(8) by (auto simp: flush_ok_def clean_def)
  then show ?thesis using assms(1) False by (simp add: flush_failed flushed_cps_def)
qed


subsection \<open>A flushed log is sealed\<close>

definition log_sealing :: "crypto \<Rightarrow> (checkpoint list \<Rightarrow> checkpointer \<Rightarrow> bool) \<Rightarrow> signer \<Rightarrow> audit_rec list \<Rightarrow> audit_log \<Rightarrow> bool" where
  "log_sealing cr J s rs a \<longleftrightarrow> holds_log cr rs a \<and> al_lastSeq a = int (length rs) \<and> al_lastHash a = head_of [] rs \<and>
     (\<exists>c cps rest. al_cp a = Some c \<and> ck_signer c = s \<and> sealing cr rs cps rest c \<and> J cps c)"

definition good_event :: "write_env \<times> audit_rec \<Rightarrow> bool" where
  "good_event x = (case x of (e, r) \<Rightarrow> clean (we_write e) \<and> admissible (we_time e) r \<and> flush_ok (we_flush e))"

definition crypto_sized :: "crypto \<Rightarrow> signer \<Rightarrow> bool" where
  "crypto_sized cr s \<longleftrightarrow> digest_sized cr \<and> sig_sized cr s \<and> signer_ok cr s"

lemma cp_add_signer [simp]: "ck_signer (cp_add cr fe n h c) = ck_signer c"
  by (auto simp: cp_add_def Let_def flush_fields split: option.splits)

lemma parse_cps_text: "list_all cp_ok cps \<Longrightarrow> parse_cps (map cp_marshal cps) = Some cps"
  by (induction cps) (simp_all add: cp_roundtrip)

lemma cp_text_lines: "raw_lines (file_of (map cp_marshal cps)) = map cp_marshal cps"
  by (simp add: raw_lines_file' list_all_iff)

lemma chain_linked: "chain_ok cr n prev rs \<Longrightarrow> linked cr n prev rs"
  by (induction rs arbitrary: n prev) (auto simp: check_record_NotBroken)

lemma sealed_files:
  assumes "holds_log cr rs a" "sealing cr rs cps rest c" "cps \<noteq> []" "PubKeyHex (ck_signer c) \<noteq> []"
  shows "signed_files cr (PubKeyHex (ck_signer c)) (log_text rs) (ck_w c) rs cps rest"
proof -
  have "\<forall>k\<in>set cps. CPubKey k = PubKeyHex (ck_signer c)"
    using assms(2,4) by (auto simp: sealing_def list_all_iff VerifyCheckpoint_None)
  then have "signed_by cr (PubKeyHex (ck_signer c)) cps" using assms(2,3) by (auto simp: signed_by_def sealing_def list_all_iff)
  then show ?thesis
    using assms chain_linked by (auto simp: signed_files_def holds_log_def sealing_def log_text_lines cp_text_lines parse_log parse_cps_text list_all_iff)
qed

lemma fresh_sealing:
  "J [] (NewCheckpointer s [] every anchor) \<Longrightarrow> log_sealing cr J s [] (WithCheckpointer (NewCheckpointer s [] every anchor) (NewAuditLog (Some []) b))"
  by (simp add: log_sealing_def holds_log_def WithCheckpointer_def NewAuditLog_def NewCheckpointer_def sealing_def cp_head_def)

text \<open>What else a checkpointer keeps of its checkpoint file: a predicate of the checkpoints on file and the state
  that does not look at the buffer and that every flush preserves.\<close>

locale flush_invariant =
  fixes cr :: crypto and J :: "checkpoint list \<Rightarrow> checkpointer \<Rightarrow> bool"
  assumes leaf: "J cps (c\<lparr>ck_fromSeq := x, ck_leaves := ys\<rparr>) = J cps c"
    and keeps: "J cps c \<Longrightarrow> flush_ok fe \<Longrightarrow> length h \<le> 64 \<Longrightarrow> J (flushed_cps cr fe n h c cps) (flushLocked cr fe n h c)"
begin

lemma add_seals:
  assumes "sealing cr rs cps rest c" "J cps c" "digest_sized cr" "sig_sized cr (ck_signer c)" "signer_ok cr (ck_signer c)"
    and "list_all rec_ok (rs @ [r])" "chain_ok cr 0 [] (rs @ [r])" "flush_ok fe" "int (length rs) + 2 < 2 ^ 63"
  shows "\<exists>cps' rest'. sealing cr (rs @ [r]) cps' rest' (cp_add cr fe (int (length rs) + 1) (Hash r) c) \<and>
    J cps' (cp_add cr fe (int (length rs) + 1) (Hash r) c)"
proof -
  let ?c1 = "c\<lparr>ck_fromSeq := if ck_fromSeq c = 0 then int (length rs) + 1 else ck_fromSeq c, ck_leaves := ck_leaves c @ [raw_hash (Hash r)]\<rparr>"
  have s: "uncovered cr [] 0 cps rs = Some rest" "ck_fromSeq c = (if rest = [] then 0 else int (length rs) - int (length rest) + 1)"
    using assms(1) by (simp_all add: sealing_def)
  have "length cps + length rest \<le> length rs" using uncovered_count [OF s(1)] .
  then have fs: "(if ck_fromSeq c = 0 then int (length rs) + 1 else ck_fromSeq c) = int (length rs) - int (length rest) + 1" using s(2) by auto
  have seal: "sealing cr (rs @ [r]) cps (rest @ [r]) ?c1"
    using assms(1) uncovered_extend [OF s(1)] fs by (auto simp: sealing_def)
  have add: "cp_add cr fe (int (length rs) + 1) (Hash r) c =
      (if ck_every c \<le> length (ck_leaves ?c1) then flushLocked cr fe (int (length rs) + 1) (Hash r) ?c1 else ?c1)"
    using chain_hex [OF assms(7), of r] by (cases "ck_fromSeq c = 0") (simp_all add: cp_add_def Let_def)
  have J1: "J cps ?c1" using leaf assms(2) by simp
  show ?thesis
  proof (cases "ck_every c \<le> length (ck_leaves ?c1)")
    case True
    have e: "int (length (rs @ [r])) = int (length rs) + 1" "head_of [] (rs @ [r]) = Hash r" by simp_all
    have "rest @ [r] \<noteq> []" "sig_sized cr (ck_signer ?c1)" "signer_ok cr (ck_signer ?c1)" "int (length (rs @ [r])) + 1 < 2 ^ 63"
      using assms(4,5,9) by simp_all
    from flush_seals [OF seal this(1) assms(3) this(2,3) assms(6,7,8) this(4)] show ?thesis
      
      using keeps [OF J1 assms(8), of "Hash r"] head_sized [OF assms(3,7)] unfolding add if_P [OF True] e by blast
  next
    case False
    show ?thesis unfolding add if_not_P [OF False] using seal J1 by blast
  qed
qed

lemma write_sealing:
  assumes "log_sealing cr J s rs a" "crypto_sized cr s" "good_event (e, r)" "int (length rs) + 2 < 2 ^ 63"
  shows "log_sealing cr J s (if we_write e = None then rs @ [logged cr (we_time e) r rs] else rs) (snd (AuditLog_write cr e r a))"
proof -
  let ?q = "logged cr (we_time e) r rs"
  have h: "holds_log cr rs a" "al_lastSeq a = int (length rs)" "al_lastHash a = head_of [] rs" using assms(1) by (simp_all add: log_sealing_def)
  obtain c cps rest where c: "al_cp a = Some c" "ck_signer c = s" "sealing cr rs cps rest c" "J cps c" using assms(1) by (auto simp: log_sealing_def)
  have g: "clean (we_write e)" "admissible (we_time e) r" "flush_ok (we_flush e)" using assms(3) by (simp_all add: good_event_def)
  have cs: "digest_sized cr" "sig_sized cr s" "signer_ok cr s" using assms(2) by (simp_all add: crypto_sized_def)
  have held: "holds_log cr (if we_write e = None then rs @ [?q] else rs) (snd (AuditLog_write cr e r a))"
    using write_holds [OF h(1) cs(1) g(2) _ g(1)] assms(4) by simp
  have aw: "al_w a = Some (log_text rs)" "al_seq a = int (length rs)" "al_prev a = head_of [] rs" using h(1) by (simp_all add: holds_log_def)
  show ?thesis
  proof (cases "we_write e")
    case None
    have ok: "list_all rec_ok (rs @ [?q])" "chain_ok cr 0 [] (rs @ [?q])" using held None by (simp_all add: holds_log_def)
    obtain cps' rest' where "sealing cr (rs @ [?q]) cps' rest' (cp_add cr (we_flush e) (int (length rs) + 1) (Hash ?q) c)"
        "J cps' (cp_add cr (we_flush e) (int (length rs) + 1) (Hash ?q) c)"
      using add_seals [OF c(3,4) cs(1) _ _ ok g(3) assms(4)] cs c(2) by auto
    then show ?thesis using held None aw c
      by (auto simp: log_sealing_def AuditLog_write_def Let_def logged_def add.commute)
  next
    case (Some k)
    then show ?thesis using held aw c h(2,3) by (auto simp: log_sealing_def AuditLog_write_def Let_def)
  qed
qed

lemma run_sealing:
  assumes "crypto_sized cr s" "list_all good_event es"
  shows "log_sealing cr J s rs a \<Longrightarrow> int (length rs + length es) + 2 < 2 ^ 63 \<Longrightarrow> log_sealing cr J s (written cr es rs) (run_log cr es a)"
  using assms(2)
proof (induction es arbitrary: rs a)
  case (Cons x es)
  obtain e r where x: "x = (e, r)" by fastforce
  have "log_sealing cr J s (if we_write e = None then rs @ [logged cr (we_time e) r rs] else rs) (snd (AuditLog_write cr e r a))"
    using Cons.prems assms(1) by (intro write_sealing) (simp_all add: x)
  then show ?case using Cons.IH Cons.prems by (simp add: x)
qed simp

lemma flush_sealed:
  assumes "log_sealing cr J s rs a" "crypto_sized cr s" "rs \<noteq> []" "flush_ok fe" "fl_write fe = None" "int (length rs) + 1 < 2 ^ 63"
  shows "\<exists>c cps. al_cp (log_Flush cr fe a) = Some c \<and> signed_files cr (PubKeyHex s) (log_text rs) (ck_w c) rs cps [] \<and> J cps c"
proof -
  have h: "holds_log cr rs a" "al_lastSeq a = int (length rs)" "al_lastHash a = head_of [] rs" using assms(1) by (simp_all add: log_sealing_def)
  obtain c cps rest where c: "al_cp a = Some c" "ck_signer c = s" "sealing cr rs cps rest c" "J cps c" using assms(1) by (auto simp: log_sealing_def)
  have cs: "digest_sized cr" "sig_sized cr (ck_signer c)" "signer_ok cr (ck_signer c)" using assms(2) c(2) by (simp_all add: crypto_sized_def)
  have ok: "list_all rec_ok rs" "chain_ok cr 0 [] rs" using h(1) by (simp_all add: holds_log_def)
  have pk: "PubKeyHex s \<noteq> []" using PubKeyHex_length [OF cs(3)] c(2) by auto
  have "\<exists>cps'. sealing cr rs cps' [] (cp_Flush cr fe (int (length rs)) (head_of [] rs) c) \<and>
      J cps' (cp_Flush cr fe (int (length rs)) (head_of [] rs) c)"
  proof (cases "rest = []")
    case True
    then have "ck_leaves c = []" using c(3) by (simp add: sealing_def)
    then show ?thesis using True c(3,4) by (auto simp: cp_Flush_def)
  next
    case False
    then have "ck_leaves c \<noteq> []" using c(3) by (simp add: sealing_def)
    then show ?thesis
      using flush_seals [OF c(3) False cs ok assms(4,6)] keeps [OF c(4) assms(4) head_sized [OF cs(1) ok(2)], of "int (length rs)"] assms(5)
      by (auto simp: cp_Flush_def)
  qed
  then obtain cps' where s': "sealing cr rs cps' [] (cp_Flush cr fe (int (length rs)) (head_of [] rs) c)"
      "J cps' (cp_Flush cr fe (int (length rs)) (head_of [] rs) c)" by blast
  then have "cps' \<noteq> []" using assms(3) by (auto simp: sealing_def)
  moreover have "ck_signer (cp_Flush cr fe (int (length rs)) (head_of [] rs) c) = s" using c(2) by (simp add: cp_Flush_def flush_fields)
  ultimately have "signed_files cr (PubKeyHex s) (log_text rs) (ck_w (cp_Flush cr fe (int (length rs)) (head_of [] rs) c)) rs cps' []"
    using sealed_files [OF h(1) s'(1)] pk by simp
  then show ?thesis using c(1) h(2,3) s'(2) by (auto simp: log_Flush_def)
qed

end

interpretation plain: flush_invariant cr "\<lambda>_ _. True" for cr
  by unfold_locales simp_all


subsection \<open>A concrete run\<close>

text \<open>A digest of 32 bytes that tells whether its input has an escape, signatures of 64 bytes.\<close>

definition toy_digest :: "bytes \<Rightarrow> bytes" where
  "toy_digest b = replicate 32 (if CHR 0x5C \<in> set b then CHR 0x01 else CHR 0x00)"

definition toy_sig :: "bytes \<Rightarrow> bytes \<Rightarrow> bytes" where
  "toy_sig k m = k @ toy_digest m"

definition sized_crypto :: crypto where
  "sized_crypto = \<lparr>sha256 = toy_digest, ed_pub = (\<lambda>k. k), ed_sign = toy_sig, ed_verify = (\<lambda>p m s. s = toy_sig p m)\<rparr>"

lemma sized_crypto_ok: "crypto_sized sized_crypto demo_signer" "digest_sized sized_crypto"
proof -
  show "digest_sized sized_crypto" by (simp add: digest_sized_def sized_crypto_def toy_digest_def)
  then show "crypto_sized sized_crypto demo_signer"
    by (simp add: crypto_sized_def sig_sized_def signer_ok_def key_sound_def sized_crypto_def toy_sig_def toy_digest_def demo_signer_def)
qed

definition demo_flush :: flush_env where
  "demo_flush = \<lparr>fl_write = None, fl_anchor = None, fl_time = []\<rparr>"

definition demo_env :: "write_fault \<Rightarrow> write_env" where
  "demo_env f = \<lparr>we_write = f, we_syncFails = False, we_time = [], we_flush = demo_flush\<rparr>"

lemma demo_env_simps [simp]: "we_write (demo_env f) = f" "we_time (demo_env f) = []" "we_flush (demo_env f) = demo_flush" "fl_write demo_flush = None"
  by (simp_all add: demo_env_def demo_flush_def)

lemma valid_Nil [simp]: "valid_utf8 []"
  using valid_ascii [of "[]"] by simp

lemma demo_admissible: "admissible [] zero_audit" "flush_ok demo_flush"
  by (simp_all add: admissible_def rec_ok_def prepare_record_def zero_audit_def clipField_def clip_at_def ident_size_def auditSchemaVersion_def
      flush_ok_def clean_def demo_flush_def)

definition demo_start :: audit_log where
  "demo_start = WithCheckpointer (NewCheckpointer demo_signer [] 1 None) (NewAuditLog (Some []) False)"

lemma demo_start_holds: "holds_log cr [] demo_start"
  by (simp add: holds_log_def demo_start_def WithCheckpointer_def NewAuditLog_def)

theorem written_line_fits_witness:
  "length (audit_marshal (link_record sized_crypto 1 [] (prepare_record [] (zero_audit\<lparr>ATool := replicate 20000000 (CHR ''x'')\<rparr>))) @ newline) < max_token"
  using written_line_fits [OF sized_crypto_ok(2), of "[]" "zero_audit\<lparr>ATool := replicate 20000000 (CHR ''x'')\<rparr>" "[]" 1]
  by (simp add: ident_size_def zero_audit_def)


lemma demo_run:
  "a = log_Flush sized_crypto demo_flush (run_log sized_crypto [(demo_env (Some 0), zero_audit), (demo_env None, zero_audit)] demo_start) \<Longrightarrow>
     list_all good_event [(demo_env (Some 0), zero_audit), (demo_env None, zero_audit)]"
  using demo_admissible by (simp add: good_event_def clean_def)


text \<open>A record whose request id is one invalid byte, as it is written.\<close>

definition bad_rec :: audit_rec where "bad_rec = zero_audit\<lparr>ARPCID := [CHR 0xFF]\<rparr>"

definition bad_logged :: audit_rec where
  "bad_logged = zero_audit\<lparr>ARPCID := [CHR 0xFF], SchemaVersion := 1, Seq := 1\<rparr>"

lemma bad_logged: "(logged cr [] bad_rec [])\<lparr>Hash := []\<rparr> = bad_logged" "(prepare_record [] bad_rec)\<lparr>PrevHash := [], Hash := []\<rparr> = bad_logged\<lparr>Seq := 0\<rparr>"
  by (simp_all add: logged_def link_record_def Let_def prepare_record_def bad_rec_def bad_logged_def zero_audit_def clipField_def clip_at_def
      auditSchemaVersion_def maxFieldBytes_def maxReasonBytes_def)

definition plain_char :: "char \<Rightarrow> bool" where
  "plain_char c \<longleftrightarrow> 32 \<le> code c \<and> code c < 128 \<and> c \<notin> {CHR 0x22, CHR 0x5C, CHR ''<'', CHR ''>'', CHR ''&''}"

lemma plain_escape: "list_all plain_char s \<Longrightarrow> json_escape s = s"
  by (induction s) (simp_all add: json_escape_def runes.simps(2) rune_size_char Let_def esc_rune_def esc_char_def plain_char_def)

lemma bad_byte: "runes [CHR 0xFF] = [None]" "u_escape 0xFFFD = [CHR 0x5C, CHR ''u'', CHR ''f'', CHR ''f'', CHR ''f'', CHR ''d'']"
  "runes replacement = [Some replacement]"
  by (simp_all add: runes.simps(2) rune_size.simps(2) Let_def u_escape_def hex_digit_def replacement_def between_def cont_def)

lemma bad_escapes:
  "json_escape ''time'' = ''time''" "json_escape ''backend'' = ''backend''" "json_escape ''peer'' = ''peer''" "json_escape ''method'' = ''method''"
  "json_escape ''rpc_id'' = ''rpc_id''" "json_escape ''decision'' = ''decision''" "json_escape ''rule'' = ''rule''" "json_escape ''seq'' = ''seq''"
  "json_escape ''prev_hash'' = ''prev_hash''" "json_escape ''schema_version'' = ''schema_version''" "json_escape [] = []"
  by (simp_all add: plain_escape plain_char_def)

lemma bad_strings:
  "json_escape [CHR 0xFF] = [CHR 0x5C, CHR ''u'', CHR ''f'', CHR ''f'', CHR ''f'', CHR ''d'']" "json_escape replacement = replacement"
  "int_text 0 = ''0''" "int_text 1 = ''1''" "sanitize [] = []" "sanitize [CHR 0xFF] = replacement" "\<not> valid_utf8 [CHR 0xFF]"
proof -
  show "json_escape [CHR 0xFF] = [CHR 0x5C, CHR ''u'', CHR ''f'', CHR ''f'', CHR ''f'', CHR ''d'']" "sanitize [CHR 0xFF] = replacement" "\<not> valid_utf8 [CHR 0xFF]"
    using bad_byte(1,2) by (simp_all add: json_escape_def esc_rune_def sanitize_def rune_out_def valid_utf8_def)
  show "json_escape replacement = replacement" using bad_byte(3) by (simp add: json_escape_def esc_rune_def replacement_def)
  show "sanitize [] = []" by simp
qed (simp_all add: int_text_def nat_dec.simps flip: of_char_eq_iff [where ?'a = nat])

lemma bad_logged_texts: "CHR 0x5C \<in> set (audit_marshal bad_logged)" "CHR 0x5C \<notin> set (audit_marshal (sanitize_rec bad_logged))"
  "\<not> strings_valid (bad_logged\<lparr>Seq := 0\<rparr>)"
proof -
  show "CHR 0x5C \<in> set (audit_marshal bad_logged)"
    by (simp add: audit_marshal_def json_print_def audit_members_def field_defs bad_logged_def zero_audit_def tok_text_def bad_escapes bad_strings)
  show "CHR 0x5C \<notin> set (audit_marshal (sanitize_rec bad_logged))"
    by (simp add: audit_marshal_def json_print_def audit_members_def field_defs bad_logged_def zero_audit_def tok_text_def bad_escapes bad_strings sanitize_rec_def)
      (simp add: replacement_def)
  show "\<not> strings_valid (bad_logged\<lparr>Seq := 0\<rparr>)"
    by (simp add: strings_valid_def audit_members_def bad_logged_def zero_audit_def bad_strings)
qed

theorem invalid_utf8_breaks_log_witness:
  "\<exists>a' d. AuditLog_write sized_crypto (demo_env None) bad_rec demo_start = (None, a') \<and> al_seq a' = 1 \<and> al_w a' = Some d \<and>
     VerifyChain sized_crypto d = (broken 1 1 Edited, False)"
proof -
  have "inj_on (sha256 sized_crypto) {audit_marshal bad_logged, audit_marshal (sanitize_rec bad_logged)}"
    using bad_logged_texts by (auto simp: inj_on_def sized_crypto_def toy_digest_def)
  then show ?thesis
    using invalid_utf8_breaks_log [OF demo_start_holds sized_crypto_ok(2), of "demo_env None" bad_rec] bad_logged_texts(3)
    by (simp add: bad_logged demo_start_def WithCheckpointer_def NewAuditLog_def) (simp add: bad_rec_def zero_audit_def ident_size_def)
qed

lemma glued_brace: "audit_unmarshal (trim_space (CHR ''{'' # audit_marshal r)) = None"
proof -
  let ?ts = "TLBrace # json_toks (JObj (audit_members r))"
  have ts: "CHR ''{'' # audit_marshal r = concat (map tok_text ?ts)" by (simp add: audit_marshal_def json_print_def tok_text_def)
  have "lex (CHR ''{'' # audit_marshal r) = Some (map clean_tok ?ts)"
    unfolding ts using toks_ok [OF audit_json_shape(1) [of r]] spaced_toks [of "JObj (audit_members r)"]
    by (intro lex_text) (simp_all add: tok_ok_def)
  then have "json_parse (CHR ''{'' # audit_marshal r) = None"
    by (simp add: json_parse_def clean_tok_def step_tok_def begin_value_def)
  moreover have "trim_space (CHR ''{'' # audit_marshal r) = CHR ''{'' # audit_marshal r"
    by (simp add: audit_marshal_def json_print_def tok_text_def trim_space_def is_space_def)
  ultimately show ?thesis by (simp add: audit_unmarshal_def unmarshal_struct_def)
qed

theorem torn_write_loses_record_witness:
  "\<exists>a1 a2 d res. AuditLog_write sized_crypto (demo_env (Some 1)) zero_audit demo_start = (Some WriteFailed, a1) \<and>
     AuditLog_write sized_crypto (demo_env None) zero_audit a1 = (None, a2) \<and> al_seq a2 = 1 \<and> al_w a2 = Some d \<and>
     VerifyForRepair sized_crypto d = (res, 0, True) \<and> VCount res = 0"
proof -
  have "take 1 (audit_marshal r) = ''{''" "1 \<le> length (audit_marshal r)" for r
    by (simp_all add: audit_marshal_def json_print_def tok_text_def)
  then show ?thesis
    using torn_write_loses_record [OF demo_start_holds, of "demo_env (Some 1)" 1 "demo_env None" sized_crypto zero_audit zero_audit] glued_brace
    by (simp add: demo_start_def WithCheckpointer_def NewAuditLog_def)
qed

subsection \<open>Restarting between checkpoints\<close>

text \<open>The checkpointer after a restart has the place of the last checkpoint, and an empty buffer.\<close>

definition restarted :: "signer \<Rightarrow> int \<Rightarrow> bool \<Rightarrow> checkpointer \<Rightarrow> audit_log \<Rightarrow> audit_log" where
  "restarted s every b c a = log_SeedFrom (al_seq a) (al_prev a)
     (WithCheckpointer (cp_SeedFrom (ck_cpSeq c) (ck_prevCP c) (NewCheckpointer s (ck_w c) every None)) (NewAuditLog (al_w a) b))"

definition one_leaf :: "signer \<Rightarrow> int \<Rightarrow> checkpointer \<Rightarrow> int \<Rightarrow> string \<Rightarrow> checkpointer" where
  "one_leaf s every c n h = (cp_SeedFrom (ck_cpSeq c) (ck_prevCP c) (NewCheckpointer s (ck_w c) every None))
     \<lparr>ck_fromSeq := n, ck_leaves := [raw_hash h]\<rparr>"

lemma restarted_write:
  assumes "holds_log cr rs a" "we_write e = None" "fl_write (we_flush e) = None" "fl_write fe = None" "q = logged cr (we_time e) r rs"
  shows "al_w (log_Flush cr fe (snd (AuditLog_write cr e r (restarted s every b c a)))) = Some (log_text (rs @ [q])) \<and>
    (\<exists>c' t. t \<in> {fl_time (we_flush e), fl_time fe} \<and> al_cp (log_Flush cr fe (snd (AuditLog_write cr e r (restarted s every b c a)))) = Some c' \<and>
      ck_w c' = ck_w c @ cp_marshal (next_checkpoint cr (one_leaf s every c (int (length rs) + 1) (Hash q)) (int (length rs) + 1) (Hash q) t) @ newline)"
proof -
  let ?a = "snd (AuditLog_write cr e r (restarted s every b c a))"
  let ?c1 = "cp_SeedFrom (ck_cpSeq c) (ck_prevCP c) (NewCheckpointer s (ck_w c) every None)"
  let ?c2 = "one_leaf s every c (int (length rs) + 1) (Hash q)"
  let ?n = "int (length rs) + 1"
  have h: "al_w a = Some (log_text rs)" "al_seq a = int (length rs)" "al_prev a = head_of [] rs" using assms(1) by (simp_all add: holds_log_def)
  have q: "link_record cr ?n (head_of [] rs) (prepare_record (we_time e) r) = q" using assms(5) by (simp add: logged_def)
  have a: "al_w ?a = Some (log_text (rs @ [q]))" "al_lastSeq ?a = ?n" "al_lastHash ?a = Hash q" "al_cp ?a = Some (cp_add cr (we_flush e) ?n (Hash q) ?c1)"
    using h assms(2) by (simp_all add: AuditLog_write_def restarted_def log_SeedFrom_def WithCheckpointer_def NewAuditLog_def Let_def q del: link_record_simps(5))
  have "hex_decode (Hash q) = Some (raw_hash (Hash q))" by (simp add: assms(5) logged_def chainHash_def hash_hex_def raw_hash_def)
  then have add: "cp_add cr (we_flush e) ?n (Hash q) ?c1 = (if ck_every ?c1 \<le> 1 then flushLocked cr (we_flush e) ?n (Hash q) ?c2 else ?c2)"
    by (simp add: cp_add_def one_leaf_def cp_SeedFrom_def NewCheckpointer_def Let_def)
  have w: "ck_w ?c2 = ck_w c" "ck_leaves ?c2 \<noteq> []" by (simp_all add: one_leaf_def cp_SeedFrom_def NewCheckpointer_def)
  show ?thesis
  proof (cases "ck_every ?c1 \<le> 1")
    case True
    then have "al_cp (log_Flush cr fe ?a) = Some (flushLocked cr (we_flush e) ?n (Hash q) ?c2)"
      using a(4) add by (simp add: log_Flush_def cp_Flush_def flush_fields assms(3))
    then show ?thesis using a(1) w flush_fields(1) [OF assms(3), of cr ?n "Hash q" ?c2] by (auto simp: log_Flush_def)
  next
    case False
    then have "al_cp (log_Flush cr fe ?a) = Some (flushLocked cr fe ?n (Hash q) ?c2)"
      using a(2-4) add w(2) by (simp add: log_Flush_def cp_Flush_def)
    then show ?thesis using a(1) w flush_fields(1) [OF assms(4), of cr ?n "Hash q" ?c2] by (auto simp: log_Flush_def)
  qed
qed

text \<open>A restart in the middle of a batch leaves a gap that no later checkpoint closes. If a process stops while
  its checkpointer still buffers records, and the next one seeds its log from the last record and
  its checkpointer from the last checkpoint, as start-up does, then the buffered records are never
  covered: the next checkpoint starts after them. The hash chain is intact, but \<^verbatim>\<open>VerifySigned\<close> rejects the log
  from then on, whichever key is pinned.\<close>
theorem restart_leaves_gap:
  assumes "log_sealing cr (\<lambda>_ _. True) s rs a" "al_cp a = Some c" "ck_leaves c \<noteq> []" "crypto_sized cr s" "int (length rs) + 2 < 2 ^ 63"
    and "good_event (e, r)" "we_write e = None" "fl_write (we_flush e) = None" "flush_ok fe" "fl_write fe = None"
    and "a' = log_Flush cr fe (snd (AuditLog_write cr e r (restarted s every b c a)))"
  shows "\<exists>d c'. al_w a' = Some d \<and> al_cp a' = Some c' \<and> VOK (fst (VerifyChain cr d)) \<and> \<not> SOK (fst (VerifySigned cr d (ck_w c') ex))"
proof -
  let ?q = "logged cr (we_time e) r rs" and ?n = "int (length rs) + 1"
  have h: "holds_log cr rs a" using assms(1) by (simp add: log_sealing_def)
  obtain cps rest where seal: "sealing cr rs cps rest c" using assms(1,2) by (auto simp: log_sealing_def)
  have g: "admissible (we_time e) r" "flush_ok (we_flush e)" using assms(6) by (simp_all add: good_event_def)
  have f: "list_all rec_ok rs" "lines_fit rs" "chain_ok cr 0 [] rs" using h by (simp_all add: holds_log_def)
  have ok: "list_all rec_ok (rs @ [?q])" "lines_fit (rs @ [?q])" "chain_ok cr 0 [] (rs @ [?q])"
    using logged_extends [OF _ g(1) f] assms(4,5) by (simp_all add: crypto_sized_def)
  obtain c' t where c': "al_w a' = Some (log_text (rs @ [?q]))" "t \<in> {fl_time (we_flush e), fl_time fe}" "al_cp a' = Some c'"
      "ck_w c' = ck_w c @ cp_marshal (next_checkpoint cr (one_leaf s every c ?n (Hash ?q)) ?n (Hash ?q) t) @ newline"
    using restarted_write [OF h assms(7,8,10) refl, of r s every b c] unfolding assms(11) [symmetric] by (elim conjE exE) (rule that)
  let ?cp = "next_checkpoint cr (one_leaf s every c ?n (Hash ?q)) ?n (Hash ?q) t"
  obtain ft where ft: "flush_ok ft" "t = fl_time ft" using c'(2) g(2) assms(9) by blast
  have un: "uncovered cr [] 0 cps rs = Some rest" "rest \<noteq> []" "ck_w c = file_of (map cp_marshal cps)" "list_all cp_ok cps"
      "ck_cpSeq c = int (length cps)" "ck_prevCP c = cp_head cr cps"
    using seal assms(3) by (auto simp: sealing_def)
  have cnt: "length cps + length rest \<le> length rs" using uncovered_count [OF un(1)] .
  have qv: "valid_utf8 (Hash ?q)" using ok(1) by (simp add: rec_ok_def)
  have "cp_ok ?cp"
    unfolding ft(2) using cnt assms(5) qv cp_head_ok(1) [of cr cps] un(5,6) ft(1)
    by (intro next_checkpoint_ok) (simp_all add: one_leaf_def cp_SeedFrom_def)
  then have p: "parse_cps (raw_lines (ck_w c')) = Some (cps @ [?cp])"
    using parse_cps_text [of "cps @ [?cp]"] cp_text_lines [of "cps @ [?cp]"] un(3,4) c'(4) by simp
  have "\<not> signed_files cr ex (log_text (rs @ [?q])) (ck_w c') qs ds left" for qs ds left
  proof
    assume sf: "signed_files cr ex (log_text (rs @ [?q])) (ck_w c') qs ds left"
    then have "qs = rs @ [?q]" "ds = cps @ [?cp]"
      using p parse_log [OF ok(1)] log_text_lines(2) [of "rs @ [?q]"] by (simp_all add: signed_files_def)
    then have "uncovered cr [] 0 (cps @ [?cp]) (rs @ [?q]) = Some left" using sf by (simp add: signed_files_def)
    then have u: "uncovered cr (if cps = [] then [] else cp_Hash cr (last cps)) (if cps = [] then 0 else ToSeq (last cps)) [?cp] (rest @ [?q]) = Some left"
      unfolding uncovered_append uncovered_extend [OF un(1)] by simp
    have "(if cps = [] then 0 else ToSeq (last cps)) = int (length rs) - int (length rest)"
      using un(1) uncovered_head [OF un(1)] by (cases "cps = []") auto
    then have "FromSeq ?cp = int (length rs) - int (length rest) + 1"
      using u by (simp add: uncovered_Cons commits_to_def split: if_splits)
    then show False using un(2) by (simp add: next_checkpoint_def one_leaf_def)
  qed
  then have "\<not> SOK (fst (VerifySigned cr (log_text (rs @ [?q])) (ck_w c') ex))" unfolding VerifySigned_OK by blast
  moreover have "VOK (fst (VerifyChain cr (log_text (rs @ [?q]))))" using VerifyChain_log [OF ok] by simp
  ultimately show ?thesis using c'(1,3) by blast
qed

text \<open>The process below has written one record and buffers it.\<close>

definition buffering :: audit_log where
  "buffering = run_log sized_crypto [(demo_env None, zero_audit)] (WithCheckpointer (NewCheckpointer demo_signer [] 5 None) (NewAuditLog (Some []) False))"

lemma buffering_sealing: "log_sealing sized_crypto (\<lambda>_ _. True) demo_signer (written sized_crypto [(demo_env None, zero_audit)] []) buffering"
  unfolding buffering_def using demo_admissible
  by (intro plain.run_sealing [OF sized_crypto_ok(1) _ fresh_sealing]) (simp_all add: good_event_def clean_def)

lemma buffering_leaves: "\<exists>c. al_cp buffering = Some c \<and> ck_leaves c \<noteq> []"
proof -
  have "hex_decode (chainHash cr r) = Some (sha256 cr (audit_marshal (r\<lparr>Hash := []\<rparr>)))" for cr r by (simp add: chainHash_def hash_hex_def)
  then show ?thesis
    by (simp add: buffering_def AuditLog_write_def WithCheckpointer_def NewAuditLog_def NewCheckpointer_def cp_add_def Let_def)
qed

theorem restart_leaves_gap_witness:
  "\<exists>c a' d c'. al_cp buffering = Some c \<and>
     a' = log_Flush sized_crypto demo_flush (snd (AuditLog_write sized_crypto (demo_env None) zero_audit (restarted demo_signer 5 False c buffering))) \<and>
     al_w a' = Some d \<and> al_cp a' = Some c' \<and> VOK (fst (VerifyChain sized_crypto d)) \<and>
     \<not> SOK (fst (VerifySigned sized_crypto d (ck_w c') (PubKeyHex demo_signer)))"
proof -
  obtain c where c: "al_cp buffering = Some c" "ck_leaves c \<noteq> []" using buffering_leaves by blast
  have g: "good_event (demo_env None, zero_audit)" using demo_admissible by (simp add: good_event_def clean_def)
  from restart_leaves_gap [OF buffering_sealing c sized_crypto_ok(1) _ g _ _ demo_admissible(2) _ refl, of 5 False "PubKeyHex demo_signer"] c(1)
  show ?thesis by auto
qed

lemma signed_by_unpinned: "signed_by cr k cps \<Longrightarrow> signed_by cr [] cps"
  by (auto simp: signed_by_def list_all_iff VerifyCheckpoint_None)

lemma signed_files_blank:
  "signed_files cr k (log_text rs) c rs cps rest \<Longrightarrow> list_all rec_ok rs \<Longrightarrow> signed_files cr [] (log_text rs @ newline) c rs cps rest"
proof -
  assume f: "signed_files cr k (log_text rs) c rs cps rest" and ok: "list_all rec_ok rs"
  have rl: "raw_lines (log_text rs @ newline) = map audit_marshal rs @ [[]]" unfolding log_text_lines by (simp add: raw_lines.simps [of newline])
  have p: "parse_lines (map audit_marshal rs @ [[]]) = Some rs" unfolding parse_lines_append [OF ok] using trim_space_Nil by simp
  show ?thesis using f p signed_by_unpinned unfolding signed_files_def rl log_text_lines(2) by (auto simp: max_token_def)
qed

theorem covered_records_pinned_witness:
  "\<exists>a d c. a = log_Flush sized_crypto demo_flush buffering \<and> al_w a = Some d \<and> al_cp a = Some c \<and>
     SOK (fst (VerifySigned sized_crypto (d @ newline) (ck_w c) [])) \<and> take 1 (log_records d) = take 1 (log_records (d @ newline))"
proof -
  let ?rs = "written sized_crypto [(demo_env None, zero_audit)] []"
  have one: "length ?rs = 1" by simp
  obtain c cps where c: "al_cp (log_Flush sized_crypto demo_flush buffering) = Some c"
      "signed_files sized_crypto (PubKeyHex demo_signer) (log_text ?rs) (ck_w c) ?rs cps []"
    using plain.flush_sealed [OF buffering_sealing sized_crypto_ok(1) _ demo_admissible(2)] by auto
  have w: "al_w (log_Flush sized_crypto demo_flush buffering) = Some (log_text ?rs)"
    using buffering_sealing by (simp add: log_sealing_def holds_log_def log_Flush_def)
  have rl: "raw_lines (log_text ?rs @ newline) = map audit_marshal ?rs @ [[]]" unfolding log_text_lines by (simp add: raw_lines.simps [of newline])
  have ok: "list_all rec_ok ?rs" using buffering_sealing by (simp add: log_sealing_def holds_log_def)
  then have p: "parse_lines (map audit_marshal ?rs @ [[]]) = Some ?rs" unfolding parse_lines_append [OF ok] using trim_space_Nil by simp
  have s2: "signed_files sized_crypto [] (log_text ?rs @ newline) (ck_w c) ?rs cps []" using signed_files_blank [OF c(2) ok] .
  have v: "SOK (fst (VerifySigned sized_crypto (log_text ?rs) (ck_w c) (PubKeyHex demo_signer)))"
      "SOK (fst (VerifySigned sized_crypto (log_text ?rs @ newline) (ck_w c) []))"
    using c(2) s2 unfolding VerifySigned_OK by blast+
  have l: "log_records (log_text ?rs) = ?rs" "log_records (log_text ?rs @ newline) = ?rs"
    using log_records_text [OF ok] p rl by (simp_all add: log_records_def)
  have "inj_on (sha256 sized_crypto) (hashed_texts (log_records (log_text ?rs)) \<union> hashed_texts (log_records (log_text ?rs @ newline)))"
    unfolding l by (simp add: hashed_texts_def)
  from covered_records_pinned [OF v this] have "take 1 (log_records (log_text ?rs)) = take 1 (log_records (log_text ?rs @ newline))"
    using VerifySigned_accepts [OF c(2)] by (simp add: signed_outcome_def Let_def)
  then show ?thesis using c(1) w v(2) by blast
qed

end
