(* ===== verification/VerifyAnchors.thy ===== *)
theory VerifyAnchors
  imports AuditLog
begin

text \<open>
  Verification of a checkpoint file against an external witness (\<^verbatim>\<open>src/policy/verify_anchor.go\<close>).
  The checkpoints are given as an association list from ordinals, in the order in which the
  program's map happens to be iterated.  The results: a verdict other than mismatch means that
  every witnessed checkpoint is in the file unchanged, and a log written with an anchor verifies
  as anchored.
\<close>

datatype anchor_status = AnchorStatusAnchored | AnchorStatusPartial | AnchorStatusMismatch

datatype anchor_why = ANoReason | ABadLine | ABrokenLink | AFork | ARolledBack | ARewritten | AHeadDiffers
  | ANotWitnessed nat nat "nat option"

record anchor_result =
  AnchorRecords :: nat
  Matched :: nat
  MismatchSeqs :: "int list"
  UnanchoredTail :: nat
  OtherSignerRecords :: nat
  AStatus :: "anchor_status option"
  AReason' :: anchor_why

definition zero_anchor_result :: anchor_result where
  "zero_anchor_result = \<lparr>AnchorRecords = 0, Matched = 0, MismatchSeqs = [], UnanchoredTail = 0, OtherSignerRecords = 0, AStatus = None,
     AReason' = ANoReason\<rparr>"

subsection \<open>Anchor lines\<close>

record anchor_line =
  LV :: int
  LSeq :: int
  LChainHead :: string
  LCheckpoint :: string
  LTime :: string
  LSigner :: string
  LPrevAnchor :: "string option"

definition zero_line :: anchor_line where
  "zero_line = \<lparr>LV = 0, LSeq = 0, LChainHead = [], LCheckpoint = [], LTime = [], LSigner = [], LPrevAnchor = None\<rparr>"

text \<open>\<^verbatim>\<open>flexInt\<close>: a number, or a string that holds one; \<^verbatim>\<open>null\<close> decodes to zero.\<close>

definition set_flexInt :: "(int \<Rightarrow> 'r \<Rightarrow> 'r) \<Rightarrow> json \<Rightarrow> 'r \<Rightarrow> 'r option" where
  "set_flexInt f v r =
     (case v of JStr s \<Rightarrow> map_option (\<lambda>i. f i r) (atoi s) | JNull \<Rightarrow> Some (f 0 r) | _ \<Rightarrow> set_int f v r)"

text \<open>A pointer to a string: \<^verbatim>\<open>null\<close> is the nil pointer.\<close>

definition set_ptr :: "(string option \<Rightarrow> 'r \<Rightarrow> 'r) \<Rightarrow> json \<Rightarrow> 'r \<Rightarrow> 'r option" where
  "set_ptr f v r = (case v of JStr s \<Rightarrow> Some (f (Some s) r) | JNull \<Rightarrow> Some (f None r) | _ \<Rightarrow> None)"

definition line_fields :: "anchor_line field_table" where
  "line_fields =
     [(''v'', set_int (\<lambda>i a. a\<lparr>LV := i\<rparr>)), (''checkpoint_seq'', set_flexInt (\<lambda>i a. a\<lparr>LSeq := i\<rparr>)),
      (''chain_head'', set_str (\<lambda>s a. a\<lparr>LChainHead := s\<rparr>)), (''checkpoint'', set_str (\<lambda>s a. a\<lparr>LCheckpoint := s\<rparr>)),
      (''time'', set_str (\<lambda>s a. a\<lparr>LTime := s\<rparr>)), (''signer'', set_str (\<lambda>s a. a\<lparr>LSigner := s\<rparr>)),
      (''prev_anchor'', set_ptr (\<lambda>p a. a\<lparr>LPrevAnchor := p\<rparr>))]"

definition line_unmarshal :: "bytes \<Rightarrow> anchor_line option" where
  "line_unmarshal b = unmarshal_struct line_fields zero_line b"

text \<open>\<^verbatim>\<open>ReadAnchorRecords\<close>: the records and the hash of the last line; \<^term>\<open>None\<close> when a line does not parse or fit.\<close>

definition to_record :: "anchor_line \<Rightarrow> anchor_rec" where
  "to_record l = \<lparr>AnV = LV l, AnSeq = LSeq l, AnChainHead = LChainHead l, AnCheckpoint = LCheckpoint l, AnTime = LTime l, AnSigner = LSigner l,
     AnPrev = (case LPrevAnchor l of None \<Rightarrow> [] | Some p \<Rightarrow> p)\<rparr>"

fun read_anchors :: "crypto \<Rightarrow> bytes list \<Rightarrow> anchor_rec list \<Rightarrow> string \<Rightarrow> (anchor_rec list \<times> string) option" where
  "read_anchors cr [] out lastHash = Some (out, lastHash)"
| "read_anchors cr (l # ls) out lastHash =
     (if trim_space l = [] then read_anchors cr ls out lastHash
      else case line_unmarshal (trim_space l) of
        None \<Rightarrow> None
      | Some a \<Rightarrow> read_anchors cr ls (out @ [to_record a]) (AnchorLineHash cr (trim_space l)))"

definition ReadAnchorRecords :: "crypto \<Rightarrow> bytes \<Rightarrow> (anchor_rec list \<times> string) option" where
  "ReadAnchorRecords cr r = (case scan_lines r of (ls, err) \<Rightarrow>
     (case read_anchors cr ls [] [] of None \<Rightarrow> None | Some x \<Rightarrow> if err then None else Some x))"

subsection \<open>Comparing\<close>

definition mismatch :: "int \<Rightarrow> anchor_why \<Rightarrow> anchor_result \<Rightarrow> anchor_result" where
  "mismatch seq why res = res\<lparr>MismatchSeqs := MismatchSeqs res @ [seq], AReason' := (if AReason' res = ANoReason then why else AReason' res)\<rparr>"

text \<open>The loop's state: the witnessed hashes by ordinal, the largest ordinal seen, the hash of the last line
  (\<^term>\<open>None\<close> before the first), the result.\<close>

type_synonym anchor_pass = "(int \<rightharpoonup> string) \<times> int \<times> string option \<times> anchor_result"

definition check_link :: "anchor_line \<Rightarrow> string option \<Rightarrow> anchor_result \<Rightarrow> anchor_result" where
  "check_link a prevLine res =
     (case LPrevAnchor a of
        None \<Rightarrow> res
      | Some p \<Rightarrow> (if p \<noteq> (case prevLine of None \<Rightarrow> [] | Some h \<Rightarrow> h) then mismatch (LSeq a) ABrokenLink res else res))"

definition check_anchor ::
    "crypto \<Rightarrow> (int \<times> checkpoint) list \<Rightarrow> anchor_line \<Rightarrow> anchor_result \<Rightarrow> anchor_result" where
  "check_anchor cr cpBySeq a res =
     (case map_of cpBySeq (LSeq a) of
        None \<Rightarrow> mismatch (LSeq a) ARolledBack res
      | Some cp \<Rightarrow>
          (if cp_Hash cr cp \<noteq> LCheckpoint a then mismatch (LSeq a) ARewritten res
           else if LChainHead a \<noteq> [] \<and> LChainHead a \<noteq> ChainHead cp then mismatch (LSeq a) AHeadDiffers res
           else res\<lparr>Matched := Suc (Matched res)\<rparr>))"

fun anchor_loop ::
    "crypto \<Rightarrow> string \<Rightarrow> (int \<times> checkpoint) list \<Rightarrow> bytes list \<Rightarrow> anchor_pass \<Rightarrow> bool \<times> int \<times> anchor_result" where
  "anchor_loop cr signer cpBySeq [] (seen, maxAnchored, prevLine, res) = (False, maxAnchored, res)"
| "anchor_loop cr signer cpBySeq (l # ls) (seen, maxAnchored, prevLine, res) =
     (if trim_space l = [] then anchor_loop cr signer cpBySeq ls (seen, maxAnchored, prevLine, res)
      else case line_unmarshal (trim_space l) of
        None \<Rightarrow> (True, maxAnchored, mismatch 0 ABadLine res)
      | Some a \<Rightarrow>
          (let res1 = check_link a prevLine res;
               prev1 = Some (AnchorLineHash cr (trim_space l))
           in if LSigner a \<noteq> [] \<and> signer \<noteq> [] \<and> LSigner a \<noteq> signer
              then anchor_loop cr signer cpBySeq ls
                     (seen, maxAnchored, prev1, res1\<lparr>OtherSignerRecords := Suc (OtherSignerRecords res1)\<rparr>)
              else let res2 = res1\<lparr>AnchorRecords := Suc (AnchorRecords res1)\<rparr> in
                case seen (LSeq a) of
                  Some h \<Rightarrow> anchor_loop cr signer cpBySeq ls
                    (seen, maxAnchored, prev1, if h \<noteq> LCheckpoint a then mismatch (LSeq a) AFork res2 else res2)
                | None \<Rightarrow> anchor_loop cr signer cpBySeq ls
                    (seen(LSeq a \<mapsto> LCheckpoint a), max maxAnchored (LSeq a), prev1, check_anchor cr cpBySeq a res2)))"

definition anchor_verdict :: "(int \<times> checkpoint) list \<Rightarrow> int \<Rightarrow> anchor_result \<Rightarrow> anchor_result" where
  "anchor_verdict cpBySeq maxAnchored res =
     (let res1 = res\<lparr>UnanchoredTail := length (filter (\<lambda>(seq, cp). maxAnchored < seq) cpBySeq)\<rparr>;
          n = length cpBySeq
      in if MismatchSeqs res1 \<noteq> [] then res1\<lparr>AStatus := Some AnchorStatusMismatch\<rparr>
         else if Matched res1 = n \<and> 0 < n then res1\<lparr>AStatus := Some AnchorStatusAnchored, AReason' := ANoReason\<rparr>
         else res1\<lparr>AStatus := Some AnchorStatusPartial,
                AReason' := (if AReason' res1 = ANoReason
                  then ANotWitnessed (n - Matched res1) n
                    (if Matched res1 = 0 \<and> 0 < OtherSignerRecords res1 then Some (OtherSignerRecords res1) else None)
                  else AReason' res1)\<rparr>)"

text \<open>The result, and whether the scanner failed.\<close>

definition VerifyAnchors :: "crypto \<Rightarrow> bytes \<Rightarrow> (int \<times> checkpoint) list \<Rightarrow> anchor_result \<times> bool" where
  "VerifyAnchors cr anchorR cpBySeq =
     (let signer = (case cpBySeq of [] \<Rightarrow> [] | (_, cp) # _ \<Rightarrow> CPubKey cp) in
      case scan_lines anchorR of (ls, err) \<Rightarrow>
        (case anchor_loop cr signer cpBySeq ls (Map.empty, 0, None, zero_anchor_result) of
           (broke, maxAnchored, res) \<Rightarrow>
             (if err \<and> \<not> broke then (res, True) else (anchor_verdict cpBySeq maxAnchored res, False))))"

subsection \<open>What a verdict without mismatch says\<close>

text \<open>The parsed lines of a file with their bytes.\<close>

fun parse_anchors :: "bytes list \<Rightarrow> (bytes \<times> anchor_line) list option" where
  "parse_anchors [] = Some []"
| "parse_anchors (l # ls) =
     (if trim_space l = [] then parse_anchors ls
      else case line_unmarshal (trim_space l) of None \<Rightarrow> None | Some a \<Rightarrow> map_option ((#) (trim_space l, a)) (parse_anchors ls))"

fun anchors_linked :: "crypto \<Rightarrow> string option \<Rightarrow> (bytes \<times> anchor_line) list \<Rightarrow> bool" where
  "anchors_linked cr prev [] = True"
| "anchors_linked cr prev ((b, a) # ws) =
     ((\<forall>p. LPrevAnchor a = Some p \<longrightarrow> p = (case prev of None \<Rightarrow> [] | Some h \<Rightarrow> h)) \<and> anchors_linked cr (Some (AnchorLineHash cr b)) ws)"

definition ours :: "string \<Rightarrow> anchor_line \<Rightarrow> bool" where
  "ours signer a \<longleftrightarrow> LSigner a = [] \<or> signer = [] \<or> LSigner a = signer"

definition witnessed :: "crypto \<Rightarrow> (int \<times> checkpoint) list \<Rightarrow> int \<Rightarrow> string \<Rightarrow> bool" where
  "witnessed cr cpBySeq seq h \<longleftrightarrow> (\<exists>cp. map_of cpBySeq seq = Some cp \<and> cp_Hash cr cp = h)"

definition our_seqs :: "string \<Rightarrow> (bytes \<times> anchor_line) list \<Rightarrow> int set" where
  "our_seqs signer ws = (LSeq \<circ> snd) ` {w \<in> set ws. ours signer (snd w)}"

lemma our_seqs_simps [simp]:
  "our_seqs k [] = {}" "our_seqs k ((b, a) # ws) = (if ours k a then insert (LSeq a) (our_seqs k ws) else our_seqs k ws)"
  by (auto simp: our_seqs_def intro: rev_image_eqI)

lemma mismatch_ne [simp]: "MismatchSeqs (mismatch s why res) \<noteq> []"
  by (simp add: mismatch_def)

lemma check_link_none: "MismatchSeqs (check_link a p res) = [] \<longleftrightarrow>
    MismatchSeqs res = [] \<and> (\<forall>q. LPrevAnchor a = Some q \<longrightarrow> q = (case p of None \<Rightarrow> [] | Some h \<Rightarrow> h))"
  "MismatchSeqs (check_link a p res) = [] \<Longrightarrow> check_link a p res = res"
  by (auto simp: check_link_def mismatch_def split: option.splits if_splits)

lemma check_anchor_none:
  "MismatchSeqs (check_anchor cr cps a res) = [] \<Longrightarrow>
     MismatchSeqs res = [] \<and> witnessed cr cps (LSeq a) (LCheckpoint a) \<and> check_anchor cr cps a res = res\<lparr>Matched := Suc (Matched res)\<rparr>"
  by (auto simp: check_anchor_def witnessed_def mismatch_def split: option.splits if_splits)

lemma anchor_loop_mismatch: "MismatchSeqs res \<noteq> [] \<Longrightarrow> MismatchSeqs (snd (snd (anchor_loop cr k cps ls (seen, m, p, res)))) \<noteq> []"
proof (induction ls arbitrary: seen m p res k)
  case (Cons l ls)
  have link: "MismatchSeqs (check_link a p res) \<noteq> []" for a using Cons.prems check_link_none(1) [of a p res] by blast
  have anchor: "MismatchSeqs (check_anchor cr cps a r) \<noteq> []" if "MismatchSeqs r \<noteq> []" for a r using that check_anchor_none [of cr cps a r] by blast
  show ?case using Cons.prems
    by (simp add: Let_def link anchor Cons.IH split: option.split)
qed simp

lemma anchor_loop_matches:
  assumes "anchor_loop cr k cps ls (seen, m, p, res) = (broke, m', res')" "MismatchSeqs res' = []"
    and "\<forall>s h. seen s = Some h \<longrightarrow> witnessed cr cps s h" "finite (dom seen)" "Matched res = card (dom seen)"
  shows "\<not> broke \<and> (\<exists>ws. parse_anchors ls = Some ws \<and> anchors_linked cr p ws \<and>
    (\<forall>(b, a)\<in>set ws. ours k a \<longrightarrow> witnessed cr cps (LSeq a) (LCheckpoint a)) \<and>
    Matched res' = card (dom seen \<union> our_seqs k ws))"
  using assms
proof (induction ls arbitrary: seen m p res)
  case (Cons l ls)
  have zero: "MismatchSeqs r = []" if "anchor_loop cr k cps ls (s', n', q, r) = (broke, m', res')" for s' n' q r
    using that Cons.prems(2) anchor_loop_mismatch [of r cr k cps ls s' n' q] by auto
  show ?case
  proof (cases "trim_space l = []")
    case True
    then have e: "anchor_loop cr k cps ls (seen, m, p, res) = (broke, m', res')" using Cons.prems(1) by simp
    show ?thesis using Cons.IH [OF e Cons.prems(2-5)] True by simp
  next
    case False
    then obtain a where a: "line_unmarshal (trim_space l) = Some a" using Cons.prems(1,2) by (cases "line_unmarshal (trim_space l)") auto
    let ?prev = "Some (AnchorLineHash cr (trim_space l))"
    have p: "parse_anchors (l # ls) = map_option ((#) (trim_space l, a)) (parse_anchors ls)" using a False by simp
    show ?thesis
    proof (cases "ours k a")
      case other: False
      have e: "anchor_loop cr k cps ls (seen, m, ?prev, (check_link a p res)\<lparr>OtherSignerRecords := Suc (OtherSignerRecords (check_link a p res))\<rparr>) = (broke, m', res')"
        using Cons.prems(1) a False other by (simp add: Let_def ours_def)
      have z: "MismatchSeqs (check_link a p res) = []" using zero [OF e] by simp
      show ?thesis using Cons.IH [OF e Cons.prems(2-4)] Cons.prems(5) check_link_none [of a p res] z other unfolding p by auto
    next
      case mine: True
      show ?thesis
      proof (cases "seen (LSeq a)")
        case None
        have e: "anchor_loop cr k cps ls (seen(LSeq a \<mapsto> LCheckpoint a), max m (LSeq a), ?prev,
            check_anchor cr cps a ((check_link a p res)\<lparr>AnchorRecords := Suc (AnchorRecords (check_link a p res))\<rparr>)) = (broke, m', res')"
          using Cons.prems(1) a False mine None by (auto simp: Let_def ours_def)
        note c = check_anchor_none [OF zero [OF e]]
        then have z: "MismatchSeqs (check_link a p res) = []" by simp
        have w: "witnessed cr cps (LSeq a) (LCheckpoint a)" using c by blast
        have m: "Matched (check_anchor cr cps a ((check_link a p res)\<lparr>AnchorRecords := Suc (AnchorRecords (check_link a p res))\<rparr>)) =
            card (dom (seen(LSeq a \<mapsto> LCheckpoint a)))"
          using c check_link_none(2) [OF z] Cons.prems(4,5) None by (simp add: card_insert_if domIff)
        have s: "\<forall>s h. (seen(LSeq a \<mapsto> LCheckpoint a)) s = Some h \<longrightarrow> witnessed cr cps s h" using w Cons.prems(3) by simp
        have fin: "finite (dom (seen(LSeq a \<mapsto> LCheckpoint a)))" using Cons.prems(4) by simp
        have d: "dom (seen(LSeq a \<mapsto> LCheckpoint a)) \<union> X = dom seen \<union> insert (LSeq a) X" for X by auto
        show ?thesis using Cons.IH [OF e Cons.prems(2) s fin m, unfolded d] check_link_none(1) [of a p res] z w mine unfolding p by auto
      next
        case (Some h)
        have e: "anchor_loop cr k cps ls (seen, m, ?prev, let r = (check_link a p res)\<lparr>AnchorRecords := Suc (AnchorRecords (check_link a p res))\<rparr>
            in if h \<noteq> LCheckpoint a then mismatch (LSeq a) AFork r else r) = (broke, m', res')"
          using Cons.prems(1) a False mine Some by (auto simp: Let_def ours_def)
        have h: "h = LCheckpoint a" using zero [OF e] by (auto simp: Let_def split: if_splits)
        then have e': "anchor_loop cr k cps ls (seen, m, ?prev, (check_link a p res)\<lparr>AnchorRecords := Suc (AnchorRecords (check_link a p res))\<rparr>) = (broke, m', res')"
          using e by simp
        have z: "MismatchSeqs (check_link a p res) = []" using zero [OF e'] by simp
        have w: "witnessed cr cps (LSeq a) (LCheckpoint a)" using Cons.prems(3) Some h by blast
        have "LSeq a \<in> dom seen" using Some by auto
        then have d: "dom seen \<union> insert (LSeq a) X = dom seen \<union> X" for X by auto
        show ?thesis using Cons.IH [OF e' Cons.prems(2-4)] Cons.prems(5) check_link_none [of a p res] z w mine d unfolding p by auto
      qed
    qed
  qed
qed simp

lemma VerifyAnchors_status:
  assumes "distinct (map fst cps)" "VerifyAnchors cr d cps = (res, False)" "AStatus res \<noteq> Some AnchorStatusMismatch"
    and "k = (case cps of [] \<Rightarrow> [] | (_, cp) # _ \<Rightarrow> CPubKey cp)"
  shows "fits d \<and> (\<exists>ws. parse_anchors (raw_lines d) = Some ws \<and> anchors_linked cr None ws \<and>
    (\<forall>(b, a)\<in>set ws. ours k a \<longrightarrow> witnessed cr cps (LSeq a) (LCheckpoint a)) \<and>
    (AStatus res = Some AnchorStatusAnchored \<longleftrightarrow> cps \<noteq> [] \<and> fst ` set cps \<subseteq> our_seqs k ws))"
proof -
  obtain ls err where sc: "scan_lines d = (ls, err)" by fastforce
  obtain broke m res' where lp: "anchor_loop cr k cps ls (Map.empty, 0, None, zero_anchor_result) = (broke, m, res')" by (metis prod_cases3)
  have v: "VerifyAnchors cr d cps = (if err \<and> \<not> broke then (res', True) else (anchor_verdict cps m res', False))"
    using sc lp assms(4) by (simp add: VerifyAnchors_def Let_def)
  then have r: "res = anchor_verdict cps m res'" "\<not> (err \<and> \<not> broke)" using assms(2) by (auto split: if_splits)
  have mm: "MismatchSeqs res' = []" using assms(3) r(1) by (auto simp: anchor_verdict_def Let_def split: if_splits)
  have "\<not> broke \<and> (\<exists>ws. parse_anchors ls = Some ws \<and> anchors_linked cr None ws \<and>
    (\<forall>(b, a)\<in>set ws. ours k a \<longrightarrow> witnessed cr cps (LSeq a) (LCheckpoint a)) \<and> Matched res' = card (dom (Map.empty :: int \<rightharpoonup> string) \<union> our_seqs k ws))"
    by (rule anchor_loop_matches [OF lp mm]) (simp_all add: zero_anchor_result_def)
  then obtain ws where ws: "\<not> broke" "parse_anchors ls = Some ws" "anchors_linked cr None ws"
      "\<forall>(b, a)\<in>set ws. ours k a \<longrightarrow> witnessed cr cps (LSeq a) (LCheckpoint a)" "Matched res' = card (our_seqs k ws)" by auto
  have f: "fits d" "ls = raw_lines d" using r(2) ws(1) sc scan_fits [of d] by (cases "fits d"; simp)+
  have "our_seqs k ws \<subseteq> dom (map_of cps)" using ws(4) by (auto simp: our_seqs_def witnessed_def)
  then have sub: "our_seqs k ws \<subseteq> fst ` set cps" by (simp add: dom_map_of_conv_image_fst)
  have card: "card (fst ` set cps) = length cps" using assms(1) by (metis distinct_card length_map set_map)
  have "Matched res' = length cps \<longleftrightarrow> fst ` set cps \<subseteq> our_seqs k ws"
  proof
    assume "Matched res' = length cps"
    then have "our_seqs k ws = fst ` set cps" using sub card ws(5) by (intro card_subset_eq) simp_all
    then show "fst ` set cps \<subseteq> our_seqs k ws" by simp
  next
    assume "fst ` set cps \<subseteq> our_seqs k ws"
    then have "our_seqs k ws = fst ` set cps" using sub by blast
    then show "Matched res' = length cps" using card ws(5) by simp
  qed
  then have "AStatus res = Some AnchorStatusAnchored \<longleftrightarrow> cps \<noteq> [] \<and> fst ` set cps \<subseteq> our_seqs k ws"
    using r(1) mm by (auto simp: anchor_verdict_def Let_def)
  then show ?thesis using f ws by blast
qed


subsection \<open>A log written with an anchor is anchored\<close>

lemma parse_cps_ok: "parse_cps ls = Some cps \<Longrightarrow> list_all cp_ok cps"
  by (induction ls arbitrary: cps) (auto split: if_splits option.splits dest: cp_unmarshal_ok)

definition line_of :: "anchor_rec \<Rightarrow> anchor_line" where
  "line_of a = \<lparr>LV = AnV a, LSeq = AnSeq a, LChainHead = AnChainHead a, LCheckpoint = AnCheckpoint a, LTime = AnTime a, LSigner = AnSigner a,
     LPrevAnchor = Some (AnPrev a)\<rparr>"

definition anchor_ok :: "anchor_rec \<Rightarrow> bool" where
  "anchor_ok a \<longleftrightarrow> list_all valid_utf8 [AnChainHead a, AnCheckpoint a, AnTime a, AnSigner a, AnPrev a] \<and> int64 (AnV a) \<and> int64 (AnSeq a)"

lemma line_names:
  "fold_name ''v'' = ''v''" "fold_name ''checkpoint'' = ''checkpoint''" "fold_name ''signer'' = ''signer''" "fold_name ''prev_anchor'' = ''prev_anchor''"
  by code_simp+

lemma anchor_json_shape: "ints_only (JObj (anchor_members a))" "json_depth (JObj (anchor_members a)) \<le> maxNestingDepth"
proof -
  show "ints_only (JObj (anchor_members a))" by (simp add: anchor_members_def)
  have "list_all (\<lambda>(k, v). json_depth v \<le> 1) (anchor_members a)" by (simp add: anchor_members_def)
  then show "json_depth (JObj (anchor_members a)) \<le> maxNestingDepth" by (rule json_depth_obj)
qed

lemma anchor_roundtrip: "anchor_ok a \<Longrightarrow> line_unmarshal (anchor_marshal a) = Some (line_of a)"
proof -
  assume ok: "anchor_ok a"
  have "members_valid (anchor_members a)" using ok by (simp add: anchor_ok_def anchor_members_def valid_ascii)
  then have "json_parse (anchor_marshal a) = Some (JObj (anchor_members a))"
    using anchor_json_shape [of a] by (simp add: anchor_marshal_def json_roundtrip)
  moreover have "decode_fields line_fields (anchor_members a) zero_line = Some (line_of a)"
    using ok unfolding anchor_members_def decode_append anchor_ok_def
    by (simp add: field_defs set_str_def set_int_def set_flexInt_def set_ptr_def atoi_int_text line_fields_def cp_names line_names zero_line_def line_of_def)
  ultimately show ?thesis by (simp add: line_unmarshal_def unmarshal_struct_def)
qed

lemma anchor_line_text [simp]: "one_line (anchor_marshal a)" "trim_space (anchor_marshal a) = anchor_marshal a" "anchor_marshal a \<noteq> []"
  using json_print_no_newline [OF anchor_json_shape(1) [of a]] by (simp_all add: anchor_marshal_def trim_print_obj)

lemma anchor_size:
  assumes "anchor_ok a"
  shows "length (anchor_marshal a) \<le> 6 * (length (AnChainHead a) + length (AnCheckpoint a) + length (AnTime a) + length (AnSigner a) + length (AnPrev a)) + 1000"
proof -
  have i: "int64 (AnV a)" "int64 (AnSeq a)" using assms by (auto simp: anchor_ok_def)
  note sz = field_size(1) [OF i(1), of "''v''"] field_size(1) [OF i(2), of "''checkpoint_seq''"] field_size(3) [of "''chain_head''" "AnChainHead a"]
    field_size(3) [of "''checkpoint''" "AnCheckpoint a"] field_size(3) [of "''time''" "AnTime a"] field_size(4) [of "''signer''" "AnSigner a"]
    field_size(3) [of "''prev_anchor''" "AnPrev a"]
  show ?thesis using print_members_size [of "anchor_members a"] sz unfolding anchor_marshal_def anchor_members_def members_size_append by simp
qed

text \<open>The anchor file's lines for a list of checkpoints, each linked to the one before.\<close>

fun anchor_lines :: "crypto \<Rightarrow> string \<Rightarrow> checkpoint list \<Rightarrow> bytes list" where
  "anchor_lines cr prev [] = []"
| "anchor_lines cr prev (c # cs) = (let b = anchor_marshal (anchor_of cr c [] prev) in b # anchor_lines cr (AnchorLineHash cr b) cs)"

fun anchor_tail :: "crypto \<Rightarrow> string \<Rightarrow> checkpoint list \<Rightarrow> string" where
  "anchor_tail cr prev [] = prev"
| "anchor_tail cr prev (c # cs) = anchor_tail cr (AnchorLineHash cr (anchor_marshal (anchor_of cr c [] prev))) cs"

lemma anchor_lines_append:
  "anchor_lines cr prev (cs @ [c]) = anchor_lines cr prev cs @ [anchor_marshal (anchor_of cr c [] (anchor_tail cr prev cs))]"
  "anchor_tail cr prev (cs @ [c]) = AnchorLineHash cr (anchor_marshal (anchor_of cr c [] (anchor_tail cr prev cs)))"
  by (induction cs arbitrary: prev) (simp_all add: Let_def)

definition cp_short :: "checkpoint \<Rightarrow> bool" where
  "cp_short c \<longleftrightarrow> length (ChainHead c) \<le> 64 \<and> length (CTime c) \<le> 1048576"

lemma anchor_of_ok:
  assumes "cp_ok c" "cp_short c" "digest_sized cr" "valid_utf8 prev" "length prev \<le> 64"
  shows "anchor_ok (anchor_of cr c [] prev) \<and> length (anchor_marshal (anchor_of cr c [] prev)) < max_token"
proof -
  have ok: "anchor_ok (anchor_of cr c [] prev)" using assms(1,4) by (simp add: anchor_ok_def anchor_of_def cp_ok_def)
  have "length (cp_Hash cr c) = 64" using hash_sized [OF assms(3)] by (simp add: cp_Hash_def)
  then show ?thesis using ok anchor_size [OF ok] assms(2,5) by (simp add: anchor_of_def cp_short_def max_token_def)
qed

lemma AnchorLineHash_ok: "valid_utf8 (AnchorLineHash cr b)" "digest_sized cr \<Longrightarrow> length (AnchorLineHash cr b) \<le> 64"
  by (simp_all add: AnchorLineHash_def hash_sized) (simp add: hash_hex_def)

lemma anchor_lines_fit:
  "list_all cp_ok cs \<Longrightarrow> list_all cp_short cs \<Longrightarrow> digest_sized cr \<Longrightarrow> valid_utf8 prev \<Longrightarrow> length prev \<le> 64 \<Longrightarrow>
     list_all (\<lambda>l. one_line l \<and> length l < max_token) (anchor_lines cr prev cs)"
  by (induction cs arbitrary: prev) (simp_all add: Let_def anchor_of_ok AnchorLineHash_ok)

lemma anchor_loop_lines:
  assumes "digest_sized cr" "\<forall>c\<in>set cs. map_of cps (CSeq c) = Some c"
  shows "list_all cp_ok cs \<Longrightarrow> list_all cp_short cs \<Longrightarrow> distinct (map CSeq cs) \<Longrightarrow> \<forall>c\<in>set cs. seen (CSeq c) = None \<Longrightarrow>
    valid_utf8 prev \<Longrightarrow> length prev \<le> 64 \<Longrightarrow> prev = (case p of None \<Rightarrow> [] | Some h \<Rightarrow> h) \<Longrightarrow> MismatchSeqs res = [] \<Longrightarrow>
    \<exists>m' res'. anchor_loop cr k cps (anchor_lines cr prev cs) (seen, m, p, res) = (False, m', res') \<and> MismatchSeqs res' = [] \<and>
      Matched res' = Matched res + length cs"
  using assms(2)
proof (induction cs arbitrary: seen m p prev res)
  case (Cons c cs)
  let ?a = "anchor_of cr c [] prev"
  let ?b = "anchor_marshal ?a"
  have ok: "anchor_ok ?a" using anchor_of_ok Cons.prems assms(1) by simp
  have a: "line_unmarshal ?b = Some (line_of ?a)" "LSigner (line_of ?a) = []" "LSeq (line_of ?a) = CSeq c" "LPrevAnchor (line_of ?a) = Some prev"
      "LCheckpoint (line_of ?a) = cp_Hash cr c" "LChainHead (line_of ?a) = ChainHead c"
    using anchor_roundtrip [OF ok] by (simp_all add: line_of_def anchor_of_def)
  let ?res = "res\<lparr>AnchorRecords := Suc (AnchorRecords res), Matched := Suc (Matched res)\<rparr>"
  have "check_link (line_of ?a) p res = res" using Cons.prems(7) a(4) by (simp add: check_link_def)
  moreover have "check_anchor cr cps (line_of ?a) (res\<lparr>AnchorRecords := Suc (AnchorRecords res)\<rparr>) = ?res"
    using Cons.prems(9) a by (simp add: check_anchor_def)
  ultimately have step: "anchor_loop cr k cps (anchor_lines cr prev (c # cs)) (seen, m, p, res) =
      anchor_loop cr k cps (anchor_lines cr (AnchorLineHash cr ?b) cs) (seen(CSeq c \<mapsto> cp_Hash cr c), max m (CSeq c), Some (AnchorLineHash cr ?b), ?res)"
    using Cons.prems(4) a by (simp add: Let_def)
  have new: "\<forall>x\<in>set cs. (seen(CSeq c \<mapsto> cp_Hash cr c)) (CSeq x) = None" using Cons.prems(3,4) by (auto simp: image_iff)
  show ?case unfolding step
    using new Cons.IH [of "seen(CSeq c \<mapsto> cp_Hash cr c)" "AnchorLineHash cr ?b" "Some (AnchorLineHash cr ?b)" ?res "max m (CSeq c)"]
      Cons.prems(1-3,8,9) AnchorLineHash_ok [of cr ?b] assms(1) by (auto simp del: fun_upd_apply)
qed simp

text \<open>What the checkpointer keeps of its anchor, as long as it has not reported a failure of it.\<close>

definition anchoring :: "crypto \<Rightarrow> checkpoint list \<Rightarrow> checkpointer \<Rightarrow> bool" where
  "anchoring cr cps c \<longleftrightarrow> map CSeq cps = [1..int (length cps)] \<and> ck_cpSeq c = int (length cps) \<and> list_all cp_short cps \<and>
     (CheckpointAnchor \<in> set (ck_reported c) \<or>
      (\<forall>fa. ck_anchor c = Some fa \<longrightarrow> fa_W fa = file_of (anchor_lines cr [] cps) \<and> fa_prev fa = anchor_tail cr [] cps))"

interpretation wit: flush_invariant cr "anchoring cr" for cr
proof unfold_locales
  fix cps c x ys
  show "anchoring cr cps (c\<lparr>ck_fromSeq := x, ck_leaves := ys\<rparr>) = anchoring cr cps c" by (simp add: anchoring_def)
next
  fix cps c fe n and h :: string
  assume a: "anchoring cr cps c" "flush_ok fe" "length h \<le> 64"
  let ?cp = "next_checkpoint cr c n h (fl_time fe)"
  have up: "[1..int (Suc (length cps))] = [1..int (length cps)] @ [int (length cps) + 1]" using upto_rec2 [of 1 "int (Suc (length cps))"] by (simp add: add.commute)
  have cp: "CSeq ?cp = ck_cpSeq c + 1" "cp_short ?cp" using a(2,3) by (simp_all add: next_checkpoint_def cp_short_def flush_ok_def)
  show "anchoring cr (flushed_cps cr fe n h c cps) (flushLocked cr fe n h c)"
  proof (cases "fl_write fe = None")
    case True
    then show ?thesis using a(1) cp up unfolding anchoring_def
      by (auto simp: flushed_cps_def flushLocked_def Let_def Anchor_def anchor_append_def anchor_lines_append add.commute split: option.splits)
  next
    case False
    then have "fl_write fe = Some 0" using a(2) by (auto simp: flush_ok_def clean_def)
    then show ?thesis using a(1) by (simp add: anchoring_def flushed_cps_def flushLocked_def Let_def)
  qed
qed

text \<open>A log written with an anchor is anchored. Under the conditions in which a flushed log is sealed, with a
  fresh anchor file attached, if the checkpointer has not reported a failure of the anchor, then the
  checkpoint file, read back and indexed by ordinal, is found "anchored" by the witness file.\<close>
theorem flushed_log_is_anchored:
  assumes "crypto_sized cr s" "list_all good_event es" "int (length es) + 2 < 2 ^ 63" "flush_ok fe" "fl_write fe = None"
    and "\<exists>(e, r)\<in>set es. we_write e = None"
    and "a = log_Flush cr fe (run_log cr es (WithCheckpointer (NewCheckpointer s [] every (Some (NewFileAnchor [] []))) (NewAuditLog (Some []) b)))"
    and "al_cp a = Some c" "ck_anchor c = Some fa" "CheckpointAnchor \<notin> set (ck_reported c)"
  shows "\<exists>cps res. parse_cps (raw_lines (ck_w c)) = Some cps \<and> VerifyAnchors cr (fa_W fa) (map (\<lambda>k. (CSeq k, k)) cps) = (res, False) \<and>
    AStatus res = Some AnchorStatusAnchored"
proof -
  let ?a = "run_log cr es (WithCheckpointer (NewCheckpointer s [] every (Some (NewFileAnchor [] []))) (NewAuditLog (Some []) b))"
  let ?rs = "written cr es []"
  have "anchoring cr [] (NewCheckpointer s [] every (Some (NewFileAnchor [] [])))" by (simp add: anchoring_def NewCheckpointer_def NewFileAnchor_def)
  then have ls: "log_sealing cr (anchoring cr) s ?rs ?a" using wit.run_sealing [OF assms(1,2) fresh_sealing] assms(3) by simp
  have len: "length ?rs = length (filter (\<lambda>(e, r). we_write e = None) es)" using written_extends [of cr es "[]"] by auto
  then have "length ?rs \<le> length es" by simp
  then have lim: "int (length ?rs) + 1 < 2 ^ 63" using assms(3) by simp
  have "filter (\<lambda>(e, r). we_write e = None) es \<noteq> []" using assms(6) by (auto simp: filter_empty_conv)
  then have ne: "?rs \<noteq> []" using len by auto
  obtain cps where f: "signed_files cr (PubKeyHex s) (log_text ?rs) (ck_w c) ?rs cps []" "anchoring cr cps c"
    using wit.flush_sealed [OF ls assms(1) ne assms(4,5) lim] assms(7,8) by auto
  have p: "parse_cps (raw_lines (ck_w c)) = Some cps" "cps \<noteq> []" using f(1) by (simp_all add: signed_files_def)
  have ok: "list_all cp_ok cps" using p(1) by (rule parse_cps_ok)
  have an: "map CSeq cps = [1..int (length cps)]" "list_all cp_short cps" "fa_W fa = file_of (anchor_lines cr [] cps)"
    using f(2) assms(9,10) by (auto simp: anchoring_def)
  have d: "distinct (map CSeq cps)" unfolding an(1) by simp
  let ?m = "map (\<lambda>k. (CSeq k, k)) cps"
  have look: "\<forall>k\<in>set cps. map_of ?m (CSeq k) = Some k" using d by (auto intro!: map_of_is_SomeI simp: comp_def)
  have ds: "digest_sized cr" using assms(1) by (simp add: crypto_sized_def)
  have fit: "list_all (\<lambda>l. one_line l \<and> length l < max_token) (anchor_lines cr [] cps)"
    using anchor_lines_fit [OF ok an(2) ds] by simp
  then have sc: "scan_lines (fa_W fa) = (anchor_lines cr [] cps, False)"
    unfolding an(3) by (intro scan_lines_file) (auto simp: list_all_iff)
  let ?k = "case ?m of [] \<Rightarrow> [] | (_, cp) # _ \<Rightarrow> CPubKey cp"
  obtain m' res' where lp: "anchor_loop cr ?k ?m (anchor_lines cr [] cps) (Map.empty, 0, None, zero_anchor_result) = (False, m', res')"
      "MismatchSeqs res' = []" "Matched res' = length cps"
    using anchor_loop_lines [OF ds look ok an(2) d, of Map.empty "[]" None zero_anchor_result ?k 0] by (auto simp: zero_anchor_result_def)
  have "VerifyAnchors cr (fa_W fa) ?m = (anchor_verdict ?m m' res', False)" using sc lp(1) by (simp add: VerifyAnchors_def Let_def)
  moreover have "AStatus (anchor_verdict ?m m' res') = Some AnchorStatusAnchored" using lp(2,3) p(2) by (simp add: anchor_verdict_def Let_def)
  ultimately show ?thesis using p(1) by blast
qed

subsection \<open>Concrete runs\<close>

definition demo_cp :: checkpoint where "demo_cp = zero_cp\<lparr>CSeq := 1\<rparr>"

lemma demo_cp_ok: "cp_ok demo_cp" "cp_short demo_cp"
  by (simp_all add: demo_cp_def zero_cp_def cp_ok_def cp_short_def)


definition anchored_start :: audit_log where
  "anchored_start = WithCheckpointer (NewCheckpointer demo_signer [] 1 (Some (NewFileAnchor [] []))) (NewAuditLog (Some []) False)"

lemma anchored_state:
  "\<exists>c fa. al_cp (log_Flush sized_crypto demo_flush (run_log sized_crypto [(demo_env None, zero_audit)] anchored_start)) = Some c \<and>
     ck_anchor c = Some fa \<and> CheckpointAnchor \<notin> set (ck_reported c)"
proof -
  have "hex_decode (chainHash cr r) = Some (sha256 cr (audit_marshal (r\<lparr>Hash := []\<rparr>)))" for cr r by (simp add: chainHash_def hash_hex_def)
  moreover have "fl_anchor demo_flush = None" by (simp add: demo_flush_def)
  ultimately show ?thesis
    by (simp add: anchored_start_def AuditLog_write_def WithCheckpointer_def NewAuditLog_def NewCheckpointer_def cp_add_def Let_def log_Flush_def
        cp_Flush_def flushLocked_def Anchor_def anchor_append_def NewFileAnchor_def)
qed

theorem flushed_log_is_anchored_witness:
  "\<exists>a c fa cps. a = log_Flush sized_crypto demo_flush (run_log sized_crypto [(demo_env None, zero_audit)] anchored_start) \<and>
     al_cp a = Some c \<and> ck_anchor c = Some fa \<and> parse_cps (raw_lines (ck_w c)) = Some cps \<and>
     AStatus (fst (VerifyAnchors sized_crypto (fa_W fa) (map (\<lambda>k. (CSeq k, k)) cps))) = Some AnchorStatusAnchored"
proof -
  let ?a = "log_Flush sized_crypto demo_flush (run_log sized_crypto [(demo_env None, zero_audit)] anchored_start)"
  obtain c fa where c: "al_cp ?a = Some c" "ck_anchor c = Some fa" "CheckpointAnchor \<notin> set (ck_reported c)" using anchored_state by blast
  have g: "list_all good_event [(demo_env None, zero_audit)]" using demo_admissible by (simp add: good_event_def clean_def)
  obtain cps res where "parse_cps (raw_lines (ck_w c)) = Some cps" "VerifyAnchors sized_crypto (fa_W fa) (map (\<lambda>k. (CSeq k, k)) cps) = (res, False)"
      "AStatus res = Some AnchorStatusAnchored"
    using flushed_log_is_anchored [OF sized_crypto_ok(1) g _ demo_admissible(2) _ _ refl c [unfolded anchored_start_def]] by auto
  then show ?thesis using c by auto
qed

end
