(* ===== verification/Frame.thy ===== *)
theory Frame
  imports Crypto
begin

text \<open>The wire format of the resumable session layer (\<^verbatim>\<open>src/session/frame.go\<close>).

  A frame type and every payload byte is a character, the stream a list of them.  \<^verbatim>\<open>uint64\<close> and
  \<^verbatim>\<open>uint32\<close> fields are naturals, written modulo their width by \<^verbatim>\<open>be_put\<close>.  The section on streams
  shows that a connection that breaks anywhere delivers a prefix of the frames written to it.\<close>

subsection \<open>Big-endian integers\<close>

fun be_put :: "nat \<Rightarrow> nat \<Rightarrow> bytes" where
  "be_put 0 k = []"
| "be_put (Suc n) k = be_put n (k div 256) @ [char_of (k mod 256)]"

definition be_get :: "bytes \<Rightarrow> nat" where
  "be_get bs = foldl (\<lambda>a b. 256 * a + of_char b) 0 bs"

definition u64 :: "nat \<Rightarrow> nat" where
  "u64 n = n mod 2 ^ 64"

subsection \<open>Frames\<close>

type_synonym sessionID = bytes

definition sessionIDLen :: nat where "sessionIDLen = 16"

definition maxPayload :: nat where "maxPayload = 64 * 1024"

definition frameAttach :: char where "frameAttach = CHR 0x01"
definition frameAttachOK :: char where "frameAttachOK = CHR 0x02"
definition frameData :: char where "frameData = CHR 0x03"
definition frameAck :: char where "frameAck = CHR 0x04"
definition framePing :: char where "framePing = CHR 0x05"
definition framePong :: char where "framePong = CHR 0x06"
definition frameClose :: char where "frameClose = CHR 0x07"
definition frameError :: char where "frameError = CHR 0x08"

lemmas frame_types =
  frameAttach_def frameAttachOK_def frameData_def frameAck_def framePing_def framePong_def frameClose_def
  frameError_def

definition zero_id :: sessionID where
  "zero_id = replicate sessionIDLen (CHR 0x00)"

definition id_String :: "sessionID \<Rightarrow> string" where
  "id_String i = hex_encode i"

definition isZero :: "sessionID \<Rightarrow> bool" where
  "isZero i = list_all (\<lambda>b. b = CHR 0x00) i"

record sframe =
  f_typ :: char
  f_id :: sessionID
  f_seq :: nat
  f_payload :: bytes

definition zero_frame :: sframe where
  "zero_frame = \<lparr>f_typ = CHR 0x00, f_id = zero_id, f_seq = 0, f_payload = []\<rparr>"

datatype frame_err = ShortRead | DataTooLarge nat | ErrorTooLarge nat | UnknownType char

definition writeFrame :: "sframe \<Rightarrow> frame_err + bytes" where
  "writeFrame f =
     (let t = f_typ f in
      if t = frameAttach \<or> t = frameAttachOK then Inr (t # f_id f @ be_put 8 (f_seq f))
      else if t = frameData then
        (if maxPayload < length (f_payload f) then Inl (DataTooLarge (length (f_payload f)))
         else Inr (t # be_put 8 (f_seq f) @ be_put 4 (length (f_payload f)) @ f_payload f))
      else if t = frameAck then Inr (t # be_put 8 (f_seq f))
      else if t = framePing \<or> t = framePong \<or> t = frameClose then Inr [t]
      else if t = frameError then Inr (t # be_put 4 (length (f_payload f)) @ f_payload f)
      else Inl (UnknownType t))"

text \<open>A reader consumes a prefix of the stream; an error is an early return.\<close>

type_synonym 'a reader = "bytes \<Rightarrow> frame_err + 'a \<times> bytes"

definition ret :: "'a \<Rightarrow> 'a reader" where
  "ret v bs = Inr (v, bs)"

definition failed :: "frame_err \<Rightarrow> 'a reader" where
  "failed e bs = Inl e"

definition and_then :: "'a reader \<Rightarrow> ('a \<Rightarrow> 'b reader) \<Rightarrow> 'b reader" where
  "and_then m k bs = (case m bs of Inl e \<Rightarrow> Inl e | Inr (v, r) \<Rightarrow> k v r)"

text \<open>\<^verbatim>\<open>io.ReadFull\<close> and \<^verbatim>\<open>binary.Read\<close>: exactly that many bytes, or the error of a stream that ended.\<close>

definition readFull :: "nat \<Rightarrow> bytes reader" where
  "readFull n bs = (if length bs < n then Inl ShortRead else Inr (take n bs, drop n bs))"

definition readUint :: "nat \<Rightarrow> nat reader" where
  "readUint n = and_then (readFull n) (\<lambda>v. ret (be_get v))"

definition readPayload :: "(nat \<Rightarrow> frame_err) \<Rightarrow> bytes reader" where
  "readPayload tooLarge =
     and_then (readUint 4) (\<lambda>n. if maxPayload < n then failed (tooLarge n) else readFull n)"

definition readBody :: "char \<Rightarrow> sframe reader" where
  "readBody t =
     (let f = zero_frame\<lparr>f_typ := t\<rparr> in
      if t = frameAttach \<or> t = frameAttachOK then
        and_then (readFull sessionIDLen) (\<lambda>i. and_then (readUint 8) (\<lambda>s. ret (f\<lparr>f_id := i, f_seq := s\<rparr>)))
      else if t = frameData then
        and_then (readUint 8) (\<lambda>s. and_then (readPayload DataTooLarge) (\<lambda>p. ret (f\<lparr>f_seq := s, f_payload := p\<rparr>)))
      else if t = frameAck then and_then (readUint 8) (\<lambda>s. ret (f\<lparr>f_seq := s\<rparr>))
      else if t = framePing \<or> t = framePong \<or> t = frameClose then ret f
      else if t = frameError then and_then (readPayload ErrorTooLarge) (\<lambda>p. ret (f\<lparr>f_payload := p\<rparr>))
      else failed (UnknownType t))"

definition readFrame :: "sframe reader" where
  "readFrame = and_then (readFull 1) (\<lambda>t. readBody (hd t))"

subsection \<open>Decoding what was encoded\<close>

text \<open>The frames the session layer builds: the fields a type does not carry are zero, the sequence
  number fits its field and the payload the limit.\<close>

definition wf_frame :: "sframe \<Rightarrow> bool" where
  "wf_frame f =
     (let t = f_typ f in
      length (f_id f) = sessionIDLen \<and> f_seq f < 2 ^ 64 \<and> length (f_payload f) \<le> maxPayload \<and>
      (if t = frameAttach \<or> t = frameAttachOK then f_payload f = []
       else if t = frameData then f_id f = zero_id
       else if t = frameAck then f_id f = zero_id \<and> f_payload f = []
       else if t = framePing \<or> t = framePong \<or> t = frameClose then
         f_id f = zero_id \<and> f_seq f = 0 \<and> f_payload f = []
       else t = frameError \<and> f_id f = zero_id \<and> f_seq f = 0))"

lemma length_be_put [simp]: "length (be_put n k) = n"
  by (induction n k rule: be_put.induct) simp_all

lemma be_get_snoc [simp]: "be_get (bs @ [b]) = 256 * be_get bs + of_char b"
  by (simp add: be_get_def)

lemma be_get_put: "be_get (be_put n k) = k mod 256 ^ n"
proof (induction n k rule: be_put.induct)
  case (2 n k)
  have "k mod (256 * 256 ^ n) = 256 * (k div 256 mod 256 ^ n) + k mod 256"
    by (simp add: mod_mult2_eq)
  then show ?case using 2 by (simp add: of_char_of)
qed (simp add: be_get_def)

lemma be_get_put_less [simp]: "k < 256 ^ n \<Longrightarrow> be_get (be_put n k) = k"
  by (simp add: be_get_put)

lemma be_get_less: "be_get bs < 256 ^ length bs"
proof (induction bs rule: rev_induct)
  case (snoc b bs)
  then have "256 * (be_get bs + 1) \<le> 256 ^ length (bs @ [b])" by (simp del: add_mult_distrib2 add: Suc_leI)
  moreover have "be_get (bs @ [b]) < 256 * (be_get bs + 1)" using of_char_lt_256 [of b] by (simp del: nat_of_char_less_256)
  ultimately show ?case by (rule less_le_trans [rotated])
qed (simp add: be_get_def)

lemma readFull_append [simp]: "length v = n \<Longrightarrow> readFull n (v @ r) = Inr (v, r)"
  by (simp add: readFull_def)

lemma and_then_simps [simp]:
  "ret v bs = Inr (v, bs)" "failed e bs = Inl e"
  "m bs = Inr (v, r) \<Longrightarrow> and_then m k bs = k v r" "m bs = Inl e \<Longrightarrow> and_then m k bs = Inl e"
  by (simp_all add: ret_def failed_def and_then_def)

lemma readUint_append [simp]: "k < 256 ^ n \<Longrightarrow> readUint n (be_put n k @ r) = Inr (k, r)"
  by (simp add: readUint_def)

lemma readPayload_append [simp]:
  "length p \<le> maxPayload \<Longrightarrow> readPayload e (be_put 4 (length p) @ p @ r) = Inr (p, r)"
  by (simp add: readPayload_def maxPayload_def)

lemma readFrame_Cons [simp]: "readFrame (t # r) = readBody t r" "readFrame [] = Inl ShortRead"
  by (simp_all add: readFrame_def readFull_def and_then_def)

lemma readFrame_writeFrame:
  assumes "wf_frame f" and "writeFrame f = Inr bs"
  shows "readFrame (bs @ r) = Inr (f, r)"
  using assms by (cases f)
    (auto simp: wf_frame_def writeFrame_def readBody_def zero_frame_def sessionIDLen_def Let_def frame_types
      split: if_splits)

lemma writeFrame_wf: "wf_frame f \<Longrightarrow> \<exists>bs. writeFrame f = Inr bs"
  by (auto simp: wf_frame_def writeFrame_def Let_def split: if_splits)

lemma writeFrame_not_empty: "writeFrame f \<noteq> Inr []"
  by (simp add: writeFrame_def Let_def)

subsection \<open>Streams of frames\<close>

text \<open>The bytes of a sequence of frames, and the frames a reader gets from a stream before its first
  error.\<close>

definition encode :: "sframe \<Rightarrow> bytes" where
  "encode f = (case writeFrame f of Inr bs \<Rightarrow> bs | Inl _ \<Rightarrow> [])"

definition encode_all :: "sframe list \<Rightarrow> bytes" where
  "encode_all fs = concat (map encode fs)"

text \<open>What every reader built this way satisfies: it does not extend the stream, more input does not
  change a result, and only the end of the stream is an error that more input can lift.\<close>

definition well_behaved :: "'a reader \<Rightarrow> bool" where
  "well_behaved m =
     (\<forall>bs q.
        (case m bs of
           Inr (v, r) \<Rightarrow> length r \<le> length bs \<and> m (bs @ q) = Inr (v, r @ q)
         | Inl e \<Rightarrow> e \<noteq> ShortRead \<longrightarrow> m (bs @ q) = Inl e))"

lemma well_behaved_and_then:
  assumes "well_behaved m" and "\<And>v. well_behaved (k v)"
  shows "well_behaved (and_then m k)"
  unfolding well_behaved_def
proof (intro allI)
  fix bs q
  show "case and_then m k bs of
      Inr (v, r) \<Rightarrow> length r \<le> length bs \<and> and_then m k (bs @ q) = Inr (v, r @ q)
    | Inl e \<Rightarrow> e \<noteq> ShortRead \<longrightarrow> and_then m k (bs @ q) = Inl e"
  proof (cases "m bs")
    case (Inl e)
    then show ?thesis using assms(1) [unfolded well_behaved_def, rule_format, of bs q] by simp
  next
    case (Inr x)
    obtain v r where x: "x = (v, r)" by (cases x)
    have "length r \<le> length bs" "m (bs @ q) = Inr (v, r @ q)"
      using assms(1) [unfolded well_behaved_def, rule_format, of bs q] Inr x by simp_all
    then show ?thesis
      using assms(2) [of v, unfolded well_behaved_def, rule_format, of r q] Inr x
      by (auto split: sum.splits)
  qed
qed

lemma well_behaved_prims: "well_behaved (ret v)" "well_behaved (failed e)" "well_behaved (readFull n)"
  by (simp_all add: well_behaved_def readFull_def)

lemmas well_behaved_intros = well_behaved_and_then well_behaved_prims

lemma well_behaved_readUint: "well_behaved (readUint n)"
  unfolding readUint_def by (intro well_behaved_intros)

lemma well_behaved_readPayload: "well_behaved (readPayload e)"
  unfolding readPayload_def by (intro well_behaved_intros well_behaved_readUint) (simp add: well_behaved_prims)

lemma well_behaved_readBody: "well_behaved (readBody t)"
  unfolding readBody_def Let_def
  by (simp add: well_behaved_prims well_behaved_and_then well_behaved_readUint well_behaved_readPayload)

lemma well_behaved_readFrame: "well_behaved readFrame"
  unfolding readFrame_def by (intro well_behaved_intros well_behaved_readBody)

lemma readFrame_shorter: "readFrame bs = Inr (f, r) \<Longrightarrow> length r < length bs"
  using well_behaved_readBody [of "hd bs", unfolded well_behaved_def, rule_format, of "tl bs" "[]"]
  by (cases bs) auto

function read_frames :: "bytes \<Rightarrow> sframe list \<times> frame_err" where
  "read_frames bs =
     (case readFrame bs of
        Inl e \<Rightarrow> ([], e)
      | Inr (f, r) \<Rightarrow> (let (fs, e) = read_frames r in (f # fs, e)))"
  by pat_completeness auto
termination by (relation "measure length") (auto dest: readFrame_shorter)

declare read_frames.simps [simp del]

lemma readFrame_more: "readFrame bs = Inr (f, r) \<Longrightarrow> readFrame (bs @ q) = Inr (f, r @ q)"
  using well_behaved_readFrame [unfolded well_behaved_def, rule_format, of bs q] by simp

lemma readFrame_fatal: "readFrame bs = Inl e \<Longrightarrow> e \<noteq> ShortRead \<Longrightarrow> readFrame (bs @ q) = Inl e"
  using well_behaved_readFrame [unfolded well_behaved_def, rule_format, of bs q] by simp

lemma readFrame_torn:
  assumes "wf_frame f" and "writeFrame f = Inr (p @ q)" and "q \<noteq> []"
  shows "readFrame p = Inl ShortRead"
proof (cases "readFrame p")
  case (Inl e)
  then show ?thesis
    using readFrame_fatal [OF Inl, of q] readFrame_writeFrame [OF assms(1,2), of "[]"] by auto
next
  case (Inr x)
  then obtain g r where "readFrame p = Inr (g, r)" by (cases x) auto
  then show ?thesis
    using readFrame_more [of p g r q] readFrame_writeFrame [OF assms(1,2), of "[]"] assms(3) by auto
qed

lemma encode_wf: "wf_frame f \<Longrightarrow> writeFrame f = Inr (encode f)"
  using writeFrame_wf [of f] by (auto simp: encode_def)

lemma encode_not_empty: "wf_frame f \<Longrightarrow> encode f \<noteq> []"
  using encode_wf [of f] writeFrame_not_empty [of f] by metis

lemma read_frames_encode:
  "wf_frame f \<Longrightarrow> read_frames (encode f @ r) = (let (fs, e) = read_frames r in (f # fs, e))"
  using readFrame_writeFrame [OF _ encode_wf, of f r] by (simp add: read_frames.simps [of "encode f @ r"])

lemma encode_all_simps [simp]:
  "encode_all [] = []" "encode_all (f # fs) = encode f @ encode_all fs"
  "encode_all (fs @ gs) = encode_all fs @ encode_all gs"
  by (simp_all add: encode_all_def)

text \<open>C32: Whatever the point at which a connection breaks, the reader of its far end gets exactly the
  frames that arrived whole, each equal to the frame written, in the order written, and then a read
  error: no torn, merged or altered frame.\<close>

theorem broken_stream_yields_frame_prefix:
  assumes "\<forall>f\<in>set fs. wf_frame f" and "encode_all fs = p @ q"
  shows "\<exists>k\<le>length fs. read_frames p = (take k fs, ShortRead) \<and>
           length (encode_all (take k fs)) \<le> length p \<and>
           (k < length fs \<longrightarrow> length p < length (encode_all (take (Suc k) fs)))"
  using assms
proof (induction fs arbitrary: p)
  case Nil
  then show ?case by (simp add: read_frames.simps)
next
  case (Cons f fs)
  have f: "wf_frame f" using Cons.prems(1) by simp
  show ?case
  proof (cases "length p < length (encode f)")
    case True
    then obtain u where u: "encode f = p @ u" "u \<noteq> []"
      using Cons.prems(2) by (auto simp: append_eq_append_conv2)
    then have "readFrame p = Inl ShortRead" using readFrame_torn [OF f, of p u] encode_wf [OF f] by simp
    then show ?thesis using True by (intro exI [of _ 0]) (simp add: read_frames.simps)
  next
    case False
    then obtain p' where p': "p = encode f @ p'" using Cons.prems(2) by (auto simp: append_eq_append_conv2)
    then have "encode_all fs = p' @ q" using Cons.prems(2) by simp
    then obtain k where k: "k \<le> length fs" "read_frames p' = (take k fs, ShortRead)"
      "length (encode_all (take k fs)) \<le> length p'"
      "k < length fs \<longrightarrow> length p' < length (encode_all (take (Suc k) fs))"
      using Cons.IH [of p'] Cons.prems(1) by auto
    then show ?thesis using f by (intro exI [of _ "Suc k"]) (auto simp: p' read_frames_encode)
  qed
qed

definition demo_frames :: "sframe list" where
  "demo_frames =
     [zero_frame\<lparr>f_typ := frameData, f_seq := 7, f_payload := ''ping''\<rparr>,
      zero_frame\<lparr>f_typ := frameAck, f_seq := 3\<rparr>]"

theorem broken_stream_yields_frame_prefix_witness:
  "list_all wf_frame demo_frames \<and> encode_all demo_frames = take 20 (encode_all demo_frames) @ drop 20 (encode_all demo_frames) \<and>
   read_frames (take 20 (encode_all demo_frames)) = (take 1 demo_frames, ShortRead)"
proof -
  have wf: "\<forall>f\<in>set demo_frames. wf_frame f"
    by (simp add: demo_frames_def wf_frame_def zero_frame_def zero_id_def sessionIDLen_def maxPayload_def
        frame_types)
  have len: "length (encode_all (take 0 demo_frames)) = 0" "length (encode_all (take 1 demo_frames)) = 17"
    "length (encode_all (take 2 demo_frames)) = 26" "length demo_frames = 2" "length (encode_all demo_frames) = 26"
    by (simp_all add: demo_frames_def encode_def writeFrame_def zero_frame_def Let_def frame_types maxPayload_def)
  obtain k where k: "k \<le> 2" "read_frames (take 20 (encode_all demo_frames)) = (take k demo_frames, ShortRead)"
    "length (encode_all (take k demo_frames)) \<le> 20"
    "k < 2 \<longrightarrow> 20 < length (encode_all (take (Suc k) demo_frames))"
    using broken_stream_yields_frame_prefix [OF wf append_take_drop_id [symmetric], of 20] len by auto
  have "k = 0 \<or> k = 1 \<or> k = 2" using k(1) by auto
  then have "k = 1" using k(3,4) len by (auto simp: numeral_2_eq_2)
  then show ?thesis using wf k(2) by (simp add: list_all_iff)
qed

text \<open>A frame that is read never carries more than the limit, whatever length the peer announced.\<close>

lemma and_then_Inr: "and_then m k bs = Inr (v, r) \<longleftrightarrow> (\<exists>u s. m bs = Inr (u, s) \<and> k u s = Inr (v, r))"
  by (auto simp: and_then_def split: sum.splits)

lemma readUint_less: "readUint n b = Inr (k, r) \<Longrightarrow> k < 256 ^ n"
  using be_get_less [of "take n b"] by (auto simp: readUint_def and_then_Inr readFull_def min_def split: if_splits)

lemma readPayload_bounded: "readPayload e b = Inr (p, r) \<Longrightarrow> length p \<le> maxPayload"
  by (auto simp: readPayload_def and_then_Inr readFull_def split: if_splits)

lemma readFrame_payload_bounded:
  "readFrame bs = Inr (f, r) \<Longrightarrow> length (f_payload f) \<le> maxPayload \<and> f_seq f < 256 ^ 8"
  by (cases bs) (auto simp: readBody_def zero_frame_def Let_def and_then_Inr simp del: power_numeral
      dest!: readPayload_bounded readUint_less split: if_splits)

end
