(* ===== verification/PeerError.thy ===== *)
theory PeerError
  imports Json
begin

text \<open>Peer-controlled error text (\<^verbatim>\<open>src/session/peer_error.go\<close>, \<^verbatim>\<open>sanitizeReason\<close> of
  \<^verbatim>\<open>src/session/move.go\<close>).

  The builder the code writes runes to is the list of their encodings; \<^verbatim>\<open>DecodeLastRuneInString\<close> then
  removes the last of them.\<close>

definition maxPeerErrorBytes :: int where "maxPeerErrorBytes = 4096"

text \<open>The control characters (0x00 to 0x1f, 0x7f, and 0x80 to 0x9f) by their encodings.\<close>

fun is_control :: "bytes \<Rightarrow> bool" where
  "is_control [c] = (code c \<le> 0x1F \<or> code c = 0x7F)"
| "is_control [c, d] = (code c = 0xC2 \<and> code d \<le> 0x9F)"
| "is_control _ = False"

definition shown_rune :: "bytes option \<Rightarrow> bytes" where
  "shown_rune r = (case r of None \<Rightarrow> ''?'' | Some b \<Rightarrow> b)"

fun sanitize_loop :: "nat \<Rightarrow> bytes option list \<Rightarrow> bytes list \<Rightarrow> bytes list \<times> bool" where
  "sanitize_loop m [] clean = (clean, False)"
| "sanitize_loop m (r # raw) clean =
     (let b = shown_rune r in
      if is_control b then sanitize_loop m raw clean
      else if m < length (concat clean) + length b then (clean, True)
      else sanitize_loop m raw (clean @ [b]))"

function trim_runes :: "nat \<Rightarrow> bytes list \<Rightarrow> bytes list" where
  "trim_runes limit ts = (if limit < length (concat ts) then trim_runes limit (butlast ts) else ts)"
  by pat_completeness auto
termination by (relation "measure (\<lambda>(_, t). length t)") (auto intro!: diff_less)

declare trim_runes.simps [simp del]

definition sanitizeErrorText :: "bytes \<Rightarrow> int \<Rightarrow> bytes" where
  "sanitizeErrorText raw maxBytes =
     (if maxBytes \<le> 0 then []
      else let m = nat maxBytes;
               (clean, truncated) = sanitize_loop m (runes raw) []
           in if \<not> truncated then concat clean
              else if m < 3 then take m ''...''
              else concat (trim_runes (m - 3) clean) @ ''...'')"

definition boundedPeerError :: "bytes \<Rightarrow> bytes \<Rightarrow> bytes" where
  "boundedPeerError prefix payload =
     (if maxPeerErrorBytes \<le> int (length prefix) then sanitizeErrorText prefix maxPeerErrorBytes
      else prefix @ sanitizeErrorText payload (maxPeerErrorBytes - int (length prefix)))"

definition sanitizeReason :: "bytes \<Rightarrow> bytes" where
  "sanitizeReason s =
     (let out = filter (\<lambda>r. \<not> (length r = 1 \<and> (code (hd r) < 0x20 \<or> code (hd r) = 0x7F)))
                  (map rune_out (runes (take 256 s)))
      in if out = [] then ''(no reason)'' else concat out)"

subsection \<open>What a reader of the text is shown\<close>

text \<open>A displayable text: a concatenation of well-formed runes, none of them a control character.\<close>

definition displayable :: "bytes \<Rightarrow> bool" where
  "displayable s = list_all (\<lambda>r. \<exists>b. r = Some b \<and> \<not> is_control b) (runes s)"

definition shown :: "bytes list \<Rightarrow> bool" where
  "shown rs = list_all (\<lambda>b. rune_ok b \<and> \<not> is_control b) rs"

lemma shown_displayable: "shown rs \<Longrightarrow> displayable (concat rs)"
  by (auto simp: shown_def displayable_def runes_concat list_all_iff)

lemma ascii_rune_ok: "code c < 0x80 \<Longrightarrow> rune_ok [c]"
  by (simp add: rune_ok_def rune_size.simps(2))

lemma sanitize_loop_shown:
  "sanitize_loop m raw clean = (out, t) \<Longrightarrow> shown clean \<Longrightarrow> \<forall>b. Some b \<in> set raw \<longrightarrow> rune_ok b \<Longrightarrow> shown out"
  by (induction raw arbitrary: clean)
    (auto simp: Let_def shown_def shown_rune_def ascii_rune_ok split: if_splits option.splits)

lemma sanitize_loop_length:
  "sanitize_loop m raw clean = (out, t) \<Longrightarrow> length (concat clean) \<le> m \<Longrightarrow> length (concat out) \<le> m"
  by (induction raw arbitrary: clean) (auto simp: Let_def split: if_splits)

lemma trim_runes_prefix: "\<exists>r. ts = trim_runes limit ts @ r"
proof (induction limit ts rule: trim_runes.induct)
  case (1 limit ts)
  show ?case
  proof (cases "limit < length (concat ts)")
    case True
    then have "ts \<noteq> []" by auto
    then have "ts = butlast ts @ [last ts]" by simp
    then show ?thesis using 1 True by (metis append.assoc trim_runes.simps)
  qed (simp add: trim_runes.simps)
qed

lemma trim_runes_length: "length (concat (trim_runes limit ts)) \<le> limit"
  by (induction limit ts rule: trim_runes.induct) (metis not_le trim_runes.simps)

lemma trim_runes_shown: "shown ts \<Longrightarrow> shown (trim_runes limit ts)"
  using trim_runes_prefix [of ts limit] by (metis list_all_append shown_def)

lemma dots_shown: "shown (replicate k ''.'')"
  by (simp add: shown_def list_all_iff ascii_rune_ok)

lemma dots_concat: "concat (replicate k ''.'') = replicate k (CHR ''.'')"
  by (induction k) simp_all

lemma sanitizeErrorText_shown:
  "\<exists>rs. sanitizeErrorText raw m = concat rs \<and> shown rs \<and> length (concat rs) \<le> nat m"
proof (cases "m \<le> 0")
  case True
  then show ?thesis by (intro exI [of _ "[]"]) (simp add: sanitizeErrorText_def shown_def)
next
  case False
  obtain clean t where l: "sanitize_loop (nat m) (runes raw) [] = (clean, t)" by fastforce
  have sh: "shown clean" using sanitize_loop_shown [OF l] runes_ok by (simp add: shown_def)
  have len: "length (concat clean) \<le> nat m" using sanitize_loop_length [OF l] by simp
  show ?thesis
  proof (cases t)
    case False
    then show ?thesis using \<open>\<not> m \<le> 0\<close> l sh len by (intro exI [of _ clean]) (simp add: sanitizeErrorText_def)
  next
    case t: True
    let ?k = "min 3 (nat m)"
    let ?rs = "(if nat m < 3 then [] else trim_runes (nat m - 3) clean) @ replicate ?k ''.''"
    have dots: "take (nat m) ''...'' = replicate ?k (CHR ''.'')" if "nat m < 3"
      using that False by (cases "nat m = 1"; cases "nat m = 2") (auto simp: numeral_2_eq_2 eval_nat_numeral)
    have three: "''...'' = replicate 3 (CHR ''.'')" by (simp add: eval_nat_numeral)
    have "sanitizeErrorText raw m = concat ?rs"
      using False l t dots three by (auto simp: sanitizeErrorText_def Let_def dots_concat min_def)
    moreover have "shown ?rs" using trim_runes_shown [OF sh] dots_shown by (simp add: shown_def)
    moreover have "length (concat ?rs) \<le> nat m"
      using trim_runes_length [of "nat m - 3" clean] by (auto simp: dots_concat min_def)
    ultimately show ?thesis by blast
  qed
qed

lemma displayable_append: "shown a \<Longrightarrow> shown b \<Longrightarrow> displayable (concat a @ concat b)"
  using shown_displayable [of "a @ b"] by (simp add: shown_def)

text \<open>Whatever bytes a peer puts into an error, the text shown is at most \<^term>\<open>maxPeerErrorBytes\<close> long,
  well-formed UTF-8 and without control characters, so it can neither flood nor drive a terminal or a log;
  the prefix is the program's own.\<close>

theorem peer_error_displayable:
  assumes "shown pre"
  shows "int (length (boundedPeerError (concat pre) payload)) \<le> maxPeerErrorBytes \<and>
         displayable (boundedPeerError (concat pre) payload)"
proof -
  obtain a where a: "sanitizeErrorText (concat pre) maxPeerErrorBytes = concat a" "shown a"
    "length (concat a) \<le> nat maxPeerErrorBytes" using sanitizeErrorText_shown by blast
  let ?m = "maxPeerErrorBytes - int (length (concat pre))"
  obtain b where b: "sanitizeErrorText payload ?m = concat b" "shown b" "length (concat b) \<le> nat ?m"
    using sanitizeErrorText_shown by blast
  show ?thesis
    using a b assms shown_displayable [OF a(2)] displayable_append [OF assms b(2)]
    by (auto simp: boundedPeerError_def maxPeerErrorBytes_def)
qed

theorem peer_error_displayable_witness:
  "shown [''e'', '':''] \<and> displayable (boundedPeerError ''e:'' [CHR 0x1B, CHR ''['', CHR 0xFF])"
  using peer_error_displayable [of "[''e'', '':'']" "[CHR 0x1B, CHR ''['', CHR 0xFF]"]
  by (simp add: shown_def ascii_rune_ok)

text \<open>Text without control characters that fits is shown as it is.\<close>

lemma sanitize_loop_id:
  "shown rs \<Longrightarrow> length (concat (clean @ rs)) \<le> m \<Longrightarrow> sanitize_loop m (map Some rs) clean = (clean @ rs, False)"
  by (induction rs arbitrary: clean) (auto simp: shown_def shown_rune_def Let_def)

lemma sanitizeErrorText_id:
  assumes "shown rs" and "length (concat rs) \<le> nat m"
  shows "sanitizeErrorText (concat rs) m = concat rs"
  using assms sanitize_loop_id [of rs "[]" "nat m"] runes_concat [of rs]
  by (auto simp: sanitizeErrorText_def shown_def list_all_iff)

lemma length_runes: "length (runes s) \<le> length s"
proof (induction s rule: runes.induct)
  case (2 c cs)
  then show ?case by (cases "rune_size (c # cs) = 0") (auto simp: runes.simps(2) [of c cs] Let_def intro: le_trans)
qed simp

end
