(* ===== verification/Endpoint.thy ===== *)
theory Endpoint
  imports Frame PeerError
begin

text \<open>The reliable-delivery core of a session, shared by client and server
  (\<^verbatim>\<open>src/session/endpoint.go\<close>).

  Every method runs under the endpoint's mutex and is a function of the record; the frames it hands
  to the bound connection are part of its result, and whether a write succeeds is an argument.  The
  send semaphore is the number of its free tokens.  Sequence numbers are \<^verbatim>\<open>uint64\<close>: an increment wraps
  through \<^const>\<open>u64\<close>.  Where \<^verbatim>\<open>select\<close> may take either of two ready branches, an argument chooses.\<close>

subsection \<open>State\<close>

definition defaultMaxSendFrames :: nat where "defaultMaxSendFrames = 1024"

definition inboundCap :: nat where "inboundCap = 256"

datatype ep_err = SendOverflow | PeerErr bytes | LocalErr string

record endpoint =
  e_id :: sessionID
  bound :: bool
  connGen :: nat
  sendSeq :: nat
  acked :: nat
  sendBuf :: "sframe list"
  recvSeq :: nat
  closed :: bool
  closeErr :: "ep_err option"
  inbound :: "bytes list"
  slots :: nat
  slot_cap :: nat

definition newEndpointCap :: "sessionID \<Rightarrow> int \<Rightarrow> endpoint" where
  "newEndpointCap i cap =
     (let c = (if cap \<le> 0 then defaultMaxSendFrames else nat cap)
      in \<lparr>e_id = i, bound = False, connGen = 0, sendSeq = 0, acked = 0, sendBuf = [], recvSeq = 0,
          closed = False, closeErr = None, inbound = [], slots = c, slot_cap = c\<rparr>)"

definition newEndpoint :: "sessionID \<Rightarrow> endpoint" where
  "newEndpoint i = newEndpointCap i (int defaultMaxSendFrames)"

subsection \<open>Writing\<close>

definition data_frame :: "nat \<Rightarrow> bytes \<Rightarrow> sframe" where
  "data_frame n p = zero_frame\<lparr>f_typ := frameData, f_seq := n, f_payload := p\<rparr>"

definition ack_frame :: "nat \<Rightarrow> sframe" where
  "ack_frame n = zero_frame\<lparr>f_typ := frameAck, f_seq := n\<rparr>"

text \<open>A write: whether it succeeded, and what it may have put on the wire.  A frame that does not
  encode never leaves the buffer; a write that fails may still have been sent in full.\<close>

definition writable :: "sframe \<Rightarrow> bool" where
  "writable f = (case writeFrame f of Inr _ \<Rightarrow> True | Inl _ \<Rightarrow> False)"

definition writeFrameLocked :: "bool \<Rightarrow> sframe \<Rightarrow> bool \<times> sframe list" where
  "writeFrameLocked ok f = (ok \<and> writable f, if writable f then [f] else [])"

definition dropConnLocked :: "endpoint \<Rightarrow> endpoint" where
  "dropConnLocked e = e\<lparr>bound := False\<rparr>"

definition detach :: "endpoint \<Rightarrow> endpoint" where
  "detach e = dropConnLocked e"

definition writeControl :: "bool \<Rightarrow> sframe \<Rightarrow> endpoint \<Rightarrow> endpoint \<times> sframe list" where
  "writeControl ok f e =
     (if \<not> bound e then (e, [])
      else let (good, out) = writeFrameLocked ok f in (if good then e else dropConnLocked e, out))"

definition sendAck :: "bool \<Rightarrow> nat \<Rightarrow> endpoint \<Rightarrow> endpoint \<times> sframe list" where
  "sendAck ok n e = writeControl ok (ack_frame n) e"

definition closeWith :: "ep_err option \<Rightarrow> endpoint \<Rightarrow> endpoint" where
  "closeWith err e = (if closed e then e else dropConnLocked (e\<lparr>closed := True, closeErr := err\<rparr>))"

definition sendClose :: "bool \<Rightarrow> endpoint \<Rightarrow> endpoint \<times> sframe list" where
  "sendClose ok e =
     (if closed e then (e, [])
      else (dropConnLocked (e\<lparr>closed := True\<rparr>),
            if bound e then snd (writeFrameLocked ok (zero_frame\<lparr>f_typ := frameClose\<rparr>)) else []))"

datatype send_result = SendOK | SendErr "ep_err option" | SendBlocked

definition Send :: "bool \<Rightarrow> bool \<Rightarrow> bool \<Rightarrow> bytes \<Rightarrow> endpoint \<Rightarrow> endpoint \<times> sframe list \<times> send_result" where
  "Send pickSlot expired ok p e =
     (if p = [] then (e, [], SendOK)
      else if closed e \<and> (slots e = 0 \<or> \<not> pickSlot) then (e, [], SendErr (closeErr e))
      else if slots e = 0 then
        (if expired then (closeWith (Some SendOverflow) e, [], SendErr (Some SendOverflow))
         else (e, [], SendBlocked))
      else
        (let e = e\<lparr>slots := slots e - 1\<rparr> in
         if closed e then (e, [], SendErr (closeErr e))
         else
           (let e = e\<lparr>sendSeq := u64 (sendSeq e + 1)\<rparr>;
                f = data_frame (sendSeq e) p;
                e = e\<lparr>sendBuf := sendBuf e @ [f]\<rparr>
            in if \<not> bound e then (e, [], SendOK)
               else let (good, out) = writeFrameLocked ok f
                    in (if good then e else dropConnLocked e, out, SendOK))))"

subsection \<open>Acknowledgement and rebinding\<close>

definition ackLocked :: "nat \<Rightarrow> endpoint \<Rightarrow> endpoint" where
  "ackLocked cur e =
     (if cur \<le> acked e then e
      else let i = length (takeWhile (\<lambda>f. f_seq f \<le> cur) (sendBuf e))
           in e\<lparr>acked := cur, sendBuf := drop i (sendBuf e), slots := min (slot_cap e) (slots e + i)\<rparr>)"

text \<open>The replay loop of \<^verbatim>\<open>bind\<close>; \<^term>\<open>ok i\<close> tells whether its \<open>i\<close>-th write succeeds.\<close>

fun replay :: "(nat \<Rightarrow> bool) \<Rightarrow> sframe list \<Rightarrow> bool \<times> sframe list" where
  "replay ok [] = (True, [])"
| "replay ok (f # fs) =
     (let (good, out) = writeFrameLocked (ok 0) f
      in if good then (let (g, more) = replay (\<lambda>i. ok (Suc i)) fs in (g, out @ more)) else (False, out))"

definition bind :: "(nat \<Rightarrow> bool) \<Rightarrow> nat \<Rightarrow> endpoint \<Rightarrow> endpoint \<times> sframe list \<times> nat" where
  "bind ok peerRecv e =
     (let e = (ackLocked peerRecv e)\<lparr>bound := True, connGen := u64 (connGen e + 1)\<rparr>;
          (good, out) = replay ok (sendBuf e)
      in (if good then e else dropConnLocked e, out, connGen e))"

subsection \<open>Receiving\<close>

text \<open>One frame read by \<^verbatim>\<open>pumpReader\<close>: the state after its critical sections, the frames written, and
  what the pump does next (hand a payload to the application, run the acknowledgement callback, go on
  reading or return).\<close>

datatype pump_next = Reading | AfterAck | Hand bytes | Stopped "ep_err option"

definition peer_error_prefix :: string where "peer_error_prefix = ''session: peer error: ''"

definition pump_frame :: "bool \<Rightarrow> sframe \<Rightarrow> endpoint \<Rightarrow> endpoint \<times> sframe list \<times> pump_next" where
  "pump_frame ok f e =
     (if f_typ f = frameData then
        (if f_seq f = u64 (recvSeq e + 1) then
           (let (e, out) = sendAck ok (f_seq f) (e\<lparr>recvSeq := f_seq f\<rparr>) in (e, out, Hand (f_payload f)))
         else (let (e, out) = sendAck ok (recvSeq e) e in (e, out, Reading)))
      else if f_typ f = frameAck then (ackLocked (f_seq f) e, [], AfterAck)
      else if f_typ f = framePing then
        (let (e, out) = writeControl ok (zero_frame\<lparr>f_typ := framePong\<rparr>) e in (e, out, Reading))
      else if f_typ f = framePong then (e, [], Reading)
      else if f_typ f = frameClose then (closeWith None e, [], Stopped None)
      else if f_typ f = frameError then
        (let err = Some (PeerErr (boundedPeerError peer_error_prefix (f_payload f)))
         in (closeWith err e, [], Stopped err))
      else (e, [], Reading))"

definition hand_over :: "bytes \<Rightarrow> endpoint \<Rightarrow> endpoint" where
  "hand_over p e = e\<lparr>inbound := inbound e @ [p]\<rparr>"

datatype pump_exit = Rebound | ReadErr frame_err

definition pump_read_error :: "nat \<Rightarrow> frame_err \<Rightarrow> endpoint \<Rightarrow> pump_exit" where
  "pump_read_error gen err e = (if connGen e \<noteq> gen then Rebound else ReadErr err)"

definition recvCursor :: "endpoint \<Rightarrow> nat" where
  "recvCursor e = recvSeq e"

definition drained :: "endpoint \<Rightarrow> bool" where
  "drained e = (sendSeq e \<le> acked e)"

subsection \<open>The send buffer is bounded\<close>

text \<open>No token is created: the frames buffered and the free tokens never exceed the capacity.\<close>

definition slots_ok :: "endpoint \<Rightarrow> bool" where
  "slots_ok e = (slots e + length (sendBuf e) \<le> slot_cap e)"

lemma same_slots [simp]:
  "slots_ok (dropConnLocked e) = slots_ok e" "slots_ok (e\<lparr>recvSeq := n\<rparr>) = slots_ok e"
  "slots_ok (hand_over p e) = slots_ok e" "slots_ok (closeWith err e) = slots_ok e"
  by (simp_all add: slots_ok_def dropConnLocked_def hand_over_def closeWith_def)

lemma slots_ok_new: "slots_ok (newEndpointCap i c)"
  by (simp add: slots_ok_def newEndpointCap_def Let_def)

lemma slots_ok_Send: "Send pick ex ok p e = (e', out, res) \<Longrightarrow> slots_ok e \<Longrightarrow> slots_ok e'"
  by (auto simp: Send_def slots_ok_def closeWith_def dropConnLocked_def Let_def split: if_splits prod.splits)

lemma slots_ok_ack: "slots_ok e \<Longrightarrow> slots_ok (ackLocked u e)"
proof -
  have "length (takeWhile P xs) \<le> length xs" for P and xs :: "sframe list" by (rule length_takeWhile_le)
  then show "slots_ok e \<Longrightarrow> slots_ok (ackLocked u e)"
    by (fastforce simp: ackLocked_def slots_ok_def Let_def)
qed

lemma slots_ok_bind: "bind ok r e = (e', out, g) \<Longrightarrow> slots_ok e \<Longrightarrow> slots_ok e'"
  using slots_ok_ack [of e r] by (auto simp: bind_def slots_ok_def dropConnLocked_def Let_def split: prod.splits)

lemma slots_ok_control: "writeControl ok f e = (e', out) \<Longrightarrow> slots_ok e \<Longrightarrow> slots_ok e'"
  by (auto simp: writeControl_def split: if_splits prod.splits)

lemma slots_ok_pump: "pump_frame ok f e = (e', out, nx) \<Longrightarrow> slots_ok e \<Longrightarrow> slots_ok e'"
  by (auto simp: pump_frame_def sendAck_def slots_ok_ack Let_def dest!: slots_ok_control split: if_splits prod.splits)

end
