(* ===== verification/Delivery.thy ===== *)
theory Delivery
  imports Endpoint
begin

text \<open>Two endpoints over a connection that may be replaced at any time: ordered, exactly-once delivery
  (the contract of \<^verbatim>\<open>src/session/endpoint.go\<close> and the handshakes of \<^verbatim>\<open>src/session/client.go\<close> and
  \<^verbatim>\<open>src/session/server.go\<close>).

  The step relation is the most hostile network the code could meet: a frame once written may be read
  at any later time, any number of times and in any order, or never.  That covers broken connections,
  half-written streams (which yield a prefix, see \<^verbatim>\<open>Frame\<close>) and pumps of replaced connections that
  still hold buffered frames.  The parameter \<open>n\<close> is the number of pumps that may hold a payload at the
  same time: a pump takes a frame in one critical section and hands the payload over later.\<close>

subsection \<open>The system\<close>

datatype side = Client | Server

fun other :: "side \<Rightarrow> side" where
  "other Client = Server"
| "other Server = Client"

text \<open>\<open>sent\<close> and \<open>got\<close> record what the application sent and what it took from the inbound channel.\<close>

record duplex =
  ends :: "side \<Rightarrow> endpoint"
  wire :: "side \<Rightarrow> sframe list"
  hands :: "side \<Rightarrow> bytes list"
  sent :: "side \<Rightarrow> bytes list"
  got :: "side \<Rightarrow> bytes list"

definition put :: "side \<Rightarrow> endpoint \<Rightarrow> sframe list \<Rightarrow> duplex \<Rightarrow> duplex" where
  "put s e out d = d\<lparr>ends := (ends d)(s := e), wire := (wire d)(s := wire d s @ out)\<rparr>"

text \<open>The handshake frame of a side: it announces the receive cursor.\<close>

definition hello_type :: "side \<Rightarrow> char" where
  "hello_type s = (case s of Client \<Rightarrow> frameAttach | Server \<Rightarrow> frameAttachOK)"

definition hello :: "side \<Rightarrow> endpoint \<Rightarrow> sframe" where
  "hello s e = zero_frame\<lparr>f_typ := hello_type s, f_id := e_id e, f_seq := recvCursor e\<rparr>"

definition drop_nth :: "nat \<Rightarrow> 'a list \<Rightarrow> 'a list" where
  "drop_nth i xs = take i xs @ drop (Suc i) xs"

definition open_session :: "sessionID \<Rightarrow> duplex" where
  "open_session i =
     \<lparr>ends = (\<lambda>_. newEndpoint i), wire = (\<lambda>_. []), hands = (\<lambda>_. []), sent = (\<lambda>_. []), got = (\<lambda>_. [])\<rparr>"

inductive step :: "nat \<Rightarrow> duplex \<Rightarrow> duplex \<Rightarrow> bool" for n :: nat where
  send: "Send pick ex ok p (ends d s) = (e, out, res) \<Longrightarrow>
     step n d ((put s e out d)\<lparr>sent := (if res = SendOK \<and> p \<noteq> [] then (sent d)(s := sent d s @ [p]) else sent d)\<rparr>)"
| recv: "f \<in> set (wire d (other s)) \<Longrightarrow> \<not> closed (ends d s) \<Longrightarrow> length (hands d s) < n \<Longrightarrow>
     pump_frame ok f (ends d s) = (e, out, nx) \<Longrightarrow>
     step n d ((put s e out d)\<lparr>hands := (case nx of Hand p \<Rightarrow> (hands d)(s := hands d s @ [p]) | _ \<Rightarrow> hands d)\<rparr>)"
| deliver: "i < length (hands d s) \<Longrightarrow> length (inbound (ends d s)) < inboundCap \<Longrightarrow>
     step n d ((put s (hand_over (hands d s ! i) (ends d s)) [] d)\<lparr>hands := (hands d)(s := drop_nth i (hands d s))\<rparr>)"
| abandon: "i < length (hands d s) \<Longrightarrow> closed (ends d s) \<Longrightarrow>
     step n d (d\<lparr>hands := (hands d)(s := drop_nth i (hands d s))\<rparr>)"
| consume: "inbound (ends d s) = p # q \<Longrightarrow>
     step n d ((put s ((ends d s)\<lparr>inbound := q\<rparr>) [] d)\<lparr>got := (got d)(s := got d s @ [p])\<rparr>)"
| announce: "step n d (put s (ends d s) [hello s (ends d s)] d)"
| rebind: "f \<in> set (wire d (other s)) \<Longrightarrow> f_typ f = hello_type (other s) \<Longrightarrow>
     bind oks (f_seq f) (ends d s) = (e, out, g) \<Longrightarrow> step n d (put s e out d)"
| control: "f = zero_frame\<lparr>f_typ := framePing\<rparr> \<Longrightarrow> writeControl ok f (ends d s) = (e, out) \<Longrightarrow> step n d (put s e out d)"
| unbind: "step n d (put s (detach (ends d s)) [] d)"
| shut: "step n d (put s (closeWith err (ends d s)) [] d)"
| finish: "sendClose ok (ends d s) = (e, out) \<Longrightarrow> step n d (put s e out d)"

inductive reaches :: "nat \<Rightarrow> duplex \<Rightarrow> duplex \<Rightarrow> bool" for n :: nat and d0 :: duplex where
  start: "reaches n d0 d0"
| more: "reaches n d0 d \<Longrightarrow> step n d d' \<Longrightarrow> reaches n d0 d'"

subsection \<open>The invariant\<close>

text \<open>The frames of a list of payloads, numbered from one.\<close>

definition numbered :: "bytes list \<Rightarrow> sframe list" where
  "numbered h = map (\<lambda>(i, p). data_frame (Suc i) p) (enumerate 0 h)"

definition tx_ok :: "bytes list \<Rightarrow> nat \<Rightarrow> endpoint \<Rightarrow> bool" where
  "tx_ok h r e = (sendSeq e = length h \<and> acked e \<le> r \<and> sendBuf e = drop (acked e) (numbered h))"

definition rx_ok :: "bytes list \<Rightarrow> endpoint \<Rightarrow> bytes list \<Rightarrow> bytes list \<Rightarrow> bool" where
  "rx_ok h e hs gs =
     (recvSeq e \<le> length h \<and> length hs \<le> 1 \<and>
      (\<exists>rest. take (recvSeq e) h = gs @ inbound e @ hs @ rest \<and> (closed e \<or> rest = [])))"

definition data_ok :: "bytes list \<Rightarrow> sframe list \<Rightarrow> bool" where
  "data_ok h w = (\<forall>f\<in>set w. f_typ f = frameData \<longrightarrow> 1 \<le> f_seq f \<and> f_seq f \<le> length h \<and> f_payload f = h ! (f_seq f - 1))"

definition cursors_ok :: "nat \<Rightarrow> sframe list \<Rightarrow> bool" where
  "cursors_ok r w = (\<forall>f\<in>set w. f_typ f \<in> {frameAck, frameAttach, frameAttachOK} \<longrightarrow> f_seq f \<le> r)"

definition flow :: "duplex \<Rightarrow> side \<Rightarrow> bool" where
  "flow d s =
     (let o' = other s in
      tx_ok (sent d s) (recvSeq (ends d o')) (ends d s) \<and> data_ok (sent d s) (wire d s) \<and>
      cursors_ok (recvSeq (ends d o')) (wire d o') \<and> rx_ok (sent d s) (ends d o') (hands d o') (got d o'))"

lemma other_simps [simp]: "other (other s) = s" "other s \<noteq> s" "s \<noteq> other s"
  by (cases s; simp)+

lemma numbered_simps [simp]:
  "length (numbered h) = length h" "numbered [] = []"
  "numbered (h @ [p]) = numbered h @ [data_frame (Suc (length h)) p]"
  by (simp_all add: numbered_def enumerate_append_eq)

lemma numbered_nth: "i < length h \<Longrightarrow> numbered h ! i = data_frame (Suc i) (h ! i)"
  by (simp add: numbered_def nth_enumerate_eq)

lemma data_frame_sel [simp]:
  "f_typ (data_frame n p) = frameData" "f_seq (data_frame n p) = n" "f_payload (data_frame n p) = p"
  "f_typ (ack_frame n) = frameAck" "f_seq (ack_frame n) = n"
  "f_typ (hello s e) = hello_type s" "f_seq (hello s e) = recvSeq e"
  by (simp_all add: data_frame_def ack_frame_def hello_def recvCursor_def)

lemma type_neq [simp]:
  "frameData \<noteq> frameAck" "frameAck \<noteq> frameData" "frameData \<noteq> framePong" "frameData \<noteq> framePing"
  "frameData \<noteq> frameClose" "frameAck \<noteq> framePing" "hello_type s \<noteq> frameData" "hello_type s \<noteq> frameAck"
  "framePing \<noteq> frameData" "framePong \<noteq> frameData" "frameClose \<noteq> frameData"
  "framePing \<notin> {frameAck, frameAttach, frameAttachOK}" "framePong \<notin> {frameAck, frameAttach, frameAttachOK}"
  "frameClose \<notin> {frameAck, frameAttach, frameAttachOK}" "frameData \<notin> {frameAck, frameAttach, frameAttachOK}"
  "hello_type s \<in> {frameAttach, frameAttachOK}"
  by (simp_all add: frame_types hello_type_def split: side.splits)

lemma tx_data: "tx_ok h r e \<Longrightarrow> f \<in> set (sendBuf e) \<Longrightarrow> f_typ f = frameData \<and> 1 \<le> f_seq f \<and> f_seq f \<le> length h \<and> f_payload f = h ! (f_seq f - 1)"
  by (auto simp: tx_ok_def in_set_conv_nth numbered_nth dest!: in_set_dropD)

subsection \<open>What each operation keeps of it\<close>

text \<open>The part of an endpoint its receiving side depends on.\<close>

definition same_rx :: "endpoint \<Rightarrow> endpoint \<Rightarrow> bool" where
  "same_rx e e' = (recvSeq e' = recvSeq e \<and> inbound e' = inbound e \<and> (closed e \<longrightarrow> closed e'))"

definition same_tx :: "endpoint \<Rightarrow> endpoint \<Rightarrow> bool" where
  "same_tx e e' = (sendSeq e' = sendSeq e \<and> acked e' = acked e \<and> sendBuf e' = sendBuf e)"

lemma rx_mono: "rx_ok h e hs gs \<Longrightarrow> same_rx e e' \<Longrightarrow> rx_ok h e' hs gs"
  by (auto simp: rx_ok_def same_rx_def)

lemma tx_same: "tx_ok h r e \<Longrightarrow> same_tx e e' \<Longrightarrow> r \<le> r' \<Longrightarrow> tx_ok h r' e'"
  by (auto simp: tx_ok_def same_tx_def)

lemma rx_more: "rx_ok h e hs gs \<Longrightarrow> rx_ok (h @ [p]) e hs gs"
  by (auto simp: rx_ok_def)

lemma data_more: "data_ok h w \<Longrightarrow> data_ok (h @ [p]) w"
  by (auto simp: data_ok_def nth_append)

lemma data_append [simp]: "data_ok h (w @ v) \<longleftrightarrow> data_ok h w \<and> data_ok h v" "data_ok h []"
  by (auto simp: data_ok_def)

lemma cursors_append [simp]: "cursors_ok r (w @ v) \<longleftrightarrow> cursors_ok r w \<and> cursors_ok r v" "cursors_ok r []"
  by (auto simp: cursors_ok_def)

lemma cursors_mono: "cursors_ok r w \<Longrightarrow> r \<le> r' \<Longrightarrow> cursors_ok r' w"
  by (auto simp: cursors_ok_def)

lemma same_refl [simp]: "same_rx e e" "same_tx e e"
  by (simp_all add: same_rx_def same_tx_def)

lemma drop_conn_same [simp]:
  "same_rx e (dropConnLocked e)" "same_tx e (dropConnLocked e)" "same_rx e (detach e)" "same_tx e (detach e)"
  "same_rx e (closeWith err e)" "same_tx e (closeWith err e)"
  by (simp_all add: same_rx_def same_tx_def dropConnLocked_def detach_def closeWith_def)

lemma writeFrameLocked_out: "writeFrameLocked ok f = (g, out) \<Longrightarrow> set out \<subseteq> {f}"
  by (auto simp: writeFrameLocked_def)

lemma writeControl_same:
  "writeControl ok f e = (e', out) \<Longrightarrow> same_rx e e' \<and> same_tx e e' \<and> set out \<subseteq> {f}"
  by (auto simp: writeControl_def dest!: writeFrameLocked_out split: if_splits prod.splits)

lemma sendClose_same:
  "sendClose ok e = (e', out) \<Longrightarrow> same_rx e e' \<and> same_tx e e' \<and> set out \<subseteq> {zero_frame\<lparr>f_typ := frameClose\<rparr>}"
  by (auto simp: sendClose_def same_rx_def same_tx_def dropConnLocked_def writeFrameLocked_def split: if_splits)

lemma ack_keeps:
  assumes "tx_ok h r e" and "u \<le> r" and "r \<le> length h"
  shows "tx_ok h r (ackLocked u e)" and "same_rx e (ackLocked u e)"
proof -
  have t: "takeWhile (\<lambda>f. f_seq f \<le> u) (drop a (numbered h)) = take (u - a) (drop a (numbered h))" if "a \<le> u" "u \<le> length h" for a
  proof (rule takeWhile_eq_take_P_nth)
    show "f_seq (drop a (numbered h) ! i) \<le> u" if "i < u - a" "i < length (drop a (numbered h))" for i
      using that by (simp add: numbered_nth)
    show "\<not> f_seq (drop a (numbered h) ! (u - a)) \<le> u" if "u - a < length (drop a (numbered h))"
      using that \<open>a \<le> u\<close> by (simp add: numbered_nth)
  qed
  show "tx_ok h r (ackLocked u e)"
    using assms t [of "acked e"] by (auto simp: tx_ok_def ackLocked_def Let_def min_def)
  show "same_rx e (ackLocked u e)" by (simp add: same_rx_def ackLocked_def Let_def)
qed

lemma replay_out: "replay ok fs = (g, out) \<Longrightarrow> set out \<subseteq> set fs"
  by (induction fs arbitrary: ok g out) (fastforce simp: writeFrameLocked_def split: if_splits prod.splits)+

lemma bind_keeps:
  assumes "bind oks u e = (e', out, g)" and "tx_ok h r e" and "u \<le> r" and "r \<le> length h"
  shows "tx_ok h r e'" and "same_rx e e'" and "set out \<subseteq> set (sendBuf e')"
proof -
  have a: "tx_ok h r (ackLocked u e)" "same_rx e (ackLocked u e)" using ack_keeps [OF assms(2-4)] by simp_all
  show "tx_ok h r e'" "same_rx e e'" "set out \<subseteq> set (sendBuf e')"
    using a assms(1) by (auto simp: bind_def tx_ok_def same_rx_def dropConnLocked_def Let_def dest!: replay_out split: prod.splits if_splits)
qed

lemma Send_keeps:
  assumes "Send pick ex ok p e = (e', out, res)" and "tx_ok h r e" and "r \<le> length h" and "Suc (length h) < 2 ^ 64"
  shows "res = SendOK \<and> p \<noteq> [] \<Longrightarrow> tx_ok (h @ [p]) r e' \<and> data_ok (h @ [p]) out"
    and "\<not> (res = SendOK \<and> p \<noteq> []) \<Longrightarrow> same_tx e e' \<and> out = []"
    and "same_rx e e'" and "cursors_ok q out"
proof -
  have u: "u64 (Suc (length h)) = Suc (length h)" using assms(4) by (simp add: u64_def)
  show "res = SendOK \<and> p \<noteq> [] \<Longrightarrow> tx_ok (h @ [p]) r e' \<and> data_ok (h @ [p]) out"
    using assms(1-3)
    by (auto simp: Send_def tx_ok_def data_ok_def u nth_append Let_def dropConnLocked_def
        writeFrameLocked_def split: if_splits prod.splits)
  show "\<not> (res = SendOK \<and> p \<noteq> []) \<Longrightarrow> same_tx e e' \<and> out = []"
    using assms(1)
    by (auto simp: Send_def same_tx_def Let_def dropConnLocked_def closeWith_def split: if_splits prod.splits)
  show "same_rx e e'"
    using assms(1) by (auto simp: Send_def same_rx_def dropConnLocked_def closeWith_def Let_def split: if_splits prod.splits)
  show "cursors_ok q out"
    using assms(1) by (auto simp: Send_def cursors_ok_def Let_def writeFrameLocked_def data_frame_def frame_types
        split: if_splits prod.splits)
qed

lemma only_data: "set out \<subseteq> {f} \<Longrightarrow> f_typ f \<noteq> frameData \<Longrightarrow> data_ok h out"
  by (auto simp: data_ok_def)

lemma only_cursor: "set out \<subseteq> {f} \<Longrightarrow> f_typ f \<in> {frameAck, frameAttach, frameAttachOK} \<longrightarrow> f_seq f \<le> r \<Longrightarrow> cursors_ok r out"
  by (auto simp: cursors_ok_def)

lemma sendAck_same:
  "sendAck ok k e = (e', out) \<Longrightarrow> same_rx e e' \<and> same_tx e e' \<and> set out \<subseteq> {ack_frame k}"
  unfolding sendAck_def by (rule writeControl_same)

lemma rx_accept:
  assumes "rx_ok h e [] gs" and "\<not> closed e" and "Suc (recvSeq e) \<le> length h"
  shows "rx_ok h (e\<lparr>recvSeq := Suc (recvSeq e)\<rparr>) [h ! recvSeq e] gs"
  using assms by (auto simp: rx_ok_def take_Suc_conv_app_nth)

lemma pump_keeps:
  assumes p: "pump_frame ok f e = (e', out, nx)" and tx: "tx_ok h r e" "r \<le> length h"
    and rx: "rx_ok h' e [] gs" "\<not> closed e" "length h' < 2 ^ 64"
    and ack: "f_typ f = frameAck \<Longrightarrow> f_seq f \<le> r"
    and dat: "f_typ f = frameData \<Longrightarrow> 1 \<le> f_seq f \<and> f_seq f \<le> length h' \<and> f_payload f = h' ! (f_seq f - 1)"
  shows "tx_ok h r e' \<and> rx_ok h' e' (case nx of Hand p \<Rightarrow> [p] | _ \<Rightarrow> []) gs \<and> data_ok h out \<and>
         cursors_ok (recvSeq e') out \<and> recvSeq e \<le> recvSeq e'"
proof (cases "f_typ f = frameData")
  case True
  show ?thesis
  proof (cases "f_seq f = u64 (recvSeq e + 1)")
    case fresh: True
    have n: "f_seq f = Suc (recvSeq e)"
      using fresh dat [OF True] rx(1,3) by (cases "Suc (recvSeq e) = 2 ^ 64") (auto simp: u64_def rx_ok_def)
    obtain s where s: "sendAck ok (f_seq f) (e\<lparr>recvSeq := f_seq f\<rparr>) = (e', out)" "nx = Hand (f_payload f)"
      using p True fresh by (auto simp: pump_frame_def split: prod.splits)
    have a: "same_rx (e\<lparr>recvSeq := f_seq f\<rparr>) e'" "same_tx (e\<lparr>recvSeq := f_seq f\<rparr>) e'" "set out \<subseteq> {ack_frame (f_seq f)}"
      using sendAck_same [OF s(1)] by simp_all
    have "rx_ok h' (e\<lparr>recvSeq := f_seq f\<rparr>) [f_payload f] gs"
      using rx_accept [OF rx(1,2)] dat [OF True] n by simp
    then have "rx_ok h' e' [f_payload f] gs" using rx_mono a(1) by blast
    moreover have "tx_ok h r e'" using tx_same [OF tx(1), of e' r] a(2) by (simp add: same_tx_def)
    moreover have "recvSeq e' = Suc (recvSeq e)" using a(1) n by (simp add: same_rx_def)
    ultimately show ?thesis using only_data [OF a(3)] only_cursor [OF a(3)] n s(2) by simp
  next
    case False
    then have s: "sendAck ok (recvSeq e) e = (e', out)" "nx = Reading"
      using p True by (auto simp: pump_frame_def split: prod.splits)
    then have a: "same_rx e e'" "same_tx e e'" "set out \<subseteq> {ack_frame (recvSeq e)}" using sendAck_same [OF s(1)] by simp_all
    have "recvSeq e' = recvSeq e" using a(1) by (simp add: same_rx_def)
    then show ?thesis
      using rx_mono [OF rx(1) a(1)] tx_same [OF tx(1) a(2)] only_data [OF a(3)] only_cursor [OF a(3)] s(2) by simp
  qed
next
  case nd: False
  show ?thesis
  proof (cases "f_typ f = frameAck")
    case True
    then have "e' = ackLocked (f_seq f) e" "out = []" "nx = AfterAck" using p nd by (auto simp: pump_frame_def)
    then show ?thesis
      using ack_keeps [OF tx(1) ack [OF True] tx(2)] rx_mono [OF rx(1)] by (auto simp: same_rx_def)
  next
    case na: False
    let ?pong = "zero_frame\<lparr>f_typ := framePong\<rparr>"
    have "same_rx e e' \<and> same_tx e e' \<and> set out \<subseteq> {?pong} \<and> (\<forall>q. nx \<noteq> Hand q)"
      using p nd na by (auto simp: pump_frame_def Let_def dest!: writeControl_same split: if_splits prod.splits)
    then have a: "same_rx e e'" "same_tx e e'" "set out \<subseteq> {?pong}" "\<And>q. nx \<noteq> Hand q" by blast+
    have "recvSeq e' = recvSeq e" using a(1) by (simp add: same_rx_def)
    moreover have "(case nx of Hand p \<Rightarrow> [p] | _ \<Rightarrow> []) = []" using a(4) by (cases nx) auto
    ultimately show ?thesis
      using rx_mono [OF rx(1) a(1)] tx_same [OF tx(1) a(2)] only_data [OF a(3)] only_cursor [OF a(3)]
      by (simp add: frame_types)
  qed
qed

subsection \<open>Every step keeps it\<close>

text \<open>An operation at side \<open>s\<close> seen from the two directions: \<open>s\<close> sends in one and receives in the other.\<close>

lemma flow_split: "(\<forall>t. flow d t) \<longleftrightarrow> flow d s \<and> flow d (other s)"
  by (metis other.simps side.exhaust)

lemma flow_put:
  assumes "tx_ok (sent d' s) (recvSeq (ends d (other s))) e" and "data_ok (sent d' s) (wire d s @ out)"
    and "rx_ok (sent d' s) (ends d (other s)) (hands d (other s)) (got d (other s))"
    and "rx_ok (sent d (other s)) e (hands d' s) (got d' s)"
    and "cursors_ok (recvSeq e) out" and "recvSeq (ends d s) \<le> recvSeq e" and "\<forall>t. flow d t"
    and "ends d' = (ends d)(s := e)" "wire d' = (wire d)(s := wire d s @ out)"
    and "sent d' (other s) = sent d (other s)" "hands d' (other s) = hands d (other s)" "got d' (other s) = got d (other s)"
  shows "\<forall>t. flow d' t"
proof -
  have f: "flow d s" "flow d (other s)" using assms(7) by simp_all
  have "flow d' s" using assms f(1) by (simp add: flow_def Let_def)
  moreover have "tx_ok (sent d (other s)) (recvSeq e) (ends d (other s))"
    using f(2) tx_same [of _ _ "ends d (other s)" "ends d (other s)"] assms(6) by (auto simp: flow_def Let_def)
  then have "flow d' (other s)"
    using assms f(2) cursors_mono [of "recvSeq (ends d s)" "wire d s" "recvSeq e"] by (simp add: flow_def Let_def)
  ultimately show ?thesis using flow_split by blast
qed

lemma flow_D:
  assumes "\<forall>t. flow d t"
  shows "tx_ok (sent d s) (recvSeq (ends d (other s))) (ends d s)" "data_ok (sent d s) (wire d s)"
    "cursors_ok (recvSeq (ends d s)) (wire d s)" "rx_ok (sent d (other s)) (ends d s) (hands d s) (got d s)"
    "recvSeq (ends d s) \<le> length (sent d (other s))"
    "rx_ok (sent d s) (ends d (other s)) (hands d (other s)) (got d (other s))"
  using assms [rule_format, of s] assms [rule_format, of "other s"] by (simp_all add: flow_def Let_def rx_ok_def)

text \<open>The steps that change neither what is sent nor what is received.\<close>

lemma flow_quiet:
  assumes "\<forall>t. flow d t" and "same_rx (ends d s) e" and "same_tx (ends d s) e" and "set out \<subseteq> {f}"
    and "f_typ f \<noteq> frameData" and "f_typ f \<in> {frameAck, frameAttach, frameAttachOK} \<longrightarrow> f_seq f \<le> recvSeq (ends d s)"
  shows "\<forall>t. flow (put s e out d) t"
proof (rule flow_put [where d = d and s = s and e = e and out = out])
  show "tx_ok (sent (put s e out d) s) (recvSeq (ends d (other s))) e"
    using tx_same [OF flow_D(1) [OF assms(1)] assms(3)] by (simp add: put_def)
  show "data_ok (sent (put s e out d) s) (wire d s @ out)"
    using flow_D(2) [OF assms(1)] only_data [OF assms(4,5)] by (simp add: put_def)
  show "rx_ok (sent (put s e out d) s) (ends d (other s)) (hands d (other s)) (got d (other s))"
    using flow_D(6) [OF assms(1)] by (simp add: put_def)
  show "rx_ok (sent d (other s)) e (hands (put s e out d) s) (got (put s e out d) s)"
    using rx_mono [OF flow_D(4) [OF assms(1)] assms(2)] by (simp add: put_def)
  show "cursors_ok (recvSeq e) out" using only_cursor [OF assms(4)] assms(2,6) by (simp add: same_rx_def)
  show "recvSeq (ends d s) \<le> recvSeq e" using assms(2) by (simp add: same_rx_def)
qed (use assms(1) in \<open>simp_all add: put_def\<close>)

lemma flow_send:
  assumes "\<forall>t. flow d t" and "Send pick ex ok p (ends d s) = (e, out, res)" and "Suc (length (sent d s)) < 2 ^ 64"
    and "d' = (put s e out d)\<lparr>sent := (if res = SendOK \<and> p \<noteq> [] then (sent d)(s := sent d s @ [p]) else sent d)\<rparr>"
  shows "\<forall>t. flow d' t"
proof -
  have r: "recvSeq (ends d (other s)) \<le> length (sent d s)" using flow_D(5) [OF assms(1), of "other s"] by simp
  note K = Send_keeps [OF assms(2) flow_D(1) [OF assms(1)] r assms(3)]
  show ?thesis
  proof (rule flow_put [where d = d and s = s and e = e and out = out])
    show "tx_ok (sent d' s) (recvSeq (ends d (other s))) e"
      using K(1,2) tx_same [OF flow_D(1) [OF assms(1)], of s e] by (auto simp: assms(4) put_def)
    show "data_ok (sent d' s) (wire d s @ out)"
      using K(1,2) flow_D(2) [OF assms(1), of s] data_more by (auto simp: assms(4) put_def)
    show "rx_ok (sent d' s) (ends d (other s)) (hands d (other s)) (got d (other s))"
      using flow_D(6) [OF assms(1), of s] rx_more by (auto simp: assms(4) put_def)
    show "rx_ok (sent d (other s)) e (hands d' s) (got d' s)"
      using rx_mono [OF flow_D(4) [OF assms(1)] K(3)] by (simp add: assms(4) put_def)
    show "cursors_ok (recvSeq e) out" by (rule K(4))
    show "recvSeq (ends d s) \<le> recvSeq e" using K(3) by (simp add: same_rx_def)
  qed (use assms(1) in \<open>simp_all add: assms(4) put_def\<close>)
qed

lemma flow_recv:
  assumes "\<forall>t. flow d t" and "f \<in> set (wire d (other s))" and "\<not> closed (ends d s)" and "hands d s = []"
    and "pump_frame ok f (ends d s) = (e, out, nx)" and "length (sent d (other s)) < 2 ^ 64"
    and "d' = (put s e out d)\<lparr>hands := (case nx of Hand p \<Rightarrow> (hands d)(s := hands d s @ [p]) | _ \<Rightarrow> hands d)\<rparr>"
  shows "\<forall>t. flow d' t"
proof -
  have r: "recvSeq (ends d (other s)) \<le> length (sent d s)" using flow_D(5) [OF assms(1), of "other s"] by simp
  have ack: "f_seq f \<le> recvSeq (ends d (other s))" if "f_typ f = frameAck"
    using that assms(2) flow_D(3) [OF assms(1), of "other s"] by (auto simp: cursors_ok_def)
  have dat: "1 \<le> f_seq f \<and> f_seq f \<le> length (sent d (other s)) \<and> f_payload f = sent d (other s) ! (f_seq f - 1)"
    if "f_typ f = frameData"
    using that assms(2) flow_D(2) [OF assms(1), of "other s"] by (auto simp: data_ok_def)
  have rx: "rx_ok (sent d (other s)) (ends d s) [] (got d s)" using flow_D(4) [OF assms(1), of s] assms(4) by simp
  note K = pump_keeps [OF assms(5) flow_D(1) [OF assms(1)] r rx assms(3,6) ack dat]
  have h: "hands d' s = (case nx of Hand p \<Rightarrow> [p] | _ \<Rightarrow> [])" "hands d' (other s) = hands d (other s)"
    using assms(4) by (simp_all add: assms(7) put_def split: pump_next.split)
  show ?thesis
  proof (rule flow_put [where d = d and s = s and e = e and out = out])
    show "data_ok (sent d' s) (wire d s @ out)" using K flow_D(2) [OF assms(1)] by (simp add: assms(7) put_def)
    show "rx_ok (sent d' s) (ends d (other s)) (hands d (other s)) (got d (other s))"
      using flow_D(6) [OF assms(1), of s] by (simp add: assms(7) put_def)
    show "rx_ok (sent d (other s)) e (hands d' s) (got d' s)" using K h(1) by (simp add: assms(7) put_def)
  qed (use assms(1) K h(2) in \<open>simp_all add: assms(7) put_def\<close>)
qed

lemma flow_rebind:
  assumes "\<forall>t. flow d t" and "f \<in> set (wire d (other s))" and "f_typ f = hello_type (other s)"
    and "bind oks (f_seq f) (ends d s) = (e, out, g)"
  shows "\<forall>t. flow (put s e out d) t"
proof -
  have r: "recvSeq (ends d (other s)) \<le> length (sent d s)" using flow_D(5) [OF assms(1), of "other s"] by simp
  have u: "f_seq f \<le> recvSeq (ends d (other s))"
    using assms(2,3) flow_D(3) [OF assms(1), of "other s"] type_neq(16) [of "other s"] by (auto simp: cursors_ok_def)
  note K = bind_keeps [OF assms(4) flow_D(1) [OF assms(1)] u r]
  have out: "f_typ q = frameData \<and> 1 \<le> f_seq q \<and> f_seq q \<le> length (sent d s) \<and> f_payload q = sent d s ! (f_seq q - 1)"
    if "q \<in> set out" for q
    using tx_data [OF K(1)] K(3) that by blast
  show ?thesis
  proof (rule flow_put [where d = d and s = s and e = e and out = out])
    show "data_ok (sent (put s e out d) s) (wire d s @ out)"
      using out flow_D(2) [OF assms(1), of s] by (auto simp: put_def data_ok_def)
    show "cursors_ok (recvSeq e) out" using out by (auto simp: cursors_ok_def frame_types)
    show "rx_ok (sent d (other s)) e (hands (put s e out d) s) (got (put s e out d) s)"
      using rx_mono [OF flow_D(4) [OF assms(1)] K(2)] by (simp add: put_def)
  qed (use assms(1) K flow_D(6) [OF assms(1)] in \<open>simp_all add: put_def same_rx_def\<close>)
qed

text \<open>The steps between a pump, the inbound channel and the application.\<close>

lemma flow_app:
  assumes "\<forall>t. flow d t" and "rx_ok (sent d (other s)) e hs gs" and "same_tx (ends d s) e" and "recvSeq e = recvSeq (ends d s)"
  shows "\<forall>t. flow (put s e [] d\<lparr>hands := (hands d)(s := hs), got := (got d)(s := gs)\<rparr>) t"
  by (rule flow_put [where d = d and s = s and e = e and out = "[]"])
    (use assms(1,2,4) tx_same [OF flow_D(1) [OF assms(1)] assms(3) order_refl] flow_D(2,6) [OF assms(1), of s] in \<open>simp_all add: put_def\<close>)

lemma rx_hands: "rx_ok h e hs gs \<Longrightarrow> i < length hs \<Longrightarrow> hs = [hs ! i] \<and> i = 0"
  by (cases hs) (auto simp: rx_ok_def)

definition few :: "duplex \<Rightarrow> bool" where
  "few d = (\<forall>t. Suc (length (sent d t)) < 2 ^ 64)"

lemma step_sent: "step n d d' \<Longrightarrow> length (sent d t) \<le> length (sent d' t)"
  by (cases rule: step.cases) (auto simp: put_def)

lemma few_back: "few d' \<Longrightarrow> step n d d' \<Longrightarrow> few d"
  using step_sent unfolding few_def by (meson Suc_le_mono le_less_trans)

lemma flow_step:
  assumes "step 1 d d'" and "\<forall>t. flow d t" and "few d"
  shows "\<forall>t. flow d' t"
  using assms(1)
proof cases
  case (send pick ex ok p s e out res)
  then show ?thesis using flow_send [OF assms(2)] assms(3) by (simp add: few_def)
next
  case (recv f s ok e out nx)
  have "length (sent d (other s)) < 2 ^ 64" using assms(3) by (meson Suc_lessD few_def)
  then show ?thesis using flow_recv [OF assms(2)] recv by simp
next
  case (deliver i s)
  let ?e = "hand_over (hands d s ! i) (ends d s)"
  have h: "hands d s = [hands d s ! i]" "i = 0" using rx_hands [OF flow_D(4) [OF assms(2)] deliver(2)] by blast+
  then have hs: "drop_nth i (hands d s) = []" by (metis One_nat_def drop_nth_def append_Nil take0 drop_all length_Cons list.size(3) order_refl)
  have "rx_ok (sent d (other s)) (ends d s) [hands d s ! i] (got d s)" using flow_D(4) [OF assms(2)] h(1) by metis
  then have "rx_ok (sent d (other s)) ?e [] (got d s)" by (auto simp: rx_ok_def hand_over_def)
  then show ?thesis
    using flow_app [OF assms(2), of s ?e "[]" "got d s"] hs deliver(1) by (simp add: put_def hand_over_def same_tx_def)
next
  case (abandon i s)
  have h: "hands d s = [hands d s ! i]" "i = 0" using rx_hands [OF flow_D(4) [OF assms(2)] abandon(2)] by blast+
  then have hs: "drop_nth i (hands d s) = []" by (metis One_nat_def drop_nth_def append_Nil take0 drop_all length_Cons list.size(3) order_refl)
  have "rx_ok (sent d (other s)) (ends d s) [hands d s ! i] (got d s)" using flow_D(4) [OF assms(2)] h(1) by metis
  then have "rx_ok (sent d (other s)) (ends d s) [] (got d s)" using abandon(3) by (auto simp: rx_ok_def)
  then show ?thesis
    using flow_app [OF assms(2), of s "ends d s" "[]" "got d s"] hs abandon(1) by (simp add: put_def)
next
  case (consume s p q)
  let ?e = "(ends d s)\<lparr>inbound := q\<rparr>"
  have "rx_ok (sent d (other s)) ?e (hands d s) (got d s @ [p])"
    using flow_D(4) [OF assms(2), of s] consume(2) by (simp add: rx_ok_def)
  then show ?thesis
    using flow_app [OF assms(2), of s ?e "hands d s" "got d s @ [p]"] consume(1) by (simp add: put_def same_tx_def)
next
  case (announce s)
  then show ?thesis
    using flow_quiet [OF assms(2), of s "ends d s" "[hello s (ends d s)]" "hello s (ends d s)"] by simp
next
  case (rebind f s oks e out g)
  then show ?thesis using flow_rebind [OF assms(2)] by blast
next
  case (control f ok s e out)
  then show ?thesis
    using flow_quiet [OF assms(2), of s e out f] writeControl_same [OF control(3)] by (simp add: frame_types)
next
  case (unbind s)
  then show ?thesis using flow_quiet [OF assms(2), of s _ "[]" "zero_frame"] by (simp add: zero_frame_def frame_types)
next
  case (shut s err)
  then show ?thesis using flow_quiet [OF assms(2), of s _ "[]" "zero_frame"] by (simp add: zero_frame_def frame_types)
next
  case (finish ok s e out)
  then show ?thesis
    using flow_quiet [OF assms(2), of s e out "zero_frame\<lparr>f_typ := frameClose\<rparr>"] sendClose_same [OF finish(2)]
    by (simp add: frame_types)
qed

lemma flow_open: "flow (open_session i) t"
  by (simp add: flow_def open_session_def newEndpoint_def newEndpointCap_def tx_ok_def rx_ok_def Let_def)

lemma reaches_flow: "reaches 1 (open_session i) d \<Longrightarrow> few d \<Longrightarrow> \<forall>t. flow d t"
proof (induction rule: reaches.induct)
  case start
  then show ?case using flow_open by simp
next
  case (more d d')
  then show ?case using flow_step few_back by blast
qed

text \<open>C19: Over a network that loses, repeats and reorders frames at will, and through any sequence of
  reconnects, the bytes an application takes from its endpoint are the messages its peer's application
  sent: each once, in order, none altered; and while the endpoint is open, what is not yet taken is still
  in its channel or in its pump's hand, up to the acknowledged cursor.  This holds as long as one pump at a time holds
  a payload.\<close>

theorem exactly_once_in_order:
  assumes "reaches 1 (open_session i) d" and "\<forall>t. Suc (length (sent d t)) < 2 ^ 64"
  shows "\<exists>k rest. got d (other s) @ inbound (ends d (other s)) @ hands d (other s) @ rest = take k (sent d s) \<and>
           k = recvSeq (ends d (other s)) \<and> acked (ends d s) \<le> k \<and>
           (closed (ends d (other s)) \<or> rest = [])"
  using reaches_flow [OF assms(1)] assms(2) flow_D(1,6) [of d s]
  unfolding few_def rx_ok_def tx_ok_def by metis

subsection \<open>Runs\<close>

text \<open>Schedules of steps with every write succeeding; the number picks a frame of the peer's wire or a
  payload in hand.\<close>

datatype act = ASend side bytes | ARecv side nat | ADeliver side nat | AConsume side | AHello side | ABind side nat

fun exec :: "nat \<Rightarrow> act \<Rightarrow> duplex \<Rightarrow> duplex option" where
  "exec n (ASend s p) d =
     (let (e, out, res) = Send True False True p (ends d s)
      in Some ((put s e out d)\<lparr>sent := (if res = SendOK \<and> p \<noteq> [] then (sent d)(s := sent d s @ [p]) else sent d)\<rparr>))"
| "exec n (ARecv s k) d =
     (if k < length (wire d (other s)) \<and> \<not> closed (ends d s) \<and> length (hands d s) < n then
        (let (e, out, nx) = pump_frame True (wire d (other s) ! k) (ends d s)
         in Some ((put s e out d)\<lparr>hands := (case nx of Hand p \<Rightarrow> (hands d)(s := hands d s @ [p]) | _ \<Rightarrow> hands d)\<rparr>))
      else None)"
| "exec n (ADeliver s i) d =
     (if i < length (hands d s) \<and> length (inbound (ends d s)) < inboundCap then
        Some ((put s (hand_over (hands d s ! i) (ends d s)) [] d)\<lparr>hands := (hands d)(s := drop_nth i (hands d s))\<rparr>)
      else None)"
| "exec n (AConsume s) d =
     (case inbound (ends d s) of
        [] \<Rightarrow> None
      | p # q \<Rightarrow> Some ((put s ((ends d s)\<lparr>inbound := q\<rparr>) [] d)\<lparr>got := (got d)(s := got d s @ [p])\<rparr>))"
| "exec n (AHello s) d = Some (put s (ends d s) [hello s (ends d s)] d)"
| "exec n (ABind s k) d =
     (if k < length (wire d (other s)) \<and> f_typ (wire d (other s) ! k) = hello_type (other s) then
        (let (e, out, g) = bind (\<lambda>_. True) (f_seq (wire d (other s) ! k)) (ends d s) in Some (put s e out d))
      else None)"

fun run :: "nat \<Rightarrow> act list \<Rightarrow> duplex \<Rightarrow> duplex option" where
  "run n [] d = Some d"
| "run n (a # as) d = (case exec n a d of None \<Rightarrow> None | Some d' \<Rightarrow> run n as d')"

lemma exec_step: "exec n a d = Some d' \<Longrightarrow> step n d d'"
proof (cases a)
  case (ASend s p)
  assume "exec n a d = Some d'"
  then show ?thesis using step.send [of True False True p d s] ASend by (auto split: prod.splits)
next
  case (ARecv s k)
  assume "exec n a d = Some d'"
  then show ?thesis using step.recv [of "wire d (other s) ! k" d s n True] ARecv by (auto split: prod.splits if_splits)
next
  case (ABind s k)
  assume "exec n a d = Some d'"
  then show ?thesis
    using step.rebind [of "wire d (other s) ! k" d s "\<lambda>_. True"] ABind by (auto split: prod.splits if_splits)
qed (auto intro: step.intros split: if_splits list.splits)

lemma reaches_trans: "reaches n d e \<Longrightarrow> reaches n d0 d \<Longrightarrow> reaches n d0 e"
  by (induction rule: reaches.induct) (auto intro: reaches.more)

lemma run_reaches: "run n as d = Some d' \<Longrightarrow> reaches n d d'"
proof (induction as arbitrary: d)
  case (Cons a as)
  then obtain e where e: "exec n a d = Some e" "run n as e = Some d'" by (auto split: option.splits)
  then show ?case using Cons.IH reaches_trans exec_step reaches.intros by metis
qed (simp add: reaches.start)

definition demo_id :: sessionID where "demo_id = replicate 16 (CHR 0x07)"

definition demo_acts :: "act list" where
  "demo_acts = [ASend Client ''hi'', AHello Server, ABind Client 0, ARecv Server 0, ADeliver Server 0, AConsume Server]"

lemmas run_simps =
  open_session_def newEndpoint_def newEndpointCap_def defaultMaxSendFrames_def inboundCap_def Send_def put_def
  pump_frame_def sendAck_def writeControl_def writeFrameLocked_def writable_def writeFrame_def maxPayload_def
  bind_def ackLocked_def hand_over_def drop_nth_def hello_def hello_type_def recvCursor_def data_frame_def
  ack_frame_def zero_frame_def frame_types u64_def dropConnLocked_def Let_def

theorem exactly_once_in_order_witness:
  "\<exists>d. reaches 1 (open_session demo_id) d \<and> (\<forall>t. Suc (length (sent d t)) < 2 ^ 64) \<and>
       got d Server = [''hi''] \<and> acked (ends d Client) \<le> 1 \<and> recvSeq (ends d Server) = 1"
proof -
  obtain d where d: "run 1 demo_acts (open_session demo_id) = Some d"
    and g: "got d Server = [''hi'']" "inbound (ends d Server) = []" "hands d Server = []"
      "sent d Client = [''hi'']" "sent d Server = []" "\<not> closed (ends d Server)" "recvSeq (ends d Server) = 1"
    by (simp add: demo_acts_def run_simps)
  have "Suc (length (sent d t)) < 2 ^ 64" for t by (cases t) (simp_all add: g)
  then have few: "\<forall>t. Suc (length (sent d t)) < 2 ^ 64" by blast
  show ?thesis
    using exactly_once_in_order [OF run_reaches [OF d] few, of Client] run_reaches [OF d] few g by auto
qed

text \<open>Delivery is not in order when a replaced connection's pump still holds a payload: the pump of
  the new connection takes the next message and hands it over first.  The endpoint only closes the old
  connection; it does not wait for its pump.\<close>

theorem overlapping_pumps_reorder:
  "\<exists>d. reaches 2 (open_session demo_id) d \<and> sent d Client = [''a'', ''b''] \<and> got d Server = [''b'', ''a'']"
proof -
  let ?acts = "[ASend Client ''a'', ASend Client ''b'', AHello Server, ABind Client 0, ARecv Server 0,
    ARecv Server 1, ADeliver Server 1, ADeliver Server 0, AConsume Server, AConsume Server]"
  obtain d where "run 2 ?acts (open_session demo_id) = Some d" "sent d Client = [''a'', ''b'']" "got d Server = [''b'', ''a'']"
    by (simp add: run_simps)
  then show ?thesis using run_reaches by blast
qed

subsection \<open>A connection that holds\<close>

text \<open>A pump on a connection that delivers its frames, with an application that takes every payload: the
  endpoint, what it wrote and the payloads taken.\<close>

fun pump_run :: "sframe list \<Rightarrow> endpoint \<Rightarrow> endpoint \<times> sframe list \<times> bytes list" where
  "pump_run [] e = (e, [], [])"
| "pump_run (f # fs) e =
     (if closed e then (e, [], [])
      else let (e, out, nx) = pump_frame True f e;
               (e, more, ps) = pump_run fs e
           in (e, out @ more, case nx of Hand p \<Rightarrow> p # ps | _ \<Rightarrow> ps))"

definition numbered_from :: "nat \<Rightarrow> bytes list \<Rightarrow> sframe list" where
  "numbered_from k ps = map (\<lambda>(i, p). data_frame (Suc i) p) (enumerate k ps)"

lemma drop_numbered: "drop k (numbered h) = numbered_from k (drop k h)"
  by (rule nth_equalityI) (simp_all add: numbered_def numbered_from_def nth_enumerate_eq)

lemma writable_simps:
  "length p \<le> maxPayload \<Longrightarrow> writable (data_frame n p)" "writable (ack_frame n)"
  by (simp_all add: writable_def writeFrame_def data_frame_def ack_frame_def frame_types)

lemma sendAck_bound: "bound e \<Longrightarrow> sendAck True n e = (e, [ack_frame n])"
  by (simp add: sendAck_def writeControl_def writeFrameLocked_def writable_simps)

lemma pump_run_data:
  "bound e \<Longrightarrow> \<not> closed e \<Longrightarrow> recvSeq e = k \<Longrightarrow> k + length ps < 2 ^ 64 \<Longrightarrow>
     pump_run (numbered_from k ps) e = (e\<lparr>recvSeq := k + length ps\<rparr>, map ack_frame [Suc k..<Suc (k + length ps)], ps)"
proof (induction ps arbitrary: k e)
  case Nil
  then show ?case by (simp add: numbered_from_def)
next
  case (Cons p ps)
  let ?e = "e\<lparr>recvSeq := Suc k\<rparr>"
  have u: "u64 (Suc k) = Suc k" using Cons.prems(4) by (simp add: u64_def)
  have "pump_frame True (data_frame (Suc k) p) e = (?e, [ack_frame (Suc k)], Hand p)"
    using Cons.prems(1-3) u by (simp add: pump_frame_def sendAck_bound)
  moreover have "pump_run (numbered_from (Suc k) ps) ?e =
      (?e\<lparr>recvSeq := Suc k + length ps\<rparr>, map ack_frame [Suc (Suc k)..<Suc (Suc k + length ps)], ps)"
    using Cons.IH [of ?e "Suc k"] Cons.prems by simp
  moreover have "numbered_from k (p # ps) = data_frame (Suc k) p # numbered_from (Suc k) ps"
    by (simp add: numbered_from_def)
  ultimately show ?case using Cons.prems(2) by (simp add: upt_conv_Cons del: upt_Suc)
qed

lemma replay_all: "(\<forall>f\<in>set fs. writable f) \<Longrightarrow> replay (\<lambda>_. True) fs = (True, fs)"
  by (induction fs) (simp_all add: writeFrameLocked_def)

lemma pump_run_acks:
  "\<not> closed e \<Longrightarrow> pump_run (map ack_frame ns) e = (fold ackLocked ns e, [], [])"
proof (induction ns arbitrary: e)
  case (Cons n ns)
  have "\<not> closed (ackLocked n e)" using Cons.prems by (simp add: ackLocked_def Let_def)
  then show ?case using Cons by (simp add: pump_frame_def)
qed simp

lemma fold_acks:
  "tx_ok h (length h) e \<Longrightarrow> k \<le> length h \<Longrightarrow> k = acked e \<Longrightarrow>
     tx_ok h (length h) (fold ackLocked [Suc k..<Suc m] e) \<and>
     (m \<le> length h \<longrightarrow> k \<le> m \<longrightarrow> acked (fold ackLocked [Suc k..<Suc m] e) = m)" if "m \<le> length h"
  using that
proof (induction m)
  case 0
  then show ?case by simp
next
  case (Suc m)
  let ?e = "fold ackLocked [Suc k..<Suc m] e"
  show ?case
  proof (cases "k \<le> m")
    case True
    then have "fold ackLocked [Suc k..<Suc (Suc m)] e = ackLocked (Suc m) ?e" by simp
    moreover have "tx_ok h (length h) ?e" "acked ?e = m" using Suc True by simp_all
    moreover have "acked (ackLocked (Suc m) ?e) = Suc m" using \<open>acked ?e = m\<close> by (simp add: ackLocked_def Let_def)
    ultimately show ?thesis using ack_keeps(1) [of h "length h" ?e "Suc m"] Suc.prems by (simp del: upt_Suc)
  next
    case False
    then show ?thesis using Suc.prems by (auto simp: le_Suc_eq)
  qed
qed

text \<open>C26: A connection that holds after a reconnect catches up: once both ends have bound with the cursors
  they exchanged and the replay is read, the receiving application has every message ever sent, and
  when the acknowledgements are read the sender's buffer is empty and the session drained.\<close>

theorem reconnect_catches_up:
  assumes "reaches 1 (open_session i) d" and "\<forall>t. Suc (length (sent d t)) < 2 ^ 64"
    and "\<not> closed (ends d s)" and "\<not> closed (ends d (other s))" and "hands d (other s) = []"
    and "\<forall>p\<in>set (sent d s). length p \<le> maxPayload" and "\<forall>p\<in>set (sent d (other s)). length p \<le> maxPayload"
    and "bind (\<lambda>_. True) (recvCursor (ends d (other s))) (ends d s) = (S, out, g)"
    and "bind (\<lambda>_. True) (recvCursor (ends d s)) (ends d (other s)) = (R, out', g')"
    and "pump_run out R = (R', acks, ps)" and "pump_run acks S = (S', out'', ps')"
  shows "got d (other s) @ inbound (ends d (other s)) @ ps = sent d s \<and> recvSeq R' = length (sent d s) \<and>
         drained S' \<and> sendBuf S' = []"
proof -
  let ?h = "sent d s" and ?k = "recvSeq (ends d (other s))"
  have fl: "\<forall>t. flow d t" using reaches_flow [OF assms(1)] assms(2) by (simp add: few_def)
  have k: "?k \<le> length ?h" using flow_D(5) [OF fl, of "other s"] by simp
  have tx: "tx_ok ?h ?k (ends d s)" "tx_ok (sent d (other s)) (recvSeq (ends d s)) (ends d (other s))"
    using flow_D(1) [OF fl, of s] flow_D(1) [OF fl, of "other s"] by simp_all
  have w: "\<forall>f\<in>set (sendBuf (ackLocked u e)). writable f" if "tx_ok h r e" "\<forall>p\<in>set h. length p \<le> maxPayload" for u e h r
  proof -
    have "set (sendBuf (ackLocked u e)) \<subseteq> set (sendBuf e)" by (auto simp: ackLocked_def Let_def dest: in_set_dropD)
    also have "\<dots> \<subseteq> set (numbered h)" using that(1) by (auto simp: tx_ok_def dest: in_set_dropD)
    finally have sub: "set (sendBuf (ackLocked u e)) \<subseteq> set (numbered h)" .
    have "writable f" if f: "f \<in> set (numbered h)" for f
    proof -
      obtain j where "j < length h" "f = data_frame (Suc j) (h ! j)" using f by (auto simp: in_set_conv_nth numbered_nth)
      then show ?thesis using \<open>\<forall>p\<in>set h. length p \<le> maxPayload\<close> by (simp add: writable_simps)
    qed
    then show ?thesis using sub by blast
  qed
  have S: "S = (ackLocked ?k (ends d s))\<lparr>bound := True, connGen := u64 (connGen (ends d s) + 1)\<rparr>" "out = sendBuf S"
    using assms(8) replay_all [OF w [OF tx(1) assms(6)]] by (auto simp: bind_def Let_def recvCursor_def)
  have R: "R = (ackLocked (recvSeq (ends d s)) (ends d (other s)))\<lparr>bound := True, connGen := u64 (connGen (ends d (other s)) + 1)\<rparr>"
    using assms(9) replay_all [OF w [OF tx(2) assms(7)]] by (auto simp: bind_def Let_def recvCursor_def)
  have txS: "tx_ok ?h ?k S" using ack_keeps(1) [OF tx(1) order_refl k] by (simp add: S tx_ok_def)
  have ackS: "acked S = ?k" using tx(1) by (auto simp: S(1) ackLocked_def tx_ok_def Let_def)
  have out: "out = numbered_from ?k (drop ?k ?h)" using txS ackS by (simp add: S(2) tx_ok_def drop_numbered)
  have r: "bound R" "\<not> closed R" "recvSeq R = ?k" using assms(4) by (simp_all add: R ackLocked_def Let_def)
  have "?k + length (drop ?k ?h) < 2 ^ 64" using k assms(2) [rule_format, of s] by simp
  then have run: "R' = R\<lparr>recvSeq := length ?h\<rparr>" "acks = map ack_frame [Suc ?k..<Suc (length ?h)]" "ps = drop ?k ?h"
    using pump_run_data [OF r] assms(10) k by (simp_all add: out del: upt_Suc)
  have "\<not> closed S" using assms(3) by (simp add: S ackLocked_def Let_def)
  then have S': "S' = fold ackLocked [Suc ?k..<Suc (length ?h)] S" using pump_run_acks [of S] assms(11) by (simp add: run(2) del: upt_Suc)
  have fin: "tx_ok ?h (length ?h) S'" "acked S' = length ?h"
    using fold_acks [OF order_refl tx_same [OF txS same_refl(2) k] k ackS [symmetric]] k unfolding S' by blast+
  have "got d (other s) @ inbound (ends d (other s)) = take ?k ?h"
    using flow_D(6) [OF fl, of s] assms(4,5) by (auto simp: rx_ok_def)
  then have "got d (other s) @ inbound (ends d (other s)) @ ps = ?h" by (metis append.assoc append_take_drop_id run(3))
  then show ?thesis using fin by (simp add: run(1) tx_ok_def drained_def)
qed

theorem reconnect_catches_up_witness:
  "\<exists>d S out g R out' g' R' acks ps S' out'' ps'.
     run 1 [ASend Client ''hi''] (open_session demo_id) = Some d \<and>
     bind (\<lambda>_. True) (recvCursor (ends d Server)) (ends d Client) = (S, out, g) \<and>
     bind (\<lambda>_. True) (recvCursor (ends d Client)) (ends d Server) = (R, out', g') \<and>
     pump_run out R = (R', acks, ps) \<and> pump_run acks S = (S', out'', ps') \<and>
     ps = [''hi''] \<and> drained S' \<and> sendBuf S' = []"
proof -
  obtain d where d: "run 1 [ASend Client ''hi''] (open_session demo_id) = Some d"
    and g: "sent d Client = [''hi'']" "sent d Server = []" "hands d Server = []" "got d Server = []"
      "inbound (ends d Server) = []" "\<not> closed (ends d Client)" "\<not> closed (ends d Server)"
    by (simp add: run_simps)
  have "Suc (length (sent d t)) < 2 ^ 64" for t by (cases t) (simp_all add: g)
  then have few: "\<forall>t. Suc (length (sent d t)) < 2 ^ 64" by blast
  obtain S out g1 where S: "bind (\<lambda>_. True) (recvCursor (ends d Server)) (ends d Client) = (S, out, g1)" using prod_cases3 by blast
  obtain R out' g2 where R: "bind (\<lambda>_. True) (recvCursor (ends d Client)) (ends d Server) = (R, out', g2)" using prod_cases3 by blast
  obtain R' acks ps where R': "pump_run out R = (R', acks, ps)" using prod_cases3 by blast
  obtain S' out'' ps' where S': "pump_run acks S = (S', out'', ps')" using prod_cases3 by blast
  have "ps = [''hi''] \<and> drained S' \<and> sendBuf S' = []"
    using reconnect_catches_up [OF run_reaches [OF d] few, of Client S out g1 R out' g2 R' acks ps S' out'' ps'] g S R R' S'
    by (simp add: maxPayload_def)
  then show ?thesis using d S R R' S' by blast
qed

end
