(* ===== verification/Persisted.thy ===== *)
theory Persisted
  imports Crypto Json
begin

text \<open>Persisted sessions and their JSON text (\<^verbatim>\<open>src/session/store.go\<close>).

  \<^verbatim>\<open>encoding/json\<close> writes a \<^verbatim>\<open>[]byte\<close> as base64 and a nil slice as \<^verbatim>\<open>null\<close>; the lists of the model
  stand for slices that are nil when empty, as the code builds them.  Unsigned fields are naturals.\<close>

subsection \<open>Base64\<close>

definition b64_alphabet :: string where
  "b64_alphabet = ''ABCDEFGHIJKLMNOPQRSTUVWXYZabcdefghijklmnopqrstuvwxyz0123456789+/''"

definition b64_char :: "nat \<Rightarrow> char" where
  "b64_char n = b64_alphabet ! n"

definition b64_val :: "char \<Rightarrow> nat option" where
  "b64_val c = first_idx (\<lambda>x. x = c) b64_alphabet"

fun b64_encode :: "bytes \<Rightarrow> string" where
  "b64_encode [] = []"
| "b64_encode [a] = [b64_char (code a div 4), b64_char (code a mod 4 * 16), CHR ''='', CHR ''='']"
| "b64_encode [a, b] =
     [b64_char (code a div 4), b64_char (code a mod 4 * 16 + code b div 16), b64_char (code b mod 16 * 4), CHR ''='']"
| "b64_encode (a # b # c # r) =
     b64_char (code a div 4) # b64_char (code a mod 4 * 16 + code b div 16) #
     b64_char (code b mod 16 * 4 + code c div 64) # b64_char (code c mod 64) # b64_encode r"

fun b64_quads :: "string \<Rightarrow> bytes option" where
  "b64_quads [] = Some []"
| "b64_quads (a # b # c # d # r) =
     (if d = CHR ''='' then
        (if r \<noteq> [] then None
         else if c = CHR ''='' then
           (case (b64_val a, b64_val b) of
              (Some w, Some x) \<Rightarrow> Some [char_of (w * 4 + x div 16)]
            | _ \<Rightarrow> None)
         else
           (case (b64_val a, b64_val b, b64_val c) of
              (Some w, Some x, Some y) \<Rightarrow> Some [char_of (w * 4 + x div 16), char_of (x mod 16 * 16 + y div 4)]
            | _ \<Rightarrow> None))
      else
        (case (b64_val a, b64_val b, b64_val c, b64_val d, b64_quads r) of
           (Some w, Some x, Some y, Some z, Some bs) \<Rightarrow>
             Some (char_of (w * 4 + x div 16) # char_of (x mod 16 * 16 + y div 4) # char_of (y mod 4 * 64 + z) # bs)
         | _ \<Rightarrow> None))"
| "b64_quads _ = None"

definition b64_decode :: "string \<Rightarrow> bytes option" where
  "b64_decode s = b64_quads (filter (\<lambda>c. c \<noteq> CHR 0x0A \<and> c \<noteq> CHR 0x0D) s)"

lemma b64_alphabet_props: "length b64_alphabet = 64" "distinct b64_alphabet" "CHR ''='' \<notin> set b64_alphabet"
  "CHR 0x0A \<notin> set b64_alphabet" "CHR 0x0D \<notin> set b64_alphabet" "list_all (\<lambda>c. code c < 128) b64_alphabet"
  by (simp_all add: b64_alphabet_def)

lemma b64_char_in: "n < 64 \<Longrightarrow> b64_char n \<in> set b64_alphabet"
  by (simp add: b64_char_def b64_alphabet_props)

lemma b64_val_char [simp]: "n < 64 \<Longrightarrow> b64_val (b64_char n) = Some n"
  using b64_alphabet_props(1,2)
  by (auto simp: b64_val_def b64_char_def first_idx_Some_iff nth_eq_iff_index_eq)

lemma b64_char_neq [simp]:
  "n < 64 \<Longrightarrow> b64_char n \<noteq> CHR ''=''" "n < 64 \<Longrightarrow> b64_char n \<noteq> CHR 0x0A" "n < 64 \<Longrightarrow> b64_char n \<noteq> CHR 0x0D"
  using b64_char_in [of n] b64_alphabet_props(3-5) by metis+

lemma b64_index:
  "code a div 4 < 64" "code a mod 4 * 16 < 64" "code a mod 4 * 16 + code b div 16 < 64" "code b mod 16 * 4 < 64"
  "code b mod 16 * 4 + code c div 64 < 64" "code c mod 64 < 64"
proof -
  have m: "code a mod 4 < 4" "code b mod 16 < 16" "code c mod 64 < 64" by simp_all
  have d: "code a div 4 < 64" "code b div 16 < 16" "code c div 64 < 4"
    using of_char_lt_256 [of a] of_char_lt_256 [of b] of_char_lt_256 [of c] by (simp_all add: less_mult_imp_div_less)
  show "code a div 4 < 64" "code a mod 4 * 16 < 64" "code a mod 4 * 16 + code b div 16 < 64" "code b mod 16 * 4 < 64"
    "code b mod 16 * 4 + code c div 64 < 64" "code c mod 64 < 64"
    using m d by linarith+
qed

lemma b64_join:
  "char_of (code a div 4 * 4 + code a mod 4 * 16 div 16) = a"
  "code b div 16 < 16 \<Longrightarrow> char_of (code a div 4 * 4 + (code a mod 4 * 16 + code b div 16) div 16) = a"
  "char_of (code b div 16 * 16 + code b mod 16 * 4 div 4) = b"
  "code c div 64 < 4 \<Longrightarrow> char_of (code b div 16 * 16 + (code b mod 16 * 4 + code c div 64) div 4) = b"
  "char_of (code c div 64 * 64 + code c mod 64) = c"
  by simp_all

lemma b64_roundtrip [simp]: "b64_quads (b64_encode bs) = Some bs"
proof (induction bs rule: b64_encode.induct)
  case (2 a)
  then show ?case using b64_index(1-2) [of a] by simp
next
  case (3 a b)
  have "code b div 16 < 16" using of_char_lt_256 [of b] by (simp add: less_mult_imp_div_less)
  moreover have "(code a mod 4 * 16 + code b div 16) mod 16 = code b div 16" using calculation by simp
  ultimately show ?case using b64_index(1) [of a] b64_index(3) [of a b] b64_index(4) [of b] b64_join(2,3) by simp
next
  case (4 a b c r)
  have d: "code b div 16 < 16" "code c div 64 < 4"
    using of_char_lt_256 [of b] of_char_lt_256 [of c] by (simp_all add: less_mult_imp_div_less)
  have m: "(code a mod 4 * 16 + code b div 16) mod 16 = code b div 16" "(code b mod 16 * 4 + code c div 64) mod 4 = code c div 64"
    using d by simp_all
  show ?case using b64_index(1) [of a] b64_index(3) [of a b] b64_index(5) [of b c] b64_index(6) [of c] b64_join(2) [OF d(1)] b64_join(4) [OF d(2)] b64_join(5) d m 4 by simp
qed simp

lemma b64_encode_chars: "set (b64_encode bs) \<subseteq> insert (CHR ''='') (set b64_alphabet)"
  by (induction bs rule: b64_encode.induct) (auto simp: b64_index b64_char_in)

lemma b64_decode_encode [simp]: "b64_decode (b64_encode bs) = Some bs"
proof -
  have "filter (\<lambda>c. c \<noteq> CHR 0x0A \<and> c \<noteq> CHR 0x0D) (b64_encode bs) = b64_encode bs"
    using b64_encode_chars [of bs] b64_alphabet_props(4,5) by (intro filter_True) auto
  then show ?thesis by (simp add: b64_decode_def)
qed

lemma b64_valid [simp]: "valid_utf8 (b64_encode bs)"
  using b64_encode_chars [of bs] b64_alphabet_props(6) by (intro valid_ascii) (auto simp: list_all_iff)

subsection \<open>Unsigned and byte-slice fields\<close>

definition parse_uint :: "string \<Rightarrow> nat option" where
  "parse_uint t = (if t \<noteq> [] \<and> list_all is_digit t \<and> dec_val t < 2 ^ 64 then Some (nat (dec_val t)) else None)"

definition set_nat :: "(nat \<Rightarrow> 'r \<Rightarrow> 'r) \<Rightarrow> json \<Rightarrow> 'r \<Rightarrow> 'r option" where
  "set_nat f v r = (case v of JNum t \<Rightarrow> map_option (\<lambda>i. f i r) (parse_uint t) | JNull \<Rightarrow> Some r | _ \<Rightarrow> None)"

fun byte_elems :: "json list \<Rightarrow> bytes option" where
  "byte_elems [] = Some []"
| "byte_elems (v # vs) =
     (case v of
        JNum t \<Rightarrow>
          (case (parse_uint t, byte_elems vs) of
             (Some n, Some bs) \<Rightarrow> (if n < 256 then Some (char_of n # bs) else None)
           | _ \<Rightarrow> None)
      | JNull \<Rightarrow> map_option ((#) (CHR 0x00)) (byte_elems vs)
      | _ \<Rightarrow> None)"

definition set_bytes :: "(bytes \<Rightarrow> 'r \<Rightarrow> 'r) \<Rightarrow> json \<Rightarrow> 'r \<Rightarrow> 'r option" where
  "set_bytes f v r =
     (case v of
        JStr s \<Rightarrow> map_option (\<lambda>b. f b r) (b64_decode s)
      | JArr vs \<Rightarrow> map_option (\<lambda>b. f b r) (byte_elems vs)
      | JNull \<Rightarrow> Some (f [] r)
      | _ \<Rightarrow> None)"

definition nat_field :: "string \<Rightarrow> nat \<Rightarrow> (string \<times> json) list" where
  "nat_field k n = [(k, JNum (nat_dec n))]"

definition opt_nat :: "string \<Rightarrow> nat \<Rightarrow> (string \<times> json) list" where
  "opt_nat k n = (if n = 0 then [] else nat_field k n)"

definition bytes_field :: "string \<Rightarrow> bytes \<Rightarrow> (string \<times> json) list" where
  "bytes_field k b = [(k, if b = [] then JNull else JStr (b64_encode b))]"

lemma parse_uint_nat_dec [simp]: "n < 2 ^ 64 \<Longrightarrow> parse_uint (nat_dec n) = Some n"
  by (simp add: parse_uint_def nat_dec_all_digits dec_val_nat_dec)

lemma int_literal_nat_dec [simp]: "int_literal (nat_dec n)"
  using int_literal_int_text [of "int n"] by (simp add: int_text_def)

subsection \<open>Sessions as they are stored\<close>

record persisted_frame =
  pf_Seq :: nat
  pf_Payload :: bytes

record persisted =
  ps_ID :: string
  ps_Owner :: string
  ps_CreatorKey :: string
  ps_PeerFQDN :: string
  ps_PeerAddr :: string
  ps_SendSeq :: nat
  ps_Acked :: nat
  ps_RecvSeq :: nat
  ps_SendBuf :: "persisted_frame list"
  ps_Replay :: bytes
  ps_ReplayResponses :: int
  ps_Generation :: nat
  ps_LeaseExpiry :: int
  ps_SchemaVersion :: int

definition sessionSchemaVersion :: int where "sessionSchemaVersion = 1"

definition zero_pf :: persisted_frame where
  "zero_pf = \<lparr>pf_Seq = 0, pf_Payload = []\<rparr>"

definition zero_ps :: persisted where
  "zero_ps = \<lparr>ps_ID = [], ps_Owner = [], ps_CreatorKey = [], ps_PeerFQDN = [], ps_PeerAddr = [], ps_SendSeq = 0, ps_Acked = 0,
     ps_RecvSeq = 0, ps_SendBuf = [], ps_Replay = [], ps_ReplayResponses = 0, ps_Generation = 0, ps_LeaseExpiry = 0,
     ps_SchemaVersion = 0\<rparr>"

definition pf_json :: "persisted_frame \<Rightarrow> json" where
  "pf_json f = JObj (nat_field ''seq'' (pf_Seq f) @ bytes_field ''payload'' (pf_Payload f))"

definition frames_field :: "string \<Rightarrow> persisted_frame list \<Rightarrow> (string \<times> json) list" where
  "frames_field k fs = [(k, if fs = [] then JNull else JArr (map pf_json fs))]"

definition ps_members :: "persisted \<Rightarrow> (string \<times> json) list" where
  "ps_members p =
     str_field ''id'' (ps_ID p) @ str_field ''owner'' (ps_Owner p) @ opt_str ''creator_key'' (ps_CreatorKey p) @
     opt_str ''peer_fqdn'' (ps_PeerFQDN p) @ opt_str ''peer_addr'' (ps_PeerAddr p) @ nat_field ''send_seq'' (ps_SendSeq p) @
     nat_field ''acked'' (ps_Acked p) @ nat_field ''recv_seq'' (ps_RecvSeq p) @ frames_field ''send_buf'' (ps_SendBuf p) @
     bytes_field ''replay'' (ps_Replay p) @ int_field ''replay_responses'' (ps_ReplayResponses p) @
     opt_nat ''generation'' (ps_Generation p) @ opt_int ''lease_expiry'' (ps_LeaseExpiry p) @
     opt_int ''schema_version'' (ps_SchemaVersion p)"

definition ps_marshal :: "persisted \<Rightarrow> bytes" where
  "ps_marshal p = json_print (JObj (ps_members p))"

definition pf_fields :: "persisted_frame field_table" where
  "pf_fields = [(''seq'', set_nat (\<lambda>n f. f\<lparr>pf_Seq := n\<rparr>)), (''payload'', set_bytes (\<lambda>b f. f\<lparr>pf_Payload := b\<rparr>))]"

fun frame_elems :: "json list \<Rightarrow> persisted_frame list option" where
  "frame_elems [] = Some []"
| "frame_elems (v # vs) =
     (case (case v of JObj ms \<Rightarrow> decode_fields pf_fields ms zero_pf | JNull \<Rightarrow> Some zero_pf | _ \<Rightarrow> None, frame_elems vs) of
        (Some f, Some fs) \<Rightarrow> Some (f # fs)
      | _ \<Rightarrow> None)"

definition set_frames :: "json \<Rightarrow> persisted \<Rightarrow> persisted option" where
  "set_frames v p =
     (case v of
        JArr xs \<Rightarrow> map_option (\<lambda>fs. p\<lparr>ps_SendBuf := fs\<rparr>) (frame_elems xs)
      | JNull \<Rightarrow> Some (p\<lparr>ps_SendBuf := []\<rparr>)
      | _ \<Rightarrow> None)"

definition ps_fields :: "persisted field_table" where
  "ps_fields =
     [(''id'', set_str (\<lambda>s p. p\<lparr>ps_ID := s\<rparr>)), (''owner'', set_str (\<lambda>s p. p\<lparr>ps_Owner := s\<rparr>)),
      (''creator_key'', set_str (\<lambda>s p. p\<lparr>ps_CreatorKey := s\<rparr>)), (''peer_fqdn'', set_str (\<lambda>s p. p\<lparr>ps_PeerFQDN := s\<rparr>)),
      (''peer_addr'', set_str (\<lambda>s p. p\<lparr>ps_PeerAddr := s\<rparr>)), (''send_seq'', set_nat (\<lambda>n p. p\<lparr>ps_SendSeq := n\<rparr>)),
      (''acked'', set_nat (\<lambda>n p. p\<lparr>ps_Acked := n\<rparr>)), (''recv_seq'', set_nat (\<lambda>n p. p\<lparr>ps_RecvSeq := n\<rparr>)),
      (''send_buf'', set_frames), (''replay'', set_bytes (\<lambda>b p. p\<lparr>ps_Replay := b\<rparr>)),
      (''replay_responses'', set_int (\<lambda>i p. p\<lparr>ps_ReplayResponses := i\<rparr>)),
      (''generation'', set_nat (\<lambda>n p. p\<lparr>ps_Generation := n\<rparr>)),
      (''lease_expiry'', set_int (\<lambda>i p. p\<lparr>ps_LeaseExpiry := i\<rparr>)),
      (''schema_version'', set_int (\<lambda>i p. p\<lparr>ps_SchemaVersion := i\<rparr>))]"

definition ps_unmarshal :: "bytes \<Rightarrow> persisted option" where
  "ps_unmarshal b = unmarshal_struct ps_fields zero_ps b"

text \<open>The records the program builds: texts in UTF-8 and numbers within their widths.\<close>

abbreviation int64_ok :: "int \<Rightarrow> bool" where "int64_ok i \<equiv> - (2 ^ 63) \<le> i \<and> i < 2 ^ 63"

definition ps_ok :: "persisted \<Rightarrow> bool" where
  "ps_ok p \<longleftrightarrow> list_all valid_utf8 [ps_ID p, ps_Owner p, ps_CreatorKey p, ps_PeerFQDN p, ps_PeerAddr p] \<and>
     list_all (\<lambda>n. n < 2 ^ 64) [ps_SendSeq p, ps_Acked p, ps_RecvSeq p, ps_Generation p] \<and>
     list_all (\<lambda>f. pf_Seq f < 2 ^ 64) (ps_SendBuf p) \<and>
     int64_ok (ps_ReplayResponses p) \<and> int64_ok (ps_LeaseExpiry p) \<and> int64_ok (ps_SchemaVersion p)"

lemma ps_names:
  "fold_name ''id'' = ''id''" "fold_name ''owner'' = ''owner''" "fold_name ''creator_key'' = ''creator_key''"
  "fold_name ''peer_fqdn'' = ''peer_fqdn''" "fold_name ''peer_addr'' = ''peer_addr''" "fold_name ''send_seq'' = ''send_seq''"
  "fold_name ''acked'' = ''acked''" "fold_name ''recv_seq'' = ''recv_seq''" "fold_name ''send_buf'' = ''send_buf''"
  "fold_name ''replay'' = ''replay''" "fold_name ''replay_responses'' = ''replay_responses''"
  "fold_name ''generation'' = ''generation''" "fold_name ''lease_expiry'' = ''lease_expiry''"
  "fold_name ''schema_version'' = ''schema_version''" "fold_name ''seq'' = ''seq''" "fold_name ''payload'' = ''payload''"
  by code_simp+

lemma pf_decode:
  "pf_Seq f < 2 ^ 64 \<Longrightarrow>
     decode_fields pf_fields (nat_field ''seq'' (pf_Seq f) @ bytes_field ''payload'' (pf_Payload f)) zero_pf = Some f"
  unfolding decode_append
  by (simp add: nat_field_def set_nat_def bytes_field_def set_bytes_def pf_fields_def ps_names zero_pf_def)

lemma frame_elems_map: "list_all (\<lambda>f. pf_Seq f < 2 ^ 64) fs \<Longrightarrow> frame_elems (map pf_json fs) = Some fs"
  by (induction fs) (simp_all add: pf_json_def pf_decode)

lemma ps_decode_str:
  "decode_fields ps_fields (str_field ''id'' s) r = Some (r\<lparr>ps_ID := s\<rparr>)"
  "decode_fields ps_fields (str_field ''owner'' s) r = Some (r\<lparr>ps_Owner := s\<rparr>)"
  "ps_CreatorKey r = [] \<Longrightarrow> decode_fields ps_fields (opt_str ''creator_key'' s) r = Some (r\<lparr>ps_CreatorKey := s\<rparr>)"
  "ps_PeerFQDN r = [] \<Longrightarrow> decode_fields ps_fields (opt_str ''peer_fqdn'' s) r = Some (r\<lparr>ps_PeerFQDN := s\<rparr>)"
  "ps_PeerAddr r = [] \<Longrightarrow> decode_fields ps_fields (opt_str ''peer_addr'' s) r = Some (r\<lparr>ps_PeerAddr := s\<rparr>)"
  by (simp_all add: str_field_def opt_str_def set_str_def ps_fields_def ps_names)

lemma ps_decode_nat:
  "n < 2 ^ 64 \<Longrightarrow> decode_fields ps_fields (nat_field ''send_seq'' n) r = Some (r\<lparr>ps_SendSeq := n\<rparr>)"
  "n < 2 ^ 64 \<Longrightarrow> decode_fields ps_fields (nat_field ''acked'' n) r = Some (r\<lparr>ps_Acked := n\<rparr>)"
  "n < 2 ^ 64 \<Longrightarrow> decode_fields ps_fields (nat_field ''recv_seq'' n) r = Some (r\<lparr>ps_RecvSeq := n\<rparr>)"
  "n < 2 ^ 64 \<Longrightarrow> ps_Generation r = 0 \<Longrightarrow> decode_fields ps_fields (opt_nat ''generation'' n) r = Some (r\<lparr>ps_Generation := n\<rparr>)"
  by (simp_all add: nat_field_def opt_nat_def set_nat_def ps_fields_def ps_names)

lemma ps_decode_int:
  "int64_ok i \<Longrightarrow> decode_fields ps_fields (int_field ''replay_responses'' i) r = Some (r\<lparr>ps_ReplayResponses := i\<rparr>)"
  "int64_ok i \<Longrightarrow> ps_LeaseExpiry r = 0 \<Longrightarrow> decode_fields ps_fields (opt_int ''lease_expiry'' i) r = Some (r\<lparr>ps_LeaseExpiry := i\<rparr>)"
  "int64_ok i \<Longrightarrow> ps_SchemaVersion r = 0 \<Longrightarrow> decode_fields ps_fields (opt_int ''schema_version'' i) r = Some (r\<lparr>ps_SchemaVersion := i\<rparr>)"
  by (simp_all add: int_field_def opt_int_def set_int_def atoi_int_text ps_fields_def ps_names)

lemma ps_decode_bytes:
  "decode_fields ps_fields (bytes_field ''replay'' b) r = Some (r\<lparr>ps_Replay := b\<rparr>)"
  "list_all (\<lambda>f. pf_Seq f < 2 ^ 64) fs \<Longrightarrow> decode_fields ps_fields (frames_field ''send_buf'' fs) r = Some (r\<lparr>ps_SendBuf := fs\<rparr>)"
  by (simp_all add: bytes_field_def frames_field_def set_bytes_def set_frames_def frame_elems_map ps_fields_def ps_names)

lemma ps_decode_members: "ps_ok p \<Longrightarrow> decode_fields ps_fields (ps_members p) zero_ps = Some p"
  unfolding ps_members_def decode_append ps_ok_def
  by (simp add: ps_decode_str ps_decode_nat ps_decode_int ps_decode_bytes zero_ps_def)

lemma ps_json_shape: "ints_only (JObj (ps_members p))" "json_depth (JObj (ps_members p)) \<le> maxNestingDepth"
proof -
  have pf: "ints_only (pf_json f)" "json_depth (pf_json f) \<le> 1" for f
    by (simp_all add: pf_json_def nat_field_def bytes_field_def)
  have fd: "list_all (\<lambda>(k, v). ints_only v) (frames_field k fs)" "list_all (\<lambda>(k, v). json_depth v \<le> 2) (frames_field k fs)" for k fs
    using pf foldr_max_le [of "map json_depth (map pf_json fs)" 1] by (auto simp: frames_field_def list_all_iff)
  have sm: "list_all (\<lambda>(k, v). ints_only v) (nat_field k n @ opt_nat k n @ bytes_field k b)"
    "list_all (\<lambda>(k, v). json_depth v \<le> 2) (nat_field k n @ opt_nat k n @ bytes_field k b)"
    "list_all (\<lambda>(k, v). json_depth v \<le> 2) (str_field k s @ opt_str k s @ int_field k i @ opt_int k i)" for k n b s i
    by (simp_all add: nat_field_def opt_nat_def bytes_field_def field_defs)
  show "ints_only (JObj (ps_members p))" using fd(1) sm(1) by (simp add: ps_members_def)
  have "list_all (\<lambda>(k, v). json_depth v \<le> 2) (ps_members p)" using fd(2) sm(2,3) by (simp add: ps_members_def)
  then have "foldr max (map (\<lambda>(k, v). json_depth v) (ps_members p)) 0 \<le> 2" using foldr_max_le [of "map (\<lambda>(k, v). json_depth v) (ps_members p)" 2] by (auto simp: list_all_iff)
  then show "json_depth (JObj (ps_members p)) \<le> maxNestingDepth" by (simp add: maxNestingDepth_def)
qed

lemma ps_members_valid:
  assumes "ps_ok p"
  shows "members_valid (ps_members p)"
proof -
  have "members_valid (nat_field k n @ opt_nat k n @ bytes_field k b)" if "valid_utf8 k" for k n b
    using that by (simp add: nat_field_def opt_nat_def bytes_field_def)
  moreover have "valid_json (pf_json f)" for f
    using valid_ascii by (simp add: pf_json_def nat_field_def bytes_field_def)
  then have "members_valid (frames_field k fs)" if "valid_utf8 k" for k fs
    using that by (auto simp: frames_field_def list_all_iff)
  ultimately show ?thesis using assms by (simp add: ps_members_def ps_ok_def valid_ascii)
qed

lemma ps_roundtrip: "ps_ok p \<Longrightarrow> ps_unmarshal (ps_marshal p) = Some p"
  using ps_decode_members [of p] ps_members_valid [of p] ps_json_shape [of p]
  by (simp add: ps_unmarshal_def unmarshal_struct_def ps_marshal_def json_roundtrip)

end
