(* ===== verification/SessionStore.thy ===== *)
theory SessionStore
  imports Delivery Persisted "HOL-Library.AList"
begin

text \<open>Session stores and ownership leases (\<^verbatim>\<open>src/session/store.go\<close>): snapshots of an endpoint, the
  compare-and-swap decisions, the in-memory store and the file store.

  The in-memory map is an association list.  The directory of the file store is an association list
  from file names to contents; what the environment decides during one operation (whether the lock is
  obtained, still held at the commit, whether a read or a write succeeds) is a record of arguments.\<close>

subsection \<open>Snapshots\<close>

definition snapshot :: "bytes \<Rightarrow> int \<Rightarrow> endpoint \<Rightarrow> persisted" where
  "snapshot rp replayResponses e =
     zero_ps\<lparr>ps_ID := id_String (e_id e), ps_SendSeq := sendSeq e, ps_Acked := acked e, ps_RecvSeq := recvSeq e,
       ps_Replay := rp, ps_ReplayResponses := replayResponses,
       ps_SendBuf := map (\<lambda>f. \<lparr>pf_Seq = f_seq f, pf_Payload = f_payload f\<rparr>) (sendBuf e)\<rparr>"

datatype restore_err = BadHex | BadIDLength nat | BufferTooLarge nat

definition parseSessionID :: "string \<Rightarrow> restore_err + sessionID" where
  "parseSessionID s =
     (case hex_decode s of
        None \<Rightarrow> Inl BadHex
      | Some b \<Rightarrow> if length b \<noteq> sessionIDLen then Inl (BadIDLength (length b)) else Inr b)"

definition restoreEndpoint :: "persisted \<Rightarrow> restore_err + endpoint" where
  "restoreEndpoint p =
     (case parseSessionID (ps_ID p) of
        Inl err \<Rightarrow> Inl err
      | Inr i \<Rightarrow>
          if defaultMaxSendFrames < length (ps_SendBuf p) then Inl (BufferTooLarge (length (ps_SendBuf p)))
          else
            let e = newEndpointCap i (int defaultMaxSendFrames)
            in Inr (e\<lparr>sendSeq := ps_SendSeq p, acked := ps_Acked p, recvSeq := ps_RecvSeq p,
                     sendBuf := map (\<lambda>f. data_frame (pf_Seq f) (pf_Payload f)) (ps_SendBuf p),
                     slots := slots e - length (ps_SendBuf p)\<rparr>))"

text \<open>The state a snapshot carries: everything but the connection, the inbound channel and the token
  count, which a restored endpoint recomputes.\<close>

definition detached_state :: "endpoint \<Rightarrow> endpoint" where
  "detached_state e =
     (newEndpoint (e_id e))\<lparr>sendSeq := sendSeq e, acked := acked e, recvSeq := recvSeq e, sendBuf := sendBuf e,
        slots := defaultMaxSendFrames - length (sendBuf e)\<rparr>"

lemma parse_id_String [simp]: "length i = sessionIDLen \<Longrightarrow> parseSessionID (id_String i) = Inr i"
  by (simp add: parseSessionID_def id_String_def)

lemma restore_snapshot:
  assumes "length (e_id e) = sessionIDLen" and "length (sendBuf e) \<le> defaultMaxSendFrames"
    and "\<forall>f\<in>set (sendBuf e). f = data_frame (f_seq f) (f_payload f)"
  shows "restoreEndpoint (snapshot r n e) = Inr (detached_state e)"
proof -
  have "map (\<lambda>f. data_frame (f_seq f) (f_payload f)) (sendBuf e) = sendBuf e" using assms(3) by (intro map_idI) auto
  then show ?thesis
    using assms(1,2) by (simp add: restoreEndpoint_def snapshot_def zero_ps_def detached_state_def newEndpoint_def Let_def comp_def
        newEndpointCap_def)
qed

lemma restore_slots_ok: "restoreEndpoint p = Inr e \<Longrightarrow> slots_ok e \<and> slots e + length (sendBuf e) = slot_cap e"
  by (auto simp: restoreEndpoint_def slots_ok_def newEndpointCap_def defaultMaxSendFrames_def Let_def split: sum.splits if_splits)

subsection \<open>Lease decisions\<close>

record lease =
  l_SessionID :: string
  l_Owner :: string
  l_Generation :: nat
  l_Expiry :: instant

definition canAcquire :: "persisted option \<Rightarrow> string \<Rightarrow> nat \<Rightarrow> instant \<Rightarrow> nat option" where
  "canAcquire cur owner expectedGen now =
     (case cur of
        None \<Rightarrow> if expectedGen \<noteq> 0 then None else Some 1
      | Some c \<Rightarrow>
          if now < ps_LeaseExpiry c \<and> ps_Owner c \<noteq> owner then None
          else if ps_Generation c \<noteq> expectedGen then None
          else Some (u64 (ps_Generation c + 1)))"

definition canTakeover :: "persisted option \<Rightarrow> nat \<Rightarrow> nat option" where
  "canTakeover cur expectedGen =
     (case cur of
        None \<Rightarrow> if expectedGen \<noteq> 0 then None else Some 1
      | Some c \<Rightarrow> if ps_Generation c \<noteq> expectedGen then None else Some (u64 (ps_Generation c + 1)))"

text \<open>The record after a grant (a session without a record starts from the zero one), and the lease
  returned.\<close>

definition granted :: "string \<Rightarrow> string \<Rightarrow> nat \<Rightarrow> instant \<Rightarrow> persisted option \<Rightarrow> persisted" where
  "granted i owner gen till cur =
     (case cur of None \<Rightarrow> zero_ps | Some c \<Rightarrow> c)\<lparr>ps_ID := i, ps_Owner := owner, ps_Generation := gen, ps_LeaseExpiry := wrap64 till\<rparr>"

definition lease_of :: "string \<Rightarrow> string \<Rightarrow> nat \<Rightarrow> instant \<Rightarrow> lease" where
  "lease_of i owner gen till = \<lparr>l_SessionID = i, l_Owner = owner, l_Generation = gen, l_Expiry = till\<rparr>"

definition holds_lease :: "persisted option \<Rightarrow> string \<Rightarrow> nat \<Rightarrow> bool" where
  "holds_lease cur owner gen = (case cur of None \<Rightarrow> False | Some c \<Rightarrow> ps_Owner c = owner \<and> ps_Generation c = gen)"

subsection \<open>The in-memory store\<close>

type_synonym memstore = "(string \<times> persisted) list"

definition mem_Save :: "persisted \<Rightarrow> memstore \<Rightarrow> memstore" where
  "mem_Save p m = AList.update (ps_ID p) p m"

definition mem_Load :: "string \<Rightarrow> memstore \<Rightarrow> persisted option" where
  "mem_Load i m = map_of m i"

definition mem_DeleteIfOwner :: "string \<Rightarrow> string \<Rightarrow> memstore \<Rightarrow> memstore" where
  "mem_DeleteIfOwner i owner m =
     (case map_of m i of Some p \<Rightarrow> if ps_Owner p = owner then AList.delete i m else m | None \<Rightarrow> m)"

definition mem_List :: "memstore \<Rightarrow> persisted list" where
  "mem_List m = map snd m"

definition mem_AcquireLease :: "string \<Rightarrow> string \<Rightarrow> nat \<Rightarrow> duration \<Rightarrow> instant \<Rightarrow> memstore \<Rightarrow> memstore \<times> lease option" where
  "mem_AcquireLease i owner expectedGen ttl now m =
     (case canAcquire (map_of m i) owner expectedGen now of
        None \<Rightarrow> (m, None)
      | Some g \<Rightarrow> (AList.update i (granted i owner g (now + ttl) (map_of m i)) m, Some (lease_of i owner g (now + ttl))))"

definition mem_TakeoverLease :: "string \<Rightarrow> string \<Rightarrow> nat \<Rightarrow> duration \<Rightarrow> instant \<Rightarrow> memstore \<Rightarrow> memstore \<times> lease option" where
  "mem_TakeoverLease i owner expectedGen ttl now m =
     (case canTakeover (map_of m i) expectedGen of
        None \<Rightarrow> (m, None)
      | Some g \<Rightarrow> (AList.update i (granted i owner g (now + ttl) (map_of m i)) m, Some (lease_of i owner g (now + ttl))))"

definition mem_RenewLease :: "string \<Rightarrow> string \<Rightarrow> nat \<Rightarrow> duration \<Rightarrow> instant \<Rightarrow> memstore \<Rightarrow> memstore \<times> lease option" where
  "mem_RenewLease i owner gen ttl now m =
     (if \<not> holds_lease (map_of m i) owner gen then (m, None)
      else (AList.update i ((the (map_of m i))\<lparr>ps_LeaseExpiry := wrap64 (now + ttl)\<rparr>) m, Some (lease_of i owner gen (now + ttl))))"

definition mem_ReleaseLease :: "string \<Rightarrow> string \<Rightarrow> nat \<Rightarrow> memstore \<Rightarrow> memstore \<times> bool" where
  "mem_ReleaseLease i owner gen m =
     (if \<not> holds_lease (map_of m i) owner gen then (m, False)
      else (AList.update i ((the (map_of m i))\<lparr>ps_Owner := [], ps_LeaseExpiry := 0\<rparr>) m, True))"

definition mem_SaveIfOwned :: "persisted \<Rightarrow> string \<Rightarrow> nat \<Rightarrow> memstore \<Rightarrow> memstore \<times> bool" where
  "mem_SaveIfOwned p owner gen m =
     (if \<not> holds_lease (map_of m (ps_ID p)) owner gen then (m, False)
      else (AList.update (ps_ID p)
              (p\<lparr>ps_Owner := owner, ps_Generation := gen, ps_LeaseExpiry := ps_LeaseExpiry (the (map_of m (ps_ID p)))\<rparr>) m, True))"

subsection \<open>The file store\<close>

type_synonym directory = "(string \<times> bytes) list"

datatype store_err = LockFailed | LockStolen | IOFailed | BadRecord

record op_env =
  lock_taken :: bool
  still_held :: bool
  read_works :: bool
  write_works :: bool

definition calm :: op_env where
  "calm = \<lparr>lock_taken = True, still_held = True, read_works = True, write_works = True\<rparr>"

definition fs_path :: "string \<Rightarrow> string" where
  "fs_path i = i @ ''.json''"

definition readUnlocked :: "op_env \<Rightarrow> string \<Rightarrow> directory \<Rightarrow> store_err + persisted option" where
  "readUnlocked env i d =
     (case map_of d (fs_path i) of
        None \<Rightarrow> Inr None
      | Some b \<Rightarrow>
          if \<not> read_works env then Inl IOFailed
          else case ps_unmarshal b of None \<Rightarrow> Inl BadRecord | Some p \<Rightarrow> Inr (Some p))"

definition writeLocked :: "op_env \<Rightarrow> persisted \<Rightarrow> directory \<Rightarrow> directory \<times> store_err option" where
  "writeLocked env p d =
     (let p = p\<lparr>ps_SchemaVersion := sessionSchemaVersion\<rparr> in
      if \<not> write_works env then (d, Some IOFailed)
      else if \<not> still_held env then (d, Some LockStolen)
      else (AList.update (fs_path (ps_ID p)) (ps_marshal p) d, None))"

definition withLock :: "op_env \<Rightarrow> (directory \<Rightarrow> directory \<times> (store_err + 'a)) \<Rightarrow> directory \<Rightarrow> directory \<times> (store_err + 'a)" where
  "withLock env fn d = (if \<not> lock_taken env then (d, Inl LockFailed) else fn d)"

text \<open>A read-modify-write under the lock: the decision on the record read, and what to write.\<close>

definition modify_file ::
  "op_env \<Rightarrow> string \<Rightarrow> (persisted option \<Rightarrow> (persisted \<times> 'a) option) \<Rightarrow> 'a \<Rightarrow> directory \<Rightarrow> directory \<times> (store_err + 'a)" where
  "modify_file env i decide refused =
     withLock env (\<lambda>d.
       (case readUnlocked env i d of
          Inl err \<Rightarrow> (d, Inl err)
        | Inr cur \<Rightarrow>
            (case decide cur of
               None \<Rightarrow> (d, Inr refused)
             | Some (p, r) \<Rightarrow> (case writeLocked env p d of (d', Some err) \<Rightarrow> (d', Inl err) | (d', None) \<Rightarrow> (d', Inr r)))))"

definition fs_Save :: "op_env \<Rightarrow> persisted \<Rightarrow> directory \<Rightarrow> directory \<times> (store_err + unit)" where
  "fs_Save env p =
     withLock env (\<lambda>d. case writeLocked env p d of (d', Some err) \<Rightarrow> (d', Inl err) | (d', None) \<Rightarrow> (d', Inr ()))"

definition fs_Load :: "op_env \<Rightarrow> string \<Rightarrow> directory \<Rightarrow> store_err + persisted option" where
  "fs_Load env i d =
     (case readUnlocked env i d of
        Inl err \<Rightarrow> Inl err
      | Inr None \<Rightarrow> Inr None
      | Inr (Some p) \<Rightarrow> if sessionSchemaVersion < ps_SchemaVersion p then Inr None else Inr (Some p))"

definition fs_DeleteIfOwner :: "op_env \<Rightarrow> string \<Rightarrow> string \<Rightarrow> directory \<Rightarrow> directory \<times> (store_err + unit)" where
  "fs_DeleteIfOwner env i owner =
     withLock env (\<lambda>d.
       (case readUnlocked env i d of
          Inl err \<Rightarrow> (d, Inl err)
        | Inr None \<Rightarrow> (d, Inr ())
        | Inr (Some p) \<Rightarrow>
            if ps_Owner p \<noteq> owner then (d, Inr ())
            else if \<not> still_held env then (d, Inl LockStolen)
            else if \<not> write_works env then (d, Inl IOFailed)
            else (AList.delete (fs_path i) d, Inr ())))"

definition fs_AcquireLease :: "op_env \<Rightarrow> string \<Rightarrow> string \<Rightarrow> nat \<Rightarrow> duration \<Rightarrow> instant \<Rightarrow> directory \<Rightarrow> directory \<times> (store_err + lease option)" where
  "fs_AcquireLease env i owner expectedGen ttl now =
     modify_file env i
       (\<lambda>cur. map_option (\<lambda>g. (granted i owner g (now + ttl) cur, Some (lease_of i owner g (now + ttl))))
                (canAcquire cur owner expectedGen now)) None"

definition fs_TakeoverLease :: "op_env \<Rightarrow> string \<Rightarrow> string \<Rightarrow> nat \<Rightarrow> duration \<Rightarrow> instant \<Rightarrow> directory \<Rightarrow> directory \<times> (store_err + lease option)" where
  "fs_TakeoverLease env i owner expectedGen ttl now =
     modify_file env i
       (\<lambda>cur. map_option (\<lambda>g. (granted i owner g (now + ttl) cur, Some (lease_of i owner g (now + ttl))))
                (canTakeover cur expectedGen)) None"

definition fs_RenewLease :: "op_env \<Rightarrow> string \<Rightarrow> string \<Rightarrow> nat \<Rightarrow> duration \<Rightarrow> instant \<Rightarrow> directory \<Rightarrow> directory \<times> (store_err + lease option)" where
  "fs_RenewLease env i owner gen ttl now =
     modify_file env i
       (\<lambda>cur. if \<not> holds_lease cur owner gen then None
              else Some ((the cur)\<lparr>ps_LeaseExpiry := wrap64 (now + ttl)\<rparr>, Some (lease_of i owner gen (now + ttl)))) None"

definition fs_ReleaseLease :: "op_env \<Rightarrow> string \<Rightarrow> string \<Rightarrow> nat \<Rightarrow> directory \<Rightarrow> directory \<times> (store_err + bool)" where
  "fs_ReleaseLease env i owner gen =
     modify_file env i
       (\<lambda>cur. if \<not> holds_lease cur owner gen then None
              else Some ((the cur)\<lparr>ps_Owner := [], ps_LeaseExpiry := 0\<rparr>, True)) False"

definition fs_SaveIfOwned :: "op_env \<Rightarrow> persisted \<Rightarrow> string \<Rightarrow> nat \<Rightarrow> directory \<Rightarrow> directory \<times> (store_err + bool)" where
  "fs_SaveIfOwned env p owner gen =
     modify_file env (ps_ID p)
       (\<lambda>cur. if \<not> holds_lease cur owner gen then None
              else Some (p\<lparr>ps_Owner := owner, ps_Generation := gen, ps_LeaseExpiry := ps_LeaseExpiry (the cur)\<rparr>, True)) False"

definition has_suffix :: "string \<Rightarrow> string \<Rightarrow> bool" where
  "has_suffix suf s = has_prefix (rev suf) (rev s)"

definition fs_List :: "directory \<Rightarrow> persisted list" where
  "fs_List d =
     filter (\<lambda>p. ps_ID p \<noteq> [] \<and> ps_SchemaVersion p \<le> sessionSchemaVersion)
       (List.map_filter (\<lambda>(n, b). ps_unmarshal b) (filter (\<lambda>(n, b). has_suffix ''.json'' n \<and> \<not> has_suffix ''.tmp'' n) d))"

subsection \<open>The lease contract\<close>

text \<open>The operations of \<^verbatim>\<open>LeaseStore\<close> with \<^verbatim>\<open>DeleteIfOwner\<close>, and their specification on a map of records.
  A store may stamp the records it writes.\<close>

datatype lease_op =
    Acquire string string nat duration instant
  | Takeover string string nat duration instant
  | Renew string string nat duration instant
  | Release string string nat
  | SaveOwned persisted string nat
  | Delete string string

datatype lease_reply = Lease "lease option" | Done bool

definition grant_spec ::
  "(persisted \<Rightarrow> persisted) \<Rightarrow> string \<Rightarrow> string \<Rightarrow> instant \<Rightarrow> nat option \<Rightarrow> (string \<rightharpoonup> persisted) \<Rightarrow> (string \<rightharpoonup> persisted) \<times> lease_reply" where
  "grant_spec st i owner till gen m =
     (case gen of
        None \<Rightarrow> (m, Lease None)
      | Some g \<Rightarrow> (m(i \<mapsto> st (granted i owner g till (m i))), Lease (Some (lease_of i owner g till))))"

definition save_spec ::
  "(persisted \<Rightarrow> persisted) \<Rightarrow> string \<Rightarrow> string \<Rightarrow> nat \<Rightarrow> (persisted \<Rightarrow> persisted) \<Rightarrow> (string \<rightharpoonup> persisted) \<Rightarrow> (string \<rightharpoonup> persisted) \<times> bool" where
  "save_spec st i owner gen f m =
     (case m i of
        Some c \<Rightarrow> if ps_Owner c = owner \<and> ps_Generation c = gen then (m(i \<mapsto> st (f c)), True) else (m, False)
      | None \<Rightarrow> (m, False))"

fun lease_spec :: "(persisted \<Rightarrow> persisted) \<Rightarrow> lease_op \<Rightarrow> (string \<rightharpoonup> persisted) \<Rightarrow> (string \<rightharpoonup> persisted) \<times> lease_reply" where
  "lease_spec st (Acquire i owner eg ttl now) m = grant_spec st i owner (now + ttl) (canAcquire (m i) owner eg now) m"
| "lease_spec st (Takeover i owner eg ttl now) m = grant_spec st i owner (now + ttl) (canTakeover (m i) eg) m"
| "lease_spec st (Renew i owner gen ttl now) m =
     (let (m', ok) = save_spec st i owner gen (\<lambda>c. c\<lparr>ps_LeaseExpiry := wrap64 (now + ttl)\<rparr>) m
      in (m', Lease (if ok then Some (lease_of i owner gen (now + ttl)) else None)))"
| "lease_spec st (Release i owner gen) m =
     apsnd Done (save_spec st i owner gen (\<lambda>c. c\<lparr>ps_Owner := [], ps_LeaseExpiry := 0\<rparr>) m)"
| "lease_spec st (SaveOwned p owner gen) m =
     apsnd Done (save_spec st (ps_ID p) owner gen
       (\<lambda>c. p\<lparr>ps_Owner := owner, ps_Generation := gen, ps_LeaseExpiry := ps_LeaseExpiry c\<rparr>) m)"
| "lease_spec st (Delete i owner) m =
     (case m i of Some c \<Rightarrow> if ps_Owner c = owner then (m(i := None), Done True) else (m, Done True) | None \<Rightarrow> (m, Done True))"

fun run_ops :: "(lease_op \<Rightarrow> 's \<Rightarrow> 's \<times> lease_reply) \<Rightarrow> lease_op list \<Rightarrow> 's \<Rightarrow> 's" where
  "run_ops op [] s = s"
| "run_ops op (a # as) s = run_ops op as (fst (op a s))"

text \<open>The operations that present a lease of session \<open>i\<close>, and those that end its record.\<close>

definition presents :: "string \<Rightarrow> string \<Rightarrow> nat \<Rightarrow> lease_op \<Rightarrow> bool" where
  "presents i owner gen a =
     (case a of
        Renew j ow g _ _ \<Rightarrow> j = i \<and> ow = owner \<and> g = gen
      | Release j ow g \<Rightarrow> j = i \<and> ow = owner \<and> g = gen
      | SaveOwned p ow g \<Rightarrow> ps_ID p = i \<and> ow = owner \<and> g = gen
      | _ \<Rightarrow> False)"

definition claims :: "string \<Rightarrow> nat \<Rightarrow> lease_op \<Rightarrow> bool" where
  "claims i eg a =
     (case a of Acquire j _ g _ _ \<Rightarrow> j = i \<and> g = eg | Takeover j _ g _ _ \<Rightarrow> j = i \<and> g = eg | _ \<Rightarrow> False)"

definition deletes :: "string \<Rightarrow> lease_op \<Rightarrow> bool" where
  "deletes i a = (case a of Delete j _ \<Rightarrow> j = i | _ \<Rightarrow> False)"

definition refused :: "lease_reply \<Rightarrow> bool" where
  "refused r = (r = Lease None \<or> r = Done False)"

locale lease_store =
  fixes op :: "lease_op \<Rightarrow> 's \<Rightarrow> 's \<times> lease_reply"
    and look :: "'s \<Rightarrow> string \<rightharpoonup> persisted"
    and good :: "'s \<Rightarrow> bool"
    and fits :: "lease_op \<Rightarrow> bool"
    and stamp :: "persisted \<Rightarrow> persisted"
  assumes refine: "good s \<Longrightarrow> fits a \<Longrightarrow> op a s = (s', r) \<Longrightarrow> good s' \<and> lease_spec stamp a (look s) = (look s', r)"
    and stamp: "\<exists>v. stamp p = p\<lparr>ps_SchemaVersion := v\<rparr>"
begin

lemma stamp_Generation: "ps_Generation (stamp p) = ps_Generation p"
  using stamp [of p] by auto

text \<open>The generation of a session that is not deleted never decreases, and grows with every grant.\<close>

lemma generation_step:
  assumes "good s" "fits a" "look s i = Some c" "\<not> deletes i a" "Suc (ps_Generation c) < 2 ^ 64" "op a s = (s', r)"
  obtains c' where "look s' i = Some c'" "ps_Generation c \<le> ps_Generation c'" "ps_Generation c' \<le> Suc (ps_Generation c)"
    "claims i eg a \<Longrightarrow> \<not> refused r \<Longrightarrow> ps_Generation c = eg \<and> ps_Generation c' = Suc eg"
proof -
  have sp: "look s' = fst (lease_spec stamp a (look s))" "r = snd (lease_spec stamp a (look s))"
    using refine [OF assms(1,2,6)] by simp_all
  have u: "u64 (Suc (ps_Generation c)) = Suc (ps_Generation c)" using assms(5) by (simp add: u64_def)
  let ?P = "\<lambda>m r. \<exists>c'. m i = Some c' \<and> ps_Generation c \<le> ps_Generation c' \<and> ps_Generation c' \<le> Suc (ps_Generation c) \<and>
      (claims i eg a \<longrightarrow> \<not> refused r \<longrightarrow> ps_Generation c = eg \<and> ps_Generation c' = Suc eg)"
  have grant: "?P (fst (grant_spec stamp j ow till g (look s))) (snd (grant_spec stamp j ow till g (look s)))"
    if "j = i \<Longrightarrow> g = None \<or> g = Some (Suc (ps_Generation c)) \<and> ps_Generation c = x" "claims i eg a \<Longrightarrow> j = i \<and> x = eg" for j ow till g x
    using that assms(3)
    by (cases g; cases "j = i") (auto simp: grant_spec_def granted_def refused_def stamp_Generation)
  have save: "?P (fst (save_spec stamp j ow gen f (look s))) q" if "j = i \<Longrightarrow> ps_Generation (f c) = ps_Generation c \<or> ps_Generation (f c) = gen" "\<not> claims i eg a" for j ow gen f q
    using that assms(3) by (cases "j = i") (auto simp: save_spec_def stamp_Generation split: option.splits)
  have "?P (look s') r"
  proof (cases a)
    case (Acquire j ow x ttl now)
    have P: "j = i \<Longrightarrow> canAcquire (look s j) ow x now = None \<or> canAcquire (look s j) ow x now = Some (Suc (ps_Generation c)) \<and> ps_Generation c = x"
      using assms(3) u by (auto simp: canAcquire_def)
    have "claims i eg a \<Longrightarrow> j = i \<and> x = eg" by (simp add: Acquire claims_def)
    then show ?thesis using grant [OF P] by (simp only: sp Acquire lease_spec.simps)
  next
    case (Takeover j ow x ttl now)
    have P: "j = i \<Longrightarrow> canTakeover (look s j) x = None \<or> canTakeover (look s j) x = Some (Suc (ps_Generation c)) \<and> ps_Generation c = x"
      using assms(3) u by (auto simp: canTakeover_def)
    have "claims i eg a \<Longrightarrow> j = i \<and> x = eg" by (simp add: Takeover claims_def)
    then show ?thesis using grant [OF P] by (simp only: sp Takeover lease_spec.simps)
  next
    case (Renew j ow g ttl now)
    have "\<not> claims i eg a" by (simp add: Renew claims_def)
    then show ?thesis using save by (simp only: sp Renew lease_spec.simps Let_def case_prod_unfold fst_conv) simp
  next
    case (Release j ow g)
    have "\<not> claims i eg a" by (simp add: Release claims_def)
    then show ?thesis using save by (simp only: sp Release lease_spec.simps fst_apsnd) simp
  next
    case (SaveOwned p ow g)
    have "\<not> claims i eg a" by (simp add: SaveOwned claims_def)
    then show ?thesis using save by (simp only: sp SaveOwned lease_spec.simps fst_apsnd) simp
  next
    case (Delete j ow)
    then show ?thesis using assms(3,4) by (auto simp: sp claims_def deletes_def split: option.splits)
  qed
  then show thesis using that by blast
qed

lemma stale_refused:
  assumes "good s" "fits a" "look s i = Some c" "gen < ps_Generation c" "presents i owner gen a" "op a s = (s', r)"
  shows "refused r \<and> look s' = look s"
proof -
  have sp: "look s' = fst (lease_spec stamp a (look s))" "r = snd (lease_spec stamp a (look s))"
    using refine [OF assms(1,2,6)] by simp_all
  show ?thesis
    using assms(3-5) unfolding sp by (cases a) (auto simp: presents_def save_spec_def refused_def Let_def)
qed

lemma claim_refused:
  assumes "good s" "fits a" "look s i = Some c" "eg < ps_Generation c" "claims i eg a" "op a s = (s', r)"
  shows "refused r \<and> look s' = look s"
proof -
  have sp: "look s' = fst (lease_spec stamp a (look s))" "r = snd (lease_spec stamp a (look s))"
    using refine [OF assms(1,2,6)] by simp_all
  show ?thesis
    using assms(3-5) unfolding sp
    by (cases a) (auto simp: claims_def grant_spec_def canAcquire_def canTakeover_def refused_def Let_def split: if_splits)
qed

lemma run_generation:
  assumes "good s" "list_all fits as" "look s i = Some c" "\<forall>a\<in>set as. \<not> deletes i a" "ps_Generation c + length as < 2 ^ 64"
  shows "good (run_ops op as s) \<and> (\<exists>c'. look (run_ops op as s) i = Some c' \<and> ps_Generation c \<le> ps_Generation c' \<and>
           ps_Generation c' \<le> ps_Generation c + length as)"
  using assms
proof (induction as arbitrary: s c)
  case (Cons a as)
  obtain s' r where o: "op a s = (s', r)" by fastforce
  have f: "fits a" "\<not> deletes i a" using Cons.prems by simp_all
  have "Suc (ps_Generation c) < 2 ^ 64" using Cons.prems(5) by simp
  then obtain c' where c': "look s' i = Some c'" "ps_Generation c \<le> ps_Generation c'" "ps_Generation c' \<le> Suc (ps_Generation c)"
    using generation_step [OF Cons.prems(1) f(1) Cons.prems(3) f(2) _ o] by metis
  have "good s'" using refine [OF Cons.prems(1) f(1) o] by simp
  then show ?case using Cons.IH [of s' c'] Cons.prems c' o by fastforce
qed simp

lemma fenced_forever:
  assumes "good s" "list_all fits (as @ [a])" "look s i = Some c" "gen < ps_Generation c"
    and "\<forall>b\<in>set as. \<not> deletes i b" "ps_Generation c + length as < 2 ^ 64" "presents i owner gen a"
    and "op a (run_ops op as s) = (s', r)"
  shows "refused r \<and> look s' = look (run_ops op as s)"
proof -
  obtain c' where "good (run_ops op as s)" "look (run_ops op as s) i = Some c'" "ps_Generation c \<le> ps_Generation c'"
    using run_generation [OF assms(1) _ assms(3,5,6)] assms(2) by auto
  then show ?thesis using stale_refused [of "run_ops op as s" a i c' gen owner s' r] assms(2,4,7,8) by simp
qed

lemma one_claim_wins:
  assumes "good s" "list_all fits (a # as @ [b])" "look s i = Some c" "claims i eg a" "claims i eg b"
    and "\<forall>b\<in>set as. \<not> deletes i b" "ps_Generation c + length as + 1 < 2 ^ 64"
    and "op a s = (s1, r1)" "\<not> refused r1" "op b (run_ops op as s1) = (s2, r2)"
  shows "refused r2 \<and> look s2 = look (run_ops op as s1)"
proof -
  have "\<not> deletes i a" using assms(4) by (auto simp: claims_def deletes_def split: lease_op.splits)
  moreover have "Suc (ps_Generation c) < 2 ^ 64" "fits a" using assms(2,7) by simp_all
  ultimately obtain c1 where c1: "look s1 i = Some c1" "ps_Generation c1 = Suc eg" "ps_Generation c = eg"
    using generation_step [OF assms(1) _ assms(3) _ _ assms(8)] assms(4,9) by metis
  have "good s1" using refine [OF assms(1) \<open>fits a\<close> assms(8)] by simp
  then obtain c2 where "good (run_ops op as s1)" "look (run_ops op as s1) i = Some c2" "ps_Generation c1 \<le> ps_Generation c2"
    using run_generation [of s1 as i c1] assms(2,6,7) c1 by auto
  then show ?thesis using claim_refused [of "run_ops op as s1" b i c2 eg s2 r2] assms(2,5,10) c1(2) by simp
qed

end

subsection \<open>Both stores keep the contract\<close>

fun mem_op :: "lease_op \<Rightarrow> memstore \<Rightarrow> memstore \<times> lease_reply" where
  "mem_op (Acquire i owner eg ttl now) m = apsnd Lease (mem_AcquireLease i owner eg ttl now m)"
| "mem_op (Takeover i owner eg ttl now) m = apsnd Lease (mem_TakeoverLease i owner eg ttl now m)"
| "mem_op (Renew i owner gen ttl now) m = apsnd Lease (mem_RenewLease i owner gen ttl now m)"
| "mem_op (Release i owner gen) m = apsnd Done (mem_ReleaseLease i owner gen m)"
| "mem_op (SaveOwned p owner gen) m = apsnd Done (mem_SaveIfOwned p owner gen m)"
| "mem_op (Delete i owner) m = (mem_DeleteIfOwner i owner m, Done True)"

lemma mem_refine: "lease_spec id a (map_of m) = (map_of (fst (mem_op a m)), snd (mem_op a m))"
  by (cases a) (auto simp: grant_spec_def save_spec_def holds_lease_def mem_AcquireLease_def mem_TakeoverLease_def mem_RenewLease_def
      mem_ReleaseLease_def mem_SaveIfOwned_def mem_DeleteIfOwner_def update_conv' delete_conv' split: option.splits)

interpretation mem: lease_store mem_op map_of "\<lambda>_. True" "\<lambda>_. True" id
proof unfold_locales
  show "\<exists>v. id p = p\<lparr>ps_SchemaVersion := v\<rparr>" for p :: persisted by (rule exI [of _ "ps_SchemaVersion p"]) simp
  show "True \<and> lease_spec id a (map_of s) = (map_of s', r)" if "mem_op a s = (s', r)" for s a s' r
    using mem_refine [of a s] that by simp
qed

definition reply :: "('a \<Rightarrow> lease_reply) \<Rightarrow> 'a \<Rightarrow> directory \<times> (store_err + 'a) \<Rightarrow> directory \<times> lease_reply" where
  "reply f no x = (fst x, f (case snd x of Inl _ \<Rightarrow> no | Inr v \<Rightarrow> v))"

text \<open>The file store when nothing fails.\<close>

fun fs_op :: "lease_op \<Rightarrow> directory \<Rightarrow> directory \<times> lease_reply" where
  "fs_op (Acquire i owner eg ttl now) d = reply Lease None (fs_AcquireLease calm i owner eg ttl now d)"
| "fs_op (Takeover i owner eg ttl now) d = reply Lease None (fs_TakeoverLease calm i owner eg ttl now d)"
| "fs_op (Renew i owner gen ttl now) d = reply Lease None (fs_RenewLease calm i owner gen ttl now d)"
| "fs_op (Release i owner gen) d = reply Done False (fs_ReleaseLease calm i owner gen d)"
| "fs_op (SaveOwned p owner gen) d = reply Done False (fs_SaveIfOwned calm p owner gen d)"
| "fs_op (Delete i owner) d = (fst (fs_DeleteIfOwner calm i owner d), Done True)"

definition fs_look :: "directory \<Rightarrow> string \<rightharpoonup> persisted" where
  "fs_look d i = (case map_of d (fs_path i) of None \<Rightarrow> None | Some b \<Rightarrow> ps_unmarshal b)"

definition fs_good :: "directory \<Rightarrow> bool" where
  "fs_good d = (\<forall>i b. map_of d (fs_path i) = Some b \<longrightarrow> (\<exists>p. ps_unmarshal b = Some p \<and> ps_ok p \<and> ps_ID p = i))"

definition fs_stamp :: "persisted \<Rightarrow> persisted" where
  "fs_stamp p = p\<lparr>ps_SchemaVersion := sessionSchemaVersion\<rparr>"

fun op_ok :: "lease_op \<Rightarrow> bool" where
  "op_ok (Acquire i owner _ _ _) = (valid_utf8 i \<and> valid_utf8 owner)"
| "op_ok (Takeover i owner _ _ _) = (valid_utf8 i \<and> valid_utf8 owner)"
| "op_ok (SaveOwned p owner gen) = (ps_ok p \<and> valid_utf8 owner \<and> gen < 2 ^ 64)"
| "op_ok _ = True"

lemma calm_simps [simp]: "lock_taken calm" "still_held calm" "read_works calm" "write_works calm"
  by (simp_all add: calm_def)

lemma fs_path_inj [simp]: "fs_path i = fs_path j \<longleftrightarrow> i = j"
  by (simp add: fs_path_def)

lemma fs_read: "fs_good d \<Longrightarrow> readUnlocked calm i d = Inr (fs_look d i)"
  by (cases "map_of d (fs_path i)") (force simp: readUnlocked_def fs_look_def fs_good_def)+

lemma fs_look_ok: "fs_good d \<Longrightarrow> fs_look d i = Some p \<Longrightarrow> ps_ok p \<and> ps_ID p = i"
  by (cases "map_of d (fs_path i)") (force simp: fs_look_def fs_good_def)+

lemma ps_ok_stamp: "ps_ok p \<Longrightarrow> ps_ok (fs_stamp p)"
  by (simp add: ps_ok_def fs_stamp_def sessionSchemaVersion_def)

lemma fs_write:
  assumes "fs_good d" and "ps_ok p"
  obtains d' where "writeLocked calm p d = (d', None)" "fs_good d'" "fs_look d' = (fs_look d)(ps_ID p \<mapsto> fs_stamp p)"
proof
  let ?d = "AList.update (fs_path (ps_ID p)) (ps_marshal (fs_stamp p)) d"
  have rt: "ps_unmarshal (ps_marshal (fs_stamp p)) = Some (fs_stamp p)" using ps_roundtrip ps_ok_stamp assms(2) by blast
  show "writeLocked calm p d = (?d, None)" by (simp add: writeLocked_def fs_stamp_def Let_def)
  show "fs_look ?d = (fs_look d)(ps_ID p \<mapsto> fs_stamp p)" using rt by (auto simp: fs_look_def update_conv')
  show "fs_good ?d"
    using assms rt ps_ok_stamp [OF assms(2)] by (auto simp: fs_good_def update_conv' fs_stamp_def)
qed

lemma fs_modify:
  assumes "fs_good d" and "modify_file calm i decide no d = (d', res)"
    and "\<And>p r. decide (fs_look d i) = Some (p, r) \<Longrightarrow> ps_ok p \<and> ps_ID p = i"
  shows "fs_good d' \<and>
    (case decide (fs_look d i) of
       None \<Rightarrow> d' = d \<and> res = Inr no
     | Some (p, r) \<Rightarrow> fs_look d' = (fs_look d)(i \<mapsto> fs_stamp p) \<and> res = Inr r)"
proof (cases "decide (fs_look d i)")
  case None
  then show ?thesis using assms(1,2) by (auto simp: modify_file_def withLock_def fs_read)
next
  case (Some x)
  obtain p r where x: "x = (p, r)" by (cases x)
  have p: "ps_ok p" "ps_ID p = i" using assms(3) Some x by simp_all
  obtain d1 where d1: "writeLocked calm p d = (d1, None)" "fs_good d1" "fs_look d1 = (fs_look d)(ps_ID p \<mapsto> fs_stamp p)"
    using fs_write [OF assms(1) p(1)] by blast
  show ?thesis using assms(1,2) Some x d1 p(2) by (auto simp: modify_file_def withLock_def fs_read)
qed

lemma granted_ok:
  assumes "cur = None \<or> ps_ok (the cur)" and "valid_utf8 i" "valid_utf8 owner" and "g < 2 ^ 64"
  shows "ps_ok (granted i owner g t cur) \<and> ps_ID (granted i owner g t cur) = i"
proof -
  have "ps_ok zero_ps" by (simp add: ps_ok_def zero_ps_def valid_utf8_def)
  then show ?thesis using assms wrap64_range [of t] by (cases cur) (auto simp: granted_def ps_ok_def)
qed

lemma claim_small: "canAcquire cur ow eg now = Some g \<Longrightarrow> g < 2 ^ 64" "canTakeover cur eg = Some g \<Longrightarrow> g < 2 ^ 64"
  by (auto simp: canAcquire_def canTakeover_def u64_def split: option.splits if_splits)

lemma fs_save_refine:
  assumes "fs_good d"
    and "modify_file calm i (\<lambda>cur. if \<not> holds_lease cur ow gen then None else Some (f (the cur), yes)) no d = (d', res)"
    and "yes \<noteq> no"
    and "\<And>c. fs_look d i = Some c \<Longrightarrow> ps_Owner c = ow \<Longrightarrow> ps_Generation c = gen \<Longrightarrow> ps_ok (f c) \<and> ps_ID (f c) = i"
  shows "fs_good d' \<and> save_spec fs_stamp i ow gen f (fs_look d) = (fs_look d', (case res of Inl _ \<Rightarrow> no | Inr v \<Rightarrow> v) \<noteq> no)"
  using fs_modify [OF assms(1,2)] assms(3,4)
  by (cases "fs_look d i") (auto simp: save_spec_def holds_lease_def split: if_splits)

lemma fs_refine:
  assumes "fs_good d" and "op_ok a" and "fs_op a d = (d', r)"
  shows "fs_good d' \<and> lease_spec fs_stamp a (fs_look d) = (fs_look d', r)"
proof -
  have cur: "fs_look d i = None \<or> ps_ok (the (fs_look d i))" for i using fs_look_ok [OF assms(1)] by (cases "fs_look d i") auto
  have claim: "fs_good d' \<and> grant_spec fs_stamp i ow t (f (fs_look d i)) (fs_look d) = (fs_look d', r)"
    if m: "modify_file calm i (\<lambda>cur. map_option (\<lambda>g. (granted i ow g t cur, Some (lease_of i ow g t))) (f cur)) None d = (d', res)"
      "r = Lease (case res of Inl _ \<Rightarrow> None | Inr v \<Rightarrow> v)" and v: "valid_utf8 i" "valid_utf8 ow" and g: "\<And>g. f (fs_look d i) = Some g \<Longrightarrow> g < 2 ^ 64"
    for i ow t f res
    using fs_modify [OF assms(1) m(1)] granted_ok [OF cur [of i] v, of _ t] g m(2)
    by (cases "f (fs_look d i)") (auto simp: grant_spec_def)
  note save = fs_save_refine [OF assms(1)]
  show ?thesis
  proof (cases a)
    case (Acquire i ow eg ttl now)
    then show ?thesis
      using claim [of i ow "now + ttl" "\<lambda>c. canAcquire c ow eg now" "snd (fs_AcquireLease calm i ow eg ttl now d)"] assms(2,3) claim_small(1)
      by (auto simp: fs_AcquireLease_def reply_def)
  next
    case (Takeover i ow eg ttl now)
    then show ?thesis
      using claim [of i ow "now + ttl" "\<lambda>c. canTakeover c eg" "snd (fs_TakeoverLease calm i ow eg ttl now d)"] assms(2,3) claim_small(2)
      by (auto simp: fs_TakeoverLease_def reply_def)
  next
    case (Renew i ow g ttl now)
    obtain res where m: "fs_RenewLease calm i ow g ttl now d = (d', res)" "r = Lease (case res of Inl _ \<Rightarrow> None | Inr v \<Rightarrow> v)"
      using assms(3) Renew by (cases "fs_RenewLease calm i ow g ttl now d") (auto simp: reply_def)
    have "ps_ok (c\<lparr>ps_LeaseExpiry := wrap64 (now + ttl)\<rparr>) \<and> ps_ID c = i" if "fs_look d i = Some c" for c
      using fs_look_ok [OF assms(1) that] wrap64_range [of "now + ttl"] by (auto simp: ps_ok_def)
    then have "fs_good d' \<and> save_spec fs_stamp i ow g (\<lambda>c. c\<lparr>ps_LeaseExpiry := wrap64 (now + ttl)\<rparr>) (fs_look d) =
        (fs_look d', (case res of Inl _ \<Rightarrow> None | Inr v \<Rightarrow> v) \<noteq> None)"
      using m(1) by (intro save [where yes = "Some (lease_of i ow g (now + ttl))"]) (simp_all add: fs_RenewLease_def)
    moreover have "(case res of Inl _ \<Rightarrow> None | Inr v \<Rightarrow> v) \<in> {None, Some (lease_of i ow g (now + ttl))}"
      using m(1) by (auto simp: fs_RenewLease_def modify_file_def withLock_def split: sum.splits option.splits if_splits prod.splits)
    ultimately show ?thesis using m(2) Renew by (auto simp: Let_def)
  next
    case (Release i ow g)
    have ok: "ps_ok (c\<lparr>ps_Owner := [], ps_LeaseExpiry := 0\<rparr>) \<and> ps_ID c = i" if "fs_look d i = Some c" for c
      using fs_look_ok [OF assms(1) that] by (auto simp: ps_ok_def valid_utf8_def)
    then show ?thesis
      using save [of i ow g "\<lambda>c. c\<lparr>ps_Owner := [], ps_LeaseExpiry := 0\<rparr>" True False d' "snd (fs_ReleaseLease calm i ow g d)"] assms(3) Release
      by (auto simp: fs_ReleaseLease_def reply_def)
  next
    case (SaveOwned p ow g)
    have ok: "ps_ok (p\<lparr>ps_Owner := ow, ps_Generation := g, ps_LeaseExpiry := ps_LeaseExpiry c\<rparr>)" if "fs_look d (ps_ID p) = Some c" for c
      using fs_look_ok [OF assms(1) that] assms(2) SaveOwned by (simp add: ps_ok_def)
    then show ?thesis
      using save [of "ps_ID p" ow g "\<lambda>c. p\<lparr>ps_Owner := ow, ps_Generation := g, ps_LeaseExpiry := ps_LeaseExpiry c\<rparr>" True False
          d' "snd (fs_SaveIfOwned calm p ow g d)"] assms(3) SaveOwned
      by (auto simp: fs_SaveIfOwned_def reply_def)
  next
    case (Delete i ow)
    have "fs_look (AList.delete (fs_path i) d) = (fs_look d)(i := None)" "fs_good (AList.delete (fs_path i) d)"
      using assms(1) by (auto simp: fs_look_def fs_good_def delete_conv')
    then show ?thesis
      using assms(1,3) Delete by (cases "fs_look d i") (auto simp: fs_DeleteIfOwner_def withLock_def fs_read split: if_splits)
  qed
qed

interpretation fsl: lease_store fs_op fs_look fs_good op_ok fs_stamp
proof unfold_locales
  show "\<exists>v. fs_stamp p = p\<lparr>ps_SchemaVersion := v\<rparr>" for p by (auto simp: fs_stamp_def)
qed (fact fs_refine)

subsection \<open>Properties\<close>

text \<open>C27: A gateway whose lease was superseded is fenced for good: once the stored generation is past its
  own, no renewal, release or checkpoint it presents is accepted or changes anything, whatever the
  other gateways do in between (short of deleting the record).\<close>

theorem stale_holder_fenced:
  assumes "fs_good d" and "list_all op_ok (as @ [a])" and "fs_look d i = Some c" and "gen < ps_Generation c"
    and "\<forall>b\<in>set as. \<not> deletes i b" and "ps_Generation c + length as < 2 ^ 64" and "presents i owner gen a"
    and "fs_op a (run_ops fs_op as d) = (d', r)"
  shows "refused r \<and> fs_look d' = fs_look (run_ops fs_op as d)"
  using assms by (rule fsl.fenced_forever)

text \<open>Of the gateways that claim a session at the same generation, by acquiring or by taking over, one
  wins: after a granted claim every other claim at that generation is refused and changes nothing.\<close>

theorem racing_claims_one_winner:
  assumes "fs_good d" and "list_all op_ok (a # as @ [b])" and "fs_look d i = Some c" and "claims i eg a" and "claims i eg b"
    and "\<forall>b\<in>set as. \<not> deletes i b" and "ps_Generation c + length as + 1 < 2 ^ 64"
    and "fs_op a d = (d1, r1)" and "\<not> refused r1" and "fs_op b (run_ops fs_op as d1) = (d2, r2)"
  shows "refused r2 \<and> fs_look d2 = fs_look (run_ops fs_op as d1)"
  using assms by (rule fsl.one_claim_wins)

text \<open>A session held by gateway \<open>a\<close> at generation 1.\<close>

definition demo_ps :: persisted where
  "demo_ps = zero_ps\<lparr>ps_ID := ''07'', ps_Owner := ''a'', ps_Generation := 1, ps_LeaseExpiry := 100\<rparr>"

definition demo_dir :: directory where
  "demo_dir = [(fs_path ''07'', ps_marshal demo_ps)]"

lemma demo_texts: "valid_utf8 ''07''" "valid_utf8 ''a''" "valid_utf8 ''b''" "valid_utf8 ''c''" "valid_utf8 []"
  by (simp_all add: valid_ascii)

lemma demo_ps_ok: "ps_ok demo_ps" "ps_unmarshal (ps_marshal demo_ps) = Some demo_ps"
proof -
  show ok: "ps_ok demo_ps" by (simp add: ps_ok_def demo_ps_def zero_ps_def demo_texts)
  show "ps_unmarshal (ps_marshal demo_ps) = Some demo_ps" using ps_roundtrip [OF ok] .
qed

lemma demo_dir_good: "fs_good demo_dir" "fs_look demo_dir ''07'' = Some demo_ps"
proof -
  have i: "i = ''07''" if "fs_path i = fs_path ''07''" for i using that by simp
  show "fs_good demo_dir"
    unfolding fs_good_def
  proof (intro allI impI)
    fix i b
    assume "map_of demo_dir (fs_path i) = Some b"
    then have "b = ps_marshal demo_ps" "i = ''07''" by (simp_all add: demo_dir_def split: if_splits)
    then show "\<exists>p. ps_unmarshal b = Some p \<and> ps_ok p \<and> ps_ID p = i"
      using demo_ps_ok by (simp add: demo_ps_def)
  qed
  show "fs_look demo_dir ''07'' = Some demo_ps" using demo_ps_ok by (simp add: fs_look_def demo_dir_def)
qed

lemma demo_takeover: "fst (lease_spec fs_stamp (Takeover ''07'' ''b'' 1 10 50) (fs_look demo_dir)) ''07'' =
    Some (fs_stamp (granted ''07'' ''b'' 2 60 (Some demo_ps)))"
  "snd (lease_spec fs_stamp (Takeover ''07'' ''b'' 1 10 50) (fs_look demo_dir)) = Lease (Some (lease_of ''07'' ''b'' 2 60))"
proof -
  have "u64 (Suc 1) = 2" by (simp add: u64_def)
  then show "fst (lease_spec fs_stamp (Takeover ''07'' ''b'' 1 10 50) (fs_look demo_dir)) ''07'' =
      Some (fs_stamp (granted ''07'' ''b'' 2 60 (Some demo_ps)))"
    "snd (lease_spec fs_stamp (Takeover ''07'' ''b'' 1 10 50) (fs_look demo_dir)) = Lease (Some (lease_of ''07'' ''b'' 2 60))"
    using demo_dir_good(2) by (simp_all add: grant_spec_def canTakeover_def demo_ps_def)
qed

theorem stale_holder_fenced_witness:
  "\<exists>d1 r1 d2 r2. fs_op (Takeover ''07'' ''b'' 1 10 50) demo_dir = (d1, r1) \<and> \<not> refused r1 \<and>
     fs_op (SaveOwned demo_ps ''a'' 1) d1 = (d2, r2) \<and> refused r2 \<and> fs_look d2 = fs_look d1"
proof -
  obtain d1 r1 where o: "fs_op (Takeover ''07'' ''b'' 1 10 50) demo_dir = (d1, r1)" by fastforce
  have ok: "op_ok (Takeover ''07'' ''b'' 1 10 50)" "op_ok (SaveOwned demo_ps ''a'' 1)" using demo_texts demo_ps_ok by simp_all
  have R: "fs_good d1" "lease_spec fs_stamp (Takeover ''07'' ''b'' 1 10 50) (fs_look demo_dir) = (fs_look d1, r1)"
    using fs_refine [OF demo_dir_good(1) ok(1) o] by simp_all
  have l: "fs_look d1 ''07'' = Some (fs_stamp (granted ''07'' ''b'' 2 60 (Some demo_ps)))" "\<not> refused r1"
    using demo_takeover R(2) by (auto simp: refused_def)
  obtain d2 r2 where s: "fs_op (SaveOwned demo_ps ''a'' 1) (run_ops fs_op [] d1) = (d2, r2)" by fastforce
  have "refused r2 \<and> fs_look d2 = fs_look (run_ops fs_op [] d1)"
    by (rule stale_holder_fenced [OF R(1) _ l(1) _ _ _ _ s, of "1" "''a''"])
      (use ok(2) in \<open>simp_all add: fs_stamp_def granted_def presents_def demo_ps_def\<close>)
  then show ?thesis using o l(2) s by auto
qed

theorem racing_claims_one_winner_witness:
  "\<exists>d1 r1 d2 r2. fs_op (Takeover ''07'' ''b'' 1 10 50) demo_dir = (d1, r1) \<and> \<not> refused r1 \<and>
     fs_op (Acquire ''07'' ''c'' 1 10 200) d1 = (d2, r2) \<and> refused r2 \<and> fs_look d2 = fs_look d1"
proof -
  obtain d1 r1 where o: "fs_op (Takeover ''07'' ''b'' 1 10 50) demo_dir = (d1, r1)" by fastforce
  have ok: "op_ok (Takeover ''07'' ''b'' 1 10 50)" "op_ok (Acquire ''07'' ''c'' 1 10 200)" using demo_texts by simp_all
  have R: "lease_spec fs_stamp (Takeover ''07'' ''b'' 1 10 50) (fs_look demo_dir) = (fs_look d1, r1)"
    using fs_refine [OF demo_dir_good(1) ok(1) o] by simp_all
  have l: "\<not> refused r1" using demo_takeover R by (auto simp: refused_def)
  obtain d2 r2 where s: "fs_op (Acquire ''07'' ''c'' 1 10 200) (run_ops fs_op [] d1) = (d2, r2)" by fastforce
  have "refused r2 \<and> fs_look d2 = fs_look (run_ops fs_op [] d1)"
    by (rule racing_claims_one_winner [OF demo_dir_good(1) _ demo_dir_good(2) _ _ _ _ o l s, of "1"])
      (use ok in \<open>simp_all add: claims_def demo_ps_def\<close>)
  then show ?thesis using o l s by auto
qed

end
