(* ===== verification/Resume.thy ===== *)
theory Resume
  imports SessionStore
begin

text \<open>A session resumed from its checkpoint on another gateway (\<^verbatim>\<open>src/session/store.go\<close>,
  \<^verbatim>\<open>src/session/endpoint.go\<close>): what happens to the client's stream.

  A failover replaces the server's end by one restored from a record.  The old connections are gone and
  with them every frame in flight, and the backend is a fresh process that has received nothing.\<close>

definition fail_over :: "endpoint \<Rightarrow> duplex \<Rightarrow> duplex" where
  "fail_over e d =
     d\<lparr>ends := (ends d)(Server := e), wire := (\<lambda>_. []), hands := (hands d)(Server := []), got := (got d)(Server := [])\<rparr>"

subsection \<open>A checkpoint that is up to date\<close>

text \<open>Where the checkpoint holds both cursors the client has seen, the resumed session satisfies the
  invariant of delivery again, from the first unacknowledged message on.\<close>

definition checkpoint_current :: "persisted \<Rightarrow> duplex \<Rightarrow> bool" where
  "checkpoint_current p d =
     (ps_RecvSeq p = recvSeq (ends d Server) \<and> ps_SendSeq p = sendSeq (ends d Server) \<and> ps_Acked p = acked (ends d Server) \<and>
      ps_SendBuf p = map (\<lambda>f. \<lparr>pf_Seq = f_seq f, pf_Payload = f_payload f\<rparr>) (sendBuf (ends d Server)))"

lemma buf_data: "tx_ok h r e \<Longrightarrow> \<forall>f\<in>set (sendBuf e). f = data_frame (f_seq f) (f_payload f)"
  by (auto simp: tx_ok_def in_set_conv_nth numbered_nth dest!: in_set_dropD)

lemma restored_fields:
  "restoreEndpoint p = Inr e \<Longrightarrow> recvSeq e = ps_RecvSeq p \<and> sendSeq e = ps_SendSeq p \<and> acked e = ps_Acked p \<and>
     sendBuf e = map (\<lambda>f. data_frame (pf_Seq f) (pf_Payload f)) (ps_SendBuf p) \<and> inbound e = [] \<and> \<not> closed e \<and> \<not> bound e"
  by (auto simp: restoreEndpoint_def newEndpointCap_def Let_def split: sum.splits if_splits)

text \<open>The two directions after a failover: towards the client nothing changes; towards the new backend
  the stream continues behind the cursor.\<close>

definition resumed_flow :: "nat \<Rightarrow> duplex \<Rightarrow> bool" where
  "resumed_flow k d =
     (flow d Server \<and>
      tx_ok (sent d Client) (recvSeq (ends d Server)) (ends d Client) \<and> data_ok (sent d Client) (wire d Client) \<and>
      cursors_ok (recvSeq (ends d Server)) (wire d Server) \<and>
      rx_ok (sent d Client) (ends d Server) (hands d Server) (take k (sent d Client) @ got d Server))"

lemma current_resumes:
  assumes "\<forall>t. flow d t" and "restoreEndpoint p = Inr e" and "checkpoint_current p d" and "few d"
  shows "resumed_flow (ps_RecvSeq p) (fail_over e d)"
proof -
  have e: "recvSeq e = recvSeq (ends d Server)" "sendSeq e = sendSeq (ends d Server)" "acked e = acked (ends d Server)"
    "inbound e = []" "\<not> closed e" "sendBuf e = map (\<lambda>f. data_frame (f_seq f) (f_payload f)) (sendBuf (ends d Server))"
    using restored_fields [OF assms(2)] assms(3) by (simp_all add: checkpoint_current_def comp_def)
  have buf: "sendBuf e = sendBuf (ends d Server)"
    using buf_data [OF flow_D(1) [OF assms(1), of Server]] e(6) by (simp add: map_idI)
  have f: "flow d Server" "flow d Client" using assms(1) by simp_all
  have k: "ps_RecvSeq p = recvSeq (ends d Server)" using assms(3) by (simp add: checkpoint_current_def)
  show ?thesis
    using f e(1-5) buf unfolding resumed_flow_def fail_over_def k
    by (auto simp: flow_def tx_ok_def rx_ok_def)
qed

subsection \<open>A checkpoint the client is ahead of\<close>

text \<open>The endpoint acknowledges a message before the gateway saves a checkpoint that contains it.  If the
  gateway is lost in between, the client has dropped a message the restored endpoint waits for.\<close>

definition wedged :: "nat \<Rightarrow> duplex \<Rightarrow> bool" where
  "wedged r d =
     (recvSeq (ends d Server) = r \<and> Suc r \<le> acked (ends d Client) \<and> Suc r \<le> sendSeq (ends d Client) \<and>
      (\<forall>f\<in>set (wire d Client). f_typ f = frameData \<longrightarrow> Suc r < f_seq f) \<and>
      (\<forall>f\<in>set (sendBuf (ends d Client)). Suc r < f_seq f) \<and>
      sendSeq (ends d Client) = length (sent d Client) \<and> hands d Server = [] \<and> got d Server = [] \<and> inbound (ends d Server) = [])"

lemma ack_wedge:
  "Suc r \<le> acked e \<Longrightarrow> \<forall>f\<in>set (sendBuf e). Suc r < f_seq f \<Longrightarrow>
     Suc r \<le> acked (ackLocked u e) \<and> (\<forall>f\<in>set (sendBuf (ackLocked u e)). Suc r < f_seq f) \<and> sendSeq (ackLocked u e) = sendSeq e"
  by (auto simp: ackLocked_def Let_def dest: in_set_dropD)

lemma same_wedge: "same_tx e e' \<Longrightarrow> acked e' = acked e \<and> sendBuf e' = sendBuf e \<and> sendSeq e' = sendSeq e"
  by (simp add: same_tx_def)

lemma send_wedge:
  assumes "Send pick ex ok p e = (e', out, res)" and "Suc r \<le> acked e" and "Suc r \<le> sendSeq e"
    and "\<forall>f\<in>set (sendBuf e). Suc r < f_seq f" and "sendSeq e = length h" and "Suc (length h) < 2 ^ 64"
  shows "Suc r \<le> acked e' \<and> Suc r \<le> sendSeq e' \<and> (\<forall>f\<in>set (sendBuf e'). Suc r < f_seq f) \<and>
    (\<forall>f\<in>set out. f_typ f = frameData \<longrightarrow> Suc r < f_seq f) \<and>
    sendSeq e' = (if res = SendOK \<and> p \<noteq> [] then Suc (length h) else length h)"
proof -
  have u: "u64 (Suc (length h)) = Suc (length h)" using assms(6) by (simp add: u64_def)
  show ?thesis
    using assms(1-5) u
    by (auto simp: Send_def closeWith_def dropConnLocked_def writeFrameLocked_def Let_def split: if_splits prod.splits)
qed

lemma pump_wedge:
  assumes "pump_frame ok f e = (e', out, nx)" and "Suc r \<le> acked e" and "\<forall>f\<in>set (sendBuf e). Suc r < f_seq f"
  shows "Suc r \<le> acked e' \<and> (\<forall>f\<in>set (sendBuf e'). Suc r < f_seq f) \<and> sendSeq e' = sendSeq e \<and>
    (\<forall>f\<in>set out. f_typ f \<noteq> frameData)"
proof (cases "f_typ f = frameData \<or> f_typ f \<noteq> frameAck")
  case True
  have "same_tx e e' \<and> (\<forall>f\<in>set out. f_typ f \<noteq> frameData)"
    using assms(1) True
    by (auto simp: pump_frame_def Let_def same_tx_def sendAck_def writeControl_def writeFrameLocked_def closeWith_def dropConnLocked_def
        split: if_splits prod.splits)
  then show ?thesis using assms(2,3) same_wedge [of e e'] by simp
next
  case False
  then show ?thesis using assms ack_wedge [of r e "f_seq f"] by (auto simp: pump_frame_def)
qed

lemma bind_wedge:
  assumes "bind oks u e = (e', out, g)" and "Suc r \<le> acked e" and "\<forall>f\<in>set (sendBuf e). Suc r < f_seq f"
  shows "Suc r \<le> acked e' \<and> (\<forall>f\<in>set (sendBuf e'). Suc r < f_seq f) \<and> sendSeq e' = sendSeq e \<and> (\<forall>f\<in>set out. Suc r < f_seq f)"
proof -
  have "set out \<subseteq> set (sendBuf (ackLocked u e))" "acked e' = acked (ackLocked u e)" "sendBuf e' = sendBuf (ackLocked u e)"
    "sendSeq e' = sendSeq (ackLocked u e)"
    using assms(1) by (auto simp: bind_def Let_def dropConnLocked_def dest!: replay_out split: prod.splits if_splits)
  then show ?thesis using ack_wedge [OF assms(2,3), of u] by auto
qed

text \<open>The server's side while it waits: no frame is the one it waits for.\<close>

lemma pump_stuck:
  assumes "pump_frame ok f e = (e', out, nx)" and "recvSeq e = r" and "Suc r < 2 ^ 64"
    and "f_typ f = frameData \<longrightarrow> Suc r < f_seq f"
  shows "recvSeq e' = r \<and> inbound e' = inbound e \<and> (\<forall>p. nx \<noteq> Hand p)"
proof -
  have "f_typ f = frameData \<longrightarrow> f_seq f \<noteq> u64 (Suc r)" using assms(3,4) by (auto simp: u64_def)
  then show ?thesis
    using assms(1,2)
    by (auto simp: pump_frame_def Let_def sendAck_def writeControl_def writeFrameLocked_def closeWith_def dropConnLocked_def ackLocked_def
        split: if_splits prod.splits)
qed

lemma same_rx_stuck: "same_rx e e' \<Longrightarrow> recvSeq e' = recvSeq e \<and> inbound e' = inbound e"
  by (simp add: same_rx_def)

text \<open>An operation of the client, and one of the server, while the session is stuck.\<close>

lemma wedged_client:
  assumes "wedged r d" and "Suc r \<le> acked e" "\<forall>f\<in>set (sendBuf e). Suc r < f_seq f"
    and "\<forall>f\<in>set out. f_typ f = frameData \<longrightarrow> Suc r < f_seq f" and "Suc r \<le> sendSeq e" and "sendSeq e = length (sent d' Client)"
    and "ends d' = (ends d)(Client := e)" "wire d' = (wire d)(Client := wire d Client @ out)"
    and "hands d' Server = hands d Server" "got d' Server = got d Server"
  shows "wedged r d'"
  using assms unfolding wedged_def by auto

lemma wedged_server:
  assumes "wedged r d" and "recvSeq e = r" "inbound e = []"
    and "ends d' = (ends d)(Server := e)" "wire d' Client = wire d Client" "sent d' Client = sent d Client"
    and "hands d' Server = []" "got d' Server = []"
  shows "wedged r d'"
  using assms unfolding wedged_def by auto

lemma wedged_quiet:
  assumes "wedged r d" and "same_rx (ends d s) e" "same_tx (ends d s) e" and "\<forall>f\<in>set out. f_typ f = frameData \<longrightarrow> Suc r < f_seq f"
  shows "wedged r (put s e out d)"
proof (cases s)
  case Client
  have e: "acked e = acked (ends d Client)" "sendBuf e = sendBuf (ends d Client)" "sendSeq e = sendSeq (ends d Client)"
    using same_wedge [OF assms(3)] Client by simp_all
  show ?thesis
    by (rule wedged_client [OF assms(1)]) (use assms(1,4) e in \<open>auto simp: wedged_def put_def Client\<close>)
next
  case Server
  have e: "recvSeq e = recvSeq (ends d Server)" "inbound e = inbound (ends d Server)"
    using same_rx_stuck [OF assms(2)] Server by simp_all
  show ?thesis
    by (rule wedged_server [OF assms(1)]) (use assms(1) e in \<open>auto simp: wedged_def put_def Server\<close>)
qed

lemma wedged_step:
  assumes "step n d d'" and "wedged r d" and "few d" and "Suc r < 2 ^ 64"
  shows "wedged r d'"
proof -
  note W = assms(2) [unfolded wedged_def]
  have len: "Suc (length (sent d Client)) < 2 ^ 64" using assms(3) by (simp add: few_def)
  show ?thesis
    using assms(1)
  proof cases
    case (send pick ex ok p s e out res)
    show ?thesis
    proof (cases s)
      case Client
      have "Send pick ex ok p (ends d Client) = (e, out, res)" using send(2) Client by simp
      note S = send_wedge [OF this _ _ _ _ len, of r]
      show ?thesis using S W wedged_client [OF assms(2), of e out d'] by (auto simp: send(1) Client put_def)
    next
      case Server
      have "same_rx (ends d Server) e"
        using send(2) Server by (auto simp: Send_def same_rx_def dropConnLocked_def closeWith_def Let_def split: if_splits prod.splits)
      then show ?thesis
        using W same_rx_stuck [of "ends d Server" e] wedged_server [OF assms(2), of e d'] by (auto simp: send(1) Server put_def)
    qed
  next
    case (recv f s ok e out nx)
    show ?thesis
    proof (cases s)
      case Client
      then show ?thesis
        using pump_wedge [OF recv(5), of r] W wedged_client [OF assms(2), of e out d']
        by (auto simp: recv(1) put_def split: pump_next.splits)
    next
      case Server
      have "recvSeq e = r \<and> inbound e = inbound (ends d Server) \<and> (\<forall>p. nx \<noteq> Hand p)"
        using pump_stuck [OF recv(5) _ assms(4)] W recv(2) Server by auto
      then show ?thesis
        using W wedged_server [OF assms(2), of e d'] by (auto simp: recv(1) Server put_def split: pump_next.splits)
    qed
  next
    case (deliver i s)
    have "s = Client" using W deliver(2) by (cases s) auto
    then show ?thesis
      using W wedged_client [OF assms(2), of "hand_over (hands d s ! i) (ends d s)" "[]" d'] by (auto simp: deliver(1) put_def hand_over_def)
  next
    case (abandon i s)
    have "s = Client" using W abandon(2) by (cases s) auto
    then show ?thesis using W by (auto simp: abandon(1) wedged_def)
  next
    case (consume s p q)
    have "s = Client" using W consume(2) by (cases s) auto
    then show ?thesis
      using W wedged_client [OF assms(2), of "(ends d s)\<lparr>inbound := q\<rparr>" "[]" d'] by (auto simp: consume(1) put_def)
  next
    case (announce s)
    then show ?thesis using wedged_quiet [OF assms(2), of s "ends d s" "[hello s (ends d s)]"] by simp
  next
    case (rebind f s oks e out g)
    show ?thesis
    proof (cases s)
      case Client
      then show ?thesis
        using bind_wedge [OF rebind(4), of r] W wedged_client [OF assms(2), of e out d'] by (auto simp: rebind(1) put_def)
    next
      case Server
      have "recvSeq e = recvSeq (ends d Server) \<and> inbound e = inbound (ends d Server)"
        using rebind(4) Server by (auto simp: bind_def ackLocked_def dropConnLocked_def Let_def split: prod.splits if_splits)
      then show ?thesis using W wedged_server [OF assms(2), of e d'] by (auto simp: rebind(1) Server put_def)
    qed
  next
    case (control f ok s e out)
    have "\<forall>f\<in>set out. f_typ f \<noteq> frameData" using writeControl_same [OF control(3)] control(2) by (auto simp: frame_types)
    then show ?thesis using wedged_quiet [OF assms(2), of s e out] writeControl_same [OF control(3)] control(1) by simp
  next
    case (unbind s)
    then show ?thesis using wedged_quiet [OF assms(2), of s _ "[]"] by simp
  next
    case (shut s err)
    then show ?thesis using wedged_quiet [OF assms(2), of s _ "[]"] by simp
  next
    case (finish ok s e out)
    have "\<forall>f\<in>set out. f_typ f \<noteq> frameData" using sendClose_same [OF finish(2)] by (auto simp: frame_types)
    then show ?thesis using wedged_quiet [OF assms(2), of s e out] sendClose_same [OF finish(2)] finish(1) by simp
  qed
qed

lemma wedged_reaches: "reaches n d0 d \<Longrightarrow> wedged r d0 \<Longrightarrow> few d \<Longrightarrow> Suc r < 2 ^ 64 \<Longrightarrow> wedged r d"
proof (induction rule: reaches.induct)
  case (more d d')
  then show ?case using wedged_step few_back by blast
qed

text \<open>C35: A session whose gateway is lost after it acknowledged a message and before it saved a checkpoint
  that contains it never recovers: whatever the client sends and however often it reconnects, the
  gateway that resumes from the checkpoint waits for the acknowledged message, and no byte reaches the
  new backend.\<close>

theorem unsaved_acknowledgement_wedges:
  assumes "reaches 1 (open_session i) d" and "restoreEndpoint p = Inr e" and "ps_RecvSeq p < acked (ends d Client)"
    and "reaches n (fail_over e d) d'" and "\<forall>t. Suc (length (sent d t)) < 2 ^ 64" and "\<forall>t. Suc (length (sent d' t)) < 2 ^ 64"
  shows "got d' Server = [] \<and> inbound (ends d' Server) = [] \<and> hands d' Server = [] \<and> recvSeq (ends d' Server) = ps_RecvSeq p"
proof -
  have fl: "\<forall>t. flow d t" using reaches_flow [OF assms(1)] assms(5) by (simp add: few_def)
  have tx: "tx_ok (sent d Client) (recvSeq (ends d Server)) (ends d Client)" "recvSeq (ends d Server) \<le> length (sent d Client)"
    using flow_D(1) [OF fl, of Client] flow_D(5) [OF fl, of Server] by simp_all
  have buf: "Suc (ps_RecvSeq p) < f_seq f" if f: "f \<in> set (sendBuf (ends d Client))" for f
  proof -
    obtain j where "j < length (sent d Client) - acked (ends d Client)" "f = numbered (sent d Client) ! (acked (ends d Client) + j)"
      using f tx(1) by (auto simp: tx_ok_def in_set_conv_nth)
    then show ?thesis using assms(3) by (simp add: numbered_nth)
  qed
  have "wedged (ps_RecvSeq p) (fail_over e d)"
    using restored_fields [OF assms(2)] assms(3) tx buf by (auto simp: wedged_def fail_over_def tx_ok_def)
  moreover have "Suc (ps_RecvSeq p) < 2 ^ 64" using assms(3,5) tx by (auto simp: tx_ok_def dest!: spec [of _ Client])
  ultimately have "wedged (ps_RecvSeq p) d'" using wedged_reaches [OF assms(4)] assms(6) by (simp add: few_def)
  then show ?thesis by (simp add: wedged_def)
qed

definition demo_ckpt :: persisted where
  "demo_ckpt = snapshot [] 0 (newEndpoint demo_id)"

definition acked_acts :: "act list" where
  "acked_acts = [ASend Client ''hi'', AHello Server, ABind Client 0, AHello Client, ABind Server 1, ARecv Server 0, ARecv Client 1]"

lemma demo_ckpt_restores: "restoreEndpoint demo_ckpt = Inr (detached_state (newEndpoint demo_id))"
  unfolding demo_ckpt_def
  by (rule restore_snapshot) (simp_all add: newEndpoint_def newEndpointCap_def demo_id_def sessionIDLen_def Let_def)

theorem unsaved_acknowledgement_wedges_witness:
  "\<exists>d e d'. run 1 acked_acts (open_session demo_id) = Some d \<and> restoreEndpoint demo_ckpt = Inr e \<and> acked (ends d Client) = 1 \<and>
     ps_RecvSeq demo_ckpt = 0 \<and>
     run 1 [AHello Server, ABind Client 0, ASend Client ''more'', ARecv Server 0] (fail_over e d) = Some d' \<and>
     sent d' Client = [''hi'', ''more''] \<and> got d' Server = [] \<and> hands d' Server = []"
proof -
  let ?e = "detached_state (newEndpoint demo_id)"
  obtain d where d: "run 1 acked_acts (open_session demo_id) = Some d" "acked (ends d Client) = 1"
    and s: "sent d Client = [''hi'']" "sent d Server = []"
    and r: "\<exists>d'. run 1 [AHello Server, ABind Client 0, ASend Client ''more'', ARecv Server 0] (fail_over ?e d) = Some d' \<and>
       sent d' Client = [''hi'', ''more''] \<and> sent d' Server = []"
    by (simp add: acked_acts_def run_simps fail_over_def detached_state_def)
  obtain d' where d': "run 1 [AHello Server, ABind Client 0, ASend Client ''more'', ARecv Server 0] (fail_over ?e d) = Some d'"
    "sent d' Client = [''hi'', ''more'']" "sent d' Server = []" using r by blast
  have few: "Suc (length (sent d t)) < 2 ^ 64" "Suc (length (sent d' t)) < 2 ^ 64" for t
    by (cases t; simp add: s d')+
  have k: "ps_RecvSeq demo_ckpt = 0" by (simp add: demo_ckpt_def snapshot_def newEndpoint_def newEndpointCap_def zero_ps_def Let_def)
  have "got d' Server = [] \<and> inbound (ends d' Server) = [] \<and> hands d' Server = [] \<and> recvSeq (ends d' Server) = ps_RecvSeq demo_ckpt"
    using unsaved_acknowledgement_wedges [OF run_reaches [OF d(1)] demo_ckpt_restores _ run_reaches [OF d'(1)]] few d(2) k by simp
  then show ?thesis using d d' k demo_ckpt_restores by blast
qed

text \<open>The other direction: a checkpoint older than what the client has received reuses sequence numbers,
  and the client drops the replies that carry them.\<close>

lemma stale_reply_dropped:
  assumes "Send pick ex ok p e = (e', out, res)" and "Suc (sendSeq e) \<le> recvSeq c" and "recvSeq c < 2 ^ 64 - 1" and "f \<in> set out"
    and "pump_frame ok' f c = (c', out', nx)"
  shows "nx = Reading \<and> recvSeq c' = recvSeq c"
proof -
  have u: "u64 (Suc (sendSeq e)) = Suc (sendSeq e)" "u64 (Suc (recvSeq c)) = Suc (recvSeq c)" using assms(2,3) by (simp_all add: u64_def)
  have f: "f = data_frame (Suc (sendSeq e)) p"
    using assms(1,4) u by (auto simp: Send_def writeFrameLocked_def Let_def split: if_splits prod.splits)
  show ?thesis
    using assms(2,5) u(2) by (auto simp: f pump_frame_def sendAck_def writeControl_def dropConnLocked_def split: if_splits prod.splits)
qed

subsection \<open>Resuming from an up-to-date checkpoint\<close>

definition shift :: "bytes list \<Rightarrow> duplex \<Rightarrow> duplex" where
  "shift pre d = d\<lparr>got := (got d)(Server := pre @ got d Server)\<rparr>"

lemma shift_sel [simp]:
  "ends (shift pre d) = ends d" "wire (shift pre d) = wire d" "hands (shift pre d) = hands d" "sent (shift pre d) = sent d"
  "got (shift pre d) = (got d)(Server := pre @ got d Server)"
  by (simp_all add: shift_def)

text \<open>What the backend received before does not influence any step.\<close>

lemma step_shift:
  assumes "step n d d'"
  shows "step n (shift pre d) (shift pre d')"
  using assms
proof cases
  case (send pick ex ok p s e out res)
  have "shift pre d' = (put s e out (shift pre d))\<lparr>sent := (if res = SendOK \<and> p \<noteq> []
      then (sent (shift pre d))(s := sent (shift pre d) s @ [p]) else sent (shift pre d))\<rparr>"
    by (cases d) (simp add: send(1) shift_def put_def)
  then show ?thesis using step.send [of pick ex ok p "shift pre d" s e out res n] send(2) by simp
next
  case (recv f s ok e out nx)
  have "shift pre d' = (put s e out (shift pre d))\<lparr>hands := (case nx of
      Hand p \<Rightarrow> (hands (shift pre d))(s := hands (shift pre d) s @ [p]) | _ \<Rightarrow> hands (shift pre d))\<rparr>"
    by (cases d) (simp add: recv(1) shift_def put_def split: pump_next.split)
  then show ?thesis using step.recv [of f "shift pre d" s n ok e out nx] recv(2-5) by simp
next
  case (deliver i s)
  then show ?thesis using step.deliver [of i "shift pre d" s n] by (cases d) (simp add: shift_def put_def)
next
  case (abandon i s)
  then show ?thesis using step.abandon [of i "shift pre d" s n] by (cases d) (simp add: shift_def)
next
  case (consume s p q)
  then show ?thesis using step.consume [of "shift pre d" s p q n] by (cases d; cases s) (simp_all add: shift_def put_def fun_upd_twist)
next
  case (announce s)
  then show ?thesis using step.announce [of n "shift pre d" s] by (cases d) (simp add: shift_def put_def)
next
  case (rebind f s oks e out g)
  then show ?thesis using step.rebind [of f "shift pre d" s oks e out g n] by (cases d) (simp add: shift_def put_def)
next
  case (control f ok s e out)
  then show ?thesis using step.control [of f ok "shift pre d" s e out n] by (cases d) (simp add: shift_def put_def)
next
  case (unbind s)
  then show ?thesis using step.unbind [of n "shift pre d" s] by (cases d) (simp add: shift_def put_def)
next
  case (shut s err)
  then show ?thesis using step.shut [of n "shift pre d" s err] by (cases d) (simp add: shift_def put_def)
next
  case (finish ok s e out)
  then show ?thesis using step.finish [of ok "shift pre d" s e out n] by (cases d) (simp add: shift_def put_def)
qed

lemma reaches_shift_flow:
  "reaches 1 d0 d \<Longrightarrow> (\<forall>t. flow (shift pre d0) t) \<Longrightarrow> few d \<Longrightarrow> \<forall>t. flow (shift pre d) t"
proof (induction rule: reaches.induct)
  case (more d d')
  have "few d" using few_back more by blast
  then show ?case using more flow_step [OF step_shift [OF more(2)]] by (simp add: few_def)
qed



end
