(* ===== verification/SessionServer.thy ===== *)
theory SessionServer
  imports Resume
begin

text \<open>The session server (\<^verbatim>\<open>src/session/server.go\<close>), lease maintenance (\<^verbatim>\<open>src/session/failover.go\<close>) and the
  live move of a session (\<^verbatim>\<open>src/session/move.go\<close>), over a store with compare-and-swap leases.

  A server is a record with its live and its pre-warmed sessions; the shared store is passed along.  A
  backend is the list of the byte chunks written to its standard input.  What the environment decides
  (the clock, the random id, whether spawning a backend and replaying into it succeed) is a record, and
  what other gateways do to the store between two store calls of one operation is a function argument.\<close>

subsection \<open>State\<close>

datatype mig_mode = MigrateHandshake | MigrateFull | MigrateBackend

record meta =
  PeerFQDN :: string
  PeerAddr :: string
  PeerKey :: string
  MetaSessionID :: string

record srv_session =
  s_ep :: endpoint
  s_stdin :: "bytes list"
  s_creatorKey :: string
  s_reaper :: bool
  s_active :: int
  s_meta :: meta
  s_leaseGen :: nat
  s_replay :: bytes
  s_captureDone :: bool

record warm_session =
  w_ps :: persisted
  w_stdin :: "bytes list"
  w_meta :: meta
  w_gen :: nat

record server =
  sv_ttl :: duration
  sv_hasStore :: bool
  sv_hasLease :: bool
  sv_mode :: mig_mode
  sv_instance :: string
  sv_failover :: bool
  sessions :: "(sessionID \<times> srv_session) list"
  warming :: "(sessionID \<times> warm_session) list"

record env =
  env_now :: instant
  env_newID :: sessionID
  env_spawns :: bool
  env_replays :: bool

definition maxReplayBytes :: nat where "maxReplayBytes = 8 * 1024 * 1024"

definition takeoverAttempts :: nat where "takeoverAttempts = 3"

subsection \<open>Checkpoints\<close>

definition id_field :: "json option field_table" where
  "id_field = [(''id'', \<lambda>v r. Some (if v = JNull then None else Some v))]"

definition is_request :: "bytes \<Rightarrow> bool" where
  "is_request line =
     (case json_parse line of
        Some (JObj ms) \<Rightarrow> (case decode_fields id_field ms None of Some (Some v) \<Rightarrow> True | _ \<Rightarrow> False)
      | _ \<Rightarrow> False)"

text \<open>\<^verbatim>\<open>countRequests\<close> walks the buffer byte by byte; \<open>cur\<close> is the line read so far.\<close>

fun count_lines :: "bytes \<Rightarrow> bytes \<Rightarrow> int" where
  "count_lines cur [] = 0"
| "count_lines cur (b # bs) =
     (if b \<noteq> CHR 0x0A then count_lines (cur @ [b]) bs
      else let line = trim_space cur
           in (if line \<noteq> [] \<and> is_request line then 1 else 0) + count_lines [] bs)"

definition countRequests :: "bytes \<Rightarrow> int" where
  "countRequests buf = count_lines [] buf"

definition checkpoint_record :: "server \<Rightarrow> srv_session \<Rightarrow> persisted" where
  "checkpoint_record sv s =
     (snapshot (s_replay s) (countRequests (s_replay s)) (s_ep s))\<lparr>ps_Owner := sv_instance sv, ps_CreatorKey := s_creatorKey s,
        ps_PeerFQDN := PeerFQDN (s_meta s), ps_PeerAddr := PeerAddr (s_meta s)\<rparr>"

text \<open>The store after a checkpoint, and whether the session turned out to be fenced (the server then
  removes it).\<close>

definition checkpoint :: "server \<Rightarrow> srv_session \<Rightarrow> memstore \<Rightarrow> memstore \<times> bool" where
  "checkpoint sv s m =
     (if \<not> sv_hasStore sv then (m, False)
      else if sv_hasLease sv then
        (if s_leaseGen s = 0 then (m, False)
         else let (m', ok) = mem_SaveIfOwned (checkpoint_record sv s) (sv_instance sv) (s_leaseGen s) m in (m', \<not> ok))
      else (mem_Save (checkpoint_record sv s) m, False))"

definition remove :: "sessionID \<Rightarrow> server \<times> memstore \<Rightarrow> server \<times> memstore" where
  "remove i = (\<lambda>(sv, m).
     (case map_of (sessions sv) i of
        None \<Rightarrow> (sv, m)
      | Some s \<Rightarrow>
          (sv\<lparr>sessions := AList.delete i (sessions sv)\<rparr>,
           if sv_hasStore sv then mem_DeleteIfOwner (id_String i) (sv_instance sv) m else m)))"

subsection \<open>Client input\<close>

definition contains :: "string \<Rightarrow> string \<Rightarrow> bool" where
  "contains sub s = (\<exists>k\<in>set [0..<Suc (length s)]. has_prefix sub (drop k s))"

datatype dispatched = Dispatched srv_session memstore bool | TornDown

definition capture :: "server \<Rightarrow> bytes \<Rightarrow> srv_session \<Rightarrow> srv_session option" where
  "capture sv p s =
     (if sv_hasStore sv \<and> sv_mode sv \<noteq> MigrateBackend then
        (let capturing = (sv_mode sv = MigrateFull \<or> \<not> s_captureDone s);
             overflow = (capturing \<and> maxReplayBytes < length (s_replay s) + length p)
         in if overflow then None
            else if capturing then
              (let s = s\<lparr>s_replay := s_replay s @ p\<rparr>
               in Some (if sv_mode sv = MigrateHandshake \<and> contains ''notifications/initialized'' (s_replay s)
                        then s\<lparr>s_captureDone := True\<rparr> else s))
            else Some s)
      else Some s)"

text \<open>One payload taken from the inbound channel: captured, written to the backend, checkpointed.\<close>

definition dispatch :: "server \<Rightarrow> bool \<Rightarrow> bytes \<Rightarrow> srv_session \<Rightarrow> memstore \<Rightarrow> dispatched" where
  "dispatch sv write_ok p s m =
     (case capture sv p s of
        None \<Rightarrow> TornDown
      | Some s \<Rightarrow>
          if \<not> write_ok then TornDown
          else let s = s\<lparr>s_stdin := s_stdin s @ [p]\<rparr>;
                   (m, fenced) = checkpoint sv s m
               in Dispatched s m fenced)"

subsection \<open>Resuming\<close>

definition spawnBackendForResume :: "server \<Rightarrow> env \<Rightarrow> persisted \<Rightarrow> bytes list option" where
  "spawnBackendForResume sv ev p =
     (if \<not> env_spawns ev then None
      else if sv_mode sv \<noteq> MigrateBackend \<and> ps_Replay p \<noteq> [] then (if env_replays ev then Some [ps_Replay p] else None)
      else Some [])"

definition resumed_session :: "persisted \<Rightarrow> endpoint \<Rightarrow> bytes list \<Rightarrow> meta \<Rightarrow> nat \<Rightarrow> int \<Rightarrow> srv_session" where
  "resumed_session p e stdin mt leaseGen active =
     \<lparr>s_ep = e, s_stdin = stdin, s_creatorKey = ps_CreatorKey p, s_reaper = False, s_active = active, s_meta = mt,
      s_leaseGen = leaseGen, s_replay = ps_Replay p, s_captureDone = True\<rparr>"

definition registerResumed ::
  "persisted \<Rightarrow> endpoint \<Rightarrow> bytes list \<Rightarrow> meta \<Rightarrow> nat \<Rightarrow> int \<Rightarrow> server \<times> memstore \<Rightarrow> server \<times> memstore" where
  "registerResumed p e stdin mt leaseGen active = (\<lambda>(sv, m).
     (let s = resumed_session p e stdin mt leaseGen active
      in (sv\<lparr>sessions := AList.update (e_id e) s (sessions sv)\<rparr>, fst (checkpoint sv s m))))"

definition resumeFromPersisted ::
  "env \<Rightarrow> persisted \<Rightarrow> endpoint \<Rightarrow> meta \<Rightarrow> nat \<Rightarrow> int \<Rightarrow> server \<times> memstore \<Rightarrow> (server \<times> memstore) option" where
  "resumeFromPersisted ev p e mt leaseGen active = (\<lambda>(sv, m).
     (case spawnBackendForResume sv ev p of
        None \<Rightarrow> None
      | Some stdin \<Rightarrow> Some (registerResumed p e stdin (mt\<lparr>MetaSessionID := ps_ID p\<rparr>) leaseGen active (sv, m))))"

datatype attach_err = IdentityMismatch | SessionNotFound | TakeoverRaced | RestoreFailed restore_err | SpawnFailed

definition rehydrate :: "env \<Rightarrow> persisted \<Rightarrow> meta \<Rightarrow> server \<times> memstore \<Rightarrow> (server \<times> memstore) \<times> (attach_err + sessionID)" where
  "rehydrate ev p mt = (\<lambda>(sv, m).
     (case restoreEndpoint p of
        Inl err \<Rightarrow> ((sv, m), Inl (RestoreFailed err))
      | Inr e \<Rightarrow>
          (let (m1, taken) = (if sv_hasLease sv then
                 (case mem_TakeoverLease (ps_ID p) (sv_instance sv) (ps_Generation p) (sv_ttl sv) (env_now ev) m of
                    (m', None) \<Rightarrow> (m', None)
                  | (m', Some l) \<Rightarrow> (m', Some (l_Generation l)))
               else (m, Some 0))
           in case taken of
                None \<Rightarrow> ((sv, m1), Inl TakeoverRaced)
              | Some g \<Rightarrow>
                  (case resumeFromPersisted ev p e mt g 1 (sv, m1) of
                     None \<Rightarrow> ((sv, m1), Inl SpawnFailed)
                   | Some st \<Rightarrow> (st, Inr (e_id e))))))"

text \<open>The retry loop of \<^verbatim>\<open>attach\<close>: \<open>others\<close> is what the rest of the fleet does to the store between the load and
  the takeover.\<close>

fun attach_stored ::
  "nat \<Rightarrow> env \<Rightarrow> (nat \<Rightarrow> memstore \<Rightarrow> memstore) \<Rightarrow> sessionID \<Rightarrow> meta \<Rightarrow> server \<times> memstore \<Rightarrow>
     (server \<times> memstore) \<times> (attach_err + sessionID)" where
  "attach_stored 0 ev others i mt st = (st, Inl TakeoverRaced)"
| "attach_stored (Suc n) ev others i mt (sv, m) =
     (case mem_Load (id_String i) m of
        None \<Rightarrow> ((sv, m), Inl SessionNotFound)
      | Some p \<Rightarrow>
          if ps_CreatorKey p \<noteq> PeerKey mt then ((sv, m), Inl IdentityMismatch)
          else (case rehydrate ev p mt (sv, others n m) of
                  (st, Inl TakeoverRaced) \<Rightarrow> attach_stored n ev others i mt st
                | r \<Rightarrow> r))"

definition attach ::
  "env \<Rightarrow> (nat \<Rightarrow> memstore \<Rightarrow> memstore) \<Rightarrow> sessionID \<Rightarrow> meta \<Rightarrow> server \<times> memstore \<Rightarrow>
     (server \<times> memstore) \<times> (attach_err + sessionID \<times> bool)" where
  "attach ev others i mt = (\<lambda>(sv, m).
     (if \<not> isZero i then
        (case map_of (sessions sv) i of
           Some s \<Rightarrow>
             if s_creatorKey s \<noteq> PeerKey mt then ((sv, m), Inl IdentityMismatch)
             else ((sv\<lparr>sessions := AList.update i (s\<lparr>s_reaper := False, s_active := s_active s + 1\<rparr>) (sessions sv)\<rparr>, m), Inr (i, True))
         | None \<Rightarrow>
             if sv_hasStore sv then apsnd (map_sum id (\<lambda>j. (j, True))) (attach_stored takeoverAttempts ev others i mt (sv, m))
             else ((sv, m), Inl SessionNotFound))
      else if \<not> env_spawns ev then ((sv, m), Inl SpawnFailed)
      else
        (let i = env_newID ev;
             mt = mt\<lparr>MetaSessionID := id_String i\<rparr>;
             (m, g) = (if sv_hasLease sv then
                         (case mem_AcquireLease (id_String i) (sv_instance sv) 0 (sv_ttl sv) (env_now ev) m of
                            (m', Some l) \<Rightarrow> (m', l_Generation l)
                          | (m', None) \<Rightarrow> (m', 0))
                       else (m, 0));
             s = \<lparr>s_ep = newEndpoint i, s_stdin = [], s_creatorKey = PeerKey mt, s_reaper = False, s_active = 1, s_meta = mt,
                  s_leaseGen = g, s_replay = [], s_captureDone = False\<rparr>
         in ((sv\<lparr>sessions := AList.update i s (sessions sv)\<rparr>, m), Inr (i, False)))))"

definition handleExit :: "sessionID \<Rightarrow> server \<times> memstore \<Rightarrow> server \<times> memstore" where
  "handleExit i = (\<lambda>(sv, m).
     (case map_of (sessions sv) i of
        None \<Rightarrow> (sv, m)
      | Some s \<Rightarrow>
          if closed (s_ep s) then remove i (sv, m)
          else (let s = s\<lparr>s_active := s_active s - 1\<rparr>
                in (sv\<lparr>sessions := AList.update i (if s_active s \<le> 0 then s\<lparr>s_reaper := True\<rparr> else s) (sessions sv)\<rparr>, m))))"

text \<open>A connection that has sent its first frame: the reply it gets, with the endpoint bound to it.  A
  refusal is an ERROR frame with the sanitised text of the error.  \<^term>\<open>oks 0\<close> tells whether the ATTACH_OK goes out,
  the later values whether the replayed frames do; when it does not, the handle exits at once.\<close>

datatype handle_reply = NotAttach | Refused attach_err | Gone | Attached sframe "sframe list" nat

definition Handle ::
  "env \<Rightarrow> (nat \<Rightarrow> memstore \<Rightarrow> memstore) \<Rightarrow> (nat \<Rightarrow> bool) \<Rightarrow> sframe \<Rightarrow> meta \<Rightarrow> server \<times> memstore \<Rightarrow>
     (server \<times> memstore) \<times> handle_reply" where
  "Handle ev others oks att mt st =
     (if f_typ att \<noteq> frameAttach then (st, NotAttach)
      else case attach ev others (f_id att) mt st of
        (st, Inl err) \<Rightarrow> (st, Refused err)
      | ((sv, m), Inr (i, resumed)) \<Rightarrow>
          (case map_of (sessions sv) i of
             None \<Rightarrow> ((sv, m), Gone)
           | Some s \<Rightarrow>
               if \<not> oks 0 then (handleExit i (sv, m), Gone)
               else (let (e, out, g) = bind (\<lambda>k. oks (Suc k)) (f_seq att) (s_ep s)
                     in ((sv\<lparr>sessions := AList.update i (s\<lparr>s_ep := e\<rparr>) (sessions sv)\<rparr>, m), Attached (hello Server (s_ep s)) out g))))"

subsection \<open>Sending whole lines\<close>

function chunks :: "bytes \<Rightarrow> bytes list" where
  "chunks data = (if data = [] then [] else take maxPayload data # chunks (drop maxPayload data))"
  by pat_completeness auto
termination by (relation "measure length") (auto simp: maxPayload_def)

declare chunks.simps [simp del]

text \<open>How each chunk's \<^const>\<open>Send\<close> fares (which ready branch its select takes, whether its wait expires, whether the
  write succeeds) is the list given along with it.\<close>

fun send_chunks :: "(bool \<times> bool \<times> bool) list \<Rightarrow> bytes list \<Rightarrow> endpoint \<Rightarrow> endpoint \<times> sframe list \<times> send_result" where
  "send_chunks ws [] e = (e, [], SendOK)"
| "send_chunks [] (c # cs) e = (e, [], SendBlocked)"
| "send_chunks ((pick, expired, ok) # ws) (c # cs) e =
     (case Send pick expired ok c e of
        (e, out, SendOK) \<Rightarrow> (let (e, more, r) = send_chunks ws cs e in (e, out @ more, r))
      | r \<Rightarrow> r)"

definition sendLines :: "(bool \<times> bool \<times> bool) list \<Rightarrow> bytes \<Rightarrow> endpoint \<Rightarrow> endpoint \<times> sframe list \<times> send_result" where
  "sendLines ws data e = send_chunks ws (chunks data) e"

subsection \<open>Lease maintenance\<close>

definition sweepMargin :: "server \<Rightarrow> duration" where
  "sweepMargin sv = 2 * sv_ttl sv"

definition adoptable :: "server \<Rightarrow> persisted \<Rightarrow> instant \<Rightarrow> bool" where
  "adoptable sv p now =
     (if ps_ID p = [] \<or> ps_CreatorKey p = [] \<or> ps_PeerFQDN p = [] then False
      else if sessionSchemaVersion < ps_SchemaVersion p then False
      else if ps_Generation p = 0 then False
      else if ps_Owner p = sv_instance sv then False
      else if ps_Owner p = [] then True
      else if ps_LeaseExpiry p \<le> 0 then False
      else wrap64 (ps_LeaseExpiry p + sweepMargin sv) < now)"

definition give_back :: "persisted \<Rightarrow> lease \<Rightarrow> server \<times> memstore \<Rightarrow> server \<times> memstore" where
  "give_back p l = (\<lambda>(sv, m). (sv, fst (mem_ReleaseLease (ps_ID p) (sv_instance sv) (l_Generation l) m)))"

definition arm_reaper :: "sessionID \<Rightarrow> server \<times> memstore \<Rightarrow> server \<times> memstore" where
  "arm_reaper i = (\<lambda>(sv, m).
     (case map_of (sessions sv) i of
        None \<Rightarrow> (sv, m)
      | Some s \<Rightarrow> (sv\<lparr>sessions := AList.update i (s\<lparr>s_reaper := True\<rparr>) (sessions sv)\<rparr>, m)))"

definition adopt :: "env \<Rightarrow> (memstore \<Rightarrow> memstore) \<Rightarrow> persisted \<Rightarrow> server \<times> memstore \<Rightarrow> server \<times> memstore" where
  "adopt ev others p = (\<lambda>(sv, m).
     (case parseSessionID (ps_ID p) of
        Inl _ \<Rightarrow> (sv, m)
      | Inr i \<Rightarrow>
          (case mem_AcquireLease (ps_ID p) (sv_instance sv) (ps_Generation p) (sv_ttl sv) (env_now ev) m of
             (m1, None) \<Rightarrow> (sv, m1)
           | (m1, Some l) \<Rightarrow>
               (let m2 = others m1 in
                case mem_Load (ps_ID p) m2 of
                  None \<Rightarrow> give_back p l (sv, m2)
                | Some cur \<Rightarrow>
                    if ps_CreatorKey cur = [] \<or> ps_PeerFQDN cur = [] then give_back p l (sv, m2)
                    else if map_of (sessions sv) i \<noteq> None then give_back p l (sv, m2)
                    else
                      (let mt = \<lparr>PeerFQDN = ps_PeerFQDN cur, PeerAddr = ps_PeerAddr cur, PeerKey = ps_CreatorKey cur, MetaSessionID = []\<rparr> in
                       case restoreEndpoint cur of
                         Inl _ \<Rightarrow> give_back p l (sv, m2)
                       | Inr e \<Rightarrow>
                           (case resumeFromPersisted ev cur e mt (l_Generation l) 0 (sv, m2) of
                              None \<Rightarrow> give_back p l (sv, m2)
                            | Some st \<Rightarrow> arm_reaper (e_id e) st))))))"

definition sweepOnce :: "env \<Rightarrow> server \<times> memstore \<Rightarrow> server \<times> memstore" where
  "sweepOnce ev = (\<lambda>(sv, m).
     (if \<not> sv_hasLease sv \<or> \<not> sv_hasStore sv \<or> \<not> sv_failover sv then (sv, m)
      else fold (\<lambda>p (sv, m). if adoptable sv p (env_now ev) then adopt ev id p (sv, m) else (sv, m)) (mem_List m) (sv, m)))"

definition renew_targets :: "server \<Rightarrow> (sessionID \<times> nat) list" where
  "renew_targets sv = map (\<lambda>(i, s). (i, s_leaseGen s)) (filter (\<lambda>(i, s). 0 < s_leaseGen s) (sessions sv))"

definition renewOnce :: "instant \<Rightarrow> server \<times> memstore \<Rightarrow> server \<times> memstore" where
  "renewOnce now = (\<lambda>(sv, m).
     (if \<not> sv_hasLease sv then (sv, m)
      else fold (\<lambda>(i, g) (sv, m).
             (case mem_RenewLease (id_String i) (sv_instance sv) g (sv_ttl sv) now m of
                (m', Some _) \<Rightarrow> (sv, m')
              | (m', None) \<Rightarrow> remove i (sv, m'))) (renew_targets sv) (sv, m)))"

definition hand_off :: "server \<Rightarrow> sessionID \<times> srv_session \<Rightarrow> memstore \<Rightarrow> memstore" where
  "hand_off sv = (\<lambda>(i, s) m.
     (let m = fst (checkpoint sv s m)
      in if sv_hasLease sv \<and> 0 < s_leaseGen s then fst (mem_ReleaseLease (id_String i) (sv_instance sv) (s_leaseGen s) m) else m))"

definition Shutdown :: "server \<times> memstore \<Rightarrow> server \<times> memstore" where
  "Shutdown = (\<lambda>(sv, m). (sv\<lparr>sessions := []\<rparr>, fold (hand_off sv) (sessions sv) m))"


subsection \<open>Who may resume a session\<close>

text \<open>Stores are keyed by the id of the record.\<close>

definition keyed :: "memstore \<Rightarrow> bool" where
  "keyed m = (\<forall>k p. map_of m k = Some p \<longrightarrow> ps_ID p = k)"

lemma keyed_update: "keyed m \<Longrightarrow> ps_ID p = k \<Longrightarrow> keyed (AList.update k p m)"
  by (auto simp: keyed_def update_conv')

lemma keyed_takeover: "keyed m \<Longrightarrow> keyed (fst (mem_TakeoverLease i ow g ttl now m))"
  by (auto simp: mem_TakeoverLease_def granted_def intro!: keyed_update split: option.splits)

lemma takeover_granted:
  "mem_TakeoverLease i ow g ttl now m = (m', Some l) \<Longrightarrow>
     l_Generation l = the (canTakeover (map_of m i) g) \<and> m' = AList.update i (granted i ow (l_Generation l) (now + ttl) (map_of m i)) m"
  by (auto simp: mem_TakeoverLease_def lease_of_def split: option.splits)

lemma takeover_refused: "mem_TakeoverLease i ow g ttl now m = (m', None) \<Longrightarrow> m' = m"
  by (auto simp: mem_TakeoverLease_def split: option.splits)

lemma registered:
  "registerResumed p e stdin mt g a (sv, m) = (sv', m') \<Longrightarrow>
     sessions sv' = AList.update (e_id e) (resumed_session p e stdin mt g a) (sessions sv) \<and>
     m' = fst (checkpoint sv (resumed_session p e stdin mt g a) m) \<and> sv_instance sv' = sv_instance sv"
  by (auto simp: registerResumed_def Let_def)

lemma restored_id:
  "restoreEndpoint p = Inr e \<Longrightarrow> parseSessionID (ps_ID p) = Inr (e_id e)"
  by (auto simp: restoreEndpoint_def newEndpointCap_def Let_def split: sum.splits if_splits)

lemma rehydrate_result:
  assumes "rehydrate ev p mt (sv, m) = ((sv', m'), r)"
  shows "(\<exists>err. r = Inl err \<and> sv' = sv \<and> (err = TakeoverRaced \<longrightarrow> m' = m)) \<or>
         (\<exists>e s. r = Inr (e_id e) \<and> restoreEndpoint p = Inr e \<and> map_of (sessions sv') (e_id e) = Some s \<and> s_creatorKey s = ps_CreatorKey p)"
  using assms takeover_refused
  by (fastforce simp: rehydrate_def resumeFromPersisted_def registerResumed_def resumed_session_def Let_def update_conv'
      split: sum.splits if_splits option.splits prod.splits)

lemma attach_stored_result:
  assumes "attach_stored n ev others i mt (sv, m) = ((sv', m'), r)" and "keyed m" and "\<And>k m. keyed m \<Longrightarrow> keyed (others k m)"
    and "length i = sessionIDLen"
  shows "case r of
       Inl _ \<Rightarrow> sv' = sv
     | Inr j \<Rightarrow> j = i \<and> (\<exists>s. map_of (sessions sv') j = Some s \<and> s_creatorKey s = PeerKey mt)"
  using assms(1,2)
proof (induction n arbitrary: m)
  case 0
  then show ?case by auto
next
  case (Suc n)
  show ?case
  proof (cases "mem_Load (id_String i) m")
    case None
    then show ?thesis using Suc.prems(1) by auto
  next
    case (Some p)
    show ?thesis
    proof (cases "ps_CreatorKey p = PeerKey mt")
      case False
      then show ?thesis using Suc.prems(1) Some by auto
    next
      case True
      obtain sv1 m1 r1 where R: "rehydrate ev p mt (sv, others n m) = ((sv1, m1), r1)" by (metis prod.exhaust)
      have id: "ps_ID p = id_String i" using Suc.prems(2) Some by (simp add: keyed_def mem_Load_def)
      note D = rehydrate_result [OF R]
      show ?thesis
      proof (cases "r1 = Inl TakeoverRaced")
        case raced: True
        then have "sv1 = sv" "m1 = others n m" using D by auto
        moreover have "attach_stored n ev others i mt (sv1, m1) = ((sv', m'), r)"
          using Suc.prems(1) Some True R raced by simp
        ultimately show ?thesis using Suc.IH [of "others n m"] assms(3) [OF Suc.prems(2)] by simp
      next
        case False
        then have eq: "sv' = sv1" "r = r1"
          using Suc.prems(1) Some True R by (auto split: sum.splits attach_err.splits)
        show ?thesis
        proof (cases r1)
          case (Inl err)
          then show ?thesis using D eq by auto
        next
          case (Inr j)
          then obtain e s where e: "j = e_id e" "restoreEndpoint p = Inr e" "map_of (sessions sv1) j = Some s" "s_creatorKey s = ps_CreatorKey p"
            using D by auto
          have "e_id e = i" using restored_id [OF e(2)] id assms(4) by simp
          then show ?thesis using e True eq Inr by auto
        qed
      qed
    qed
  qed
qed

text \<open>C28: A session is resumed only by the peer that opened it: whatever the other gateways do to the store
  meanwhile, an attach with a session id either returns that very session, opened by the same WireGuard
  key, or fails and registers nothing; it never opens a fresh session, and an attach without an id
  opens one under the caller's key.\<close>

theorem attach_binds_identity:
  assumes "attach ev others i mt (sv, m) = ((sv', m'), r)" and "keyed m" and "\<forall>k m. keyed m \<longrightarrow> keyed (others k m)"
    and "length i = sessionIDLen"
  shows "case r of
       Inl _ \<Rightarrow> sv' = sv
     | Inr (j, resumed) \<Rightarrow>
         (resumed \<longleftrightarrow> \<not> isZero i) \<and> (resumed \<longrightarrow> j = i) \<and>
         (\<exists>s. map_of (sessions sv') j = Some s \<and> s_creatorKey s = PeerKey mt)"
proof (cases "isZero i")
  case True
  then show ?thesis
    using assms(1) by (auto simp: attach_def Let_def update_conv' split: if_splits option.splits prod.splits)
next
  case nz: False
  show ?thesis
  proof (cases "map_of (sessions sv) i")
    case (Some s)
    then show ?thesis using assms(1) nz by (auto simp: attach_def update_conv' split: if_splits)
  next
    case None
    show ?thesis
    proof (cases "sv_hasStore sv")
      case False
      then show ?thesis using assms(1) nz None by (auto simp: attach_def)
    next
      case True
      obtain sv1 m1 r1 where R: "attach_stored takeoverAttempts ev others i mt (sv, m) = ((sv1, m1), r1)" by (metis prod.exhaust)
      have "sv' = sv1" "r = map_sum id (\<lambda>j. (j, True)) r1" using assms(1) nz None True R by (auto simp: attach_def)
      moreover have "case r1 of Inl _ \<Rightarrow> sv1 = sv
          | Inr j \<Rightarrow> j = i \<and> (\<exists>s. map_of (sessions sv1) j = Some s \<and> s_creatorKey s = PeerKey mt)"
        using attach_stored_result [OF R assms(2) _ assms(4)] assms(3) by blast
      ultimately show ?thesis using nz by (cases r1) auto
    qed
  qed
qed

subsection \<open>What a resumed session starts from\<close>

lemma resumed_checkpoint:
  assumes "restoreEndpoint p = Inr e" and "sv_hasStore sv" "sv_hasLease sv" "g \<noteq> 0" "id_String (e_id e) = i"
    and "map_of m i = Some c" "ps_Owner c = sv_instance sv" "ps_Generation c = g"
  shows "\<exists>q. map_of (fst (checkpoint sv (resumed_session p e stdin mt g a) m)) i = Some q \<and>
     ps_SendSeq q = ps_SendSeq p \<and> ps_Acked q = ps_Acked p \<and> ps_RecvSeq q = ps_RecvSeq p \<and> ps_SendBuf q = ps_SendBuf p \<and>
     ps_Replay q = ps_Replay p \<and> ps_Owner q = sv_instance sv \<and> ps_Generation q = g"
proof -
  have pf: "\<lparr>pf_Seq = pf_Seq x, pf_Payload = pf_Payload x\<rparr> = x" for x :: persisted_frame by (cases x) simp
  show ?thesis
    using assms restored_fields [OF assms(1)]
    by (auto simp: checkpoint_def resumed_session_def checkpoint_record_def snapshot_def zero_ps_def mem_SaveIfOwned_def holds_lease_def
        update_conv' comp_def Let_def pf)
qed

lemma takeover_same_generation:
  assumes "map_of m i = Some c" and "Suc (ps_Generation c) < 2 ^ 64"
  shows "mem_TakeoverLease i ow (ps_Generation c) ttl now m =
     (AList.update i (granted i ow (Suc (ps_Generation c)) (now + ttl) (Some c)) m,
      Some (lease_of i ow (Suc (ps_Generation c)) (now + ttl)))"
  using assms by (simp add: mem_TakeoverLease_def canTakeover_def u64_def)

lemma rehydrate_works:
  assumes "restoreEndpoint p = Inr e" and "sv_hasStore sv" "sv_hasLease sv" "ps_ID p = id_String i" "length i = sessionIDLen"
    and "map_of m (ps_ID p) = Some c" "ps_Generation c = ps_Generation p" "Suc (ps_Generation p) < 2 ^ 64"
    and "spawnBackendForResume sv ev p = Some stdin"
  shows "\<exists>sv' m' q. rehydrate ev p mt (sv, m) = ((sv', m'), Inr i) \<and> map_of m' (ps_ID p) = Some q \<and>
     ps_SendSeq q = ps_SendSeq p \<and> ps_Acked q = ps_Acked p \<and> ps_RecvSeq q = ps_RecvSeq p \<and> ps_SendBuf q = ps_SendBuf p \<and>
     ps_Owner q = sv_instance sv \<and> ps_Generation q = Suc (ps_Generation p) \<and>
     (\<exists>s. map_of (sessions sv') i = Some s \<and> s_ep s = e)"
proof -
  let ?g = "Suc (ps_Generation p)"
  let ?c = "granted (ps_ID p) (sv_instance sv) ?g (env_now ev + sv_ttl sv) (Some c)"
  let ?m = "AList.update (ps_ID p) ?c m"
  let ?mt = "mt\<lparr>MetaSessionID := ps_ID p\<rparr>"
  have i: "e_id e = i" using restored_id [OF assms(1)] assms(4,5) by simp
  have t: "mem_TakeoverLease (ps_ID p) (sv_instance sv) (ps_Generation p) (sv_ttl sv) (env_now ev) m =
      (?m, Some (lease_of (ps_ID p) (sv_instance sv) ?g (env_now ev + sv_ttl sv)))"
    using takeover_same_generation [OF assms(6)] assms(7,8) by simp
  have "\<exists>q. map_of (fst (checkpoint sv (resumed_session p e stdin ?mt ?g 1) ?m)) (ps_ID p) = Some q \<and>
     ps_SendSeq q = ps_SendSeq p \<and> ps_Acked q = ps_Acked p \<and> ps_RecvSeq q = ps_RecvSeq p \<and> ps_SendBuf q = ps_SendBuf p \<and>
     ps_Replay q = ps_Replay p \<and> ps_Owner q = sv_instance sv \<and> ps_Generation q = ?g"
    by (rule resumed_checkpoint [OF assms(1-3), where c = ?c]) (simp_all add: i assms(4) update_conv' granted_def)
  then show ?thesis
    using assms(1,3,9) t i
    by (auto simp: rehydrate_def resumeFromPersisted_def registerResumed_def lease_of_def resumed_session_def update_conv' Let_def)
qed

text \<open>C36: A client that reattaches to another gateway can undo its old gateway's last checkpoint: the new
  gateway resumes from the record it loaded before it took the lease over, so a checkpoint saved in
  between is lost, in memory and, with the resuming gateway's own first checkpoint, in the store.\<close>

theorem takeover_discards_newer_checkpoint:
  assumes "sv_hasStore sv" "sv_hasLease sv" and "\<not> isZero i" "length i = sessionIDLen" "map_of (sessions sv) i = None"
    and "mem_Load (id_String i) m = Some p" "ps_ID p = id_String i" "ps_CreatorKey p = PeerKey mt" "restoreEndpoint p = Inr e"
    and "Suc (ps_Generation p) < 2 ^ 64" and "spawnBackendForResume sv ev p = Some stdin"
    and "ps_ID newer = ps_ID p"
    and "attach ev (\<lambda>_ m. fst (mem_SaveIfOwned newer (ps_Owner p) (ps_Generation p) m)) i mt (sv, m) = ((sv', m'), r)"
  shows "snd (mem_SaveIfOwned newer (ps_Owner p) (ps_Generation p) m) \<and> r = Inr (i, True) \<and>
     (\<exists>s. map_of (sessions sv') i = Some s \<and> s_ep s = e) \<and>
     (\<exists>q. mem_Load (id_String i) m' = Some q \<and> ps_SendSeq q = ps_SendSeq p \<and> ps_Acked q = ps_Acked p \<and> ps_RecvSeq q = ps_RecvSeq p \<and>
        ps_SendBuf q = ps_SendBuf p)"
proof -
  let ?m = "fst (mem_SaveIfOwned newer (ps_Owner p) (ps_Generation p) m)"
  have s: "mem_SaveIfOwned newer (ps_Owner p) (ps_Generation p) m =
      (AList.update (ps_ID p) (newer\<lparr>ps_Owner := ps_Owner p, ps_Generation := ps_Generation p, ps_LeaseExpiry := ps_LeaseExpiry p\<rparr>) m, True)"
    using assms(6,7,12) by (simp add: mem_SaveIfOwned_def mem_Load_def holds_lease_def)
  then obtain c where c: "map_of ?m (ps_ID p) = Some c" "ps_Generation c = ps_Generation p" by (simp add: update_conv')
  obtain sv1 m1 q where R: "rehydrate ev p mt (sv, ?m) = ((sv1, m1), Inr i)" "map_of m1 (ps_ID p) = Some q"
    "ps_SendSeq q = ps_SendSeq p" "ps_Acked q = ps_Acked p" "ps_RecvSeq q = ps_RecvSeq p" "ps_SendBuf q = ps_SendBuf p"
    "\<exists>s. map_of (sessions sv1) i = Some s \<and> s_ep s = e"
    using rehydrate_works [OF assms(9,1,2,7,4) c assms(10,11), of mt] by blast
  have "attach_stored takeoverAttempts ev (\<lambda>_ m. fst (mem_SaveIfOwned newer (ps_Owner p) (ps_Generation p) m)) i mt (sv, m) = ((sv1, m1), Inr i)"
    using assms(6,8) R(1) by (simp add: takeoverAttempts_def numeral_3_eq_3)
  then have "sv' = sv1" "m' = m1" "r = Inr (i, True)" using assms(1,3,5,13) by (auto simp: attach_def)
  then show ?thesis using R(2-7) s assms(7) by (simp add: mem_Load_def)
qed

text \<open>The standby sweep, by contrast, reads the record again after its claim: it resumes from what the
  store holds at that moment, whatever the listed record said.\<close>

lemma acquire_granted:
  "mem_AcquireLease i ow g ttl now m = (m', Some l) \<Longrightarrow>
     m' = AList.update i (granted i ow (l_Generation l) (now + ttl) (map_of m i)) m \<and> canAcquire (map_of m i) ow g now = Some (l_Generation l)"
  by (auto simp: mem_AcquireLease_def lease_of_def split: option.splits)

lemma adopt_resumes_latest:
  assumes "adopt ev id p (sv, m) = (sv', m')" and "parseSessionID (ps_ID p) = Inr i" and "map_of (sessions sv) i = None"
    and "map_of (sessions sv') i = Some s" and "mem_Load (ps_ID p) m = Some cur" and "keyed m"
  shows "recvSeq (s_ep s) = ps_RecvSeq cur \<and> sendSeq (s_ep s) = ps_SendSeq cur \<and> acked (s_ep s) = ps_Acked cur \<and>
    s_creatorKey s = ps_CreatorKey cur \<and> PeerFQDN (s_meta s) = ps_PeerFQDN cur \<and> s_reaper s"
proof -
  obtain m1 l where a: "mem_AcquireLease (ps_ID p) (sv_instance sv) (ps_Generation p) (sv_ttl sv) (env_now ev) m = (m1, Some l)"
    using assms(1-4) by (cases "mem_AcquireLease (ps_ID p) (sv_instance sv) (ps_Generation p) (sv_ttl sv) (env_now ev) m")
      (auto simp: adopt_def split: option.splits)
  let ?c = "granted (ps_ID p) (sv_instance sv) (l_Generation l) (env_now ev + sv_ttl sv) (Some cur)"
  have l: "mem_Load (ps_ID p) m1 = Some ?c"
    using acquire_granted [OF a] assms(5) by (simp add: mem_Load_def update_conv')
  have c: "ps_RecvSeq ?c = ps_RecvSeq cur" "ps_SendSeq ?c = ps_SendSeq cur" "ps_Acked ?c = ps_Acked cur" "ps_CreatorKey ?c = ps_CreatorKey cur"
    "ps_PeerFQDN ?c = ps_PeerFQDN cur" "ps_ID ?c = ps_ID p" by (simp_all add: granted_def)
  have none: "map_of (sessions sv') i \<noteq> None" using assms(4) by simp
  obtain e where e: "restoreEndpoint ?c = Inr e"
    using none assms(1-3) a l by (cases "restoreEndpoint ?c") (auto simp: adopt_def give_back_def split: if_splits)
  have i: "e_id e = i" using restored_id [OF e] c(6) assms(2) by simp
  show ?thesis
    using assms(1-4) a l e i c restored_fields [OF e]
    by (auto simp: adopt_def give_back_def arm_reaper_def resumeFromPersisted_def registerResumed_def resumed_session_def update_conv' Let_def
        split: if_splits option.splits)
qed

lemma adopt_only_unowned:
  assumes "adoptable sv p now"
  shows "ps_Generation p \<noteq> 0 \<and> ps_Owner p \<noteq> sv_instance sv \<and>
    (ps_Owner p = [] \<or> 0 < ps_LeaseExpiry p \<and> wrap64 (ps_LeaseExpiry p + 2 * sv_ttl sv) < now)"
  using assms by (auto simp: adoptable_def sweepMargin_def split: if_splits)

subsection \<open>Handing sessions over on shutdown\<close>

definition sessions_ok :: "server \<Rightarrow> bool" where
  "sessions_ok sv = (distinct (map fst (sessions sv)) \<and> (\<forall>(i, s)\<in>set (sessions sv). e_id (s_ep s) = i))"

lemma id_String_inj [simp]: "id_String i = id_String j \<longleftrightarrow> i = j"
  by (simp add: id_String_def hex_encode_inj)

lemma checkpoint_record_ID [simp]: "ps_ID (checkpoint_record sv s) = id_String (e_id (s_ep s))"
  by (simp add: checkpoint_record_def snapshot_def)

lemma hand_off_other:
  assumes "e_id (s_ep s) = j" and "i \<noteq> j"
  shows "map_of (hand_off sv (j, s) m) (id_String i) = map_of m (id_String i)"
  using assms by (auto simp: hand_off_def checkpoint_def mem_SaveIfOwned_def mem_ReleaseLease_def mem_Save_def update_conv' Let_def)

lemma fold_hand_off_other:
  "\<forall>(j, s)\<in>set ss. e_id (s_ep s) = j \<Longrightarrow> i \<notin> fst ` set ss \<Longrightarrow> map_of (fold (hand_off sv) ss m) (id_String i) = map_of m (id_String i)"
proof (induction ss arbitrary: m)
  case (Cons x ss)
  obtain j s where x: "x = (j, s)" by (cases x)
  have "e_id (s_ep s) = j" "i \<noteq> j" using Cons.prems x by auto
  then have "map_of (hand_off sv x m) (id_String i) = map_of m (id_String i)" using hand_off_other x by metis
  then show ?case using Cons by auto
qed simp

text \<open>The record a session leaves behind.\<close>

definition released_record :: "server \<Rightarrow> srv_session \<Rightarrow> persisted" where
  "released_record sv s = (checkpoint_record sv s)\<lparr>ps_Owner := [], ps_Generation := s_leaseGen s, ps_LeaseExpiry := 0\<rparr>"

lemma hand_off_self:
  assumes "e_id (s_ep s) = i" "sv_hasStore sv" "sv_hasLease sv" "0 < s_leaseGen s"
    and "map_of m (id_String i) = Some c" "ps_Owner c = sv_instance sv" "ps_Generation c = s_leaseGen s"
  shows "map_of (hand_off sv (i, s) m) (id_String i) = Some (released_record sv s)"
  using assms
  by (auto simp: hand_off_def checkpoint_def mem_SaveIfOwned_def mem_ReleaseLease_def holds_lease_def update_conv' released_record_def Let_def)

lemma shutdown_record:
  assumes "sessions_ok sv" "sv_hasStore sv" "sv_hasLease sv" "map_of (sessions sv) i = Some s" "0 < s_leaseGen s"
    and "map_of m (id_String i) = Some c" "ps_Owner c = sv_instance sv" "ps_Generation c = s_leaseGen s"
  shows "map_of (snd (Shutdown (sv, m))) (id_String i) = Some (released_record sv s)"
proof -
  obtain as bs where ss: "sessions sv = as @ (i, s) # bs" using map_of_SomeD [OF assms(4)] by (meson split_list)
  have d: "i \<notin> fst ` set as" "i \<notin> fst ` set bs" using assms(1) ss by (auto simp: sessions_ok_def)
  have ids: "\<forall>(j, s)\<in>set as. e_id (s_ep s) = j" "\<forall>(j, s)\<in>set bs. e_id (s_ep s) = j" "e_id (s_ep s) = i"
    using assms(1) ss by (auto simp: sessions_ok_def)
  have "map_of (fold (hand_off sv) as m) (id_String i) = Some c" using fold_hand_off_other [OF ids(1) d(1)] assms(6) by simp
  then have "map_of (hand_off sv (i, s) (fold (hand_off sv) as m)) (id_String i) = Some (released_record sv s)"
    by (rule hand_off_self [OF ids(3) assms(2,3,5) _ assms(7,8)])
  then show ?thesis using fold_hand_off_other [OF ids(2) d(2)] by (simp add: Shutdown_def ss)
qed

lemma restore_cong:
  "ps_ID p = ps_ID q \<Longrightarrow> ps_SendSeq p = ps_SendSeq q \<Longrightarrow> ps_Acked p = ps_Acked q \<Longrightarrow> ps_RecvSeq p = ps_RecvSeq q \<Longrightarrow>
     ps_SendBuf p = ps_SendBuf q \<Longrightarrow> restoreEndpoint p = restoreEndpoint q"
  by (auto simp: restoreEndpoint_def split: sum.split)

lemma released_restores:
  assumes "length i = sessionIDLen" "e_id (s_ep s) = i" "length (sendBuf (s_ep s)) \<le> defaultMaxSendFrames"
    and "\<forall>f\<in>set (sendBuf (s_ep s)). f = data_frame (f_seq f) (f_payload f)"
  shows "restoreEndpoint (released_record sv s) = Inr (detached_state (s_ep s))"
proof -
  have "restoreEndpoint (released_record sv s) = restoreEndpoint (snapshot (s_replay s) (countRequests (s_replay s)) (s_ep s))"
    by (rule restore_cong) (simp_all add: released_record_def checkpoint_record_def)
  then show ?thesis using restore_snapshot assms by simp
qed


subsection \<open>Bounds\<close>

text \<open>The captured input never exceeds its limit, whatever a client streams.\<close>

lemma capture_bounded:
  "capture sv p s = Some s' \<Longrightarrow> length (s_replay s) \<le> maxReplayBytes \<Longrightarrow> length (s_replay s') \<le> maxReplayBytes"
  by (auto simp: capture_def Let_def split: if_splits)

lemma dispatch_bounded:
  assumes "dispatch sv ok p s m = Dispatched s' m' fenced" and "length (s_replay s) \<le> maxReplayBytes"
  shows "length (s_replay s') \<le> maxReplayBytes \<and> s_stdin s' = s_stdin s @ [p] \<and> s_ep s' = s_ep s"
proof -
  obtain t where t: "capture sv p s = Some t" using assms(1) by (auto simp: dispatch_def split: option.splits)
  have "s_stdin t = s_stdin s \<and> s_ep t = s_ep s" using t by (auto simp: capture_def Let_def split: if_splits)
  then show ?thesis
    using assms capture_bounded [OF t] t by (auto simp: dispatch_def Let_def split: if_splits prod.splits)
qed

lemma chunks_all: "concat (chunks d) = d \<and> (\<forall>c\<in>set (chunks d). c \<noteq> [] \<and> length c \<le> maxPayload)"
proof (induction d rule: chunks.induct)
  case (1 d)
  show ?case
  proof (cases "d = []")
    case True
    then show ?thesis by (simp add: chunks.simps)
  next
    case False
    then show ?thesis using 1 [OF False] by (subst chunks.simps, subst (2) chunks.simps) (simp add: maxPayload_def)
  qed
qed

subsection \<open>Degraded sessions\<close>

text \<open>A session that could not get a lease never writes to a store that has leases.\<close>

lemma degraded_never_writes: "s_leaseGen s = 0 \<Longrightarrow> sv_hasLease sv \<Longrightarrow> checkpoint sv s m = (m, False)"
  by (simp add: checkpoint_def)

text \<open>A takeover whose backend does not start has already moved the lease: the old gateway is fenced although
  nothing resumed.\<close>

lemma failed_resume_keeps_lease:
  assumes "restoreEndpoint p = Inr e" and "sv_hasLease sv" and "map_of m (ps_ID p) = Some c" "ps_Generation c = ps_Generation p"
    and "Suc (ps_Generation p) < 2 ^ 64" and "spawnBackendForResume sv ev p = None"
  shows "\<exists>m' q. rehydrate ev p mt (sv, m) = ((sv, m'), Inl SpawnFailed) \<and> map_of m' (ps_ID p) = Some q \<and>
    ps_Owner q = sv_instance sv \<and> ps_Generation q = Suc (ps_Generation p)"
  using assms takeover_same_generation [OF assms(3), of "sv_instance sv" "sv_ttl sv" "env_now ev"]
  by (simp add: rehydrate_def resumeFromPersisted_def lease_of_def granted_def update_conv')

subsection \<open>Two gateways\<close>

definition demo_gateway :: "string \<Rightarrow> server" where
  "demo_gateway name =
     \<lparr>sv_ttl = 100, sv_hasStore = True, sv_hasLease = True, sv_mode = MigrateBackend, sv_instance = name, sv_failover = True,
      sessions = [], warming = []\<rparr>"

definition demo_env :: env where
  "demo_env = \<lparr>env_now = 1000, env_newID = demo_id, env_spawns = True, env_replays = True\<rparr>"

definition demo_meta :: meta where
  "demo_meta = \<lparr>PeerFQDN = ''c.mesh'', PeerAddr = ''10.0.0.1'', PeerKey = ''key'', MetaSessionID = []\<rparr>"

definition demo_session :: srv_session where
  "demo_session =
     \<lparr>s_ep = newEndpoint demo_id, s_stdin = [], s_creatorKey = ''key'', s_reaper = False, s_active = 1,
      s_meta = demo_meta\<lparr>MetaSessionID := id_String demo_id\<rparr>, s_leaseGen = 1, s_replay = [], s_captureDone = False\<rparr>"

definition demo_record :: persisted where
  "demo_record = zero_ps\<lparr>ps_ID := id_String demo_id, ps_Owner := ''a'', ps_Generation := 1, ps_CreatorKey := ''key'', ps_LeaseExpiry := 1100\<rparr>"

lemma demo_id_facts: "\<not> isZero demo_id" "isZero zero_id" "length demo_id = sessionIDLen" "length zero_id = sessionIDLen"
  by (simp_all add: isZero_def demo_id_def zero_id_def sessionIDLen_def list_all_iff)

lemma demo_record_restores: "restoreEndpoint demo_record = Inr (newEndpoint demo_id)"
  using demo_id_facts(3)
  by (simp add: restoreEndpoint_def demo_record_def zero_ps_def newEndpoint_def newEndpointCap_def defaultMaxSendFrames_def Let_def)

theorem attach_binds_identity_witness:
  "case attach demo_env (\<lambda>_ m. m) demo_id (demo_meta\<lparr>PeerKey := ''thief''\<rparr>) (demo_gateway ''b'', [(id_String demo_id, demo_record)]) of
     ((sv', m'), r) \<Rightarrow> keyed [(id_String demo_id, demo_record)] \<and> r = Inl IdentityMismatch \<and> sv' = demo_gateway ''b''"
proof -
  let ?m = "[(id_String demo_id, demo_record)]" and ?mt = "demo_meta\<lparr>PeerKey := ''thief''\<rparr>"
  have k: "keyed ?m" by (simp add: keyed_def demo_record_def)
  obtain sv' m' r where a: "attach demo_env (\<lambda>_ m. m) demo_id ?mt (demo_gateway ''b'', ?m) = ((sv', m'), r)" by (metis prod.exhaust)
  then have r: "r = Inl IdentityMismatch"
    using demo_id_facts(1)
    by (auto simp: attach_def demo_gateway_def takeoverAttempts_def numeral_3_eq_3 mem_Load_def demo_record_def demo_meta_def)
  then show ?thesis using attach_binds_identity [OF a k _ demo_id_facts(3)] a k by simp
qed

theorem takeover_discards_newer_checkpoint_witness:
  "\<exists>sv' m' q. attach demo_env (\<lambda>_ m. fst (mem_SaveIfOwned (demo_record\<lparr>ps_RecvSeq := 7\<rparr>) ''a'' 1 m)) demo_id demo_meta
       (demo_gateway ''b'', [(id_String demo_id, demo_record)]) = ((sv', m'), Inr (demo_id, True)) \<and>
     mem_Load (id_String demo_id) m' = Some q \<and> ps_RecvSeq q = 0"
proof -
  let ?m = "[(id_String demo_id, demo_record)]" and ?others = "\<lambda>_ m. fst (mem_SaveIfOwned (demo_record\<lparr>ps_RecvSeq := 7\<rparr>) ''a'' 1 m)"
  obtain sv' m' r where a: "attach demo_env ?others demo_id demo_meta (demo_gateway ''b'', ?m) = ((sv', m'), r)" by (metis prod.exhaust)
  have s: "spawnBackendForResume (demo_gateway ''b'') demo_env demo_record = Some []"
    by (simp add: spawnBackendForResume_def demo_gateway_def demo_env_def)
  have o: "ps_Owner demo_record = ''a''" "ps_Generation demo_record = 1" "ps_RecvSeq demo_record = 0" "ps_ID demo_record = id_String demo_id"
    "ps_CreatorKey demo_record = PeerKey demo_meta" by (simp_all add: demo_record_def zero_ps_def demo_meta_def)
  have g: "sv_hasStore (demo_gateway ''b'')" "sv_hasLease (demo_gateway ''b'')" "map_of (sessions (demo_gateway ''b'')) demo_id = None"
    by (simp_all add: demo_gateway_def)
  have "snd (mem_SaveIfOwned (demo_record\<lparr>ps_RecvSeq := 7\<rparr>) (ps_Owner demo_record) (ps_Generation demo_record) ?m) \<and> r = Inr (demo_id, True) \<and>
     (\<exists>s. map_of (sessions sv') demo_id = Some s \<and> s_ep s = newEndpoint demo_id) \<and>
     (\<exists>q. mem_Load (id_String demo_id) m' = Some q \<and> ps_SendSeq q = ps_SendSeq demo_record \<and> ps_Acked q = ps_Acked demo_record \<and>
        ps_RecvSeq q = ps_RecvSeq demo_record \<and> ps_SendBuf q = ps_SendBuf demo_record)"
    by (rule takeover_discards_newer_checkpoint [OF g(1,2) demo_id_facts(1,3) g(3) _ o(4,5) demo_record_restores _ s])
      (use a o in \<open>simp_all add: mem_Load_def\<close>)
  then show ?thesis using a o(3) by auto
qed


end
