(* ===== verification/SessionMove.thy ===== *)
theory SessionMove
  imports SessionServer
begin

text \<open>The live move of a session between gateways (\<^verbatim>\<open>src/session/move.go\<close>): the destination warms a backend,
  the source freezes, one compare-and-swap moves the lease.\<close>

subsection \<open>Moving a live session\<close>

definition moveSupportedMode :: "mig_mode \<Rightarrow> bool" where
  "moveSupportedMode md = (md = MigrateHandshake \<or> md = MigrateBackend)"

datatype move_err =
    MoveNoStore | MoveModeUnsupported | MoveNoIdentity | MoveDegraded | MoveAlreadyLive | MoveNotWarming | MoveUnauthorized
  | MoveNoState | MoveNotQuiescent | MoveBadID | MoveNoSession | MoveSpawnFailed | MoveRestoreFailed restore_err

definition PrepareMove :: "env \<Rightarrow> persisted \<Rightarrow> meta \<Rightarrow> server \<Rightarrow> server \<times> move_err option" where
  "PrepareMove ev p mt sv =
     (if \<not> sv_hasStore sv \<or> \<not> sv_hasLease sv then (sv, Some MoveNoStore)
      else if \<not> moveSupportedMode (sv_mode sv) then (sv, Some MoveModeUnsupported)
      else if ps_ID p = [] \<or> ps_CreatorKey p = [] then (sv, Some MoveNoIdentity)
      else if ps_Generation p = 0 then (sv, Some MoveDegraded)
      else case parseSessionID (ps_ID p) of
        Inl _ \<Rightarrow> (sv, Some MoveBadID)
      | Inr i \<Rightarrow>
          (let mt = mt\<lparr>MetaSessionID := ps_ID p,
                       PeerKey := (if PeerKey mt = [] then ps_CreatorKey p else PeerKey mt),
                       PeerFQDN := (if PeerFQDN mt = [] then ps_PeerFQDN p else PeerFQDN mt),
                       PeerAddr := (if PeerAddr mt = [] then ps_PeerAddr p else PeerAddr mt)\<rparr> in
           case spawnBackendForResume sv ev p of
             None \<Rightarrow> (sv, Some MoveSpawnFailed)
           | Some stdin \<Rightarrow>
               if map_of (sessions sv) i \<noteq> None then (sv, Some MoveAlreadyLive)
               else (sv\<lparr>warming := AList.update i \<lparr>w_ps = p, w_stdin = stdin, w_meta = mt, w_gen = ps_Generation p\<rparr> (warming sv)\<rparr>, None)))"

text \<open>\<open>authorize\<close> consumes the destination's single-use grant; \<^term>\<open>None\<close> stands for no grant check at all, which
  refuses.\<close>

definition CommitMove ::
  "env \<Rightarrow> string \<Rightarrow> bool option \<Rightarrow> server \<times> memstore \<Rightarrow> (server \<times> memstore) \<times> (move_err + bool)" where
  "CommitMove ev i authorize = (\<lambda>(sv, m).
     (case parseSessionID i of
        Inl _ \<Rightarrow> ((sv, m), Inl MoveBadID)
      | Inr j \<Rightarrow>
          (let warm = map_of (warming sv) j;
               sv = sv\<lparr>warming := AList.delete j (warming sv)\<rparr> in
           if map_of (sessions sv) j \<noteq> None then ((sv, m), Inr True)
           else case warm of
             None \<Rightarrow> ((sv, m), Inl MoveNotWarming)
           | Some w \<Rightarrow>
               if authorize \<noteq> Some True then ((sv, m), Inl MoveUnauthorized)
               else
                 (case mem_TakeoverLease i (sv_instance sv) (w_gen w) (sv_ttl sv) (env_now ev) m of
                    (m1, None) \<Rightarrow>
                      ((sv, m1), Inr (case mem_Load i m1 of Some cur \<Rightarrow> ps_Owner cur = sv_instance sv | None \<Rightarrow> False))
                  | (m1, Some l) \<Rightarrow>
                      (case mem_Load i m1 of
                         None \<Rightarrow> ((sv, fst (mem_ReleaseLease i (sv_instance sv) (l_Generation l) m1)), Inl MoveNoState)
                       | Some cur \<Rightarrow>
                           (case restoreEndpoint cur of
                              Inl err \<Rightarrow> ((sv, fst (mem_ReleaseLease i (sv_instance sv) (l_Generation l) m1)), Inl (MoveRestoreFailed err))
                            | Inr e \<Rightarrow>
                                (arm_reaper (e_id e) (registerResumed cur e (w_stdin w) (w_meta w) (l_Generation l) 0 (sv, m1)), Inr True)))))))"

definition AbortMove :: "string \<Rightarrow> server \<Rightarrow> server" where
  "AbortMove i sv =
     (case parseSessionID i of Inl _ \<Rightarrow> sv | Inr j \<Rightarrow> sv\<lparr>warming := AList.delete j (warming sv)\<rparr>)"

definition drainForMove :: "server \<Rightarrow> srv_session \<Rightarrow> move_err option" where
  "drainForMove sv s =
     (if inbound (s_ep s) = [] then None else if sv_mode sv = MigrateBackend then None else Some MoveNotQuiescent)"

definition FreezeForMove :: "string \<Rightarrow> server \<times> memstore \<Rightarrow> (server \<times> memstore) \<times> move_err option" where
  "FreezeForMove i = (\<lambda>(sv, m).
     (case parseSessionID i of
        Inl _ \<Rightarrow> ((sv, m), Some MoveBadID)
      | Inr j \<Rightarrow>
          (case map_of (sessions sv) j of
             None \<Rightarrow> ((sv, m), Some MoveNoSession)
           | Some s \<Rightarrow>
               if s_leaseGen s = 0 then ((sv, m), Some MoveDegraded)
               else
                 (let s = s\<lparr>s_ep := detach (s_ep s)\<rparr>;
                      sv = sv\<lparr>sessions := AList.update j s (sessions sv)\<rparr> in
                  case drainForMove sv s of
                    Some err \<Rightarrow> ((sv, m), Some err)
                  | None \<Rightarrow> ((sv, fst (checkpoint sv s m)), None)))))"

definition YieldAfterMove :: "string \<Rightarrow> server \<times> memstore \<Rightarrow> server \<times> memstore" where
  "YieldAfterMove i st = (case parseSessionID i of Inl _ \<Rightarrow> st | Inr j \<Rightarrow> remove j st)"

subsection \<open>One owner\<close>

text \<open>Warming, aborting and freezing leave the ownership of every record as it is.\<close>

definition same_lease :: "memstore \<Rightarrow> memstore \<Rightarrow> bool" where
  "same_lease m m' =
     (\<forall>k. map_option (\<lambda>p. (ps_Owner p, ps_Generation p)) (map_of m' k) = map_option (\<lambda>p. (ps_Owner p, ps_Generation p)) (map_of m k))"

lemma checkpoint_same_lease: "sv_hasLease sv \<Longrightarrow> same_lease m (fst (checkpoint sv s m))"
  by (auto simp: same_lease_def checkpoint_def mem_SaveIfOwned_def holds_lease_def update_conv' Let_def split: option.splits)

lemma freeze_keeps_lease:
  assumes "sv_hasLease sv" and "FreezeForMove i (sv, m) = ((sv', m'), r)"
  shows "same_lease m m'"
  using assms checkpoint_same_lease
  by (auto simp: FreezeForMove_def same_lease_def Let_def split: sum.splits option.splits if_splits)

lemma takeover_fences:
  assumes "map_of m i = Some c" and "Suc (ps_Generation c) < 2 ^ 64" and "mem_TakeoverLease i ow g ttl now m = (m', Some l)"
  shows "\<exists>q. map_of m' i = Some q \<and> ps_Owner q = ow \<and> ps_Generation q = Suc (ps_Generation c) \<and> l_Generation l = Suc (ps_Generation c) \<and> g = ps_Generation c"
  using assms by (auto simp: mem_TakeoverLease_def canTakeover_def granted_def lease_of_def u64_def update_conv' split: if_splits)



subsection \<open>A frozen session still serves\<close>

lemma frozen_shape:
  assumes "FreezeForMove (id_String i) (sv, m) = ((sv', m'), None)" and "length i = sessionIDLen" and "map_of (sessions sv) i = Some s"
  shows "sv' = sv\<lparr>sessions := AList.update i (s\<lparr>s_ep := detach (s_ep s)\<rparr>) (sessions sv)\<rparr> \<and>
     m' = fst (checkpoint sv' (s\<lparr>s_ep := detach (s_ep s)\<rparr>) m)"
  using assms by (auto simp: FreezeForMove_def checkpoint_def checkpoint_record_def Let_def split: if_splits option.splits)

text \<open>C37: Freezing does not stop the source from serving: the client's automatic reconnect is accepted, its
  next message is taken and acknowledged, and the final checkpoint, which the destination resumes from,
  does not contain it.\<close>

theorem frozen_session_accepts_messages:
  assumes "FreezeForMove (id_String i) (sv, m) = ((sv', m'), None)" and "map_of (sessions sv) i = Some s"
    and "\<not> isZero i" "length i = sessionIDLen" "\<not> closed (s_ep s)" "PeerKey mt = s_creatorKey s" "f_typ att = frameAttach" "f_id att = i"
    and "\<forall>f\<in>set (sendBuf (s_ep s)). writable f" "Suc (recvSeq (s_ep s)) < 2 ^ 64"
  shows "\<exists>sv'' hi out g s'' e'.
     Handle ev others (\<lambda>_. True) att mt (sv', m') = ((sv'', m'), Attached hi out g) \<and> map_of (sessions sv'') i = Some s'' \<and>
     pump_frame True (data_frame (Suc (recvSeq (s_ep s))) p) (s_ep s'') =
       (e', [ack_frame (Suc (recvSeq (s_ep s)))], Hand p) \<and>
     recvSeq e' = Suc (recvSeq (s_ep s)) \<and>
     (\<forall>q. sv_hasStore sv \<longrightarrow> sv_hasLease sv \<longrightarrow> e_id (s_ep s) = i \<longrightarrow> holds_lease (map_of m (id_String i)) (sv_instance sv) (s_leaseGen s) \<longrightarrow>
        s_leaseGen s \<noteq> 0 \<longrightarrow> map_of m' (id_String i) = Some q \<longrightarrow> ps_RecvSeq q < recvSeq e')"
proof -
  let ?d = "detach (s_ep s)"
  have F: "sv' = sv\<lparr>sessions := AList.update i (s\<lparr>s_ep := ?d\<rparr>) (sessions sv)\<rparr>" "m' = fst (checkpoint sv' (s\<lparr>s_ep := ?d\<rparr>) m)"
    using frozen_shape [OF assms(1,4,2)] by simp_all
  let ?s = "s\<lparr>s_ep := ?d, s_reaper := False, s_active := s_active s + 1\<rparr>"
  let ?sv = "sv'\<lparr>sessions := AList.update i ?s (sessions sv')\<rparr>"
  have at: "attach ev others i mt (sv', m') = ((?sv, m'), Inr (i, True))"
    using assms(3,6) by (simp add: attach_def F(1) update_conv')
  have "\<forall>f\<in>set (sendBuf (ackLocked u ?d)). writable f" for u
    using assms(9) by (auto simp: ackLocked_def detach_def dropConnLocked_def Let_def dest: in_set_dropD)
  then have b: "bind (\<lambda>_. True) (f_seq att) ?d = ((ackLocked (f_seq att) ?d)\<lparr>bound := True, connGen := u64 (connGen ?d + 1)\<rparr>,
      sendBuf (ackLocked (f_seq att) ?d), u64 (connGen ?d + 1))"
    by (simp add: bind_def replay_all Let_def)
  let ?e = "(ackLocked (f_seq att) ?d)\<lparr>bound := True, connGen := u64 (connGen ?d + 1)\<rparr>"
  let ?sv2 = "?sv\<lparr>sessions := AList.update i (?s\<lparr>s_ep := ?e\<rparr>) (sessions ?sv)\<rparr>"
  have H: "Handle ev others (\<lambda>_. True) att mt (sv', m') =
      ((?sv2, m'), Attached (hello Server ?d) (sendBuf (ackLocked (f_seq att) ?d)) (u64 (connGen ?d + 1)))"
    using at b assms(7,8) by (simp add: Handle_def update_conv')
  have rs: "recvSeq ?e = recvSeq (s_ep s)" "bound ?e" by (simp_all add: ackLocked_def detach_def dropConnLocked_def Let_def)
  have "u64 (Suc (recvSeq (s_ep s))) = Suc (recvSeq (s_ep s))" using assms(10) by (simp add: u64_def)
  then have P: "pump_frame True (data_frame (Suc (recvSeq (s_ep s))) p) ?e =
      (?e\<lparr>recvSeq := Suc (recvSeq (s_ep s))\<rparr>, [ack_frame (Suc (recvSeq (s_ep s)))], Hand p)"
    using rs by (simp add: pump_frame_def sendAck_bound)
  have "ps_RecvSeq q < Suc (recvSeq (s_ep s))"
    if "sv_hasStore sv" "sv_hasLease sv" "e_id (s_ep s) = i" "holds_lease (map_of m (id_String i)) (sv_instance sv) (s_leaseGen s)"
      "s_leaseGen s \<noteq> 0" "map_of m' (id_String i) = Some q" for q
    using that by (auto simp: F checkpoint_def mem_SaveIfOwned_def checkpoint_record_def snapshot_def detach_def dropConnLocked_def update_conv' Let_def)
  then show ?thesis
    by (intro exI [of _ ?sv2] exI [of _ "hello Server ?d"] exI [of _ "sendBuf (ackLocked (f_seq att) ?d)"] exI [of _ "u64 (connGen ?d + 1)"]
        exI [of _ "?s\<lparr>s_ep := ?e\<rparr>"] exI [of _ "?e\<lparr>recvSeq := Suc (recvSeq (s_ep s))\<rparr>"])
      (use H P in \<open>simp add: update_conv'\<close>)
qed

theorem frozen_session_accepts_messages_witness:
  "\<exists>sv' m' sv'' hi out g s'' e'.
     FreezeForMove (id_String demo_id) ((demo_gateway ''a'')\<lparr>sessions := [(demo_id, demo_session)]\<rparr>, [(id_String demo_id, demo_record)]) =
       ((sv', m'), None) \<and>
     Handle demo_env (\<lambda>_ m. m) (\<lambda>_. True) (zero_frame\<lparr>f_typ := frameAttach, f_id := demo_id\<rparr>) demo_meta (sv', m') =
       ((sv'', m'), Attached hi out g) \<and>
     map_of (sessions sv'') demo_id = Some s'' \<and> pump_frame True (data_frame 1 ''late'') (s_ep s'') = (e', [ack_frame 1], Hand ''late'')"
proof -
  let ?sv = "(demo_gateway ''a'')\<lparr>sessions := [(demo_id, demo_session)]\<rparr>" and ?m = "[(id_String demo_id, demo_record)]"
  let ?att = "zero_frame\<lparr>f_typ := frameAttach, f_id := demo_id\<rparr>"
  have e: "s_ep demo_session = newEndpoint demo_id" "s_creatorKey demo_session = PeerKey demo_meta" "sendBuf (newEndpoint demo_id) = []"
    "recvSeq (newEndpoint demo_id) = 0" "\<not> closed (newEndpoint demo_id)" "inbound (newEndpoint demo_id) = []" "s_leaseGen demo_session = 1"
    by (simp_all add: demo_session_def demo_meta_def newEndpoint_def newEndpointCap_def Let_def)
  obtain sv' m' where fr: "FreezeForMove (id_String demo_id) (?sv, ?m) = ((sv', m'), None)"
    using demo_id_facts(3) e by (simp add: FreezeForMove_def drainForMove_def detach_def dropConnLocked_def Let_def)
  have l: "map_of (sessions ?sv) demo_id = Some demo_session" by simp
  have t: "PeerKey demo_meta = s_creatorKey demo_session" "f_typ ?att = frameAttach" "f_id ?att = demo_id" using e by simp_all
  have b: "\<not> closed (s_ep demo_session)" "\<forall>f\<in>set (sendBuf (s_ep demo_session)). writable f" "Suc (recvSeq (s_ep demo_session)) < 2 ^ 64"
    using e by simp_all
  show ?thesis
    using frozen_session_accepts_messages [OF fr l demo_id_facts(1,3) b(1) t b(2,3), of demo_env "\<lambda>_ m. m" "''late''"] fr e(1,4)
    unfolding One_nat_def by metis
qed

end
