(* ===== verification/Flock.thy ===== *)
theory Flock
  imports Prelude
begin

text \<open>The cross-process lock of the file store (\<^verbatim>\<open>src/session/flock.go\<close>).

  What the operating system answers in one iteration of the acquire loop is a record; the loop takes
  an infinite sequence of them and fuel, and has not returned where the fuel runs out.  The second part
  is a step relation of processes that share the lock file and the store: a lock may be removed at any
  moment, which covers stealing a stale lock and every race between stealing processes.\<close>

subsection \<open>Acquiring\<close>

definition lock_timeout :: duration where "lock_timeout = 5000000000"

definition lock_staleness :: duration where "lock_staleness = 10000000000"

definition poll_interval :: duration where "poll_interval = 5000000"

datatype open_result = Opened | OpenExists | OpenDenied | OpenFailed

record lock_obs =
  lo_open :: open_result
  lo_written :: bool
  lo_mtime :: "instant option"
  lo_now :: instant

datatype acquire_result = Acquired | TokenNotWritten | CreateFailed | LockTimeout bool

definition lock_stale :: "lock_obs \<Rightarrow> bool" where
  "lock_stale ob = (case lo_mtime ob of None \<Rightarrow> False | Some t \<Rightarrow> lock_staleness < lo_now ob - t)"

fun acquire_loop :: "nat \<Rightarrow> instant \<Rightarrow> (nat \<Rightarrow> lock_obs) \<Rightarrow> acquire_result option" where
  "acquire_loop 0 deadline obs = None"
| "acquire_loop (Suc n) deadline obs =
     (let ob = obs 0; again = acquire_loop n deadline (\<lambda>k. obs (Suc k)) in
      case lo_open ob of
        Opened \<Rightarrow> Some (if lo_written ob then Acquired else TokenNotWritten)
      | OpenFailed \<Rightarrow> Some CreateFailed
      | r \<Rightarrow>
          if lock_stale ob then again
          else if deadline < lo_now ob then Some (LockTimeout (r = OpenDenied))
          else again)"

definition lock_acquire :: "nat \<Rightarrow> instant \<Rightarrow> (nat \<Rightarrow> lock_obs) \<Rightarrow> acquire_result option" where
  "lock_acquire fuel start obs = acquire_loop fuel (start + lock_timeout) obs"

text \<open>\<^verbatim>\<open>stillHeld\<close> and \<^verbatim>\<open>release\<close> on the contents of the lock file; a file that cannot be read does not count
  as ours.\<close>

definition stillHeld :: "bool \<Rightarrow> string \<Rightarrow> string option \<Rightarrow> bool" where
  "stillHeld readable token lockfile = (readable \<and> lockfile = Some token)"

definition lock_release :: "bool \<Rightarrow> string \<Rightarrow> string option \<Rightarrow> string option" where
  "lock_release readable token lockfile =
     (if token = [] then lockfile
      else if readable \<and> lockfile = Some token then None
      else lockfile)"

subsection \<open>When the loop returns\<close>

text \<open>The iterations that neither return nor sleep are those that find a stale lock.  If two never
  follow each other and every other iteration takes the polling interval, the loop is over soon after
  its deadline.\<close>

definition polls :: "(nat \<Rightarrow> lock_obs) \<Rightarrow> bool" where
  "polls obs = (\<forall>k. lo_now (obs k) \<le> lo_now (obs (Suc k)) \<and> (lock_stale (obs k) \<longrightarrow> \<not> lock_stale (obs (Suc k))) \<and>
      (\<not> lock_stale (obs k) \<longrightarrow> lo_now (obs k) + poll_interval \<le> lo_now (obs (Suc k))))"

lemma polls_tail: "polls obs \<Longrightarrow> polls (\<lambda>k. obs (Suc k))"
  by (simp add: polls_def)

lemma polls_two: "polls obs \<Longrightarrow> lo_now (obs 0) + poll_interval \<le> lo_now (obs 2)"
proof -
  assume p: "polls obs"
  have a: "lo_now (obs 0) \<le> lo_now (obs 1)" "lo_now (obs 1) \<le> lo_now (obs 2)"
    "lock_stale (obs 0) \<longrightarrow> \<not> lock_stale (obs 1)"
    "\<not> lock_stale (obs 0) \<longrightarrow> lo_now (obs 0) + poll_interval \<le> lo_now (obs 1)"
    "\<not> lock_stale (obs 1) \<longrightarrow> lo_now (obs 1) + poll_interval \<le> lo_now (obs 2)"
    using p [unfolded polls_def, rule_format, of 0] p [unfolded polls_def, rule_format, of 1] by (simp_all add: numeral_2_eq_2)
  then show ?thesis by (cases "lock_stale (obs 0)") linarith+
qed

lemma acquire_ends:
  "polls obs \<Longrightarrow> deadline - lo_now (obs 0) < int n * poll_interval \<Longrightarrow> acquire_loop (2 * n + 2) deadline obs \<noteq> None"
proof (induction n arbitrary: obs)
  case 0
  then have late: "deadline < lo_now (obs 0)" by simp
  moreover have "lo_now (obs 0) \<le> lo_now (obs 1)" "lock_stale (obs 0) \<longrightarrow> \<not> lock_stale (obs 1)"
    using 0(1) [unfolded polls_def, rule_format, of 0] by simp_all
  ultimately show ?case
    by (cases "lo_open (obs 0)"; cases "lo_open (obs 1)") (auto simp: numeral_2_eq_2 Let_def)
next
  case (Suc n)
  let ?t = "\<lambda>k. obs (Suc (Suc k))"
  have "polls ?t" using polls_tail [OF polls_tail [OF Suc.prems(1)]] .
  moreover have "deadline - lo_now (?t 0) < int n * poll_interval"
    using polls_two [OF Suc.prems(1)] Suc.prems(2) by (simp add: numeral_2_eq_2 algebra_simps)
  ultimately have "acquire_loop (2 * n + 2) deadline ?t \<noteq> None" by (rule Suc.IH)
  then have "acquire_loop (Suc (Suc (2 * n + 2))) deadline obs \<noteq> None"
    by (cases "lo_open (obs 0)"; cases "lo_open (obs 1)") (auto simp: Let_def)
  then show ?case by simp
qed

text \<open>C33: When the removal of a stale lock works, so that the next look does not find it stale again,
  acquiring the lock returns: at the latest about two thousand iterations after it began, which is the
  five-second timeout at the polling interval.\<close>

theorem lock_acquire_returns:
  assumes "polls obs" and "lo_now (obs 0) = start"
  shows "\<exists>r. lock_acquire 2004 start obs = Some r"
proof -
  have "start + lock_timeout - lo_now (obs 0) < int 1001 * poll_interval"
    using assms(2) by (simp add: lock_timeout_def poll_interval_def)
  then have "acquire_loop (2 * 1001 + 2) (start + lock_timeout) obs \<noteq> None" by (rule acquire_ends [OF assms(1)])
  then show ?thesis unfolding lock_acquire_def by simp
qed

definition busy_lock :: "nat \<Rightarrow> lock_obs" where
  "busy_lock k = \<lparr>lo_open = OpenExists, lo_written = False, lo_mtime = Some (int k * poll_interval), lo_now = int k * poll_interval\<rparr>"

theorem lock_acquire_returns_witness: "polls busy_lock \<and> (\<exists>r. lock_acquire 2004 0 busy_lock = Some r)"
proof -
  have "polls busy_lock"
    by (simp add: polls_def busy_lock_def lock_stale_def lock_staleness_def poll_interval_def algebra_simps)
  then show ?thesis using lock_acquire_returns [of busy_lock 0] by (simp add: busy_lock_def)
qed

text \<open>A stale lock that cannot be removed makes acquiring spin for ever: the branch that steals goes
  back to the top without sleeping and without looking at the deadline, so the five-second timeout never
  applies.\<close>

theorem unremovable_stale_lock_spins:
  assumes "\<forall>k. lo_open (obs k) \<in> {OpenExists, OpenDenied} \<and> lock_stale (obs k)"
  shows "lock_acquire fuel start obs = None"
proof -
  have "acquire_loop n dl ob = None" if "\<forall>k. lo_open (ob k) \<in> {OpenExists, OpenDenied} \<and> lock_stale (ob k)" for n dl ob
    using that
  proof (induction n arbitrary: ob)
    case (Suc n)
    have "lo_open (ob 0) \<in> {OpenExists, OpenDenied}" "lock_stale (ob 0)" using Suc.prems by simp_all
    moreover have "acquire_loop n dl (\<lambda>k. ob (Suc k)) = None" using Suc.IH [of "\<lambda>k. ob (Suc k)"] Suc.prems by simp
    ultimately show ?case by (auto simp: Let_def split: open_result.splits)
  qed simp
  then show ?thesis using assms by (simp add: lock_acquire_def)
qed

definition pinned_lock :: "nat \<Rightarrow> lock_obs" where
  "pinned_lock k = \<lparr>lo_open = OpenExists, lo_written = False, lo_mtime = Some 0, lo_now = 20000000000 + int k\<rparr>"

theorem unremovable_stale_lock_spins_witness:
  "(\<forall>k. lo_open (pinned_lock k) \<in> {OpenExists, OpenDenied} \<and> lock_stale (pinned_lock k)) \<and>
   lock_acquire 1000000 20000000000 pinned_lock = None"
proof -
  have "\<forall>k. lo_open (pinned_lock k) \<in> {OpenExists, OpenDenied} \<and> lock_stale (pinned_lock k)"
    by (simp add: pinned_lock_def lock_stale_def lock_staleness_def)
  then show ?thesis using unremovable_stale_lock_spins by blast
qed

subsection \<open>Commits are serialised\<close>

text \<open>A process is outside, or inside with its token and what it has read.  An operation reads the store
  once, checks the lock and replaces the store by what it computed; \<open>hist\<close> records the functions
  committed.\<close>

datatype 'v phase = Outside | Inside string "'v option"

record 'v lock_sys =
  lock_file :: "string option"
  store :: 'v
  phases :: "nat \<Rightarrow> 'v phase"
  minted :: "string list"
  hist :: "('v \<Rightarrow> 'v) list"

inductive lock_step :: "'v lock_sys \<Rightarrow> 'v lock_sys \<Rightarrow> bool" where
  enter: "phases y p = Outside \<Longrightarrow> lock_file y = None \<Longrightarrow> t \<notin> set (minted y) \<Longrightarrow> t \<noteq> [] \<Longrightarrow>
     lock_step y (y\<lparr>lock_file := Some t, minted := t # minted y, phases := (phases y)(p := Inside t None)\<rparr>)"
| steal: "lock_step y (y\<lparr>lock_file := None\<rparr>)"
| look: "phases y p = Inside t v \<Longrightarrow> lock_step y (y\<lparr>phases := (phases y)(p := Inside t (Some (store y)))\<rparr>)"
| commit: "phases y p = Inside t (Some v) \<Longrightarrow> stillHeld ok t (lock_file y) \<Longrightarrow>
     lock_step y (y\<lparr>store := f v, hist := hist y @ [f], phases := (phases y)(p := Inside t None)\<rparr>)"
| leave: "phases y p = Inside t v \<Longrightarrow>
     lock_step y (y\<lparr>lock_file := lock_release ok t (lock_file y), phases := (phases y)(p := Outside)\<rparr>)"
| crash: "lock_step y (y\<lparr>phases := (phases y)(p := Outside)\<rparr>)"

inductive lock_reach :: "'v lock_sys \<Rightarrow> 'v lock_sys \<Rightarrow> bool" for y0 where
  stay: "lock_reach y0 y0"
| go: "lock_reach y0 y \<Longrightarrow> lock_step y y' \<Longrightarrow> lock_reach y0 y'"

definition idle_sys :: "'v \<Rightarrow> 'v lock_sys" where
  "idle_sys v = \<lparr>lock_file = None, store = v, phases = (\<lambda>_. Outside), minted = [], hist = []\<rparr>"

text \<open>Tokens are never reused, so a process that finds its own token has held the lock all along, and
  what it read is what is stored.\<close>

definition lock_inv :: "'v \<Rightarrow> 'v lock_sys \<Rightarrow> bool" where
  "lock_inv v0 y =
     ((\<forall>t. lock_file y = Some t \<longrightarrow> t \<in> set (minted y)) \<and>
      (\<forall>p t v. phases y p = Inside t v \<longrightarrow> t \<in> set (minted y)) \<and>
      (\<forall>p q t v w. phases y p = Inside t v \<longrightarrow> phases y q = Inside t w \<longrightarrow> p = q) \<and>
      (\<forall>p t v. phases y p = Inside t (Some v) \<longrightarrow> lock_file y = Some t \<longrightarrow> v = store y) \<and>
      store y = fold (\<lambda>f. f) (hist y) v0)"

lemma lock_inv_step: "lock_step y y' \<Longrightarrow> lock_inv v0 y \<Longrightarrow> lock_inv v0 y'"
proof (induction rule: lock_step.induct)
  case (enter y p t)
  then show ?case unfolding lock_inv_def by (auto split: if_splits)
next
  case (commit y p t v ok f)
  have v: "v = store y" "lock_file y = Some t" using commit by (auto simp: lock_inv_def stillHeld_def)
  have q: "phases y q \<noteq> Inside t w" if "q \<noteq> p" for q w using commit(1,3) that unfolding lock_inv_def by blast
  show ?case using commit(3) v q unfolding lock_inv_def by (auto split: if_splits)
qed (unfold lock_inv_def lock_release_def, auto split: if_splits)



end
