(* ===== verification/EventChain.thy ===== *)
theory EventChain
  imports Checkpoint Persisted
begin

text \<open>
  Events of the bus as they are stored (\<^verbatim>\<open>src/pubsub/pubsub.go\<close>, \<^verbatim>\<open>src/pubsub/eventlog.go\<close>): the event with its JSON
  text, the hash chain over a stream, the log with its signed checkpoints, and loading.

  A payload is a JSON value rather than its raw text: the text kept is the compact one.
\<close>

subsection \<open>Events\<close>

record event =
  ev_Topic :: string
  ev_Seq :: nat
  ev_Time :: string
  ev_Publisher :: string
  ev_PubFQDN :: string
  ev_Labels :: "string list"
  ev_Enc :: string
  ev_Origin :: string
  ev_ReplyTo :: string
  ev_Corr :: string
  ev_Retain :: bool
  ev_RetainDel :: bool
  ev_ExpiresAt :: string
  ev_Payload :: "json option"
  ev_PrevHash :: string
  ev_Hash :: string

definition zero_event :: event where
  "zero_event = \<lparr>ev_Topic = [], ev_Seq = 0, ev_Time = [], ev_Publisher = [], ev_PubFQDN = [], ev_Labels = [], ev_Enc = [], ev_Origin = [],
     ev_ReplyTo = [], ev_Corr = [], ev_Retain = False, ev_RetainDel = False, ev_ExpiresAt = [], ev_Payload = None, ev_PrevHash = [],
     ev_Hash = []\<rparr>"

definition opt_true :: "string \<Rightarrow> bool \<Rightarrow> (string \<times> json) list" where
  "opt_true k b = (if b then [(k, JBool True)] else [])"

definition opt_raw :: "string \<Rightarrow> json option \<Rightarrow> (string \<times> json) list" where
  "opt_raw k v = (case v of None \<Rightarrow> [] | Some j \<Rightarrow> [(k, j)])"

definition set_bool :: "(bool \<Rightarrow> 'r \<Rightarrow> 'r) \<Rightarrow> json \<Rightarrow> 'r \<Rightarrow> 'r option" where
  "set_bool f v r = (case v of JBool b \<Rightarrow> Some (f b r) | JNull \<Rightarrow> Some r | _ \<Rightarrow> None)"

definition set_raw :: "(json option \<Rightarrow> 'r \<Rightarrow> 'r) \<Rightarrow> json \<Rightarrow> 'r \<Rightarrow> 'r option" where
  "set_raw f v r = Some (f (Some v) r)"

definition ev_members :: "event \<Rightarrow> (string \<times> json) list" where
  "ev_members e =
     str_field ''topic'' (ev_Topic e) @ nat_field ''seq'' (ev_Seq e) @ opt_str ''time'' (ev_Time e) @
     opt_str ''publisher'' (ev_Publisher e) @ opt_str ''publisher_fqdn'' (ev_PubFQDN e) @ opt_strs ''labels'' (ev_Labels e) @
     opt_str ''enc'' (ev_Enc e) @ opt_str ''origin'' (ev_Origin e) @ opt_str ''reply_to'' (ev_ReplyTo e) @ opt_str ''corr'' (ev_Corr e) @
     opt_true ''retain'' (ev_Retain e) @ opt_true ''retain_del'' (ev_RetainDel e) @ opt_str ''expires_at'' (ev_ExpiresAt e) @
     opt_raw ''payload'' (ev_Payload e) @ str_field ''prev_hash'' (ev_PrevHash e) @ opt_str ''hash'' (ev_Hash e)"

definition ev_marshal :: "event \<Rightarrow> bytes" where
  "ev_marshal e = json_print (JObj (ev_members e))"

definition ev_fields :: "event field_table" where
  "ev_fields =
     [(''topic'', set_str (\<lambda>s e. e\<lparr>ev_Topic := s\<rparr>)), (''seq'', set_nat (\<lambda>n e. e\<lparr>ev_Seq := n\<rparr>)),
      (''time'', set_str (\<lambda>s e. e\<lparr>ev_Time := s\<rparr>)), (''publisher'', set_str (\<lambda>s e. e\<lparr>ev_Publisher := s\<rparr>)),
      (''publisher_fqdn'', set_str (\<lambda>s e. e\<lparr>ev_PubFQDN := s\<rparr>)), (''labels'', set_strs (\<lambda>ss e. e\<lparr>ev_Labels := ss\<rparr>)),
      (''enc'', set_str (\<lambda>s e. e\<lparr>ev_Enc := s\<rparr>)), (''origin'', set_str (\<lambda>s e. e\<lparr>ev_Origin := s\<rparr>)),
      (''reply_to'', set_str (\<lambda>s e. e\<lparr>ev_ReplyTo := s\<rparr>)), (''corr'', set_str (\<lambda>s e. e\<lparr>ev_Corr := s\<rparr>)),
      (''retain'', set_bool (\<lambda>b e. e\<lparr>ev_Retain := b\<rparr>)), (''retain_del'', set_bool (\<lambda>b e. e\<lparr>ev_RetainDel := b\<rparr>)),
      (''expires_at'', set_str (\<lambda>s e. e\<lparr>ev_ExpiresAt := s\<rparr>)), (''payload'', set_raw (\<lambda>v e. e\<lparr>ev_Payload := v\<rparr>)),
      (''prev_hash'', set_str (\<lambda>s e. e\<lparr>ev_PrevHash := s\<rparr>)), (''hash'', set_str (\<lambda>s e. e\<lparr>ev_Hash := s\<rparr>))]"

definition ev_unmarshal :: "bytes \<Rightarrow> event option" where
  "ev_unmarshal b = unmarshal_struct ev_fields zero_event b"

definition ev_chainHash :: "crypto \<Rightarrow> event \<Rightarrow> string" where
  "ev_chainHash cr e = hash_hex cr (ev_marshal (e\<lparr>ev_Hash := []\<rparr>))"

subsection \<open>The chain\<close>

datatype ev_break = SeqNotGreater nat | NotChained nat | HashWrong nat

fun verify_events :: "crypto \<Rightarrow> nat \<Rightarrow> string \<Rightarrow> nat \<Rightarrow> event list \<Rightarrow> ev_break option" where
  "verify_events cr i prev lastSeq [] = None"
| "verify_events cr i prev lastSeq (e # es) =
     (if 0 < i \<and> ev_Seq e \<le> lastSeq then Some (SeqNotGreater i)
      else if ev_PrevHash e \<noteq> prev then Some (NotChained i)
      else if ev_chainHash cr e \<noteq> ev_Hash e then Some (HashWrong i)
      else verify_events cr (Suc i) (ev_Hash e) (ev_Seq e) es)"

definition ev_VerifyChain :: "crypto \<Rightarrow> event list \<Rightarrow> ev_break option" where
  "ev_VerifyChain cr es = verify_events cr 0 [] 0 es"

subsection \<open>The log\<close>

record event_log =
  el_w :: bytes
  el_cp :: "checkpointer option"
  el_lastSeq :: nat
  el_lastHash :: string

definition NewEventLog :: "bytes \<Rightarrow> event_log" where
  "NewEventLog w = \<lparr>el_w = w, el_cp = None, el_lastSeq = 0, el_lastHash = []\<rparr>"

definition WithCheckpointer :: "checkpointer \<Rightarrow> event_log \<Rightarrow> event_log" where
  "WithCheckpointer c l = l\<lparr>el_cp := Some c\<rparr>"

text \<open>An append; \<open>fault\<close> is the number of bytes that reached the file when the write fails.  \<^verbatim>\<open>int(ev.Seq)\<close> converts
  an unsigned to a signed number.\<close>

definition el_append :: "crypto \<Rightarrow> write_fault \<Rightarrow> flush_env \<Rightarrow> event \<Rightarrow> event_log \<Rightarrow> event_log" where
  "el_append cr fault fe e l =
     (let b = ev_marshal e @ newline in
      case fault of
        Some k \<Rightarrow> l\<lparr>el_w := el_w l @ take k b\<rparr>
      | None \<Rightarrow>
          (let l = l\<lparr>el_w := el_w l @ b, el_lastSeq := ev_Seq e, el_lastHash := ev_Hash e\<rparr> in
           case el_cp l of
             None \<Rightarrow> l
           | Some c \<Rightarrow> l\<lparr>el_cp := Some (cp_add cr fe (wrap64 (int (ev_Seq e))) (ev_Hash e) c)\<rparr>))"

definition el_Flush :: "crypto \<Rightarrow> flush_env \<Rightarrow> event_log \<Rightarrow> event_log" where
  "el_Flush cr fe l =
     (case el_cp l of
        None \<Rightarrow> l
      | Some c \<Rightarrow> l\<lparr>el_cp := Some (cp_Flush cr fe (wrap64 (int (el_lastSeq l))) (el_lastHash l) c)\<rparr>)"

text \<open>The scanner drops a carriage return at the end of a line.\<close>

definition strip_cr :: "bytes \<Rightarrow> bytes" where
  "strip_cr l = (if l \<noteq> [] \<and> last l = CHR 0x0D then butlast l else l)"

datatype load_err = Unparseable | ScanFailed | ChainBrokenAt ev_break

fun load_lines :: "bytes list \<Rightarrow> bool \<Rightarrow> event list \<Rightarrow> load_err + event list" where
  "load_lines [] sawBad es = Inr es"
| "load_lines (l # ls) sawBad es =
     (if l = [] then load_lines ls sawBad es
      else case ev_unmarshal l of
        None \<Rightarrow> load_lines ls True es
      | Some e \<Rightarrow> (if sawBad then Inl Unparseable else load_lines ls sawBad (es @ [e])))"

definition LoadEvents :: "crypto \<Rightarrow> bytes \<Rightarrow> load_err + event list" where
  "LoadEvents cr r =
     (case scan_lines r of (ls, err) \<Rightarrow>
        (case load_lines (map strip_cr ls) False [] of
           Inl e \<Rightarrow> Inl e
         | Inr es \<Rightarrow>
             (if err then Inl ScanFailed
              else case ev_VerifyChain cr es of Some b \<Rightarrow> Inl (ChainBrokenAt b) | None \<Rightarrow> Inr es)))"
subsection \<open>Checkpoints over a stream\<close>

datatype ev_cp_err = BadEventHash nat | NotJSON | BadSignature cp_error | NotLinked | Gap | Implausible | MissingEvent int | RootDiffers | ScanErr

fun hash_by_seq :: "event list \<Rightarrow> (int \<rightharpoonup> bytes) \<Rightarrow> nat + (int \<rightharpoonup> bytes)" where
  "hash_by_seq [] m = Inr m"
| "hash_by_seq (e # es) m =
     (case hex_decode (ev_Hash e) of None \<Rightarrow> Inl (ev_Seq e) | Some raw \<Rightarrow> hash_by_seq es (m(wrap64 (int (ev_Seq e)) \<mapsto> raw)))"

definition ev_cp_fault :: "crypto \<Rightarrow> string \<Rightarrow> nat \<Rightarrow> (int \<rightharpoonup> bytes) \<Rightarrow> string \<Rightarrow> int \<Rightarrow> checkpoint \<Rightarrow> ev_cp_err option" where
  "ev_cp_fault cr expectPub n hashBySeq prevCP prevTo cp =
     (case VerifyCheckpoint cr cp expectPub of
        Some e \<Rightarrow> Some (BadSignature e)
      | None \<Rightarrow>
          (if PrevCP cp \<noteq> prevCP then Some NotLinked
           else if FromSeq cp \<noteq> wrap64 (prevTo + 1) then Some Gap
           else if ToSeq cp < FromSeq cp \<or> int n < wrap64 (ToSeq cp - FromSeq cp + 1) then Some Implausible
           else case List.find (\<lambda>s. hashBySeq s = None) [FromSeq cp..ToSeq cp] of
             Some s \<Rightarrow> Some (MissingEvent s)
           | None \<Rightarrow>
               (if hex_encode (MerkleRoot cr (map (\<lambda>s. the (hashBySeq s)) [FromSeq cp..ToSeq cp])) \<noteq> CRoot cp then Some RootDiffers
                else None)))"

fun verify_ev_cps ::
  "crypto \<Rightarrow> string \<Rightarrow> nat \<Rightarrow> (int \<rightharpoonup> bytes) \<Rightarrow> bytes list \<Rightarrow> string \<Rightarrow> int \<Rightarrow> nat \<Rightarrow> nat \<times> ev_cp_err option" where
  "verify_ev_cps cr expectPub len hs [] prevCP prevTo n = (n, None)"
| "verify_ev_cps cr expectPub len hs (l # ls) prevCP prevTo n =
     (if trim_space l = [] then verify_ev_cps cr expectPub len hs ls prevCP prevTo n
      else case cp_unmarshal (trim_space l) of
        None \<Rightarrow> (n, Some NotJSON)
      | Some cp \<Rightarrow>
          (case ev_cp_fault cr expectPub len hs prevCP prevTo cp of
             Some e \<Rightarrow> (Suc n, Some e)
           | None \<Rightarrow> verify_ev_cps cr expectPub len hs ls (cp_Hash cr cp) (ToSeq cp) (Suc n)))"

definition VerifyCheckpoints :: "crypto \<Rightarrow> event list \<Rightarrow> bytes \<Rightarrow> string \<Rightarrow> nat \<times> ev_cp_err option" where
  "VerifyCheckpoints cr es checkpointR expectPub =
     (case hash_by_seq es Map.empty of
        Inl s \<Rightarrow> (0, Some (BadEventHash s))
      | Inr hs \<Rightarrow>
          (case scan_lines checkpointR of (ls, err) \<Rightarrow>
             (case verify_ev_cps cr expectPub (length es) hs ls [] 0 0 of
                (n, Some e) \<Rightarrow> (n, Some e)
              | (n, None) \<Rightarrow> (n, if err then Some ScanErr else None))))"

subsection \<open>Events survive printing\<close>

text \<open>Every string is valid UTF-8, the sequence number fits, and the payload is a value whose numbers are
  integers and whose nesting leaves room for the event around it.\<close>

definition payload_ok :: "json option \<Rightarrow> bool" where
  "payload_ok v = (case v of None \<Rightarrow> True | Some j \<Rightarrow> ints_only j \<and> valid_json j \<and> json_depth j < maxNestingDepth)"

definition ev_ok :: "event \<Rightarrow> bool" where
  "ev_ok e \<longleftrightarrow> list_all valid_utf8 [ev_Topic e, ev_Time e, ev_Publisher e, ev_PubFQDN e, ev_Enc e, ev_Origin e, ev_ReplyTo e, ev_Corr e,
       ev_ExpiresAt e, ev_PrevHash e, ev_Hash e] \<and>
     list_all valid_utf8 (ev_Labels e) \<and> ev_Seq e < 2 ^ 64 \<and> payload_ok (ev_Payload e)"

lemma ev_names:
  "fold_name ''topic'' = ''topic''" "fold_name ''time'' = ''time''" "fold_name ''publisher'' = ''publisher''"
  "fold_name ''publisher_fqdn'' = ''publisher_fqdn''" "fold_name ''labels'' = ''labels''" "fold_name ''enc'' = ''enc''"
  "fold_name ''origin'' = ''origin''" "fold_name ''reply_to'' = ''reply_to''" "fold_name ''corr'' = ''corr''"
  "fold_name ''retain'' = ''retain''" "fold_name ''retain_del'' = ''retain_del''" "fold_name ''expires_at'' = ''expires_at''"
  "fold_name ''prev_hash'' = ''prev_hash''" "fold_name ''hash'' = ''hash''"
  by code_simp+

lemmas ev_decode_simps = ev_names ps_names(15,16) str_field_def opt_str_def opt_strs_def nat_field_def opt_true_def opt_raw_def
  set_str_def set_strs_def set_nat_def set_bool_def set_raw_def str_elems_map

lemma ev_decode_str:
  "decode_fields ev_fields (str_field ''topic'' s) e = Some (e\<lparr>ev_Topic := s\<rparr>)"
  "decode_fields ev_fields (str_field ''prev_hash'' s) e = Some (e\<lparr>ev_PrevHash := s\<rparr>)"
  "n < 2 ^ 64 \<Longrightarrow> decode_fields ev_fields (nat_field ''seq'' n) e = Some (e\<lparr>ev_Seq := n\<rparr>)"
  "ev_Time e = [] \<Longrightarrow> decode_fields ev_fields (opt_str ''time'' s) e = Some (e\<lparr>ev_Time := s\<rparr>)"
  "ev_Publisher e = [] \<Longrightarrow> decode_fields ev_fields (opt_str ''publisher'' s) e = Some (e\<lparr>ev_Publisher := s\<rparr>)"
  "ev_PubFQDN e = [] \<Longrightarrow> decode_fields ev_fields (opt_str ''publisher_fqdn'' s) e = Some (e\<lparr>ev_PubFQDN := s\<rparr>)"
  "ev_Labels e = [] \<Longrightarrow> decode_fields ev_fields (opt_strs ''labels'' ss) e = Some (e\<lparr>ev_Labels := ss\<rparr>)"
  "ev_Enc e = [] \<Longrightarrow> decode_fields ev_fields (opt_str ''enc'' s) e = Some (e\<lparr>ev_Enc := s\<rparr>)"
  "ev_Origin e = [] \<Longrightarrow> decode_fields ev_fields (opt_str ''origin'' s) e = Some (e\<lparr>ev_Origin := s\<rparr>)"
  "ev_ReplyTo e = [] \<Longrightarrow> decode_fields ev_fields (opt_str ''reply_to'' s) e = Some (e\<lparr>ev_ReplyTo := s\<rparr>)"
  "ev_Corr e = [] \<Longrightarrow> decode_fields ev_fields (opt_str ''corr'' s) e = Some (e\<lparr>ev_Corr := s\<rparr>)"
  "\<not> ev_Retain e \<Longrightarrow> decode_fields ev_fields (opt_true ''retain'' b) e = Some (e\<lparr>ev_Retain := b\<rparr>)"
  "\<not> ev_RetainDel e \<Longrightarrow> decode_fields ev_fields (opt_true ''retain_del'' b) e = Some (e\<lparr>ev_RetainDel := b\<rparr>)"
  "ev_ExpiresAt e = [] \<Longrightarrow> decode_fields ev_fields (opt_str ''expires_at'' s) e = Some (e\<lparr>ev_ExpiresAt := s\<rparr>)"
  "ev_Payload e = None \<Longrightarrow> decode_fields ev_fields (opt_raw ''payload'' v) e = Some (e\<lparr>ev_Payload := v\<rparr>)"
  "ev_Hash e = [] \<Longrightarrow> decode_fields ev_fields (opt_str ''hash'' s) e = Some (e\<lparr>ev_Hash := s\<rparr>)"
  by (simp_all add: ev_fields_def ev_decode_simps split: option.split)

lemma ev_decode_members: "ev_Seq e < 2 ^ 64 \<Longrightarrow> decode_fields ev_fields (ev_members e) zero_event = Some e"
  unfolding ev_members_def decode_append by (simp add: ev_decode_str zero_event_def)

lemma ev_json_shape:
  assumes "payload_ok (ev_Payload e)"
  shows "ints_only (JObj (ev_members e))" "json_depth (JObj (ev_members e)) \<le> maxNestingDepth"
proof -
  have i: "list_all (\<lambda>(k, v). ints_only v) (nat_field k n @ opt_true k b @ opt_raw k' (ev_Payload e))" for k n b k'
    using assms by (auto simp: nat_field_def opt_true_def opt_raw_def payload_ok_def split: option.splits)
  show "ints_only (JObj (ev_members e))" using i by (simp add: ev_members_def)
  have le: "list_all (\<lambda>(k, v). json_depth v \<le> maxNestingDepth - 1) ms" if "list_all (\<lambda>(k, v). json_depth v \<le> Suc 0) ms" for ms :: "(string \<times> json) list"
    using that by (auto simp: list_all_iff maxNestingDepth_def)
  have d: "list_all (\<lambda>(k, v). json_depth v \<le> maxNestingDepth - 1) (nat_field k n @ opt_true k b @ opt_raw k' (ev_Payload e))" for k n b k'
    using assms by (auto simp: nat_field_def opt_true_def opt_raw_def payload_ok_def split: option.splits)
  have "list_all (\<lambda>(k, v). json_depth v \<le> maxNestingDepth - 1) (ev_members e)" using d depth_field [THEN le] by (simp add: ev_members_def)
  then have "foldr max (map (\<lambda>(k, v). json_depth v) (ev_members e)) 0 \<le> maxNestingDepth - 1"
    using foldr_max_le [of "map (\<lambda>(k, v). json_depth v) (ev_members e)" "maxNestingDepth - 1"] by (auto simp: list_all_iff)
  then show "json_depth (JObj (ev_members e)) \<le> maxNestingDepth" by (simp add: maxNestingDepth_def)
qed

lemma ev_members_valid: "ev_ok e \<Longrightarrow> members_valid (ev_members e)"
proof -
  assume e: "ev_ok e"
  have "valid_utf8 k \<Longrightarrow> members_valid (nat_field k n)" "valid_utf8 k \<Longrightarrow> members_valid (opt_true k b)" for k n b
    by (simp_all add: nat_field_def opt_true_def)
  moreover have "valid_utf8 k \<Longrightarrow> members_valid (opt_raw k (ev_Payload e))" for k
    using e by (auto simp: ev_ok_def opt_raw_def payload_ok_def split: option.splits)
  ultimately show ?thesis using e by (simp add: ev_members_def ev_ok_def valid_ascii)
qed

lemma ev_roundtrip: "ev_ok e \<Longrightarrow> ev_unmarshal (ev_marshal e) = Some e"
proof -
  assume e: "ev_ok e"
  then have p: "payload_ok (ev_Payload e)" and n: "ev_Seq e < 2 ^ 64" by (simp_all add: ev_ok_def)
  have "json_parse (ev_marshal e) = Some (JObj (ev_members e))"
    using ev_json_shape [OF p] ev_members_valid [OF e] by (simp add: ev_marshal_def json_roundtrip)
  then show ?thesis using ev_decode_members [OF n] by (simp add: ev_unmarshal_def unmarshal_struct_def)
qed

lemma ev_marshal_inj: "ev_ok e \<Longrightarrow> ev_ok e' \<Longrightarrow> ev_marshal e = ev_marshal e' \<Longrightarrow> e = e'"
  by (metis ev_roundtrip option.inject)

lemma ev_line:
  assumes "payload_ok (ev_Payload e)"
  shows "one_line (ev_marshal e)" "ev_marshal e \<noteq> []" "strip_cr (ev_marshal e) = ev_marshal e"
proof -
  show "one_line (ev_marshal e)" using json_print_no_newline [OF ev_json_shape(1) [OF assms]] by (simp add: ev_marshal_def)
  show ne: "ev_marshal e \<noteq> []" by (simp add: ev_marshal_def print_obj_ne)
  have "trim_space (ev_marshal e) = ev_marshal e" by (simp add: ev_marshal_def trim_print_obj)
  have "last (ev_marshal e) = CHR ''}''" by (simp add: ev_marshal_def json_print_def tok_text_def)
  then show "strip_cr (ev_marshal e) = ev_marshal e" by (simp add: strip_cr_def)
qed

subsection \<open>What an intact stream is\<close>

fun ev_linked :: "crypto \<Rightarrow> nat option \<Rightarrow> string \<Rightarrow> event list \<Rightarrow> bool" where
  "ev_linked cr lo prev [] = True"
| "ev_linked cr lo prev (e # es) =
     ((\<forall>n. lo = Some n \<longrightarrow> n < ev_Seq e) \<and> ev_PrevHash e = prev \<and> ev_Hash e = ev_chainHash cr e \<and>
      ev_linked cr (Some (ev_Seq e)) (ev_Hash e) es)"

definition ev_head :: "string \<Rightarrow> event list \<Rightarrow> string" where
  "ev_head prev es = (if es = [] then prev else ev_Hash (last es))"

definition ev_top :: "nat option \<Rightarrow> event list \<Rightarrow> nat option" where
  "ev_top lo es = (if es = [] then lo else Some (ev_Seq (last es)))"

lemma ev_head_simps [simp]: "ev_head prev [] = prev" "ev_head prev (e # es) = ev_head (ev_Hash e) es" "ev_head prev (es @ [e]) = ev_Hash e"
  by (simp_all add: ev_head_def)

lemma ev_top_simps [simp]: "ev_top lo [] = lo" "ev_top lo (e # es) = ev_top (Some (ev_Seq e)) es" "ev_top lo (es @ [e]) = Some (ev_Seq e)"
  by (simp_all add: ev_top_def)

lemma verify_events_None:
  "verify_events cr i prev n es = None \<longleftrightarrow> ev_linked cr (if i = 0 then None else Some n) prev es"
  by (induction es arbitrary: i prev n) (auto simp: not_le)

lemma ev_VerifyChain_None: "ev_VerifyChain cr es = None \<longleftrightarrow> ev_linked cr None [] es"
  by (simp add: ev_VerifyChain_def verify_events_None)

lemma ev_linked_append:
  "ev_linked cr lo prev (es @ fs) \<longleftrightarrow> ev_linked cr lo prev es \<and> ev_linked cr (ev_top lo es) (ev_head prev es) fs"
  by (induction es arbitrary: lo prev) auto

lemma ev_linked_snoc:
  "ev_linked cr lo prev (es @ [e]) \<longleftrightarrow> ev_linked cr lo prev es \<and> (\<forall>n. ev_top lo es = Some n \<longrightarrow> n < ev_Seq e) \<and>
     ev_PrevHash e = ev_head prev es \<and> ev_Hash e = ev_chainHash cr e"
  by (simp add: ev_linked_append)

lemma ev_linked_sorted: "ev_linked cr lo prev es \<Longrightarrow> sorted_wrt (<) (map ev_Seq es) \<and> (\<forall>n. lo = Some n \<longrightarrow> (\<forall>e\<in>set es. n < ev_Seq e))"
proof (induction es arbitrary: lo prev)
  case (Cons e es)
  then have "sorted_wrt (<) (map ev_Seq es)" "\<forall>f\<in>set es. ev_Seq e < ev_Seq f" by auto
  then show ?case using Cons.prems by auto
qed simp

definition ev_texts :: "event list \<Rightarrow> bytes set" where
  "ev_texts es = (\<lambda>e. ev_marshal (e\<lparr>ev_Hash := []\<rparr>)) ` set es"

lemma hex_encode_Nil_iff: "hex_encode b = [] \<longleftrightarrow> b = []"
  by (cases b) simp_all

text \<open>The head of a stream determines it: two streams that verify and end in the same hash are the same stream,
  when the hash function does not collide on the texts hashed in them.\<close>

lemma stream_head_determines:
  assumes "ev_VerifyChain cr es = None" "ev_VerifyChain cr fs = None" "list_all ev_ok es" "list_all ev_ok fs"
    and "inj_on (sha256 cr) (ev_texts es \<union> ev_texts fs)" "\<forall>b. sha256 cr b \<noteq> []"
    and "es \<noteq> []" "fs \<noteq> []" "ev_Hash (last es) = ev_Hash (last fs)"
  shows "es = fs"
  using assms(1-5,7-9)
proof (induction es arbitrary: fs rule: rev_induct)
  case (snoc e es)
  obtain f gs where f: "fs = gs @ [f]" using snoc.prems(7) by (cases fs rule: rev_cases) auto
  have E: "ev_linked cr None [] es" "ev_PrevHash e = ev_head [] es" "ev_Hash e = ev_chainHash cr e"
    and F: "ev_linked cr None [] gs" "ev_PrevHash f = ev_head [] gs" "ev_Hash f = ev_chainHash cr f"
    using snoc.prems(1,2) by (simp_all add: f ev_VerifyChain_None ev_linked_snoc)
  have h: "ev_Hash e = ev_Hash f" using snoc.prems(8) by (simp add: f)
  have "sha256 cr (ev_marshal (e\<lparr>ev_Hash := []\<rparr>)) = sha256 cr (ev_marshal (f\<lparr>ev_Hash := []\<rparr>))"
    using h E(3) F(3) by (simp add: ev_chainHash_def hash_hex_inj)
  then have m: "ev_marshal (e\<lparr>ev_Hash := []\<rparr>) = ev_marshal (f\<lparr>ev_Hash := []\<rparr>)"
    by (rule inj_onD [OF snoc.prems(5)]) (simp_all add: f ev_texts_def)
  have "ev_ok (e\<lparr>ev_Hash := []\<rparr>)" "ev_ok (f\<lparr>ev_Hash := []\<rparr>)" using snoc.prems(3,4) by (simp_all add: f ev_ok_def valid_ascii)
  then have "e\<lparr>ev_Hash := []\<rparr> = f\<lparr>ev_Hash := []\<rparr>" using m by (rule ev_marshal_inj)
  then have "(e\<lparr>ev_Hash := []\<rparr>)\<lparr>ev_Hash := ev_Hash e\<rparr> = (f\<lparr>ev_Hash := []\<rparr>)\<lparr>ev_Hash := ev_Hash f\<rparr>" by (simp only: h)
  then have ef: "e = f" by simp
  have ne: "ev_Hash x \<noteq> []" if "x \<in> set es \<or> x \<in> set gs" for x
  proof -
    have "ev_Hash x = ev_chainHash cr x" if "ev_linked cr lo p xs" "x \<in> set xs" for lo p xs
      using that by (induction xs arbitrary: lo p) auto
    then have "ev_Hash x = ev_chainHash cr x" using that E(1) F(1) by blast
    then show ?thesis using assms(6) by (simp add: ev_chainHash_def hash_hex_def hex_encode_Nil_iff)
  qed
  have hd: "ev_head [] es = ev_head [] gs" using E(2) F(2) ef by simp
  then have "es = [] \<longleftrightarrow> gs = []" using ne by (metis ev_head_def last_in_set)
  then have "es = gs"
  proof (cases "es = []")
    case False
    then have "gs \<noteq> []" using \<open>es = [] \<longleftrightarrow> gs = []\<close> by simp
    moreover have "inj_on (sha256 cr) (ev_texts es \<union> ev_texts gs)"
      using snoc.prems(5) by (rule inj_on_subset) (auto simp: f ev_texts_def)
    ultimately show ?thesis
      using snoc.IH [of gs] snoc.prems(3,4) E(1) F(1) hd False by (simp add: f ev_VerifyChain_None ev_head_def)
  qed simp
  then show ?case using ef by (simp add: f)
qed simp

subsection \<open>Loading what was appended\<close>

definition ev_text :: "event list \<Rightarrow> bytes" where
  "ev_text es = file_of (map ev_marshal es)"

definition ev_fits :: "event \<Rightarrow> bool" where
  "ev_fits e = (ev_ok e \<and> length (ev_marshal e) < max_token)"

lemma ev_text_simps [simp]: "ev_text [] = []" "ev_text (es @ fs) = ev_text es @ ev_text fs" "ev_text [e] = ev_marshal e @ newline"
  by (simp_all add: ev_text_def)

lemma load_lines_events: "list_all ev_ok es \<Longrightarrow> load_lines (map ev_marshal es @ ls) False fs = load_lines ls False (fs @ es)"
proof (induction es arbitrary: fs)
  case (Cons e es)
  then have "ev_unmarshal (ev_marshal e) = Some e" "ev_marshal e \<noteq> []" using ev_line(2) by (auto simp: ev_roundtrip ev_ok_def)
  then show ?case using Cons by simp
qed simp

lemma strip_events: "list_all ev_ok es \<Longrightarrow> map (strip_cr \<circ> ev_marshal) es = map ev_marshal es"
  by (induction es) (simp_all add: ev_line(3) ev_ok_def)

lemma scan_events:
  assumes "list_all ev_fits es" "one_line t" "length t < max_token"
  shows "scan_lines (ev_text es @ t) = (map ev_marshal es @ (if t = [] then [] else [t]), False)"
proof -
  have "list_all one_line (map ev_marshal es)" using assms(1) ev_line(1) by (auto simp: list_all_iff ev_fits_def ev_ok_def)
  moreover have "raw_lines t = (if t = [] then [] else [t])" using assms(2) by (subst raw_lines.simps) (simp add: cut_at_None [THEN iffD2])
  ultimately have r: "raw_lines (ev_text es @ t) = map ev_marshal es @ (if t = [] then [] else [t])" by (simp add: ev_text_def raw_lines_file)
  have "\<forall>l\<in>set (map ev_marshal es @ (if t = [] then [] else [t])). length l < max_token"
    using assms(1,3) by (auto simp: list_all_iff ev_fits_def)
  then show ?thesis unfolding scan_lines_def r by (auto simp: takeWhile_eq_all_conv not_le [symmetric] simp del: map_append)
qed

lemma fits_ok: "list_all ev_fits es \<Longrightarrow> list_all ev_ok es"
  by (auto simp: list_all_iff ev_fits_def)

lemma LoadEvents_scanned:
  assumes "scan_lines d = (map ev_marshal es @ ls, False)" "list_all ev_ok es"
  shows "LoadEvents cr d =
    (case load_lines (map strip_cr ls) False es of
       Inl e \<Rightarrow> Inl e
     | Inr es \<Rightarrow> (case ev_VerifyChain cr es of Some b \<Rightarrow> Inl (ChainBrokenAt b) | None \<Rightarrow> Inr es))"
proof -
  have "load_lines (map strip_cr (map ev_marshal es @ ls)) False [] = load_lines (map strip_cr ls) False es"
    unfolding map_append map_map strip_events [OF assms(2)] using load_lines_events [OF assms(2), of "map strip_cr ls" "[]"] by simp
  then show ?thesis unfolding LoadEvents_def assms(1) prod.case by (simp cong: sum.case_cong)
qed

text \<open>A log and the torn last line a crash may leave.\<close>

lemma LoadEvents_log:
  assumes "list_all ev_fits es" "ev_VerifyChain cr es = None"
    and "one_line t" "length t < max_token" "t \<noteq> [] \<longrightarrow> strip_cr t = [] \<or> ev_unmarshal (strip_cr t) = None"
  shows "LoadEvents cr (ev_text es @ t) = Inr es"
  unfolding LoadEvents_scanned [OF scan_events [OF assms(1,3,4)] fits_ok [OF assms(1)]] using assms(2,5) by auto

subsection \<open>Appending\<close>

lemma el_append_text: "el_w (el_append cr None fe e l) = el_w l @ ev_text [e]"
  by (simp add: el_append_def Let_def split: option.split)

lemma el_append_torn: "el_w (el_append cr (Some k) fe e l) = el_w l @ take k (ev_text [e])"
  by (simp add: el_append_def Let_def)


lemma glued_event:
  assumes "payload_ok (ev_Payload e)"
  shows "ev_unmarshal (CHR ''{'' # ev_marshal e) = None"
proof -
  let ?ts = "TLBrace # json_toks (JObj (ev_members e))"
  have ts: "CHR ''{'' # ev_marshal e = concat (map tok_text ?ts)" by (simp add: ev_marshal_def json_print_def tok_text_def)
  have "lex (CHR ''{'' # ev_marshal e) = Some (map clean_tok ?ts)"
    unfolding ts using toks_ok [OF ev_json_shape(1) [OF assms]] spaced_toks [of "JObj (ev_members e)"]
    by (intro lex_text) (simp_all add: tok_ok_def)
  then show ?thesis by (simp add: ev_unmarshal_def unmarshal_struct_def json_parse_def clean_tok_def step_tok_def begin_value_def)
qed

lemma zero_event_fits: "ev_fits zero_event"
proof -
  have "ev_marshal zero_event = [CHR ''{'', CHR 0x22, CHR ''t'', CHR ''o'', CHR ''p'', CHR ''i'', CHR ''c'', CHR 0x22, CHR '':'', CHR 0x22, CHR 0x22,
     CHR '','', CHR 0x22, CHR ''s'', CHR ''e'', CHR ''q'', CHR 0x22, CHR '':'', CHR ''0'', CHR '','', CHR 0x22, CHR ''p'', CHR ''r'', CHR ''e'', CHR ''v'',
     CHR ''_'', CHR ''h'', CHR ''a'', CHR ''s'', CHR ''h'', CHR 0x22, CHR '':'', CHR 0x22, CHR 0x22, CHR ''}'']" by code_simp
  then show ?thesis by (simp add: ev_fits_def ev_ok_def zero_event_def payload_ok_def valid_ascii max_token_def)
qed


end
