(* ===== verification/EventRing.thy ===== *)
theory EventRing
  imports EventChain Frame
begin

text \<open>The retention buffer of the bus (\<^verbatim>\<open>src/pubsub/ring.go\<close>): an array used as a ring, and the list it stands for.\<close>

subsection \<open>The ring\<close>

record ring =
  r_buf :: "event list"
  r_head :: nat
  r_n :: nat
  r_cap :: nat

definition newRing :: "int \<Rightarrow> ring" where
  "newRing capacity =
     (let c = (if capacity < 0 then 0 else nat capacity) in \<lparr>r_buf = replicate c zero_event, r_head = 0, r_n = 0, r_cap = c\<rparr>)"

definition ring_add :: "event \<Rightarrow> ring \<Rightarrow> ring" where
  "ring_add e r =
     (if r_cap r = 0 then r
      else if r_n r < r_cap r then r\<lparr>r_buf := (r_buf r)[(r_head r + r_n r) mod r_cap r := e], r_n := r_n r + 1\<rparr>
      else r\<lparr>r_buf := (r_buf r)[r_head r := e], r_head := (r_head r + 1) mod r_cap r\<rparr>)"

definition ring_snapshot :: "ring \<Rightarrow> event list" where
  "ring_snapshot r = map (\<lambda>i. r_buf r ! ((r_head r + i) mod r_cap r)) [0..<r_n r]"

text \<open>The events after a sequence number, and whether the buffer no longer reaches back to it.\<close>

definition ring_since :: "nat \<Rightarrow> ring \<Rightarrow> event list \<times> bool" where
  "ring_since afterSeq r =
     (if r_n r = 0 then ([], False)
      else (filter (\<lambda>e. afterSeq < ev_Seq e) (map (\<lambda>i. r_buf r ! ((r_head r + i) mod r_cap r)) [0..<r_n r]),
            u64 (afterSeq + 1) < ev_Seq (r_buf r ! r_head r)))"

subsection \<open>A bounded buffer\<close>

lemma drop_drop_snoc:
  "drop (length (drop (length xs - k) xs @ [e]) - k) (drop (length xs - k) xs @ [e]) = drop (length (xs @ [e]) - k) (xs @ [e])"
proof (cases "k \<le> length xs")
  case True
  then show ?thesis by (cases k) (simp_all add: Suc_diff_le Suc_diff_Suc)
qed simp

text \<open>What a client of a retention buffer relies on: it holds the latest additions, oldest first, up to its capacity.\<close>

locale retention =
  fixes empty :: "int \<Rightarrow> 'b" and add :: "'e \<Rightarrow> 'b \<Rightarrow> 'b" and contents :: "'b \<Rightarrow> 'e list" and ok :: "'b \<Rightarrow> bool" and room :: "'b \<Rightarrow> nat"
  assumes empty: "ok (empty c)" "contents (empty c) = []" "room (empty c) = nat c"
    and add_ok: "ok b \<Longrightarrow> ok (add e b)"
    and add_room: "ok b \<Longrightarrow> room (add e b) = room b"
    and add_contents: "ok b \<Longrightarrow> contents (add e b) = drop (length (contents b @ [e]) - room b) (contents b @ [e])"
begin

lemma add_all_ok: "ok b \<Longrightarrow> ok (fold add es b) \<and> room (fold add es b) = room b"
  by (induction es arbitrary: b) (simp_all add: add_ok add_room)

lemma add_all:
  assumes "ok b" "length (contents b) \<le> room b"
  shows "contents (fold add es b) = drop (length (contents b @ es) - room b) (contents b @ es)"
  using assms
proof (induction es rule: rev_induct)
  case (snoc e es)
  let ?xs = "contents b @ es"
  have "contents (fold add (es @ [e]) b) = add_c" if "add_c = contents (add e (fold add es b))" for add_c using that by simp
  then have "contents (fold add (es @ [e]) b) =
      drop (length (drop (length ?xs - room b) ?xs @ [e]) - room b) (drop (length ?xs - room b) ?xs @ [e])"
    using add_contents [of "fold add es b" e] add_all_ok [OF snoc.prems(1), of es] snoc by simp
  also have "\<dots> = drop (length (?xs @ [e]) - room b) (?xs @ [e])" by (rule drop_drop_snoc)
  finally show ?case by simp
qed simp

lemma add_all_bounded: "ok b \<Longrightarrow> length (contents b) \<le> room b \<Longrightarrow> length (contents (fold add es b)) \<le> room b"
  by (simp add: add_all)

end

definition ring_ok :: "ring \<Rightarrow> bool" where
  "ring_ok r = (length (r_buf r) = r_cap r \<and> r_n r \<le> r_cap r \<and> (r_cap r = 0 \<or> r_head r < r_cap r) \<and> (r_n r < r_cap r \<longrightarrow> r_head r = 0))"

lemma length_snapshot [simp]: "length (ring_snapshot r) = r_n r"
  by (simp add: ring_snapshot_def)

lemma ring_add_contents:
  assumes "ring_ok r"
  shows "ring_snapshot (ring_add e r) = drop (length (ring_snapshot r @ [e]) - r_cap r) (ring_snapshot r @ [e])"
proof (cases "r_cap r = 0")
  case True
  then show ?thesis using assms by (simp add: ring_add_def ring_snapshot_def ring_ok_def)
next
  case False
  show ?thesis
  proof (cases "r_n r < r_cap r")
    case True
    then have h: "r_head r = 0" "length (r_buf r) = r_cap r" using assms by (simp_all add: ring_ok_def)
    have "ring_snapshot (ring_add e r) = ring_snapshot r @ [e]"
      using True False h by (intro nth_equalityI) (auto simp: ring_add_def ring_snapshot_def nth_append less_Suc_eq)
    then show ?thesis using True by simp
  next
    case full: False
    then have n: "r_n r = r_cap r" and hd: "r_head r < r_cap r" and len: "length (r_buf r) = r_cap r" using assms False by (auto simp: ring_ok_def)
    let ?c = "r_cap r" and ?h = "r_head r"
    have "ring_snapshot (ring_add e r) = tl (ring_snapshot r @ [e])"
    proof (rule nth_equalityI)
      show l: "length (ring_snapshot (ring_add e r)) = length (tl (ring_snapshot r @ [e]))" using full False n by (simp add: ring_add_def)
      fix i assume "i < length (ring_snapshot (ring_add e r))"
      then have i: "i < ?c" using full False n by (simp add: ring_add_def)
      have shift: "((?h + 1) mod ?c + i) mod ?c = (?h + Suc i) mod ?c" by (simp add: mod_add_left_eq)
      have L: "ring_snapshot (ring_add e r) ! i = (r_buf r)[?h := e] ! ((?h + Suc i) mod ?c)"
        using i full False n shift by (simp add: ring_add_def ring_snapshot_def)
      show "ring_snapshot (ring_add e r) ! i = tl (ring_snapshot r @ [e]) ! i"
      proof (cases "Suc i = ?c")
        case True
        then have "(?h + Suc i) mod ?c = ?h" using hd by simp
        then show ?thesis using L True n hd len by (simp add: nth_tl nth_append)
      next
        case False
        then have "Suc i < ?c" using i by simp
        moreover have "(?h + Suc i) mod ?c \<noteq> ?h"
          using hd \<open>Suc i < ?c\<close> by (cases "?h + Suc i < ?c") (simp_all add: le_mod_geq)
        ultimately show ?thesis using L n len by (simp add: nth_tl nth_append ring_snapshot_def)
      qed
    qed
    moreover have "ring_snapshot r \<noteq> []" using n False by (metis length_snapshot list.size(3))
    ultimately show ?thesis using n False by (simp add: drop_Suc)
  qed
qed

interpretation keep: retention newRing ring_add ring_snapshot ring_ok r_cap
proof
  show "ring_ok (newRing c)" "ring_snapshot (newRing c) = []" "r_cap (newRing c) = nat c" for c
    by (auto simp: newRing_def ring_ok_def ring_snapshot_def Let_def)
  show "ring_ok (ring_add e b)" if "ring_ok b" for e b using that by (auto simp: ring_ok_def ring_add_def)
  show "r_cap (ring_add e b) = r_cap b" for e b by (simp add: ring_add_def)
qed (rule ring_add_contents)

text \<open>Replay over the ring is replay over the list it stands for.\<close>

lemma ring_since_spec:
  "ring_ok r \<Longrightarrow> ring_since k r =
     (filter (\<lambda>e. k < ev_Seq e) (ring_snapshot r), ring_snapshot r \<noteq> [] \<and> u64 (k + 1) < ev_Seq (hd (ring_snapshot r)))"
  by (cases "r_n r") (auto simp: ring_since_def ring_snapshot_def ring_ok_def upt_rec [of 0])

end
