(* ===== verification/TopicAuth.thy ===== *)
theory TopicAuth
  imports PathGlob
begin

text \<open>
  Who may publish to and subscribe to which topic (\<^verbatim>\<open>src/pubsub/authorizer.go\<close>).  The interface
  \<^verbatim>\<open>Authorizer\<close> is the datatype of its three implementations.
\<close>

subsection \<open>Identities and decisions\<close>

record identity =
  id_Key :: string
  id_FQDN :: string
  id_Addr :: string

record pub_decision =
  pd_Allow :: bool
  pd_Reason :: string
  pd_Labels :: "string list"
  pd_Explicit :: bool

record sub_decision =
  sd_Allow :: bool
  sd_Reason :: string
  sd_Clear :: "string list"
  sd_ClearAll :: bool
  sd_Explicit :: bool

record topic_rule =
  tr_Peers :: "string list"
  tr_Topics :: "string list"
  tr_Allow :: bool
  tr_Emit :: "string list"
  tr_Taint :: bool
  tr_Clear :: "string list"
  tr_ClearTaint :: bool
  tr_ClearAll :: bool

definition emitSet :: "topic_rule \<Rightarrow> string list" where
  "emitSet r = tr_Emit r @ (if tr_Taint r then [''tainted''] else [])"

definition clearSet :: "topic_rule \<Rightarrow> string list" where
  "clearSet r = tr_Clear r @ (if tr_ClearTaint r then [''tainted''] else [])"

record rule_authorizer =
  ra_DefaultAllow :: bool
  ra_Rules :: "topic_rule list"

subsection \<open>Matching\<close>

fun peer_pattern :: "string list \<Rightarrow> string \<Rightarrow> string \<Rightarrow> bool" where
  "peer_pattern [] key fqdn = False"
| "peer_pattern (p # ps) key fqdn =
     (case cut_prefix ''pubkey:'' p of
        Some k \<Rightarrow> (if k = key then True else peer_pattern ps key fqdn)
      | None \<Rightarrow> (if p = ''*'' \<or> p = fqdn then True else if glob_ok p fqdn then True else peer_pattern ps key fqdn))"

definition topic_matchPeer :: "string list \<Rightarrow> string \<Rightarrow> string \<Rightarrow> bool" where
  "topic_matchPeer patterns key fqdn = (patterns = [] \<or> peer_pattern patterns key fqdn)"

text \<open>The loop is that of \<^const>\<open>matchAnyGlob\<close>; here an empty list matches anything.\<close>

definition matchGlob :: "string list \<Rightarrow> string \<Rightarrow> bool" where
  "matchGlob patterns s = (patterns = [] \<or> matchAnyGlob patterns s)"

definition ra_match :: "rule_authorizer \<Rightarrow> identity \<Rightarrow> string \<Rightarrow> topic_rule option" where
  "ra_match a i topic =
     List.find (\<lambda>r. topic_matchPeer (tr_Peers r) (id_Key i) (id_FQDN i) \<and> matchGlob (tr_Topics r) topic) (ra_Rules a)"

definition auth_reason :: "bool \<Rightarrow> string \<Rightarrow> string" where
  "auth_reason allow src = (if allow then ''allowed by '' @ src else ''denied by '' @ src)"

definition ra_Publish :: "rule_authorizer \<Rightarrow> identity \<Rightarrow> string \<Rightarrow> pub_decision" where
  "ra_Publish a i topic =
     (case ra_match a i topic of
        Some r \<Rightarrow> \<lparr>pd_Allow = tr_Allow r, pd_Reason = auth_reason (tr_Allow r) ''rule'', pd_Labels = emitSet r, pd_Explicit = True\<rparr>
      | None \<Rightarrow> \<lparr>pd_Allow = ra_DefaultAllow a, pd_Reason = auth_reason (ra_DefaultAllow a) ''default'', pd_Labels = [], pd_Explicit = False\<rparr>)"

definition ra_Subscribe :: "rule_authorizer \<Rightarrow> identity \<Rightarrow> string \<Rightarrow> sub_decision" where
  "ra_Subscribe a i topic =
     (case ra_match a i topic of
        Some r \<Rightarrow> \<lparr>sd_Allow = tr_Allow r, sd_Reason = auth_reason (tr_Allow r) ''rule'', sd_Clear = clearSet r,
                    sd_ClearAll = tr_ClearAll r, sd_Explicit = True\<rparr>
      | None \<Rightarrow> \<lparr>sd_Allow = ra_DefaultAllow a, sd_Reason = auth_reason (ra_DefaultAllow a) ''default'', sd_Clear = [],
                  sd_ClearAll = False, sd_Explicit = False\<rparr>)"

datatype authorizer = RuleAuthorizer rule_authorizer | AllowAll | DenyAll

definition no_authorizer :: string where "no_authorizer = ''no authorizer configured''"

fun auth_Publish :: "authorizer \<Rightarrow> identity \<Rightarrow> string \<Rightarrow> pub_decision" where
  "auth_Publish (RuleAuthorizer a) i topic = ra_Publish a i topic"
| "auth_Publish AllowAll i topic = \<lparr>pd_Allow = True, pd_Reason = [], pd_Labels = [], pd_Explicit = False\<rparr>"
| "auth_Publish DenyAll i topic = \<lparr>pd_Allow = False, pd_Reason = no_authorizer, pd_Labels = [], pd_Explicit = False\<rparr>"

fun auth_Subscribe :: "authorizer \<Rightarrow> identity \<Rightarrow> string \<Rightarrow> sub_decision" where
  "auth_Subscribe (RuleAuthorizer a) i topic = ra_Subscribe a i topic"
| "auth_Subscribe AllowAll i topic = \<lparr>sd_Allow = True, sd_Reason = [], sd_Clear = [], sd_ClearAll = True, sd_Explicit = False\<rparr>"
| "auth_Subscribe DenyAll i topic = \<lparr>sd_Allow = False, sd_Reason = no_authorizer, sd_Clear = [], sd_ClearAll = False, sd_Explicit = False\<rparr>"

subsection \<open>The first matching rule decides\<close>

lemma matchGlob_literal: "list_all literal ps \<Longrightarrow> matchGlob ps s \<longleftrightarrow> ps = [] \<or> s \<in> set ps"
  by (induction ps) (auto simp: matchGlob_def glob_ok_literal literal_Cons)

definition rule_matches :: "identity \<Rightarrow> string \<Rightarrow> topic_rule \<Rightarrow> bool" where
  "rule_matches i t r = (topic_matchPeer (tr_Peers r) (id_Key i) (id_FQDN i) \<and> matchGlob (tr_Topics r) t)"

lemma ra_match_cases:
  obtains (none) "ra_match a i t = None" "\<forall>r\<in>set (ra_Rules a). \<not> rule_matches i t r"
  | (first) r ps qs where "ra_match a i t = Some r" "ra_Rules a = ps @ r # qs" "rule_matches i t r" "\<forall>p\<in>set ps. \<not> rule_matches i t p"
proof (cases "ra_match a i t")
  case None
  then show ?thesis using that(1) by (auto simp: ra_match_def rule_matches_def find_None_iff)
next
  case (Some r)
  then obtain k where k: "k < length (ra_Rules a)" "rule_matches i t (ra_Rules a ! k)" "r = ra_Rules a ! k"
    "\<forall>j<k. \<not> rule_matches i t (ra_Rules a ! j)"
    by (auto simp: ra_match_def rule_matches_def find_Some_iff)
  have "\<forall>p\<in>set (take k (ra_Rules a)). \<not> rule_matches i t p" using k by (auto simp: in_set_conv_nth)
  then show ?thesis using that(2) [OF Some, of "take k (ra_Rules a)" "drop (Suc k) (ra_Rules a)"] k by (simp add: id_take_nth_drop [symmetric])
qed

lemma publish_emits:
  "ra_match a i t = Some r \<Longrightarrow> set (pd_Labels (ra_Publish a i t)) = set (tr_Emit r) \<union> (if tr_Taint r then {''tainted''} else {})"
  by (simp add: ra_Publish_def emitSet_def)

end
