(* ===== verification/Rfc3339.thy ===== *)
theory Rfc3339
  imports Prelude "HOL-Library.Monad_Syntax"
begin

text \<open>
  Timestamps in the layout \<^verbatim>\<open>time.RFC3339Nano\<close>: the text \<^verbatim>\<open>Format\<close> gives an instant in UTC, and what
  \<^verbatim>\<open>time.Parse\<close> reads back.  The parser is the library's general one, which accepts more than the
  formatter writes: one digit for the hour, a comma before the fraction, any number of fraction digits
  (the first nine count), and a numeric zone.
\<close>

subsection \<open>The calendar\<close>

definition leap :: "nat \<Rightarrow> bool" where
  "leap y = (4 dvd y \<and> (\<not> 100 dvd y \<or> 400 dvd y))"

definition year_days :: "nat \<Rightarrow> nat" where
  "year_days y = (if leap y then 366 else 365)"

definition month_days :: "nat \<Rightarrow> nat \<Rightarrow> nat" where
  "month_days y m = (if m = 2 then if leap y then 29 else 28 else if m \<in> {4, 6, 9, 11} then 30 else 31)"

text \<open>Days from the first of January of the year 0.\<close>

primrec days_before_year :: "nat \<Rightarrow> nat" where
  "days_before_year 0 = 0"
| "days_before_year (Suc y) = days_before_year y + year_days y"

definition days_before_month :: "nat \<Rightarrow> nat \<Rightarrow> nat" where
  "days_before_month y m = sum_list (map (month_days y) [1..<m])"

function civil_year :: "nat \<Rightarrow> nat \<Rightarrow> nat \<times> nat" where
  "civil_year y d = (if d < year_days y then (y, d) else civil_year (Suc y) (d - year_days y))"
  by pat_completeness auto
termination by (relation "measure snd") (auto simp: year_days_def)

declare civil_year.simps [simp del]

function civil_month :: "nat \<Rightarrow> nat \<Rightarrow> nat \<Rightarrow> nat \<times> nat" where
  "civil_month y m d = (if d < month_days y m \<or> 12 \<le> m then (m, d) else civil_month y (Suc m) (d - month_days y m))"
  by pat_completeness auto
termination by (relation "measure (\<lambda>(y, m, d). 12 - m)") auto

declare civil_month.simps [simp del]

definition epoch_days :: int where
  "epoch_days = int (days_before_year 1970)"

lemma year_days_pos: "0 < year_days y"
  by (simp add: year_days_def)

lemma civil_year_inverse: "civil_year y d = (y', d') \<Longrightarrow> days_before_year y + d = days_before_year y' + d' \<and> d' < year_days y' \<and> y \<le> y'"
proof (induction y d rule: civil_year.induct)
  case (1 y d)
  show ?case
  proof (cases "d < year_days y")
    case True
    then show ?thesis using 1(2) by (simp add: civil_year.simps)
  next
    case False
    then have "civil_year (Suc y) (d - year_days y) = (y', d')" using 1(2) by (simp add: civil_year.simps [of y d])
    then show ?thesis using 1(1) [OF False] False by simp
  qed
qed

lemma days_before_month_Suc: "1 \<le> m \<Longrightarrow> days_before_month y (Suc m) = days_before_month y m + month_days y m"
  by (simp add: days_before_month_def)

lemma year_is_months: "days_before_month y 12 + month_days y 12 = year_days y"
  by (simp add: days_before_month_def month_days_def year_days_def upt_rec)

lemma civil_month_inverse:
  "civil_month y m d = (m', d') \<Longrightarrow> 1 \<le> m \<Longrightarrow> m \<le> 12 \<Longrightarrow> days_before_month y m + d < year_days y \<Longrightarrow>
     days_before_month y m + d = days_before_month y m' + d' \<and> d' < month_days y m' \<and> 1 \<le> m' \<and> m' \<le> 12"
proof (induction y m d rule: civil_month.induct)
  case (1 y m d)
  show ?case
  proof (cases "d < month_days y m \<or> 12 \<le> m")
    case True
    moreover have "d < month_days y m" if "12 \<le> m" using that 1(4,5) year_is_months [of y] by simp
    ultimately show ?thesis using 1(2-4) by (auto simp: civil_month.simps)
  next
    case False
    then have "civil_month y (Suc m) (d - month_days y m) = (m', d')" using 1(2) by (simp add: civil_month.simps [of y m d])
    then show ?thesis using 1(1) [OF False] 1(3,5) False by (simp add: days_before_month_Suc)
  qed
qed

subsection \<open>Formatting\<close>

definition digit_char :: "nat \<Rightarrow> char" where
  "digit_char n = char_of (48 + n mod 10)"

definition two_digits :: "nat \<Rightarrow> string" where
  "two_digits n = [digit_char (n div 10), digit_char n]"

definition year_text :: "nat \<Rightarrow> string" where
  "year_text y = (if y < 10000 then two_digits (y div 100) @ two_digits y else nat_dec y)"

definition nine_digits :: "nat \<Rightarrow> string" where
  "nine_digits n = map (\<lambda>i. digit_char (n div 10 ^ (8 - i))) [0..<9]"

definition strip_zeros :: "string \<Rightarrow> string" where
  "strip_zeros s = rev (dropWhile (\<lambda>c. c = CHR ''0'') (rev s))"

definition frac_text :: "nat \<Rightarrow> string" where
  "frac_text ns = (if ns = 0 then [] else CHR ''.'' # strip_zeros (nine_digits ns))"

definition format_time :: "instant \<Rightarrow> string" where
  "format_time t =
     (let secs = t div nanos_per_sec;
          (y, yd) = civil_year 0 (nat (secs div 86400 + epoch_days));
          (m, d) = civil_month y 1 yd;
          sod = nat (secs mod 86400)
      in year_text y @ ''-'' @ two_digits m @ ''-'' @ two_digits (Suc d) @ ''T'' @
         two_digits (sod div 3600) @ '':'' @ two_digits (sod div 60 mod 60) @ '':'' @ two_digits (sod mod 60) @
         frac_text (nat (t mod nanos_per_sec)) @ ''Z'')"
subsection \<open>Parsing\<close>

fun digits_val :: "nat \<Rightarrow> string \<Rightarrow> nat option" where
  "digits_val a [] = Some a"
| "digits_val a (c # cs) = (if is_digit c then digits_val (10 * a + nat (digit_val c)) cs else None)"

text \<open>A number of exactly \<open>n\<close> digits.\<close>

definition get_digits :: "nat \<Rightarrow> string \<Rightarrow> (nat \<times> string) option" where
  "get_digits n s = (if length s < n then None else map_option (\<lambda>v. (v, drop n s)) (digits_val 0 (take n s)))"

text \<open>\<^verbatim>\<open>getnum\<close> without the fixed width: one or two digits.\<close>

definition get_num :: "string \<Rightarrow> (nat \<times> string) option" where
  "get_num s = (case get_digits 2 s of Some r \<Rightarrow> Some r | None \<Rightarrow> get_digits 1 s)"

definition get_char :: "char \<Rightarrow> string \<Rightarrow> string option" where
  "get_char c s = (case s of x # xs \<Rightarrow> if x = c then Some xs else None | [] \<Rightarrow> None)"

definition frac_val :: "string \<Rightarrow> nat" where
  "frac_val ds = (let nine = take 9 (ds @ replicate 9 (CHR ''0'')) in the (digits_val 0 nine))"

definition get_frac :: "string \<Rightarrow> nat \<times> string" where
  "get_frac s =
     (case s of
        p # d # ds \<Rightarrow>
          (if (p = CHR ''.'' \<or> p = CHR '','') \<and> is_digit d
           then (frac_val (takeWhile is_digit (d # ds)), dropWhile is_digit (d # ds)) else (0, s))
      | _ \<Rightarrow> (0, s))"

text \<open>The zone's offset in seconds.\<close>

definition get_zone :: "string \<Rightarrow> (int \<times> string) option" where
  "get_zone s =
     (case s of
        [] \<Rightarrow> None
      | z # r \<Rightarrow>
          if z = CHR ''Z'' then Some (0, r)
          else do {
            (h, r) \<leftarrow> get_digits 2 r;
            r \<leftarrow> get_char (CHR '':'') r;
            (m, r) \<leftarrow> get_digits 2 r;
            if 24 < h \<or> 60 < m then None
            else if z = CHR ''+'' then Some (int (h * 60 + m) * 60, r)
            else if z = CHR ''-'' then Some (- (int (h * 60 + m) * 60), r)
            else None
          })"

definition parse_time :: "string \<Rightarrow> instant option" where
  "parse_time s = do {
     (y, s) \<leftarrow> get_digits 4 s;
     s \<leftarrow> get_char (CHR ''-'') s;
     (mo, s) \<leftarrow> get_digits 2 s;
     s \<leftarrow> get_char (CHR ''-'') s;
     (d, s) \<leftarrow> get_digits 2 s;
     s \<leftarrow> get_char (CHR ''T'') s;
     (h, s) \<leftarrow> get_num s;
     s \<leftarrow> get_char (CHR '':'') s;
     (mi, s) \<leftarrow> get_digits 2 s;
     s \<leftarrow> get_char (CHR '':'') s;
     (sec, s) \<leftarrow> get_digits 2 s;
     (off, r) \<leftarrow> get_zone (snd (get_frac s));
     if r \<noteq> [] \<or> mo < 1 \<or> 12 < mo \<or> d < 1 \<or> month_days y mo < d \<or> 24 \<le> h \<or> 60 \<le> mi \<or> 60 \<le> sec then None
     else Some (((int (days_before_year y + days_before_month y mo + (d - 1)) - epoch_days) * 86400 +
                  int (h * 3600 + mi * 60 + sec) - off) * nanos_per_sec + int (fst (get_frac s)))
   }"
subsection \<open>What is formatted parses back\<close>

lemma digit_char_simps [simp]: "is_digit (digit_char n)" "digit_val (digit_char n) = int (n mod 10)"
  by (simp_all add: digit_char_def is_digit_def digit_val_def)

lemma digits_val_append: "digits_val a (s @ t) = Option.bind (digits_val a s) (\<lambda>b. digits_val b t)"
  by (induction s arbitrary: a) auto

lemma digits_val_two [simp]: "digits_val a (two_digits n) = Some (100 * a + n mod 100)"
proof -
  have "n mod 100 = 10 * (n div 10 mod 10) + n mod 10" using mod_mult2_eq [of n 10 10] by simp
  then show ?thesis by (simp add: two_digits_def nat_mod_distrib)
qed

lemma length_two [simp]: "length (two_digits n) = 2"
  by (simp add: two_digits_def)

lemma get_digits_append: "length d = n \<Longrightarrow> get_digits n (d @ s) = map_option (\<lambda>v. (v, s)) (digits_val 0 d)"
  by (simp add: get_digits_def)

lemma get_two [simp]: "n < 100 \<Longrightarrow> get_digits 2 (two_digits n @ s) = Some (n, s)"
  by (simp add: get_digits_append)

lemma get_year: "y < 10000 \<Longrightarrow> get_digits 4 (year_text y @ s) = Some (y, s)"
  by (subst get_digits_append) (simp_all add: year_text_def digits_val_append)

lemma get_char_Cons [simp]: "get_char c (c # s) = Some s"
  by (simp add: get_char_def)

lemma get_num_two [simp]: "n < 100 \<Longrightarrow> get_num (two_digits n @ s) = Some (n, s)"
  by (simp add: get_num_def)

lemma digits_val_digits: "digits_val a (map (\<lambda>i. digit_char (n div 10 ^ (k - Suc i))) [0..<k]) = Some (a * 10 ^ k + n mod 10 ^ k)"
proof (induction k arbitrary: a n)
  case (Suc k)
  have m: "map (\<lambda>i. digit_char (n div 10 ^ (Suc k - Suc i))) [0..<Suc k] =
      map (\<lambda>i. digit_char (n div 10 div 10 ^ (k - Suc i))) [0..<k] @ [digit_char n]"
    by (auto simp: div_mult2_eq [symmetric] power_Suc [symmetric] Suc_diff_Suc simp del: power_Suc intro!: map_cong)
  have "10 * (a * 10 ^ k + n div 10 mod 10 ^ k) + n mod 10 = a * 10 ^ Suc k + n mod 10 ^ Suc k"
    by (simp add: mod_mult2_eq algebra_simps)
  then show ?case unfolding m digits_val_append Suc by (simp add: nat_mod_distrib)
qed simp

lemma strip_zeros_pad: "\<exists>k. s = strip_zeros s @ replicate k (CHR ''0'')"
proof -
  have "rev s = takeWhile (\<lambda>c. c = CHR ''0'') (rev s) @ dropWhile (\<lambda>c. c = CHR ''0'') (rev s)" by simp
  moreover have "takeWhile (\<lambda>c. c = CHR ''0'') (rev s) = replicate (length (takeWhile (\<lambda>c. c = CHR ''0'') (rev s))) (CHR ''0'')"
    by (rule replicate_length_same [symmetric]) (auto dest: set_takeWhileD)
  ultimately have "rev s = replicate (length (takeWhile (\<lambda>c. c = CHR ''0'') (rev s))) (CHR ''0'') @ dropWhile (\<lambda>c. c = CHR ''0'') (rev s)" by simp
  then show ?thesis unfolding strip_zeros_def by (metis rev_append rev_replicate rev_rev_ident)
qed

lemma nine_digits_val: "n < 10 ^ 9 \<Longrightarrow> digits_val 0 (nine_digits n) = Some n"
  using digits_val_digits [of 0 n 9] by (simp add: nine_digits_def)

lemma nine_digits_props [simp]: "length (nine_digits n) = 9" "list_all is_digit (nine_digits n)"
  by (simp_all add: nine_digits_def list_all_iff)

lemma frac_val_strip: "n < 10 ^ 9 \<Longrightarrow> frac_val (strip_zeros (nine_digits n)) = n"
proof -
  assume n: "n < 10 ^ 9"
  obtain k where k: "nine_digits n = strip_zeros (nine_digits n) @ replicate k (CHR ''0'')" using strip_zeros_pad by blast
  have len: "length (strip_zeros (nine_digits n)) + k = 9" using arg_cong [OF k, of length] by simp
  have "take 9 (strip_zeros (nine_digits n) @ replicate 9 (CHR ''0'')) = strip_zeros (nine_digits n) @ replicate k (CHR ''0'')"
    using len by simp
  also have "\<dots> = nine_digits n" by (rule k [symmetric])
  finally show ?thesis using nine_digits_val [OF n] by (simp add: frac_val_def)
qed

lemma strip_zeros_digits: "list_all is_digit s \<Longrightarrow> list_all is_digit (strip_zeros s)"
  by (auto simp: strip_zeros_def list_all_iff dest: set_dropWhileD)

lemma strip_zeros_Nil: "strip_zeros s = [] \<Longrightarrow> s = replicate (length s) (CHR ''0'')"
  using strip_zeros_pad [of s] by (metis append_Nil length_replicate)

lemma digits_val_zeros: "digits_val 0 (replicate k (CHR ''0'')) = Some 0"
  by (induction k) (simp_all add: is_digit_def digit_val_def)

lemma strip_zeros_nonempty: "0 < n \<Longrightarrow> n < 10 ^ 9 \<Longrightarrow> strip_zeros (nine_digits n) \<noteq> []"
proof
  assume n: "0 < n" "n < 10 ^ 9" and e: "strip_zeros (nine_digits n) = []"
  then have "digits_val 0 (nine_digits n) = Some 0" using strip_zeros_Nil [OF e] digits_val_zeros by metis
  then show False using nine_digits_val [OF n(2)] n(1) by simp
qed

lemma get_frac_text: "n < 10 ^ 9 \<Longrightarrow> get_frac (frac_text n @ ''Z'') = (n, ''Z'')"
proof (cases "n = 0")
  case True
  then show ?thesis by (simp add: frac_text_def get_frac_def)
next
  case False
  assume n: "n < 10 ^ 9"
  obtain d ds where d: "strip_zeros (nine_digits n) = d # ds" using strip_zeros_nonempty n False by (metis list.exhaust neq0_conv)
  have ok: "\<forall>c\<in>set (d # ds). is_digit c" using strip_zeros_digits [OF nine_digits_props(2), of n] d by (simp add: list_all_iff)
  have z: "\<not> is_digit (CHR ''Z'')" by (simp add: is_digit_def)
  have tw: "takeWhile is_digit (d # ds @ ''Z'') = d # ds" "dropWhile is_digit (d # ds @ ''Z'') = ''Z''"
    using takeWhile_append2 [of "d # ds" is_digit "''Z''"] dropWhile_append2 [of "d # ds" is_digit "''Z''"] ok z by simp_all
  have "frac_val (d # ds) = n" using frac_val_strip [OF n] d by simp
  then show ?thesis using False ok tw by (simp add: frac_text_def get_frac_def d del: takeWhile.simps dropWhile.simps)
qed

text \<open>The instants the formatter writes with a four-digit year.\<close>

definition year_0_to_9999 :: "instant \<Rightarrow> bool" where
  "year_0_to_9999 t = (0 \<le> t div nanos_per_sec div 86400 + epoch_days \<and>
     t div nanos_per_sec div 86400 + epoch_days < int (days_before_year 10000))"

lemma days_before_year_mono: "y \<le> z \<Longrightarrow> days_before_year y \<le> days_before_year z"
  by (rule lift_Suc_mono_le) simp_all

lemma parse_format: "year_0_to_9999 t \<Longrightarrow> parse_time (format_time t) = Some t"
proof -
  assume t: "year_0_to_9999 t"
  define secs where "secs = t div nanos_per_sec"
  define ns where "ns = nat (t mod nanos_per_sec)"
  define sod where "sod = nat (secs mod 86400)"
  obtain y yd where y: "civil_year 0 (nat (secs div 86400 + epoch_days)) = (y, yd)" by fastforce
  obtain m d where m: "civil_month y 1 yd = (m, d)" by fastforce
  have Y: "nat (secs div 86400 + epoch_days) = days_before_year y + yd" "yd < year_days y" using civil_year_inverse [OF y] by simp_all
  have M: "yd = days_before_month y m + d" "d < month_days y m" "1 \<le> m" "m \<le> 12"
    using civil_month_inverse [OF m] Y(2) by (simp_all add: days_before_month_def)
  have day: "0 \<le> secs div 86400 + epoch_days" "secs div 86400 + epoch_days < int (days_before_year 10000)"
    using t by (simp_all add: year_0_to_9999_def secs_def)
  have y4: "y < 10000"
  proof (rule ccontr)
    assume "\<not> y < 10000"
    then show False using days_before_year_mono [of 10000 y] Y(1) day by linarith
  qed
  have d31: "Suc d < 100" using M(2) by (auto simp: month_days_def split: if_splits)
  have sod: "sod < 86400" by (simp add: sod_def nat_less_iff)
  have ns9: "ns < 10 ^ 9" by (simp add: ns_def nat_less_iff nanos_per_sec_def)
  have dy: "int (days_before_year y + days_before_month y m + d) - epoch_days = secs div 86400" using Y(1) M(1) day(1) by linarith
  have clock: "int (sod div 3600 * 3600 + sod div 60 mod 60 * 60 + sod mod 60) = secs mod 86400"
  proof -
    have "sod div 3600 * 3600 + sod div 60 mod 60 * 60 + sod mod 60 = sod"
      using div_mult2_eq [of sod 60 60, simplified] div_mult_mod_eq [of sod 60] div_mult_mod_eq [of "sod div 60" 60] by linarith
    then show ?thesis by (simp add: sod_def)
  qed
  have h: "sod div 3600 < 24" "sod div 60 mod 60 < 60" "sod mod 60 < 60" using sod by simp_all
  have "format_time t = year_text y @ CHR ''-'' # two_digits m @ CHR ''-'' # two_digits (Suc d) @ CHR ''T'' #
      two_digits (sod div 3600) @ CHR '':'' # two_digits (sod div 60 mod 60) @ CHR '':'' # two_digits (sod mod 60) @ frac_text ns @ ''Z''"
    using y m by (simp add: format_time_def secs_def ns_def sod_def Let_def)
  then have "parse_time (format_time t) = Some ((secs div 86400 * 86400 + secs mod 86400) * nanos_per_sec + int ns)"
    using M(2-4) y4 d31 h get_frac_text [OF ns9] dy clock
    by (simp add: parse_time_def get_year get_zone_def not_le)
  also have "(secs div 86400 * 86400 + secs mod 86400) * nanos_per_sec + int ns = t"
    by (simp add: secs_def ns_def nanos_per_sec_def)
  finally show ?thesis .
qed

end
