(* ===== verification/Broker.thy ===== *)
theory Broker
  imports EventRing TopicAuth Rfc3339 Capability AuditRecord "HOL-Library.AList"
begin

text \<open>
  The publish/subscribe broker (\<^verbatim>\<open>src/pubsub/broker.go\<close>, \<^verbatim>\<open>subscription.go\<close>, \<^verbatim>\<open>ratelimit.go\<close>).  An operation
  that runs under \<^verbatim>\<open>b.mu\<close> is one function on the state of the broker.  A channel is its buffer; the reader of a
  subscription is not under the lock, so an operation takes, as an argument, the reads that happen in its course.
  A Go map that is only indexed is a function with the zero value as default; one whose length or keys matter is a list.
  Subscriptions that have ended stay in \<^verbatim>\<open>b_ended\<close>, since their readers may still drain them; \<^verbatim>\<open>s_got\<close> is what the reader
  took.  \<^verbatim>\<open>b_audit\<close> is what was handed to \<^verbatim>\<open>AuditLog.Append\<close>.
\<close>

subsection \<open>Limits\<close>

record limits =
  SubQueue :: int
  MaxSubs :: int
  MaxTopicsPerSub :: int
  MaxTopicLen :: int
  MaxPayloadBytes :: int
  MaxLabels :: int
  MaxSubsPerPeer :: int
  MaxRetainedTopics :: int
  MaxGroupPending :: int
  lm_Retain :: int
  PublishRate :: rat
  PublishBurst :: int

definition maxEncodingLen :: int where "maxEncodingLen = 32"

definition DefaultLimits :: limits where
  "DefaultLimits = \<lparr>SubQueue = 256, MaxSubs = 1024, MaxTopicsPerSub = 64, MaxTopicLen = 256, MaxPayloadBytes = 2 ^ 20, MaxLabels = 32,
     MaxSubsPerPeer = 128, MaxRetainedTopics = 4096, MaxGroupPending = 1024, lm_Retain = 1024, PublishRate = 200, PublishBurst = 400\<rparr>"

definition positive_or :: "int \<Rightarrow> int \<Rightarrow> int" where
  "positive_or d n = (if n \<le> 0 then d else n)"

definition withDefaults :: "limits \<Rightarrow> limits" where
  "withDefaults l =
     (let d = DefaultLimits;
          rate = (if PublishRate l = 0 then PublishRate d else if PublishRate l < 0 then 0 else PublishRate l)
      in \<lparr>SubQueue = positive_or (SubQueue d) (SubQueue l), MaxSubs = positive_or (MaxSubs d) (MaxSubs l),
          MaxTopicsPerSub = positive_or (MaxTopicsPerSub d) (MaxTopicsPerSub l), MaxTopicLen = positive_or (MaxTopicLen d) (MaxTopicLen l),
          MaxPayloadBytes = positive_or (MaxPayloadBytes d) (MaxPayloadBytes l), MaxLabels = positive_or (MaxLabels d) (MaxLabels l),
          MaxSubsPerPeer = positive_or (MaxSubsPerPeer d) (MaxSubsPerPeer l),
          MaxRetainedTopics = positive_or (MaxRetainedTopics d) (MaxRetainedTopics l),
          MaxGroupPending = positive_or (MaxGroupPending d) (MaxGroupPending l),
          lm_Retain = (if lm_Retain l < 0 then 0 else if lm_Retain l = 0 then lm_Retain d else lm_Retain l),
          PublishRate = rate, PublishBurst = (if PublishBurst l \<le> 0 \<and> 0 < rate then 2 * \<lfloor>rate\<rfloor> else PublishBurst l)\<rparr>)"

subsection \<open>The rate limiter\<close>

record pub_bucket =
  pb_rate :: rat
  pb_burst :: rat
  pb_tokens :: rat
  pb_last :: instant

definition newBucket :: "rat \<Rightarrow> int \<Rightarrow> instant \<Rightarrow> pub_bucket" where
  "newBucket rate burst now = \<lparr>pb_rate = rate, pb_burst = of_int burst, pb_tokens = of_int burst, pb_last = now\<rparr>"

definition bucket_allow :: "instant \<Rightarrow> pub_bucket \<Rightarrow> bool \<times> pub_bucket" where
  "bucket_allow t b =
     (if pb_rate b \<le> 0 then (True, b)
      else let elapsed = of_int (t - pb_last b) / 10 ^ 9 :: rat;
               b1 = (if 0 < elapsed then b\<lparr>pb_tokens := min (pb_burst b) (pb_tokens b + elapsed * pb_rate b), pb_last := t\<rparr> else b)
           in if pb_tokens b1 < 1 then (False, b1) else (True, b1\<lparr>pb_tokens := pb_tokens b1 - 1\<rparr>))"

record limiter =
  lim_buckets :: "string \<rightharpoonup> pub_bucket"
  lim_rate :: rat
  lim_burst :: int

definition newLimiter :: "rat \<Rightarrow> int \<Rightarrow> limiter" where
  "newLimiter rate burst = \<lparr>lim_buckets = Map.empty, lim_rate = rate, lim_burst = burst\<rparr>"

definition lim_allow :: "instant \<Rightarrow> string \<Rightarrow> limiter \<Rightarrow> bool \<times> limiter" where
  "lim_allow now k l =
     (if lim_rate l \<le> 0 then (True, l)
      else let b = (case lim_buckets l k of None \<Rightarrow> newBucket (lim_rate l) (lim_burst l) now | Some b \<Rightarrow> b);
               (ok, b') = bucket_allow now b
           in (ok, l\<lparr>lim_buckets := (lim_buckets l)(k \<mapsto> b')\<rparr>))"

subsection \<open>Subscriptions\<close>

datatype backpressure = DropOldest | Disconnect

definition ParseBackpressure :: "string \<Rightarrow> backpressure option" where
  "ParseBackpressure s =
     (let t = to_lower (trim_space s) in
      if t \<in> {[], ''drop_oldest'', ''drop-oldest'', ''dropoldest''} then Some DropOldest
      else if t \<in> {''disconnect'', ''close''} then Some Disconnect else None)"

record subscription =
  s_ID :: nat
  s_ident :: identity
  s_topics :: "string list"
  s_clearAll :: bool
  s_clear :: "string list"
  s_group :: string
  s_ackMode :: bool
  s_inflight :: "(nat \<times> event) list"
  s_bp :: backpressure
  s_ch :: "event list"
  s_dropped :: nat
  s_truncated :: bool
  s_got :: "event list"

definition sub_accepts :: "subscription \<Rightarrow> event \<Rightarrow> bool" where
  "sub_accepts s e = (matchGlob (s_topics s) (ev_Topic e) \<and> (s_clearAll s \<or> list_all (\<lambda>l. l \<in> set (s_clear s)) (ev_Labels e)))"

definition sub_send :: "event \<Rightarrow> subscription \<Rightarrow> subscription" where
  "sub_send e s = s\<lparr>s_ch := s_ch s @ [e]\<rparr>"

text \<open>The reader takes the next event of its channel.\<close>

definition sub_recv :: "subscription \<Rightarrow> subscription" where
  "sub_recv s = (case s_ch s of [] \<Rightarrow> s | e # es \<Rightarrow> s\<lparr>s_ch := es, s_got := s_got s @ [e]\<rparr>)"

subsection \<open>The state of the broker\<close>

record 's caps =
  ca_codec :: cap_codec
  ca_use :: "'s use_op"
  ca_ver :: "'s verifier"

record 's broker =
  b_auth :: authorizer
  b_audit :: "audit_rec list option"
  b_events :: "event_log option"
  b_name :: string
  b_caps :: "'s caps option"
  b_lim :: limiter
  b_lm :: limits
  b_seq :: nat
  b_prev :: string
  b_subs :: "subscription list"
  b_ended :: "subscription list"
  b_perPeer :: "string \<Rightarrow> int"
  b_retained :: "(string \<times> event) list"
  b_retainExp :: "(string \<times> instant) list"
  b_groupRR :: "string \<Rightarrow> nat"
  b_groupN :: "(string \<times> int) list"
  b_groupPend :: "string \<Rightarrow> event list"
  b_nextSubID :: nat
  b_ring :: ring
  b_dropped :: nat
  b_closed :: bool

definition sub_of :: "nat \<Rightarrow> 's broker \<Rightarrow> subscription option" where
  "sub_of k b = List.find (\<lambda>s. s_ID s = k) (b_subs b)"

definition upd_sub :: "nat \<Rightarrow> (subscription \<Rightarrow> subscription) \<Rightarrow> 's broker \<Rightarrow> 's broker" where
  "upd_sub k f b = b\<lparr>b_subs := map (\<lambda>s. if s_ID s = k then f s else s) (b_subs b)\<rparr>"

definition upd_any :: "nat \<Rightarrow> (subscription \<Rightarrow> subscription) \<Rightarrow> 's broker \<Rightarrow> 's broker" where
  "upd_any k f b = (upd_sub k f b)\<lparr>b_ended := map (\<lambda>s. if s_ID s = k then f s else s) (b_ended b)\<rparr>"

definition sub_C :: "nat \<Rightarrow> 's broker \<Rightarrow> 's broker" where
  "sub_C k b = upd_any k sub_recv b"

text \<open>The reads that happen during an operation: between the attempts of a delivery to a subscription, and before each
  event of a backlog is placed.\<close>

record reads =
  rd_retry :: "nat \<Rightarrow> bool"
  rd_evict :: "nat \<Rightarrow> bool"
  rd_drain :: "nat \<Rightarrow> nat list"

definition no_reads :: reads where
  "no_reads = \<lparr>rd_retry = \<lambda>_. False, rd_evict = \<lambda>_. False, rd_drain = \<lambda>_. []\<rparr>"

definition count_dropped :: "nat \<Rightarrow> 's broker \<Rightarrow> 's broker" where
  "count_dropped n b = b\<lparr>b_dropped := u64 (b_dropped b + n)\<rparr>"

subsection \<open>Consumer groups\<close>

definition has_room :: "limits \<Rightarrow> subscription \<Rightarrow> bool" where
  "has_room lm s = (int (length (s_ch s)) < SubQueue lm)"

definition can_place :: "limits \<Rightarrow> subscription \<Rightarrow> bool" where
  "can_place lm s = (\<not> (s_ackMode s \<and> SubQueue lm \<le> int (length (s_inflight s))) \<and> has_room lm s)"

definition place :: "event \<Rightarrow> subscription \<Rightarrow> subscription" where
  "place e s = (if s_ackMode s then (sub_send e s)\<lparr>s_inflight := AList.update (ev_Seq e) e (s_inflight s)\<rparr> else sub_send e s)"

definition group_members :: "event \<Rightarrow> string \<Rightarrow> 's broker \<Rightarrow> subscription list" where
  "group_members e name b = filter (\<lambda>s. s_group s = name \<and> sub_accepts s e) (b_subs b)"

definition tryPlaceOnGroupLocked :: "string \<Rightarrow> subscription list \<Rightarrow> event \<Rightarrow> 's broker \<Rightarrow> bool \<times> 's broker" where
  "tryPlaceOnGroupLocked name members e b =
     (if members = [] then (False, b)
      else let ms = sort_key s_ID members;
               start = b_groupRR b name mod length ms;
               b1 = b\<lparr>b_groupRR := (b_groupRR b)(name := u64 (b_groupRR b name + 1))\<rparr>
           in case List.find (can_place (b_lm b)) (rotate start ms) of
                None \<Rightarrow> (False, b1)
              | Some s \<Rightarrow> (True, upd_sub (s_ID s) (place e) b1))"

fun drain_loop :: "(nat \<Rightarrow> nat list) \<Rightarrow> nat \<Rightarrow> string \<Rightarrow> event list \<Rightarrow> 's broker \<Rightarrow> event list \<times> 's broker" where
  "drain_loop rd i name [] b = ([], b)"
| "drain_loop rd i name (e # q) b =
     (let b1 = fold sub_C (rd i) b;
          members = group_members e name b1
      in case tryPlaceOnGroupLocked name members e b1 of
           (False, b2) \<Rightarrow> (e # q, b2)
         | (True, b2) \<Rightarrow> drain_loop rd (Suc i) name q b2)"

definition drainGroupPendingLocked :: "reads \<Rightarrow> string \<Rightarrow> 's broker \<Rightarrow> 's broker" where
  "drainGroupPendingLocked rd name b =
     (if name = [] then b
      else case drain_loop (rd_drain rd) 0 name (b_groupPend b name) b of
        (q, b') \<Rightarrow> b'\<lparr>b_groupPend := (b_groupPend b')(name := q)\<rparr>)"

definition enqueueGroupPendingLocked :: "string \<Rightarrow> event \<Rightarrow> 's broker \<Rightarrow> 's broker" where
  "enqueueGroupPendingLocked name e b =
     (let q = b_groupPend b name in
      if MaxGroupPending (b_lm b) \<le> int (length q)
      then (count_dropped 1 b)\<lparr>b_groupPend := (b_groupPend b)(name := tl q @ [e])\<rparr>
      else b\<lparr>b_groupPend := (b_groupPend b)(name := q @ [e])\<rparr>)"

subsection \<open>Closing and delivering\<close>

definition group_count :: "string \<Rightarrow> 's broker \<Rightarrow> int" where
  "group_count name b = (case map_of (b_groupN b) name of None \<Rightarrow> 0 | Some n \<Rightarrow> n)"

definition requeue :: "int \<Rightarrow> subscription \<Rightarrow> 's broker \<Rightarrow> 's broker" where
  "requeue remaining s b =
     (if s_ackMode s \<and> s_inflight s \<noteq> [] then
        (if 0 < remaining
         then b\<lparr>b_groupPend := (b_groupPend b)(s_group s := sort_key ev_Seq (map snd (s_inflight s)) @ b_groupPend b (s_group s))\<rparr>
         else count_dropped (length (s_inflight s)) b)
      else b)"

definition leave_group :: "reads \<Rightarrow> subscription \<Rightarrow> 's broker \<Rightarrow> 's broker" where
  "leave_group rd s b =
     (let g = s_group s;
          remaining = group_count g b - 1;
          b1 = requeue remaining s b
      in if remaining \<le> 0
         then (count_dropped (length (b_groupPend b1 g)) b1)
                \<lparr>b_groupN := AList.delete g (b_groupN b1), b_groupRR := (b_groupRR b1)(g := 0), b_groupPend := (b_groupPend b1)(g := [])\<rparr>
         else drainGroupPendingLocked rd g (b1\<lparr>b_groupN := AList.update g remaining (b_groupN b1)\<rparr>))"

definition closeSubLocked :: "reads \<Rightarrow> nat \<Rightarrow> 's broker \<Rightarrow> 's broker" where
  "closeSubLocked rd k b =
     (case sub_of k b of
        None \<Rightarrow> b
      | Some s \<Rightarrow>
          (let n = b_perPeer b (id_Key (s_ident s)) - 1;
               b1 = b\<lparr>b_subs := filter (\<lambda>s. s_ID s \<noteq> k) (b_subs b), b_perPeer := (b_perPeer b)(id_Key (s_ident s) := if n \<le> 0 then 0 else n)\<rparr>
           in if s_group s = [] then b1\<lparr>b_ended := s # b_ended b1\<rparr>
              else leave_group rd s (b1\<lparr>b_ended := s\<lparr>s_inflight := []\<rparr> # b_ended b1\<rparr>)))"

definition deliverLocked :: "reads \<Rightarrow> nat \<Rightarrow> event \<Rightarrow> 's broker \<Rightarrow> 's broker" where
  "deliverLocked rd k e b =
     (case sub_of k b of
        None \<Rightarrow> b
      | Some s \<Rightarrow>
          (if has_room (b_lm b) s then upd_sub k (sub_send e) b
           else if s_bp s = Disconnect then closeSubLocked rd k b
           else let s1 = (if rd_retry rd k then sub_recv s else s)
                in if has_room (b_lm b) s1 then upd_sub k (\<lambda>_. sub_send e s1) b
                   else let s2 = (if rd_evict rd k then sub_recv s1 else s1);
                            s3 = s2\<lparr>s_ch := tl (s_ch s2)\<rparr>;
                            s4 = (if has_room (b_lm b) s3 then sub_send e s3 else s3)
                        in count_dropped 1 (upd_sub k (\<lambda>_. s4\<lparr>s_dropped := u64 (s_dropped s4 + 1)\<rparr>) b)))"

definition deliverToGroupLocked :: "reads \<Rightarrow> event \<Rightarrow> string \<Rightarrow> 's broker \<Rightarrow> 's broker" where
  "deliverToGroupLocked rd e name b =
     (let members = group_members e name b in
      case tryPlaceOnGroupLocked name members e b of
        (True, b1) \<Rightarrow> b1
      | (False, b1) \<Rightarrow>
          (if list_ex s_ackMode members then enqueueGroupPendingLocked name e b1
           else case sort_key s_ID members of [] \<Rightarrow> b1 | s # _ \<Rightarrow> deliverLocked rd (s_ID s) e b1))"

text \<open>The loop over the subscriptions serves the ungrouped ones and collects the groups, which get one copy each.\<close>

definition fanout_one :: "reads \<Rightarrow> event \<Rightarrow> nat \<Rightarrow> 's broker \<Rightarrow> 's broker" where
  "fanout_one rd e k b =
     (case sub_of k b of
        None \<Rightarrow> b
      | Some s \<Rightarrow> (if sub_accepts s e \<and> s_group s = [] then deliverLocked rd k e b else b))"

definition fanoutLocked :: "reads \<Rightarrow> event \<Rightarrow> 's broker \<Rightarrow> 's broker" where
  "fanoutLocked rd e b =
     (let names = remdups (filter (\<lambda>g. g \<noteq> []) (map s_group (filter (\<lambda>s. sub_accepts s e) (b_subs b))))
      in fold (deliverToGroupLocked rd e) names (fold (fanout_one rd e) (map s_ID (b_subs b)) b))"

subsection \<open>Retained values\<close>

definition drop_topics :: "string list \<Rightarrow> 's broker \<Rightarrow> 's broker" where
  "drop_topics ts b = b\<lparr>b_retained := filter (\<lambda>(t, _). t \<notin> set ts) (b_retained b), b_retainExp := filter (\<lambda>(t, _). t \<notin> set ts) (b_retainExp b)\<rparr>"

definition sweepExpiredRetainedLocked :: "instant \<Rightarrow> 's broker \<Rightarrow> 's broker" where
  "sweepExpiredRetainedLocked now b = drop_topics (map fst (filter (\<lambda>(t, e). e < now) (b_retainExp b))) b"

definition holds_topic :: "string \<Rightarrow> 's broker \<Rightarrow> bool" where
  "holds_topic t b = (t \<in> fst ` set (b_retained b))"

definition retained_full :: "'s broker \<Rightarrow> bool" where
  "retained_full b = (MaxRetainedTopics (b_lm b) \<le> int (length (b_retained b)))"

definition set_expiry :: "string \<Rightarrow> string \<Rightarrow> 's broker \<Rightarrow> 's broker" where
  "set_expiry topic until b =
     b\<lparr>b_retainExp := (case (if until = [] then None else parse_time until) of
        None \<Rightarrow> AList.delete topic (b_retainExp b) | Some t \<Rightarrow> AList.update topic t (b_retainExp b))\<rparr>"

definition applyRetainedLocked :: "instant \<Rightarrow> event \<Rightarrow> 's broker \<Rightarrow> 's broker" where
  "applyRetainedLocked now e b =
     (if ev_RetainDel e then drop_topics [ev_Topic e] b
      else if ev_Retain e then
        (let b1 = (if \<not> holds_topic (ev_Topic e) b \<and> retained_full b then sweepExpiredRetainedLocked now b else b)
         in if holds_topic (ev_Topic e) b1 \<or> \<not> retained_full b1
            then set_expiry (ev_Topic e) (ev_ExpiresAt e) (b1\<lparr>b_retained := AList.update (ev_Topic e) e (b_retained b1)\<rparr>)
            else b1)
      else b)"

subsection \<open>Opening a broker\<close>

record 's options =
  o_Authorizer :: "authorizer option"
  o_Audit :: "audit_rec list option"
  o_Events :: "event_log option"
  o_Seed :: "event list"
  o_Name :: string
  o_Capabilities :: "'s caps option"
  o_Limits :: limits

definition blank_broker :: "'s options \<Rightarrow> 's broker" where
  "blank_broker opts =
     (let lm = withDefaults (o_Limits opts)
      in \<lparr>b_auth = (case o_Authorizer opts of None \<Rightarrow> DenyAll | Some a \<Rightarrow> a), b_audit = o_Audit opts, b_events = o_Events opts,
          b_name = o_Name opts, b_caps = o_Capabilities opts, b_lim = newLimiter (PublishRate lm) (PublishBurst lm), b_lm = lm,
          b_seq = 0, b_prev = [], b_subs = [], b_ended = [], b_perPeer = (\<lambda>_. 0), b_retained = [], b_retainExp = [],
          b_groupRR = (\<lambda>_. 0), b_groupN = [], b_groupPend = (\<lambda>_. []), b_nextSubID = 0, b_ring = newRing (lm_Retain lm),
          b_dropped = 0, b_closed = False\<rparr>)"

definition NewBroker :: "instant \<Rightarrow> 's options \<Rightarrow> 's broker" where
  "NewBroker now opts =
     (let b = blank_broker opts; seed = o_Seed opts; n = length seed
      in if n = 0 then b
         else let start = nat (int n - lm_Retain (b_lm b));
                  b1 = b\<lparr>b_seq := ev_Seq (last seed), b_prev := ev_Hash (last seed), b_ring := fold ring_add (drop start seed) (b_ring b)\<rparr>
              in sweepExpiredRetainedLocked now
                   (fold (applyRetainedLocked now) (filter (\<lambda>e. ev_Retain e \<or> ev_RetainDel e) seed) b1))"

subsection \<open>Publishing\<close>

datatype bus_err = ErrDenied string | ErrRateLimited | ErrTooMany | ErrBadTopic string | ErrPayloadTooLarge | ErrClosed | ErrHash

definition validateTopic :: "string \<Rightarrow> int \<Rightarrow> string option" where
  "validateTopic topic maxLen =
     (if topic = [] then Some ''empty''
      else if maxLen < int (length topic) then Some ''too long''
      else if list_ex (\<lambda>c. of_char c < (32 :: nat) \<or> of_char c = (127 :: nat)) topic then Some ''contains control character''
      else None)"

definition unionLabels :: "string list \<Rightarrow> string list \<Rightarrow> string list" where
  "unionLabels a b = rev (remdups (rev (filter (\<lambda>s. s \<noteq> []) (a @ b))))"

definition broker_record :: "identity \<Rightarrow> string \<Rightarrow> string \<Rightarrow> string \<Rightarrow> string \<Rightarrow> string list \<Rightarrow> 's broker \<Rightarrow> 's broker" where
  "broker_record i method topic dec reason prov b =
     b\<lparr>b_audit := map_option (\<lambda>rs. rs @ [zero_audit\<lparr>ABackend := ''pubsub'', APeer := id_FQDN i, APeerKey := id_Key i, APeerAddr := id_Addr i,
         AMethod := method, ATool := topic, ADecision := dec, AReason := reason, ARule := -1, Provenance := prov\<rparr>]) (b_audit b)\<rparr>"

definition capAllows :: "crypto \<Rightarrow> instant \<Rightarrow> identity \<Rightarrow> string \<Rightarrow> string \<Rightarrow> 's broker \<Rightarrow> bool \<times> 's broker" where
  "capAllows cr now i topic token b =
     (case b_caps b of
        None \<Rightarrow> (False, b)
      | Some ca \<Rightarrow>
          (if token = [] then (False, b)
           else case Verify cr (ca_codec ca) (ca_use ca) (ca_ver ca) now token (id_Key i) (b_name b) topic of
             (r, v) \<Rightarrow> (\<not> isl r, b\<lparr>b_caps := Some (ca\<lparr>ca_ver := v\<rparr>)\<rparr>)))"

record pub_opts =
  po_Labels :: "string list"
  po_Capability :: string
  po_Retain :: bool
  po_RetainTTL :: duration
  po_RetainDelete :: bool
  po_Encoding :: string
  po_ReplyTo :: string
  po_Corr :: string

record bus_env =
  be_now :: instant
  be_write :: write_fault
  be_flush :: flush_env
  be_reads :: reads

definition pub_method :: string where "pub_method = ''pubsub/publish''"
definition sub_method :: string where "sub_method = ''pubsub/subscribe''"
definition cap_reason :: string where "cap_reason = ''capability grant''"

text \<open>The checks before the decision, each with the reason it is audited with.\<close>

definition pub_fault :: "limits \<Rightarrow> bytes \<Rightarrow> pub_opts \<Rightarrow> (string \<times> bus_err) option" where
  "pub_fault lm payload po =
     (if MaxPayloadBytes lm < int (length payload) then Some (''payload too large'', ErrPayloadTooLarge)
      else if maxEncodingLen < int (length (po_Encoding po)) then Some (''encoding hint too long'', ErrBadTopic ''encoding'')
      else if po_ReplyTo po \<noteq> [] \<and> validateTopic (po_ReplyTo po) (MaxTopicLen lm) \<noteq> None
      then Some (''invalid reply_to'', ErrBadTopic (the (validateTopic (po_ReplyTo po) (MaxTopicLen lm))))
      else if MaxTopicLen lm < int (length (po_Corr po)) then Some (''correlation id too long'', ErrBadTopic ''correlation'')
      else None)"

definition label_fault :: "limits \<Rightarrow> string list \<Rightarrow> (string \<times> bus_err) option" where
  "label_fault lm labels =
     (if MaxLabels lm < int (length labels) then Some (''too many labels'', ErrBadTopic ''labels'')
      else if list_ex (\<lambda>l. MaxTopicLen lm < int (length l)) labels then Some (''label too long'', ErrBadTopic ''label'')
      else None)"

text \<open>The decision of the authorizer, or the capability's upgrade of a default deny.\<close>

definition pub_decide :: "crypto \<Rightarrow> instant \<Rightarrow> identity \<Rightarrow> string \<Rightarrow> string \<Rightarrow> 's broker \<Rightarrow> (string + pub_decision) \<times> 's broker" where
  "pub_decide cr now i topic token b =
     (let dec = auth_Publish (b_auth b) i topic in
      if pd_Allow dec then (Inr dec, b)
      else if pd_Explicit dec then (Inl (pd_Reason dec), b)
      else case capAllows cr now i topic token b of
        (True, b1) \<Rightarrow> (Inr \<lparr>pd_Allow = True, pd_Reason = cap_reason, pd_Labels = [], pd_Explicit = False\<rparr>, b1)
      | (False, b1) \<Rightarrow> (Inl (pd_Reason dec), b1))"

definition raw_payload :: "bytes \<Rightarrow> json option option" where
  "raw_payload p = (if p = [] then Some None else map_option Some (json_parse p))"

text \<open>The next number, the link to the chain and the place in the ring; marshalling fails on a payload that is not JSON.\<close>

definition seal_event :: "crypto \<Rightarrow> bytes \<Rightarrow> event \<Rightarrow> 's broker \<Rightarrow> event option \<times> 's broker" where
  "seal_event cr payload e b =
     (let b1 = b\<lparr>b_seq := u64 (b_seq b + 1)\<rparr> in
      case raw_payload payload of
        None \<Rightarrow> (None, b1)
      | Some p \<Rightarrow>
          (let e1 = e\<lparr>ev_Seq := b_seq b1, ev_Payload := p, ev_PrevHash := b_prev b, ev_Hash := []\<rparr>;
               e2 = e1\<lparr>ev_Hash := ev_chainHash cr e1\<rparr>
           in (Some e2, b1\<lparr>b_prev := ev_Hash e2, b_ring := ring_add e2 (b_ring b)\<rparr>)))"

definition append_event :: "crypto \<Rightarrow> bus_env \<Rightarrow> event \<Rightarrow> 's broker \<Rightarrow> 's broker" where
  "append_event cr env e b = b\<lparr>b_events := map_option (el_append cr (be_write env) (be_flush env) e) (b_events b)\<rparr>"

definition published :: "bus_env \<Rightarrow> identity \<Rightarrow> string \<Rightarrow> string list \<Rightarrow> pub_opts \<Rightarrow> event" where
  "published env i topic labels po =
     zero_event\<lparr>ev_Topic := topic, ev_Time := format_time (be_now env), ev_Publisher := id_Key i, ev_PubFQDN := id_FQDN i,
       ev_Labels := labels, ev_Enc := po_Encoding po, ev_ReplyTo := po_ReplyTo po, ev_Corr := po_Corr po,
       ev_Retain := po_Retain po \<and> \<not> po_RetainDelete po, ev_RetainDel := po_RetainDelete po,
       ev_ExpiresAt := (if po_Retain po \<and> 0 < po_RetainTTL po then format_time (be_now env + po_RetainTTL po) else [])\<rparr>"

definition publish_locked :: "crypto \<Rightarrow> bus_env \<Rightarrow> event \<Rightarrow> bytes \<Rightarrow> 's broker \<Rightarrow> (bus_err + event) \<times> 's broker" where
  "publish_locked cr env e payload b =
     (if b_closed b then (Inl ErrClosed, b)
      else case seal_event cr payload e b of
        (None, b1) \<Rightarrow> (Inl ErrHash, b1)
      | (Some e1, b1) \<Rightarrow> (Inr e1, fanoutLocked (be_reads env) e1 (append_event cr env e1 (applyRetainedLocked (be_now env) e1 b1))))"

definition PublishOpts ::
  "crypto \<Rightarrow> bus_env \<Rightarrow> identity \<Rightarrow> string \<Rightarrow> bytes \<Rightarrow> pub_opts \<Rightarrow> 's broker \<Rightarrow> (bus_err + event) \<times> 's broker" where
  "PublishOpts cr env i topic payload po b =
     (if id_Key i = [] then (Inl (ErrDenied ''unproven identity''), b)
      else case lim_allow (be_now env) (id_Key i) (b_lim b) of (ok, l1) \<Rightarrow>
        (let b1 = b\<lparr>b_lim := l1\<rparr>; deny = (\<lambda>why. broker_record i pub_method topic ''deny'' why []) in
         if \<not> ok then (Inl ErrRateLimited, b1)
         else case validateTopic topic (MaxTopicLen (b_lm b)) of
           Some why \<Rightarrow> (Inl (ErrBadTopic why), b1)
         | None \<Rightarrow>
             (case pub_fault (b_lm b) payload po of
                Some (why, err) \<Rightarrow> (Inl err, deny why b1)
              | None \<Rightarrow>
                  (case pub_decide cr (be_now env) i topic (po_Capability po) b1 of
                     (Inl why, b2) \<Rightarrow> (Inl (ErrDenied why), deny why b2)
                   | (Inr dec, b2) \<Rightarrow>
                       (let labels = unionLabels (pd_Labels dec) (po_Labels po) in
                        case label_fault (b_lm b) labels of
                          Some (why, err) \<Rightarrow> (Inl err, deny why b2)
                        | None \<Rightarrow>
                            (case publish_locked cr env (published env i topic labels po) payload b2 of
                               (Inl err, b3) \<Rightarrow> (Inl err, b3)
                             | (Inr e, b3) \<Rightarrow>
                                 (Inr e, broker_record i pub_method topic ''allow'' (pd_Reason dec) (ev_Labels e) b3)))))))"

definition po_plain :: pub_opts where
  "po_plain = \<lparr>po_Labels = [], po_Capability = [], po_Retain = False, po_RetainTTL = 0, po_RetainDelete = False, po_Encoding = [],
     po_ReplyTo = [], po_Corr = []\<rparr>"

definition PublishCap :: "crypto \<Rightarrow> bus_env \<Rightarrow> identity \<Rightarrow> string \<Rightarrow> bytes \<Rightarrow> string list \<Rightarrow> string \<Rightarrow> 's broker \<Rightarrow> (bus_err + event) \<times> 's broker" where
  "PublishCap cr env i topic payload extraLabels capToken b =
     PublishOpts cr env i topic payload (po_plain\<lparr>po_Labels := extraLabels, po_Capability := capToken\<rparr>) b"

definition Publish :: "crypto \<Rightarrow> bus_env \<Rightarrow> identity \<Rightarrow> string \<Rightarrow> bytes \<Rightarrow> string list \<Rightarrow> 's broker \<Rightarrow> (bus_err + event) \<times> 's broker" where
  "Publish cr env i topic payload extraLabels b = PublishOpts cr env i topic payload (po_plain\<lparr>po_Labels := extraLabels\<rparr>) b"

subsection \<open>Trusted emission\<close>

record retain_spec =
  rs_set :: bool
  rs_del :: bool
  rs_exp :: string

definition emitted :: "bus_env \<Rightarrow> string \<Rightarrow> string list \<Rightarrow> string \<Rightarrow> string \<Rightarrow> retain_spec \<Rightarrow> event" where
  "emitted env topic labels publisher origin r =
     zero_event\<lparr>ev_Topic := topic, ev_Time := format_time (be_now env), ev_Publisher := publisher, ev_Labels := labels, ev_Origin := origin,
       ev_Retain := rs_set r \<and> \<not> rs_del r, ev_RetainDel := rs_del r, ev_ExpiresAt := rs_exp r\<rparr>"

definition emitTrusted ::
  "crypto \<Rightarrow> bus_env \<Rightarrow> string \<Rightarrow> bytes \<Rightarrow> string list \<Rightarrow> string \<Rightarrow> string \<Rightarrow> retain_spec \<Rightarrow> 's broker \<Rightarrow> (bus_err + event) \<times> 's broker" where
  "emitTrusted cr env topic payload labels publisher origin r b =
     (case validateTopic topic (MaxTopicLen (b_lm b)) of
        Some why \<Rightarrow> (Inl (ErrBadTopic why), b)
      | None \<Rightarrow>
          (if MaxPayloadBytes (b_lm b) < int (length payload) then (Inl ErrPayloadTooLarge, b)
           else let ls = unionLabels labels [] in
             if MaxLabels (b_lm b) < int (length ls) then (Inl (ErrBadTopic ''labels''), b)
             else if b_closed b then (Inl ErrClosed, b)
             else case seal_event cr payload (emitted env topic ls publisher origin r) b of
               (None, b1) \<Rightarrow> (Inl ErrHash, b1)
             | (Some e, b1) \<Rightarrow> (Inr e, fanoutLocked (be_reads env) e (applyRetainedLocked (be_now env) e (append_event cr env e b1)))))"

definition EmitInternal :: "crypto \<Rightarrow> bus_env \<Rightarrow> string \<Rightarrow> string \<Rightarrow> bytes \<Rightarrow> string list \<Rightarrow> 's broker \<Rightarrow> (bus_err + event) \<times> 's broker" where
  "EmitInternal cr env source topic payload labels b =
     emitTrusted cr env topic payload labels source [] \<lparr>rs_set = False, rs_del = False, rs_exp = []\<rparr> b"

definition EmitFederated ::
  "crypto \<Rightarrow> bus_env \<Rightarrow> string \<Rightarrow> bytes \<Rightarrow> string list \<Rightarrow> string \<Rightarrow> string \<Rightarrow> bool \<Rightarrow> bool \<Rightarrow> string \<Rightarrow> 's broker \<Rightarrow>
   (bus_err + event) \<times> 's broker" where
  "EmitFederated cr env topic payload labels publisher origin retain retainDel expiresAt b =
     (case lim_allow (be_now env) (''federation:'' @ origin) (b_lim b) of (ok, l1) \<Rightarrow>
        (let b1 = b\<lparr>b_lim := l1\<rparr> in
         if \<not> ok then (Inl ErrRateLimited, b1)
         else let dec = auth_Publish (b_auth b) \<lparr>id_Key = ''federation'', id_FQDN = origin, id_Addr = []\<rparr> topic in
           if pd_Explicit dec \<and> \<not> pd_Allow dec then (Inl (ErrDenied ''local policy''), b1)
           else emitTrusted cr env topic payload (unionLabels labels (pd_Labels dec)) publisher origin
                  \<lparr>rs_set = retain, rs_del = retainDel, rs_exp = expiresAt\<rparr> b1))"

subsection \<open>Subscribing\<close>

record sub_opts =
  so_Topics :: "string list"
  so_Backpressure :: backpressure
  so_Since :: nat
  so_Capability :: string
  so_Group :: string
  so_Ack :: bool

definition sub_fault :: "limits \<Rightarrow> sub_opts \<Rightarrow> bus_err option" where
  "sub_fault lm so =
     (if so_Topics so = [] then Some (ErrBadTopic ''no topic'')
      else if MaxTopicsPerSub lm < int (length (so_Topics so)) then Some ErrTooMany
      else if so_Group so \<noteq> [] \<and> validateTopic (so_Group so) (MaxTopicLen lm) \<noteq> None
      then Some (ErrBadTopic (the (validateTopic (so_Group so) (MaxTopicLen lm))))
      else if so_Group so \<noteq> [] \<and> 0 < so_Since so then Some (ErrBadTopic ''since with group'')
      else if so_Ack so \<and> so_Group so = [] then Some (ErrBadTopic ''ack without group'')
      else None)"

definition sub_decide :: "crypto \<Rightarrow> instant \<Rightarrow> identity \<Rightarrow> string \<Rightarrow> string \<Rightarrow> 's broker \<Rightarrow> (string + sub_decision) \<times> 's broker" where
  "sub_decide cr now i topic token b =
     (let dec = auth_Subscribe (b_auth b) i topic in
      if sd_Allow dec then (Inr dec, b)
      else if sd_Explicit dec then (Inl (sd_Reason dec), b)
      else case capAllows cr now i topic token b of
        (True, b1) \<Rightarrow> (Inr \<lparr>sd_Allow = True, sd_Reason = cap_reason, sd_Clear = [], sd_ClearAll = False, sd_Explicit = False\<rparr>, b1)
      | (False, b1) \<Rightarrow> (Inl (sd_Reason dec), b1))"

definition meet_clear :: "sub_decision \<Rightarrow> string list option \<Rightarrow> string list option" where
  "meet_clear dec c =
     (if sd_ClearAll dec then c
      else case c of None \<Rightarrow> Some (sd_Clear dec) | Some ls \<Rightarrow> Some (filter (\<lambda>l. l \<in> set (sd_Clear dec)) ls))"

text \<open>The topics of a subscription; the clearance so far is \<^const>\<open>None\<close> while every topic was cleared for all labels.\<close>

fun sub_topics ::
  "crypto \<Rightarrow> instant \<Rightarrow> identity \<Rightarrow> string \<Rightarrow> string list \<Rightarrow> string list option \<Rightarrow> 's broker \<Rightarrow> (bus_err + string list option) \<times> 's broker" where
  "sub_topics cr now i token [] c b = (Inr c, b)"
| "sub_topics cr now i token (t # ts) c b =
     (case validateTopic t (MaxTopicLen (b_lm b)) of
        Some why \<Rightarrow> (Inl (ErrBadTopic why), b)
      | None \<Rightarrow>
          (case sub_decide cr now i t token b of
             (Inl why, b1) \<Rightarrow> (Inl (ErrDenied why), broker_record i sub_method t ''deny'' why [] b1)
           | (Inr dec, b1) \<Rightarrow> sub_topics cr now i token ts (meet_clear dec c) b1))"

definition new_sub :: "nat \<Rightarrow> identity \<Rightarrow> sub_opts \<Rightarrow> string list option \<Rightarrow> subscription" where
  "new_sub k i so c =
     \<lparr>s_ID = k, s_ident = i, s_topics = so_Topics so, s_clearAll = (c = None), s_clear = (case c of None \<Rightarrow> [] | Some ls \<Rightarrow> ls),
      s_group = so_Group so, s_ackMode = so_Ack so, s_inflight = [], s_bp = so_Backpressure so, s_ch = [], s_dropped = 0,
      s_truncated = False, s_got = []\<rparr>"

definition register_sub :: "subscription \<Rightarrow> 's broker \<Rightarrow> 's broker" where
  "register_sub s b =
     b\<lparr>b_nextSubID := s_ID s, b_perPeer := (b_perPeer b)(id_Key (s_ident s) := b_perPeer b (id_Key (s_ident s)) + 1),
       b_groupN := (if s_group s = [] then b_groupN b else AList.update (s_group s) (group_count (s_group s) b + 1) (b_groupN b)),
       b_subs := filter (\<lambda>t. s_ID t \<noteq> s_ID s) (b_subs b) @ [s]\<rparr>"

text \<open>A replay stops when back-pressure has closed the subscription; nobody reads from it yet.\<close>

fun deliver_all :: "nat \<Rightarrow> event list \<Rightarrow> 's broker \<Rightarrow> 's broker" where
  "deliver_all k [] b = b"
| "deliver_all k (e # es) b =
     (let b1 = deliverLocked no_reads k e b in case sub_of k b1 of None \<Rightarrow> b1 | Some _ \<Rightarrow> deliver_all k es b1)"

definition replay_since :: "nat \<Rightarrow> subscription \<Rightarrow> 's broker \<Rightarrow> 's broker" where
  "replay_since after s b =
     (case ring_since after (b_ring b) of (es, truncated) \<Rightarrow>
        deliver_all (s_ID s) (filter (sub_accepts s) es) (upd_sub (s_ID s) (\<lambda>s. s\<lparr>s_truncated := truncated\<rparr>) b))"

definition lapsed :: "instant \<Rightarrow> 's broker \<Rightarrow> string \<Rightarrow> bool" where
  "lapsed now b t = (case map_of (b_retainExp b) t of None \<Rightarrow> False | Some e \<Rightarrow> e < now)"

definition deliver_retained :: "instant \<Rightarrow> subscription \<Rightarrow> 's broker \<Rightarrow> 's broker" where
  "deliver_retained now s b =
     (let expired = filter (lapsed now b) (map fst (b_retained b));
          vals = filter (sub_accepts s) (map snd (filter (\<lambda>(t, e). \<not> lapsed now b t) (b_retained b)))
      in deliver_all (s_ID s) (sort_key ev_Seq vals) (drop_topics expired b))"

definition subscribe_locked :: "bus_env \<Rightarrow> identity \<Rightarrow> sub_opts \<Rightarrow> string list option \<Rightarrow> 's broker \<Rightarrow> (bus_err + nat) \<times> 's broker" where
  "subscribe_locked env i so c b =
     (if b_closed b then (Inl ErrClosed, b)
      else if MaxSubs (b_lm b) \<le> int (length (b_subs b)) then (Inl ErrTooMany, b)
      else if MaxSubsPerPeer (b_lm b) \<le> b_perPeer b (id_Key i) then (Inl ErrTooMany, b)
      else let k = u64 (b_nextSubID b + 1);
               s = new_sub k i so c;
               b1 = register_sub s b;
               b2 = (if 0 < so_Since so then replay_since (so_Since so) s b1 else b1);
               b3 = (if so_Since so = 0 \<and> so_Group so = [] then deliver_retained (be_now env) s b2 else b2);
               b4 = (if so_Ack so then drainGroupPendingLocked (be_reads env) (so_Group so) b3 else b3)
           in (Inr k, b4))"

definition join_topics :: "string list \<Rightarrow> string" where
  "join_topics ts = (case ts of [] \<Rightarrow> [] | t # us \<Rightarrow> t @ concat (map (\<lambda>u. CHR '','' # u) us))"

definition Subscribe :: "crypto \<Rightarrow> bus_env \<Rightarrow> identity \<Rightarrow> sub_opts \<Rightarrow> 's broker \<Rightarrow> (bus_err + nat) \<times> 's broker" where
  "Subscribe cr env i so b =
     (if id_Key i = [] then (Inl (ErrDenied ''unproven identity''), b)
      else case lim_allow (be_now env) (id_Key i) (b_lim b) of (ok, l1) \<Rightarrow>
        (let b1 = b\<lparr>b_lim := l1\<rparr> in
         if \<not> ok then (Inl ErrRateLimited, b1)
         else case sub_fault (b_lm b) so of
           Some err \<Rightarrow> (Inl err, b1)
         | None \<Rightarrow>
             (case sub_topics cr (be_now env) i (so_Capability so) (so_Topics so) None b1 of
                (Inl err, b2) \<Rightarrow> (Inl err, b2)
              | (Inr c, b2) \<Rightarrow>
                  (case subscribe_locked env i so c b2 of
                     (Inl err, b3) \<Rightarrow> (Inl err, b3)
                   | (Inr k, b3) \<Rightarrow> (Inr k, broker_record i sub_method (join_topics (so_Topics so)) ''allow'' ''subscribed'' [] b3)))))"

definition Unsubscribe :: "reads \<Rightarrow> nat \<Rightarrow> 's broker \<Rightarrow> 's broker" where
  "Unsubscribe rd k b = closeSubLocked rd k b"

definition Ack :: "reads \<Rightarrow> nat \<Rightarrow> nat \<Rightarrow> 's broker \<Rightarrow> 's broker" where
  "Ack rd k seq b =
     (case List.find (\<lambda>s. s_ID s = k) (b_subs b @ b_ended b) of
        None \<Rightarrow> b
      | Some s \<Rightarrow> drainGroupPendingLocked rd (s_group s) (upd_any k (\<lambda>s. s\<lparr>s_inflight := AList.delete seq (s_inflight s)\<rparr>) b))"

definition CloseBroker :: "'s broker \<Rightarrow> 's broker" where
  "CloseBroker b =
     (if b_closed b then b
      else b\<lparr>b_closed := True, b_ended := b_subs b @ b_ended b, b_subs := [], b_perPeer := (\<lambda>_. 0), b_groupN := [], b_groupRR := (\<lambda>_. 0),
             b_groupPend := (\<lambda>_. []), b_retained := [], b_retainExp := []\<rparr>)"

subsection \<open>Introspection\<close>

record stats =
  st_Subscriptions :: nat
  st_Groups :: nat
  st_Sequence :: nat
  st_Retained :: nat
  st_Dropped :: nat

definition Stats :: "'s broker \<Rightarrow> stats" where
  "Stats b = \<lparr>st_Subscriptions = length (b_subs b), st_Groups = length (b_groupN b), st_Sequence = b_seq b, st_Retained = r_n (b_ring b),
     st_Dropped = b_dropped b\<rparr>"

definition Retained :: "'s broker \<Rightarrow> event list" where
  "Retained b = ring_snapshot (b_ring b)"

subsection \<open>A run of the broker\<close>

datatype bus_op =
    OpPublish bus_env identity string bytes pub_opts
  | OpInternal bus_env string string bytes "string list"
  | OpFederated bus_env string bytes "string list" string string bool bool string
  | OpSubscribe bus_env identity sub_opts
  | OpUnsubscribe reads nat
  | OpAck reads nat nat
  | OpRead nat
  | OpClose

definition new_event :: "(bus_err + event) \<times> 's broker \<Rightarrow> event list \<times> 's broker" where
  "new_event r = (case r of (Inl _, b) \<Rightarrow> ([], b) | (Inr e, b) \<Rightarrow> ([e], b))"

fun bus_do :: "crypto \<Rightarrow> bus_op \<Rightarrow> 's broker \<Rightarrow> event list \<times> 's broker" where
  "bus_do cr (OpPublish env i t p po) b = new_event (PublishOpts cr env i t p po b)"
| "bus_do cr (OpInternal env src t p ls) b = new_event (EmitInternal cr env src t p ls b)"
| "bus_do cr (OpFederated env t p ls who origin keep del until) b = new_event (EmitFederated cr env t p ls who origin keep del until b)"
| "bus_do cr (OpSubscribe env i so) b = ([], snd (Subscribe cr env i so b))"
| "bus_do cr (OpUnsubscribe rd k) b = ([], Unsubscribe rd k b)"
| "bus_do cr (OpAck rd k n) b = ([], Ack rd k n b)"
| "bus_do cr (OpRead k) b = ([], sub_C k b)"
| "bus_do cr OpClose b = ([], CloseBroker b)"

fun bus_run :: "crypto \<Rightarrow> bus_op list \<Rightarrow> 's broker \<Rightarrow> event list \<times> 's broker" where
  "bus_run cr [] b = ([], b)"
| "bus_run cr (x # xs) b = (case bus_do cr x b of (es, b1) \<Rightarrow> case bus_run cr xs b1 of (fs, b2) \<Rightarrow> (es @ fs, b2))"

end
