(* ===== verification/BrokerInv.thy ===== *)
theory BrokerInv
  imports Broker
begin

text \<open>
  What the operations of the broker keep: the fields a delivery leaves alone, and a contract for invariants of the
  subscriptions, which gives their preservation along every run of the broker once the single events in the life of
  a subscription are shown to keep them.
\<close>

subsection \<open>What delivery leaves alone\<close>

definition bus_core where
  "bus_core b = (b_auth b, b_audit b, b_events b, b_name b, b_caps b, b_lim b, b_lm b, b_seq b, b_prev b, b_retained b, b_retainExp b,
     b_nextSubID b, b_ring b, b_closed b)"

lemma core_fields:
  assumes "bus_core b = bus_core b'"
  shows "b_auth b = b_auth b'" "b_events b = b_events b'" "b_lm b = b_lm b'" "b_seq b = b_seq b'" "b_prev b = b_prev b'"
    "b_retained b = b_retained b'" "b_retainExp b = b_retainExp b'" "b_nextSubID b = b_nextSubID b'" "b_ring b = b_ring b'"
    "b_closed b = b_closed b'" "b_audit b = b_audit b'"
  using assms by (simp_all add: bus_core_def)

lemma core_upd [simp]:
  "bus_core (upd_sub k f b) = bus_core b" "bus_core (upd_any k f b) = bus_core b" "bus_core (sub_C k b) = bus_core b"
  "bus_core (count_dropped n b) = bus_core b"
  by (simp_all add: bus_core_def upd_sub_def upd_any_def sub_C_def count_dropped_def)

lemma core_fold [simp]: "(\<And>x b. x \<in> set xs \<Longrightarrow> bus_core (f x b) = bus_core b) \<Longrightarrow> bus_core (fold f xs b) = bus_core b"
  by (induction xs arbitrary: b) simp_all

lemma core_updates [simp]:
  "bus_core (b\<lparr>b_subs := x1\<rparr>) = bus_core b" "bus_core (b\<lparr>b_ended := x1\<rparr>) = bus_core b" "bus_core (b\<lparr>b_perPeer := x2\<rparr>) = bus_core b"
  "bus_core (b\<lparr>b_groupRR := x3\<rparr>) = bus_core b" "bus_core (b\<lparr>b_groupN := x4\<rparr>) = bus_core b"
  "bus_core (b\<lparr>b_groupPend := x5\<rparr>) = bus_core b" "bus_core (b\<lparr>b_dropped := x6\<rparr>) = bus_core b"
  by (simp_all add: bus_core_def)

lemma core_place [simp]: "bus_core (snd (tryPlaceOnGroupLocked g ms e b)) = bus_core b"
  by (auto simp: tryPlaceOnGroupLocked_def Let_def split: option.split)

lemma core_placeD: "tryPlaceOnGroupLocked g ms e b = (r, b') \<Longrightarrow> bus_core b' = bus_core b"
  by (metis core_place snd_conv)

lemma core_drain_loop: "drain_loop rd i g q b = (q', b') \<Longrightarrow> bus_core b' = bus_core b"
proof (induction q arbitrary: i b)
  case (Cons e q)
  then show ?case by (auto simp: Let_def split: prod.splits bool.splits dest!: core_placeD)
qed simp

lemma core_drain [simp]: "bus_core (drainGroupPendingLocked rd g b) = bus_core b"
  by (auto simp: drainGroupPendingLocked_def dest: core_drain_loop split: prod.split)

lemma core_enqueue [simp]: "bus_core (enqueueGroupPendingLocked g e b) = bus_core b"
  by (simp add: enqueueGroupPendingLocked_def Let_def)

lemma core_leave [simp]: "bus_core (leave_group rd s b) = bus_core b"
  by (simp add: leave_group_def requeue_def Let_def)

lemma core_close [simp]: "bus_core (closeSubLocked rd k b) = bus_core b"
  by (simp add: closeSubLocked_def Let_def split: option.split)

lemma core_deliver [simp]: "bus_core (deliverLocked rd k e b) = bus_core b"
  by (simp add: deliverLocked_def Let_def split: option.split)

lemma core_group [simp]: "bus_core (deliverToGroupLocked rd e g b) = bus_core b"
  by (auto simp: deliverToGroupLocked_def Let_def dest!: core_placeD split: prod.split bool.split list.split)

lemma core_fanout [simp]: "bus_core (fanoutLocked rd e b) = bus_core b"
  by (simp add: fanoutLocked_def Let_def fanout_one_def split: option.split)

lemma core_ack [simp]: "bus_core (Ack rd k n b) = bus_core b"
  by (simp add: Ack_def split: option.split)

lemma core_deliver_all [simp]: "bus_core (deliver_all k es b) = bus_core b"
  by (induction es arbitrary: b) (simp_all add: Let_def split: option.split)

subsection \<open>Invariants of the subscriptions\<close>

definition sub_conf where
  "sub_conf s = (s_ID s, s_ident s, s_topics s, s_clearAll s, s_clear s, s_group s, s_ackMode s, s_bp s)"

lemma conf_fields:
  assumes "sub_conf s = sub_conf s'"
  shows "s_ID s = s_ID s'" "s_ident s = s_ident s'" "s_topics s = s_topics s'" "s_clearAll s = s_clearAll s'" "s_clear s = s_clear s'"
    "s_group s = s_group s'" "s_ackMode s = s_ackMode s'" "s_bp s = s_bp s'" "sub_accepts s e = sub_accepts s' e"
  using assms by (simp_all add: sub_conf_def sub_accepts_def)

lemma conf_ops [simp]:
  "sub_conf (sub_send e s) = sub_conf s" "sub_conf (sub_recv s) = sub_conf s" "sub_conf (place e s) = sub_conf s"
  "sub_conf (s\<lparr>s_ch := ch\<rparr>) = sub_conf s" "sub_conf (s\<lparr>s_dropped := n\<rparr>) = sub_conf s" "sub_conf (s\<lparr>s_inflight := fl\<rparr>) = sub_conf s"
  "sub_conf (s\<lparr>s_truncated := tr\<rparr>) = sub_conf s"
  by (simp_all add: sub_conf_def sub_send_def sub_recv_def place_def split: list.split)

lemma conf_ID [simp]:
  "s_ID (sub_send e s) = s_ID s" "s_ID (sub_recv s) = s_ID s" "s_ID (place e s) = s_ID s"
  by (simp_all add: sub_send_def sub_recv_def place_def split: list.split)

definition ids_ok :: "'s broker \<Rightarrow> bool" where
  "ids_ok b = distinct (map s_ID (b_subs b))"

lemma find_SomeD: "List.find P xs = Some x \<Longrightarrow> x \<in> set xs \<and> P x"
  by (induction xs) (auto split: if_splits)

lemma find_key: "distinct (map f xs) \<Longrightarrow> List.find (\<lambda>x. f x = k) xs = Some x \<longleftrightarrow> x \<in> set xs \<and> f x = k"
  by (induction xs) (auto simp: image_iff)

lemma sub_of_Some: "ids_ok b \<Longrightarrow> sub_of k b = Some s \<longleftrightarrow> s \<in> set (b_subs b) \<and> s_ID s = k"
  unfolding ids_ok_def sub_of_def by (rule find_key)

lemma sub_of_mem: "sub_of k b = Some s \<Longrightarrow> s \<in> set (b_subs b) \<and> s_ID s = k"
  unfolding sub_of_def by (rule find_SomeD)

lemma sub_of_None: "sub_of k b = None \<longleftrightarrow> k \<notin> s_ID ` set (b_subs b)"
  by (auto simp: sub_of_def find_None_iff)

text \<open>A property of a subscription that survives what its reader and the broker do to it holds of every subscription,
  open or ended, in every state of the broker.\<close>

locale sub_invariant =
  fixes Q :: "subscription \<Rightarrow> bool" and lm :: limits
  assumes recv: "Q s \<Longrightarrow> Q (sub_recv s)"
    and send: "Q s \<Longrightarrow> sub_accepts s e \<Longrightarrow> has_room lm s \<Longrightarrow> Q (sub_send e s)"
    and placed: "Q s \<Longrightarrow> sub_accepts s e \<Longrightarrow> can_place lm s \<Longrightarrow> Q (place e s)"
    and evict: "Q s \<Longrightarrow> Q (s\<lparr>s_ch := tl (s_ch s)\<rparr>)"
    and dropped: "Q s \<Longrightarrow> Q (s\<lparr>s_dropped := n\<rparr>)"
    and truncated: "Q s \<Longrightarrow> Q (s\<lparr>s_truncated := t\<rparr>)"
    and acked: "Q s \<Longrightarrow> Q (s\<lparr>s_inflight := AList.delete k (s_inflight s)\<rparr>)"
    and released: "Q s \<Longrightarrow> Q (s\<lparr>s_inflight := []\<rparr>)"
begin

definition holds :: "'s broker \<Rightarrow> bool" where
  "holds b = (ids_ok b \<and> b_lm b = lm \<and> (\<forall>s\<in>set (b_subs b) \<union> set (b_ended b). Q s))"

lemma holdsD: "holds b \<Longrightarrow> s \<in> set (b_subs b) \<Longrightarrow> Q s"
  by (simp add: holds_def)

lemma holds_cong: "holds b \<Longrightarrow> b_subs b' = b_subs b \<Longrightarrow> b_ended b' = b_ended b \<Longrightarrow> b_lm b' = b_lm b \<Longrightarrow> holds b'"
  by (simp add: holds_def ids_ok_def)

lemma holds_updates [simp]:
  "holds (b\<lparr>b_perPeer := x2\<rparr>) = holds b" "holds (b\<lparr>b_groupRR := x3\<rparr>) = holds b" "holds (b\<lparr>b_groupN := x4\<rparr>) = holds b"
  "holds (b\<lparr>b_groupPend := x5\<rparr>) = holds b" "holds (count_dropped n b) = holds b" "holds (b\<lparr>b_lim := x6\<rparr>) = holds b"
  "holds (b\<lparr>b_caps := x7\<rparr>) = holds b" "holds (b\<lparr>b_audit := x8\<rparr>) = holds b" "holds (b\<lparr>b_events := x9\<rparr>) = holds b"
  "holds (b\<lparr>b_retained := y1\<rparr>) = holds b" "holds (b\<lparr>b_retainExp := y2\<rparr>) = holds b" "holds (b\<lparr>b_seq := y3\<rparr>) = holds b"
  "holds (b\<lparr>b_prev := y4\<rparr>) = holds b" "holds (b\<lparr>b_ring := y5\<rparr>) = holds b"
  by (simp_all add: holds_def ids_ok_def count_dropped_def)

lemma holds_upd_sub:
  assumes "holds b" "\<And>s. s \<in> set (b_subs b) \<Longrightarrow> s_ID s = k \<Longrightarrow> Q (f s) \<and> s_ID (f s) = k"
  shows "holds (upd_sub k f b)"
proof -
  have "map s_ID (b_subs (upd_sub k f b)) = map s_ID (b_subs b)" using assms(2) by (auto simp: upd_sub_def)
  moreover have "\<forall>s\<in>set (b_subs (upd_sub k f b)). Q s" "b_lm (upd_sub k f b) = b_lm b" "b_ended (upd_sub k f b) = b_ended b"
    using assms by (auto simp: upd_sub_def holds_def)
  ultimately show ?thesis using assms(1) unfolding holds_def ids_ok_def by auto
qed

lemma holds_upd_any:
  assumes "holds b" "\<And>s. Q s \<Longrightarrow> Q (f s)" "\<And>s. s_ID (f s) = s_ID s"
  shows "holds (upd_any k f b)"
proof -
  have "holds (upd_sub k f b)" using assms by (intro holds_upd_sub) (auto simp: holds_def)
  then show ?thesis using assms unfolding holds_def ids_ok_def upd_any_def upd_sub_def by auto
qed

lemma holds_read: "holds b \<Longrightarrow> holds (sub_C k b)"
  unfolding sub_C_def by (intro holds_upd_any recv) simp_all

lemma holds_reads: "holds b \<Longrightarrow> holds (fold sub_C ks b)"
  by (induction ks arbitrary: b) (simp_all add: holds_read)

lemma holds_place:
  assumes "holds b" "tryPlaceOnGroupLocked g (group_members e g b) e b = (r, b')"
  shows "holds b'"
proof -
  have "holds (upd_sub (s_ID s) (place e) (b\<lparr>b_groupRR := x\<rparr>))"
    if "List.find (can_place (b_lm b)) (rotate n (sort_key s_ID (group_members e g b))) = Some s" for s n x
  proof -
    have "s \<in> set (rotate n (sort_key s_ID (group_members e g b)))" "can_place lm s"
      using find_SomeD [OF that] assms(1) by (simp_all add: holds_def)
    then have s: "s \<in> set (b_subs b)" "sub_accepts s e" "can_place lm s" by (simp_all add: group_members_def)
    have "t = s" if "t \<in> set (b_subs b)" "s_ID t = s_ID s" for t
      using that s(1) assms(1) by (auto simp: holds_def ids_ok_def distinct_map dest: inj_onD)
    then show ?thesis using s assms(1) by (intro holds_upd_sub) (auto intro: placed holdsD)
  qed
  then show ?thesis using assms by (auto simp: tryPlaceOnGroupLocked_def Let_def split: if_splits option.splits)
qed

lemma holds_drain_loop: "holds b \<Longrightarrow> drain_loop rd i g q b = (q', b') \<Longrightarrow> holds b'"
proof (induction q arbitrary: i b)
  case (Cons e q)
  have "holds (fold sub_C (rd i) b)" using Cons.prems(1) by (rule holds_reads)
  then show ?case using Cons.prems(2) Cons.IH by (auto simp: Let_def split: prod.splits bool.splits dest: holds_place)
qed simp

lemma holds_drain: "holds b \<Longrightarrow> holds (drainGroupPendingLocked rd g b)"
  by (auto simp: drainGroupPendingLocked_def dest: holds_drain_loop split: prod.split)

lemma holds_leave: "holds b \<Longrightarrow> holds (leave_group rd s b)"
  by (auto simp: leave_group_def requeue_def Let_def intro!: holds_drain)

lemma holds_close: "holds b \<Longrightarrow> holds (closeSubLocked rd k b)"
proof (cases "sub_of k b")
  case (Some s)
  assume b: "holds b"
  then have "Q s" using Some sub_of_mem [OF Some] by (simp add: holds_def)
  moreover have "holds (b\<lparr>b_subs := filter (\<lambda>s. s_ID s \<noteq> k) (b_subs b), b_perPeer := p, b_ended := t # b_ended b\<rparr>)" if "Q t" for p t
    using b that by (auto simp: holds_def ids_ok_def distinct_map_filter)
  ultimately show ?thesis using Some released by (auto simp: closeSubLocked_def Let_def intro!: holds_leave)
qed (simp add: closeSubLocked_def)

lemma holds_deliver:
  assumes "holds b" "\<And>s. sub_of k b = Some s \<Longrightarrow> sub_accepts s e"
  shows "holds (deliverLocked rd k e b)"
proof (cases "sub_of k b")
  case (Some s)
  have s: "Q s" "sub_accepts s e" "s_ID s = k" "b_lm b = lm"
    using assms Some sub_of_mem [OF Some] by (simp_all add: holds_def)
  have only: "t = s" if "t \<in> set (b_subs b)" "s_ID t = k" for t
    using that assms(1) Some sub_of_Some [of b k t] by (simp add: holds_def)
  let ?s1 = "if rd_retry rd k then sub_recv s else s"
  let ?s2 = "if rd_evict rd k then sub_recv ?s1 else ?s1"
  let ?s3 = "?s2\<lparr>s_ch := tl (s_ch ?s2)\<rparr>"
  let ?s4 = "if has_room lm ?s3 then sub_send e ?s3 else ?s3"
  have acc: "sub_accepts ?s1 e" "sub_accepts ?s3 e"
    using s(2) conf_fields(9) [of ?s1 s e] conf_fields(9) [of ?s3 s e] by simp_all
  have Q1: "Q ?s1" and Q3: "Q ?s3" using s(1) by (auto intro!: evict recv)
  then have Q4: "Q ?s4" using acc(2) by (simp add: send)
  have "holds (upd_sub k (sub_send e) b)" if "has_room lm s"
    using that s by (intro holds_upd_sub assms(1)) (auto dest: only intro: send)
  moreover have "holds (upd_sub k (\<lambda>_. sub_send e ?s1) b)" if "has_room lm ?s1"
    using that s Q1 acc(1) by (intro holds_upd_sub assms(1)) (auto intro: send)
  moreover have "holds (upd_sub k (\<lambda>_. ?s4\<lparr>s_dropped := n\<rparr>) b)" for n
    using s Q4 by (intro holds_upd_sub assms(1)) (auto intro: dropped)
  ultimately show ?thesis using Some s(4) holds_close [OF assms(1)] unfolding deliverLocked_def Let_def by simp
qed (use assms in \<open>simp add: deliverLocked_def\<close>)

lemma holds_group:
  assumes "holds b"
  shows "holds (deliverToGroupLocked rd e g b)"
proof -
  let ?ms = "group_members e g b"
  obtain r b1 where t: "tryPlaceOnGroupLocked g ?ms e b = (r, b1)" by fastforce
  have h: "holds b1" using holds_place [OF assms t] .
  have same: "b_subs b1 = b_subs b" if "\<not> r" using t that by (auto simp: tryPlaceOnGroupLocked_def Let_def split: if_splits option.splits)
  have "holds (deliverLocked rd (s_ID s) e b1)" if "\<not> r" "sort_key s_ID ?ms = s # ss" for s ss
  proof (rule holds_deliver [OF h])
    fix t assume "sub_of (s_ID s) b1 = Some t"
    moreover have "s \<in> set (sort_key s_ID ?ms)" using that(2) by simp
    then have "s \<in> set (b_subs b)" "sub_accepts s e" by (simp_all add: group_members_def)
    ultimately show "sub_accepts t e" using sub_of_Some [of b1 "s_ID s" s] h same [OF that(1)] by (simp add: holds_def)
  qed
  then show ?thesis using t h by (auto simp: deliverToGroupLocked_def enqueueGroupPendingLocked_def Let_def split: bool.split list.split)
qed

lemma holds_fanout_one: "holds b \<Longrightarrow> holds (fanout_one rd e k b)"
  by (auto simp: fanout_one_def intro!: holds_deliver split: option.split)

lemma holds_fold: "(\<And>x b. holds b \<Longrightarrow> holds (f x b)) \<Longrightarrow> holds b \<Longrightarrow> holds (fold f xs b)"
  by (induction xs arbitrary: b) simp_all

lemma holds_fanout: "holds b \<Longrightarrow> holds (fanoutLocked rd e b)"
  by (simp add: fanoutLocked_def Let_def holds_fold holds_group holds_fanout_one)

lemma holds_ack: "holds b \<Longrightarrow> holds (Ack rd k n b)"
  unfolding Ack_def by (auto intro!: holds_drain holds_upd_any acked split: option.split)

lemma holds_CloseBroker: "holds b \<Longrightarrow> holds (CloseBroker b)"
  by (auto simp: CloseBroker_def holds_def ids_ok_def)

end

subsection \<open>A delivery to an ungrouped subscription\<close>

definition offer :: "limits \<Rightarrow> bool \<Rightarrow> bool \<Rightarrow> event \<Rightarrow> subscription \<Rightarrow> subscription option" where
  "offer lm r1 r2 e s =
     (if has_room lm s then Some (sub_send e s)
      else if s_bp s = Disconnect then None
      else let s1 = (if r1 then sub_recv s else s)
           in if has_room lm s1 then Some (sub_send e s1)
              else let s2 = (if r2 then sub_recv s1 else s1);
                       s3 = s2\<lparr>s_ch := tl (s_ch s2)\<rparr>;
                       s4 = (if has_room lm s3 then sub_send e s3 else s3)
                   in Some (s4\<lparr>s_dropped := u64 (s_dropped s4 + 1)\<rparr>))"

lemma find_upd:
  assumes "\<And>x. x \<in> set xs \<Longrightarrow> f x = k \<Longrightarrow> f (g x) = k"
  shows "List.find (\<lambda>x. f x = j) (map (\<lambda>x. if f x = k then g x else x) xs) =
    (if j = k then map_option g (List.find (\<lambda>x. f x = k) xs) else List.find (\<lambda>x. f x = j) xs)"
  using assms by (induction xs) auto

lemma sub_of_upd:
  "(\<And>s. s \<in> set (b_subs b) \<Longrightarrow> s_ID s = k \<Longrightarrow> s_ID (f s) = k) \<Longrightarrow>
   sub_of j (upd_sub k f b) = (if j = k then map_option f (sub_of k b) else sub_of j b)"
  by (simp add: sub_of_def upd_sub_def find_upd)

lemma sub_of_count [simp]: "sub_of k (count_dropped n b) = sub_of k b"
  by (simp add: sub_of_def count_dropped_def)

lemma find_other:
  "List.find (\<lambda>x. f x = j) (filter (\<lambda>x. f x \<noteq> k) xs) = (if j = k then None else List.find (\<lambda>x. f x = j) xs)"
  by (induction xs) auto

lemma find_new: "List.find (\<lambda>x. f x = f s) (filter (\<lambda>x. f x \<noteq> f s) xs @ [s]) = Some s"
  by (induction xs) auto

lemma sub_of_close_plain:
  assumes "sub_of k b = Some s" "s_group s = []"
  shows "sub_of j (closeSubLocked rd k b) = (if j = k then None else sub_of j b)"
  using assms by (simp add: closeSubLocked_def Let_def sub_of_def find_other)

lemma sub_of_deliver:
  assumes "sub_of k b = Some s" "s_group s = []"
  shows "sub_of j (deliverLocked rd k e b) = (if j = k then offer (b_lm b) (rd_retry rd k) (rd_evict rd k) e s else sub_of j b)"
proof -
  have k: "s_ID s = k" using sub_of_mem [OF assms(1)] by simp
  then have "sub_of j (upd_sub k (\<lambda>_. s') b) = (if j = k then Some s' else sub_of j b)" if "s_ID s' = k" for s'
    using that assms(1) sub_of_upd [of b k "\<lambda>_. s'" j] by simp
  then show ?thesis using assms k sub_of_close_plain [OF assms]
    by (auto simp: deliverLocked_def offer_def Let_def sub_of_upd)
qed

lemma offer_conf: "offer lm r1 r2 e s = Some s' \<Longrightarrow> sub_conf s' = sub_conf s"
  by (auto simp: offer_def Let_def split: if_splits)

context sub_invariant
begin

lemma holds_deliver_all:
  assumes "holds b" "\<And>s. sub_of k b = Some s \<Longrightarrow> s_group s = [] \<and> list_all (sub_accepts s) es"
  shows "holds (deliver_all k es b)"
  using assms
proof (induction es arbitrary: b)
  case (Cons e es)
  let ?b = "deliverLocked no_reads k e b"
  have "holds ?b" using Cons.prems by (auto intro: holds_deliver)
  moreover have "s_group s' = [] \<and> list_all (sub_accepts s') es" if "sub_of k ?b = Some s'" for s'
  proof (cases "sub_of k b")
    case None
    then show ?thesis using that by (simp add: deliverLocked_def)
  next
    case (Some s)
    then have "s_group s = []" "list_all (sub_accepts s) es" using Cons.prems(2) by auto
    then have "sub_conf s' = sub_conf s" using that Some offer_conf by (auto simp: sub_of_deliver)
    note c = conf_fields(6,9) [OF this]
    show ?thesis using \<open>s_group s = []\<close> \<open>list_all (sub_accepts s) es\<close> by (simp add: c list_all_iff)
  qed
  ultimately show ?case using Cons.IH by (auto simp: Let_def split: option.split)
qed simp

lemma holds_register: "holds b \<Longrightarrow> Q s \<Longrightarrow> holds (register_sub s b)"
  by (auto simp: holds_def ids_ok_def register_sub_def distinct_map_filter)

lemma sub_of_register: "holds b \<Longrightarrow> sub_of (s_ID s) (register_sub s b) = Some s"
  by (simp add: register_sub_def sub_of_def find_new)

lemma holds_drop [simp]: "holds (drop_topics ts b) = holds b"
  by (simp add: drop_topics_def)

lemma holds_subscribe_locked:
  assumes "holds b" "sub_fault (b_lm b) so = None" "\<And>k. Q (new_sub k i so c)"
  shows "holds (snd (subscribe_locked env i so c b))"
proof -
  define k s where "k = u64 (b_nextSubID b + 1)" and "s = new_sub k i so c"
  have s: "s_ID s = k" "s_group s = so_Group so" by (simp_all add: s_def new_sub_def)
  have b1: "holds (register_sub s b)" using assms(1,3) by (auto simp: s_def intro: holds_register)
  have reg: "sub_of k (register_sub s b) = Some s" using sub_of_register [OF assms(1), of s] s by simp
  define b2 where "b2 = (if 0 < so_Since so then replay_since (so_Since so) s (register_sub s b) else register_sub s b)"
  have b2: "holds b2"
  proof (cases "0 < so_Since so")
    case True
    have g: "s_group s = []" using True assms(2) s by (auto simp: sub_fault_def split: if_splits)
    define u where "u tr = upd_sub k (\<lambda>s. s\<lparr>s_truncated := tr\<rparr>) (register_sub s b)" for tr
    have "holds (u tr)" for tr unfolding u_def using b1 by (intro holds_upd_sub) (auto intro: truncated holdsD)
    moreover have "sub_of k (u tr) = Some (s\<lparr>s_truncated := tr\<rparr>)" for tr using reg by (simp add: u_def sub_of_upd)
    moreover have "sub_accepts (s\<lparr>s_truncated := tr\<rparr>) = sub_accepts s" for tr by (simp add: sub_accepts_def fun_eq_iff)
    ultimately have "holds (deliver_all k (filter (sub_accepts s) es) (u tr))" for es tr
      using g by (intro holds_deliver_all) (auto simp: list_all_iff)
    then show ?thesis using True s by (simp add: b2_def replay_since_def u_def split: prod.split)
  qed (simp add: b2_def b1)
  define b3 where "b3 = (if so_Since so = 0 \<and> so_Group so = [] then deliver_retained (be_now env) s b2 else b2)"
  have b3: "holds b3"
  proof (cases "so_Since so = 0 \<and> so_Group so = []")
    case True
    then have "sub_of k (drop_topics ts b2) = Some s" for ts using reg by (simp add: b2_def drop_topics_def sub_of_def)
    then show ?thesis using True s b2 by (auto simp: b3_def deliver_retained_def Let_def list_all_iff intro!: holds_deliver_all)
  next
    case False
    then show ?thesis using b2 unfolding b3_def by auto
  qed
  then show ?thesis using assms(1) holds_drain [OF b3]
    by (auto simp: subscribe_locked_def Let_def k_def s_def b2_def b3_def)
qed

lemma holds_set_expiry [simp]: "holds (set_expiry t u b) = holds b"
  by (simp add: set_expiry_def)

lemma holds_retain [simp]: "holds (applyRetainedLocked now e b) = holds b"
  by (simp add: applyRetainedLocked_def sweepExpiredRetainedLocked_def Let_def)

lemma holds_cap [simp]: "holds (snd (capAllows cr now i t tok b)) = holds b"
  by (simp add: capAllows_def split: option.split prod.split)

lemma holds_record [simp]: "holds (broker_record i m t d r p b) = holds b"
  by (simp add: broker_record_def)

lemma holds_append [simp]: "holds (append_event cr env e b) = holds b"
  by (simp add: append_event_def)

lemma holds_seal [simp]: "holds (snd (seal_event cr p e b)) = holds b"
  by (simp add: seal_event_def Let_def split: option.split)

end

subsection \<open>Invariants along a run\<close>

lemma capAllows_core:
  "b_auth (snd (capAllows cr now i t tok b)) = b_auth b" "b_lm (snd (capAllows cr now i t tok b)) = b_lm b"
  by (simp_all add: capAllows_def split: option.split prod.split)

lemma sub_decide_pair:
  assumes "sub_decide cr now i t tok b = (r, b')"
  shows "b' = b \<or> b' = snd (capAllows cr now i t tok b)"
  using assms by (auto simp: sub_decide_def Let_def split: if_splits prod.splits bool.splits)

lemma pub_decide_pair:
  assumes "pub_decide cr now i t tok b = (r, b')"
  shows "b' = b \<or> b' = snd (capAllows cr now i t tok b)"
  using assms by (auto simp: pub_decide_def Let_def split: if_splits prod.splits bool.splits)

text \<open>Authorising the topics of a subscription only records denials and spends capabilities.\<close>

lemma sub_topics_keeps:
  assumes "\<And>t b. P (snd (capAllows cr now i t tok b)) = P b" "\<And>m t d w pv b. P (broker_record i m t d w pv b) = P b"
  shows "sub_topics cr now i tok ts c b = (r, b') \<Longrightarrow> P b' = P b"
proof (induction ts arbitrary: c b)
  case (Cons t ts)
  have "P b1 = P b" if "sub_decide cr now i t tok b = (x, b1)" for x b1
    using sub_decide_pair [OF that] assms(1) by auto
  then show ?case using Cons assms(2) by (auto split: option.splits prod.splits sum.splits)
qed simp

lemma sub_topics_fields:
  "sub_topics cr now i tok ts c b = (r, b') \<Longrightarrow> b_auth b' = b_auth b \<and> b_lm b' = b_lm b"
  using sub_topics_keeps [where P = "\<lambda>b. (b_auth b, b_lm b)"] capAllows_core by (fastforce simp: broker_record_def)

text \<open>The fields no operation changes.\<close>

lemma core_retain:
  "b_auth (applyRetainedLocked now e b) = b_auth b" "b_lm (applyRetainedLocked now e b) = b_lm b"
  "b_subs (applyRetainedLocked now e b) = b_subs b"
  by (simp_all add: applyRetainedLocked_def sweepExpiredRetainedLocked_def drop_topics_def set_expiry_def Let_def)

text \<open>What the clearance of a subscription says: every topic was allowed with at least that clearance, or granted by a
  capability, which clears nothing.\<close>

definition cleared_by :: "sub_decision \<Rightarrow> string list option \<Rightarrow> bool" where
  "cleared_by dec c =
     (if sd_Allow dec then sd_ClearAll dec \<or> (case c of None \<Rightarrow> False | Some ls \<Rightarrow> set ls \<subseteq> set (sd_Clear dec))
      else \<not> sd_Explicit dec \<and> c = Some [])"

definition clear_le :: "string list option \<Rightarrow> string list option \<Rightarrow> bool" where
  "clear_le c c' = (case c' of None \<Rightarrow> True | Some ls' \<Rightarrow> (case c of None \<Rightarrow> False | Some ls \<Rightarrow> set ls \<subseteq> set ls'))"

lemma clear_le_refl: "clear_le c c"
  by (simp add: clear_le_def split: option.split)

lemma clear_le_trans: "clear_le c c1 \<Longrightarrow> clear_le c1 c2 \<Longrightarrow> clear_le c c2"
  by (auto simp: clear_le_def split: option.splits)

lemma cleared_by_le: "cleared_by dec c' \<Longrightarrow> clear_le c c' \<Longrightarrow> cleared_by dec c"
  by (auto simp: cleared_by_def clear_le_def split: option.splits if_splits)

lemma meet_le: "clear_le (meet_clear dec c) c"
  by (auto simp: meet_clear_def clear_le_def split: option.split)

lemma meet_cleared: "sd_Allow dec \<Longrightarrow> cleared_by dec (meet_clear dec c)"
  by (auto simp: meet_clear_def cleared_by_def split: option.split)

lemma sub_decide_cleared:
  assumes "sub_decide cr now i t tok b = (Inr dec, b')"
  shows "cleared_by (auth_Subscribe (b_auth b) i t) (meet_clear dec c)"
  using assms meet_cleared
  by (auto simp: sub_decide_def Let_def cleared_by_def meet_clear_def split: if_splits prod.splits bool.splits option.splits)

lemma sub_topics_cleared:
  "sub_topics cr now i tok ts c b = (Inr c', b') \<Longrightarrow>
   clear_le c' c \<and> (\<forall>t\<in>set ts. cleared_by (auth_Subscribe (b_auth b) i t) c' \<and> validateTopic t (MaxTopicLen (b_lm b)) = None)"
proof (induction ts arbitrary: c b)
  case (Cons t ts)
  then obtain dec b1 where d: "validateTopic t (MaxTopicLen (b_lm b)) = None" "sub_decide cr now i t tok b = (Inr dec, b1)"
    "sub_topics cr now i tok ts (meet_clear dec c) b1 = (Inr c', b')"
    by (auto split: option.splits prod.splits sum.splits)
  have "b_auth b1 = b_auth b" "b_lm b1 = b_lm b" using sub_decide_pair [OF d(2)] capAllows_core by auto
  moreover note ih = Cons.IH [OF d(3)]
  moreover have "cleared_by (auth_Subscribe (b_auth b) i t) c'" using sub_decide_cleared [OF d(2)] ih by (auto intro: cleared_by_le)
  ultimately show ?case using d(1) clear_le_trans [OF _ meet_le] by auto
qed (simp add: clear_le_refl)

lemma subscribe_locked_auth: "b_auth (snd (subscribe_locked env i so c b)) = b_auth b"
proof -
  have "b_auth (replay_since n s b') = b_auth b'" "b_auth (deliver_retained now s b') = b_auth b'" for n s now and b' :: "'a broker"
    by (auto simp: replay_since_def deliver_retained_def Let_def core_fields(1) [OF core_deliver_all] core_fields(1) [OF core_upd(1)] split: prod.split)
      (simp add: drop_topics_def)
  then show ?thesis by (simp add: subscribe_locked_def Let_def core_fields(1) [OF core_drain] register_sub_def)
qed

locale bus_invariant = sub_invariant +
  fixes auth :: authorizer
  assumes opened: "\<forall>t\<in>set (so_Topics so). cleared_by (auth_Subscribe auth i t) c \<Longrightarrow> sub_fault lm so = None \<Longrightarrow> Q (new_sub k i so c)"
begin

definition bus_holds :: "'s broker \<Rightarrow> bool" where
  "bus_holds b = (holds b \<and> b_auth b = auth)"

lemma bus_core_holds: "bus_core b' = bus_core b \<Longrightarrow> bus_holds b \<Longrightarrow> holds b' \<Longrightarrow> bus_holds b'"
  by (simp add: bus_holds_def bus_core_def)

lemma bus_holds_updates [simp]:
  "bus_holds (b\<lparr>b_lim := x6\<rparr>) = bus_holds b" "bus_holds (broker_record i m t d r pv b) = bus_holds b"
  "bus_holds (snd (capAllows cr now i t tok b)) = bus_holds b" "bus_holds (append_event cr env e b) = bus_holds b"
  "bus_holds (applyRetainedLocked now e b) = bus_holds b" "bus_holds (snd (seal_event cr pl e b)) = bus_holds b"
  by (simp_all add: bus_holds_def capAllows_core core_retain) (simp_all add: broker_record_def append_event_def seal_event_def Let_def split: option.split)

lemma bus_holds_fanout: "bus_holds b \<Longrightarrow> bus_holds (fanoutLocked rd e b)"
  by (rule bus_core_holds) (simp_all add: holds_fanout bus_holds_def)

lemma bus_holds_sealed: "bus_holds b \<Longrightarrow> seal_event cr p e b = (r, b') \<Longrightarrow> bus_holds b'"
  by (metis bus_holds_updates(6) snd_conv)

lemma bus_holds_publish_locked: "bus_holds b \<Longrightarrow> publish_locked cr env e p b = (r, b') \<Longrightarrow> bus_holds b'"
  by (auto simp: publish_locked_def split: if_splits prod.splits option.splits intro!: bus_holds_fanout dest: bus_holds_sealed)

lemma bus_holds_decide: "bus_holds b \<Longrightarrow> pub_decide cr now i t tok b = (r, b') \<Longrightarrow> bus_holds b'"
  using pub_decide_pair by fastforce

lemma bus_holds_PublishOpts: "bus_holds b \<Longrightarrow> PublishOpts cr env i t p po b = (r, b') \<Longrightarrow> bus_holds b'"
  unfolding PublishOpts_def Let_def
  by (auto split: if_splits prod.splits option.splits sum.splits dest!: bus_holds_decide [rotated] bus_holds_publish_locked [rotated])

lemma bus_holds_emitTrusted: "bus_holds b \<Longrightarrow> emitTrusted cr env t p ls who org rs b = (r, b') \<Longrightarrow> bus_holds b'"
  unfolding emitTrusted_def Let_def
  by (auto split: if_splits prod.splits option.splits intro!: bus_holds_fanout dest!: bus_holds_sealed [rotated])

lemma bus_holds_EmitFederated: "bus_holds b \<Longrightarrow> EmitFederated cr env t p ls who org k d u b = (r, b') \<Longrightarrow> bus_holds b'"
  unfolding EmitFederated_def Let_def by (auto split: if_splits prod.splits dest: bus_holds_emitTrusted [rotated])

lemma bus_holds_topics: "bus_holds b \<Longrightarrow> sub_topics cr now i tok ts c b = (r, b') \<Longrightarrow> bus_holds b'"
proof (induction ts arbitrary: c b)
  case (Cons t ts)
  have "bus_holds b1" if "sub_decide cr now i t tok b = (x, b1)" for x b1
    using sub_decide_pair [OF that] Cons.prems(1) by auto
  then show ?case using Cons by (auto split: option.splits prod.splits sum.splits)
qed simp

lemma bus_holds_subscribe_locked:
  "bus_holds b \<Longrightarrow> sub_fault (b_lm b) so = None \<Longrightarrow> (\<And>k. Q (new_sub k i so c)) \<Longrightarrow> subscribe_locked env i so c b = (r, b') \<Longrightarrow> bus_holds b'"
  using holds_subscribe_locked [of b so i c env] unfolding bus_holds_def
  using subscribe_locked_auth [of env i so c b] by auto

lemma bus_holds_Subscribe: "bus_holds b \<Longrightarrow> Subscribe cr env i so b = (r, b') \<Longrightarrow> bus_holds b'"
proof -
  assume b: "bus_holds b" and r: "Subscribe cr env i so b = (r, b')"
  obtain ok l1 where l: "lim_allow (be_now env) (id_Key i) (b_lim b) = (ok, l1)" by fastforce
  let ?b1 = "b\<lparr>b_lim := l1\<rparr>"
  obtain x b2 where t: "sub_topics cr (be_now env) i (so_Capability so) (so_Topics so) None ?b1 = (x, b2)" by fastforce
  have b2: "bus_holds b2" using b by (intro bus_holds_topics [OF _ t]) simp
  have lm: "b_lm b2 = b_lm b" "b_lm b = lm" "b_auth b = auth" using sub_topics_fields [OF t] b by (simp_all add: bus_holds_def holds_def)
  show ?thesis
  proof (cases "\<exists>c. x = Inr c \<and> sub_fault (b_lm b) so = None")
    case True
    then obtain c where c: "x = Inr c" "sub_fault (b_lm b) so = None" by blast
    obtain y b3 where s: "subscribe_locked env i so c b2 = (y, b3)" by fastforce
    have "Q (new_sub k i so c)" for k using sub_topics_cleared [OF t [unfolded c(1)]] c(2) lm by (intro opened) auto
    then have "bus_holds b3" using bus_holds_subscribe_locked [OF b2 _ _ s] c(2) lm by simp
    then show ?thesis using r l t s c b b2 by (auto simp: Subscribe_def Let_def split: if_splits sum.splits)
  next
    case False
    then show ?thesis using r l t b b2 by (auto simp: Subscribe_def Let_def split: if_splits sum.splits option.splits)
  qed
qed

lemma bus_holds_simple:
  assumes "bus_holds b"
  shows "bus_holds (snd (Subscribe cr env i so b))" "bus_holds (Ack rd k n b)" "bus_holds (sub_C k b)"
  using assms bus_holds_Subscribe [OF assms prod.collapse [symmetric]] bus_core_holds [OF core_ack assms holds_ack] bus_core_holds [OF core_upd(3) assms holds_read]
  by (simp_all add: bus_holds_def)

lemma bus_holds_do: "bus_holds b \<Longrightarrow> bus_do cr x b = (es, b') \<Longrightarrow> bus_holds b'"
proof (cases x)
  case (OpClose)
  assume "bus_holds b" "bus_do cr x b = (es, b')"
  then show ?thesis using OpClose holds_CloseBroker [of b] by (auto simp: bus_holds_def CloseBroker_def)
next
  case (OpUnsubscribe rd k)
  assume "bus_holds b" "bus_do cr x b = (es, b')"
  then show ?thesis using OpUnsubscribe holds_close [of b rd k] by (auto simp: Unsubscribe_def bus_holds_def core_fields(1) [OF core_close])
qed (auto simp: new_event_def EmitInternal_def Unsubscribe_def split: prod.splits sum.splits
    dest: bus_holds_PublishOpts [rotated] bus_holds_emitTrusted [rotated] bus_holds_EmitFederated [rotated]
    intro: bus_holds_simple)

lemma bus_holds_run: "bus_holds b \<Longrightarrow> bus_run cr xs b = (es, b') \<Longrightarrow> bus_holds b'"
  by (induction xs arbitrary: b es) (auto split: prod.splits dest: bus_holds_do)

end

end
