(* ===== verification/BrokerAuth.thy ===== *)
theory BrokerAuth
  imports BrokerInv
begin

text \<open>
  What the broker guarantees about who publishes and who receives: labelled events reach only subscribers cleared for
  them, and published events were authorised, labelled and recorded.
\<close>

subsection \<open>Taint stays contained\<close>

definition clearance :: "subscription \<Rightarrow> string list option" where
  "clearance s = (if s_clearAll s then None else Some (s_clear s))"

definition sub_safe :: "authorizer \<Rightarrow> subscription \<Rightarrow> bool" where
  "sub_safe auth s =
     (s_topics s \<noteq> [] \<and> (\<forall>t\<in>set (s_topics s). cleared_by (auth_Subscribe auth (s_ident s) t) (clearance s)) \<and>
      (\<forall>e\<in>set (s_got s) \<union> set (s_ch s). sub_accepts s e))"

lemma sub_safe_conf:
  assumes "sub_conf s' = sub_conf s" "sub_safe auth s" "set (s_got s') \<union> set (s_ch s') \<subseteq> insert e (set (s_got s) \<union> set (s_ch s))" "sub_accepts s e"
  shows "sub_safe auth s'"
  using assms(2-4) unfolding sub_safe_def clearance_def conf_fields [OF assms(1)] by auto

lemma sub_safe_less:
  assumes "sub_conf s' = sub_conf s" "sub_safe auth s" "set (s_got s') \<union> set (s_ch s') \<subseteq> set (s_got s) \<union> set (s_ch s)"
  shows "sub_safe auth s'"
  using assms(2-3) unfolding sub_safe_def clearance_def conf_fields [OF assms(1)] by auto

interpretation safe: bus_invariant "sub_safe auth" lm auth for auth lm
proof
  fix s e
  show "sub_safe auth (sub_recv s)" if "sub_safe auth s" using that
    by (rule sub_safe_less [OF conf_ops(2)]) (auto simp: sub_recv_def split: list.split)
  show "sub_safe auth (sub_send e s)" "sub_safe auth (place e s)" if "sub_safe auth s" "sub_accepts s e"
    by (rule sub_safe_conf [OF _ that(1) _ that(2)]; auto simp: sub_send_def place_def)+
  show "sub_safe auth (s\<lparr>s_ch := tl (s_ch s)\<rparr>)" if "sub_safe auth s" using that
    by (rule sub_safe_less [OF conf_ops(4)]) (cases "s_ch s"; auto)
  show "sub_safe auth (s\<lparr>s_dropped := n\<rparr>)" "sub_safe auth (s\<lparr>s_truncated := t\<rparr>)" "sub_safe auth (s\<lparr>s_inflight := fl\<rparr>)"
    if "sub_safe auth s" for n t fl
    by (rule sub_safe_less [OF _ that]; simp)+
  show "sub_safe auth (s\<lparr>s_inflight := []\<rparr>)" if "sub_safe auth s"
    by (rule sub_safe_less [OF _ that]) simp_all
  show "sub_safe auth (new_sub k i so c)"
    if "\<forall>t\<in>set (so_Topics so). cleared_by (auth_Subscribe auth i t) c" "sub_fault lm so = None" for k i so c
    using that by (auto simp: sub_safe_def new_sub_def clearance_def sub_fault_def split: option.split if_splits)
qed

definition opts_auth :: "'s options \<Rightarrow> authorizer" where
  "opts_auth opts = (case o_Authorizer opts of None \<Rightarrow> DenyAll | Some a \<Rightarrow> a)"

lemma retain_fold_fields:
  "b_auth (fold (applyRetainedLocked now) es b) = b_auth b" "b_lm (fold (applyRetainedLocked now) es b) = b_lm b"
  "b_subs (fold (applyRetainedLocked now) es b) = b_subs b" "b_ended (fold (applyRetainedLocked now) es b) = b_ended b"
  by (induction es arbitrary: b)
    (simp_all add: core_retain, simp add: applyRetainedLocked_def sweepExpiredRetainedLocked_def drop_topics_def set_expiry_def Let_def)

lemma NewBroker_fields:
  "b_auth (NewBroker now opts) = opts_auth opts" "b_lm (NewBroker now opts) = withDefaults (o_Limits opts)"
  "b_subs (NewBroker now opts) = []" "b_ended (NewBroker now opts) = []"
  by (simp_all add: NewBroker_def sweepExpiredRetainedLocked_def drop_topics_def retain_fold_fields Let_def)
    (simp_all add: blank_broker_def opts_auth_def Let_def)

lemma safe_run:
  assumes "bus_run cr ops (NewBroker now opts) = (es, b)"
  shows "safe.bus_holds (opts_auth opts) (withDefaults (o_Limits opts)) b"
  by (rule safe.bus_holds_run [OF _ assms]) (simp add: safe.bus_holds_def safe.holds_def ids_ok_def NewBroker_fields)


subsection \<open>A small bus\<close>

text \<open>A small bus: one rule lets everybody publish and subscribe under \<^verbatim>\<open>t\<close>, marks what is published as \<^verbatim>\<open>pii\<close> and
  clears subscribers for it; everything else is denied by default.\<close>

definition demo_limits :: limits where
  "demo_limits = DefaultLimits\<lparr>PublishRate := -1, PublishBurst := 1, lm_Retain := 2, SubQueue := 2\<rparr>"

definition demo_rule :: topic_rule where
  "demo_rule = \<lparr>tr_Peers = [], tr_Topics = [''t''], tr_Allow = True, tr_Emit = [''pii''], tr_Taint = False, tr_Clear = [''pii''],
     tr_ClearTaint = False, tr_ClearAll = False\<rparr>"

definition demo_opts :: "unit options" where
  "demo_opts = \<lparr>o_Authorizer = Some (RuleAuthorizer \<lparr>ra_DefaultAllow = False, ra_Rules = [demo_rule]\<rparr>), o_Audit = Some [],
     o_Events = Some (NewEventLog []), o_Seed = [], o_Name = ''bus'', o_Capabilities = None, o_Limits = demo_limits\<rparr>"

definition demo_env :: bus_env where
  "demo_env = \<lparr>be_now = 0, be_write = None, be_flush = \<lparr>fl_write = None, fl_anchor = None, fl_time = []\<rparr>, be_reads = no_reads\<rparr>"

definition alice :: identity where "alice = \<lparr>id_Key = ''A'', id_FQDN = ''alice'', id_Addr = []\<rparr>"

definition demo_so :: sub_opts where
  "demo_so = \<lparr>so_Topics = [''t''], so_Backpressure = Disconnect, so_Since = 0, so_Capability = [], so_Group = [], so_Ack = False\<rparr>"

definition demo_ops :: "bus_op list" where
  "demo_ops = [OpSubscribe demo_env alice demo_so, OpPublish demo_env alice ''t'' [] po_plain]"

lemma demo_new: "NewBroker 0 demo_opts = blank_broker demo_opts"
  by (simp add: NewBroker_def demo_opts_def)

lemma demo_limits_default: "withDefaults demo_limits = demo_limits\<lparr>PublishRate := 0\<rparr>"
  by (simp add: withDefaults_def demo_limits_def DefaultLimits_def positive_or_def Let_def)

definition demo_sub0 :: subscription where "demo_sub0 = new_sub 1 alice demo_so (Some [''pii''])"

lemma demo_match: "ra_match \<lparr>ra_DefaultAllow = d, ra_Rules = [demo_rule]\<rparr> i t = (if t = ''t'' then Some demo_rule else None)"
proof -
  have "matchGlob [''t''] s \<longleftrightarrow> s = ''t''" for s by (subst matchGlob_literal) (simp_all add: contains_any_def globChars_def)
  then show ?thesis by (simp add: ra_match_def demo_rule_def topic_matchPeer_def)
qed


lemma demo_blank:
  "b_auth (blank_broker demo_opts) = RuleAuthorizer \<lparr>ra_DefaultAllow = False, ra_Rules = [demo_rule]\<rparr>"
  "b_lm (blank_broker demo_opts) = demo_limits\<lparr>PublishRate := 0\<rparr>" "lim_allow t k (b_lim (blank_broker demo_opts)) = (True, b_lim (blank_broker demo_opts))"
  "b_subs (blank_broker demo_opts) = []" "b_closed (blank_broker demo_opts) = False" "b_perPeer (blank_broker demo_opts) k = 0"
  "b_nextSubID (blank_broker demo_opts) = 0" "b_retained (blank_broker demo_opts) = []" "b_retainExp (blank_broker demo_opts) = []"
  by (simp_all add: blank_broker_def demo_opts_def demo_limits_default newLimiter_def lim_allow_def Let_def)

lemma demo_limit_values:
  "SubQueue demo_limits = 2" "MaxSubs demo_limits = 1024" "MaxTopicsPerSub demo_limits = 64" "MaxTopicLen demo_limits = 256" "MaxLabels demo_limits = 32"
  "MaxSubsPerPeer demo_limits = 128" "MaxPayloadBytes demo_limits = 2 ^ 20" "MaxRetainedTopics demo_limits = 4096"
  by (simp_all add: demo_limits_def DefaultLimits_def)

lemma demo_valid: "validateTopic ''t'' 256 = None"
  by (simp add: validateTopic_def)

lemma demo_same: "(blank_broker demo_opts)\<lparr>b_lim := b_lim (blank_broker demo_opts)\<rparr> = blank_broker demo_opts"
  by simp

lemma demo_topics:
  "b_auth b = RuleAuthorizer \<lparr>ra_DefaultAllow = False, ra_Rules = [demo_rule]\<rparr> \<Longrightarrow> MaxTopicLen (b_lm b) = 256 \<Longrightarrow>
   sub_topics cr now i tok [''t''] None b = (Inr (Some [''pii'']), b)"
  by (simp add: demo_valid sub_decide_def Let_def ra_Subscribe_def demo_match meet_clear_def clearSet_def) (simp add: demo_rule_def)

lemma demo_subscribe_locked:
  "subscribe_locked demo_env alice demo_so (Some [''pii'']) (blank_broker demo_opts) = (Inr 1, register_sub demo_sub0 (blank_broker demo_opts))"
  by (simp add: subscribe_locked_def demo_blank demo_limit_values Let_def u64_def demo_sub0_def demo_so_def deliver_retained_def drop_topics_def
      register_sub_def)

lemma demo_subscribed:
  "Subscribe demo_crypto demo_env alice demo_so (blank_broker demo_opts) =
     (Inr 1, broker_record alice sub_method ''t'' ''allow'' ''subscribed'' [] (register_sub demo_sub0 (blank_broker demo_opts)))"
proof -
  have "sub_fault (demo_limits\<lparr>PublishRate := 0\<rparr>) demo_so = None" by (simp add: sub_fault_def demo_so_def demo_limit_values)
  moreover have "sub_topics demo_crypto (be_now demo_env) alice (so_Capability demo_so) (so_Topics demo_so) None (blank_broker demo_opts) =
      (Inr (Some [''pii'']), blank_broker demo_opts)"
    unfolding demo_so_def sub_opts.simps by (rule demo_topics) (simp_all add: demo_blank demo_limit_values)
  ultimately show ?thesis
    by (simp add: Subscribe_def demo_blank demo_same demo_subscribe_locked) (simp add: alice_def demo_so_def join_topics_def)
qed

definition demo_b1 :: "unit broker" where
  "demo_b1 = broker_record alice sub_method ''t'' ''allow'' ''subscribed'' [] (register_sub demo_sub0 (blank_broker demo_opts))"

definition demo_e0 :: event where "demo_e0 = published demo_env alice ''t'' [''pii''] po_plain"

definition demo_e :: event where
  "demo_e = (let e = demo_e0\<lparr>ev_Seq := 1, ev_Payload := None, ev_PrevHash := [], ev_Hash := []\<rparr> in e\<lparr>ev_Hash := ev_chainHash demo_crypto e\<rparr>)"

lemma fanout_single:
  assumes "b_subs b = [s]" "s_group s = []" "sub_accepts s e" "has_room (b_lm b) s"
  shows "fanoutLocked rd e b = b\<lparr>b_subs := [sub_send e s]\<rparr>"
  using assms by (simp add: fanoutLocked_def fanout_one_def sub_of_def deliverLocked_def upd_sub_def Let_def)

lemma demo_accepts: "sub_accepts demo_sub0 demo_e"
proof -
  have "matchGlob [''t''] ''t''" by (subst matchGlob_literal) (simp_all add: contains_any_def globChars_def)
  then show ?thesis
    by (simp add: sub_accepts_def demo_sub0_def new_sub_def demo_so_def demo_e_def demo_e0_def published_def Let_def)
qed

lemma demo_seal:
  "b_seq b = 0 \<Longrightarrow> b_prev b = [] \<Longrightarrow> seal_event demo_crypto [] demo_e0 b =
     (Some demo_e, b\<lparr>b_seq := 1, b_prev := ev_Hash demo_e, b_ring := ring_add demo_e (b_ring b)\<rparr>)"
  by (simp add: seal_event_def raw_payload_def u64_def demo_e_def Let_def)

lemma demo_published:
  "\<exists>b. PublishOpts demo_crypto demo_env alice ''t'' [] po_plain demo_b1 = (Inr demo_e, b) \<and> b_subs b = [sub_send demo_e demo_sub0]"
proof -
  have f: "b_lm demo_b1 = demo_limits\<lparr>PublishRate := 0\<rparr>" "b_auth demo_b1 = RuleAuthorizer \<lparr>ra_DefaultAllow = False, ra_Rules = [demo_rule]\<rparr>"
    "b_subs demo_b1 = [demo_sub0]" "b_closed demo_b1 = False" "b_seq demo_b1 = 0" "b_prev demo_b1 = []"
    "b_lim demo_b1 = b_lim (blank_broker demo_opts)"
    by (simp_all add: demo_b1_def broker_record_def register_sub_def demo_blank) (simp_all add: blank_broker_def Let_def)
  have lim: "demo_b1\<lparr>b_lim := b_lim (blank_broker demo_opts)\<rparr> = demo_b1" using f(7) by simp
  have "pub_fault (demo_limits\<lparr>PublishRate := 0\<rparr>) [] po_plain = None"
    by (simp add: pub_fault_def po_plain_def demo_limit_values maxEncodingLen_def)
  moreover have "pub_decide demo_crypto (be_now demo_env) alice ''t'' [] demo_b1 =
      (Inr \<lparr>pd_Allow = True, pd_Reason = ''allowed by rule'', pd_Labels = [''pii''], pd_Explicit = True\<rparr>, demo_b1)"
    by (simp add: pub_decide_def f ra_Publish_def demo_match auth_reason_def TopicAuth.emitSet_def Let_def) (simp add: demo_rule_def)
  moreover have "label_fault (demo_limits\<lparr>PublishRate := 0\<rparr>) [''pii''] = None" by (simp add: label_fault_def demo_limit_values)
  moreover have "unionLabels [''pii''] [] = [''pii'']" by (simp add: unionLabels_def)
  moreover have "\<exists>b. publish_locked demo_crypto demo_env demo_e0 [] demo_b1 = (Inr demo_e, b) \<and> b_subs b = [sub_send demo_e demo_sub0]"
  proof -
    have s0: "s_group demo_sub0 = []" "s_ch demo_sub0 = []" by (simp_all add: demo_sub0_def new_sub_def demo_so_def)
    let ?b = "demo_b1\<lparr>b_seq := 1, b_prev := ev_Hash demo_e, b_ring := ring_add demo_e (b_ring demo_b1)\<rparr>"
    let ?c = "append_event demo_crypto demo_env demo_e (applyRetainedLocked (be_now demo_env) demo_e ?b)"
    have "b_subs ?c = [demo_sub0]" "b_lm ?c = demo_limits\<lparr>PublishRate := 0\<rparr>" by (simp_all add: append_event_def core_retain f)
    then have "fanoutLocked (be_reads demo_env) demo_e ?c = ?c\<lparr>b_subs := [sub_send demo_e demo_sub0]\<rparr>"
      using s0 demo_accepts by (intro fanout_single) (simp_all add: has_room_def demo_limit_values)
    then show ?thesis using f by (simp add: publish_locked_def demo_seal)
  qed
  ultimately show ?thesis
    by (auto simp: PublishOpts_def f lim demo_blank(3) demo_limit_values demo_valid Let_def alice_def [symmetric] demo_e0_def broker_record_def
        po_plain_def [THEN arg_cong [of _ _ po_Labels]] po_plain_def [THEN arg_cong [of _ _ po_Capability]]) (simp_all add: alice_def)
qed

definition demo_bus :: "unit broker" where
  "demo_bus = snd (PublishOpts demo_crypto demo_env alice ''t'' [] po_plain demo_b1)"

lemma demo_publish: "PublishOpts demo_crypto demo_env alice ''t'' [] po_plain demo_b1 = (Inr demo_e, demo_bus)"
  and demo_bus_subs: "b_subs demo_bus = [sub_send demo_e demo_sub0]"
  using demo_published by (auto simp: demo_bus_def)

lemma demo_bus_run: "bus_run demo_crypto demo_ops (NewBroker 0 demo_opts) = ([demo_e], demo_bus)"
  by (simp add: demo_ops_def demo_new demo_subscribed demo_b1_def [symmetric] demo_publish new_event_def)

lemma demo_e_fields: "ev_Labels demo_e = [''pii'']" "ev_Topic demo_e = ''t''" "ev_Seq demo_e = 1"
  by (simp_all add: demo_e_def demo_e0_def published_def Let_def)


subsection \<open>Publishing is authorised\<close>

lemma unionLabels_set: "set (unionLabels a b) = (set a \<union> set b) - {[]}"
  by (auto simp: unionLabels_def)

lemma capAllows_verified:
  assumes "capAllows cr now i t tok b = (True, b')"
  shows "\<exists>ca. b_caps b = Some ca \<and> \<not> isl (verifyClaims cr (ca_codec ca) (ca_ver ca) now tok (id_Key i) (b_name b) t)"
proof -
  obtain ca r v where c: "b_caps b = Some ca" "Verify cr (ca_codec ca) (ca_use ca) (ca_ver ca) now tok (id_Key i) (b_name b) t = (r, v)" "\<not> isl r"
    using assms by (auto simp: capAllows_def split: option.splits if_splits prod.splits)
  have "\<not> isl (verifyClaims cr (ca_codec ca) (ca_ver ca) now tok (id_Key i) (b_name b) t)" (is "\<not> isl ?x")
  proof
    assume "isl ?x"
    then obtain err where "?x = Inl err" by (auto simp: isl_def)
    then have "r = Inl err" using c(2) by (simp add: Verify_def)
    then show False using c(3) by simp
  qed
  then show ?thesis using c(1) by blast
qed

text \<open>What lets a publisher publish: the policy, or a verified capability where the policy does not decide.\<close>

definition may_publish :: "crypto \<Rightarrow> instant \<Rightarrow> identity \<Rightarrow> string \<Rightarrow> string \<Rightarrow> 's broker \<Rightarrow> bool" where
  "may_publish cr now i t tok b =
     (let dec = auth_Publish (b_auth b) i t in
      pd_Allow dec \<or> \<not> pd_Explicit dec \<and> (case b_caps b of
        None \<Rightarrow> False
      | Some ca \<Rightarrow> \<not> isl (verifyClaims cr (ca_codec ca) (ca_ver ca) now tok (id_Key i) (b_name b) t)))"

lemma may_publish_lim: "may_publish cr now i t tok (b\<lparr>b_lim := l\<rparr>) = may_publish cr now i t tok b"
  by (simp add: may_publish_def Let_def cong: option.case_cong)

lemma pub_decide_allowed:
  assumes "pub_decide cr now i t tok b = (Inr dec, b')"
  shows "may_publish cr now i t tok b \<and> (pd_Allow (auth_Publish (b_auth b) i t) \<longrightarrow> pd_Labels dec = pd_Labels (auth_Publish (b_auth b) i t)) \<and>
    b_seq b' = b_seq b \<and> b_prev b' = b_prev b \<and> b_lm b' = b_lm b \<and> b_audit b' = b_audit b"
proof (cases "pd_Allow (auth_Publish (b_auth b) i t)")
  case True
  then show ?thesis using assms by (auto simp: pub_decide_def may_publish_def Let_def)
next
  case False
  then have c: "\<not> pd_Explicit (auth_Publish (b_auth b) i t)" "capAllows cr now i t tok b = (True, b')"
    using assms by (auto simp: pub_decide_def Let_def split: if_splits prod.splits bool.splits)
  then have "b_seq b' = b_seq b" "b_prev b' = b_prev b" "b_lm b' = b_lm b" "b_audit b' = b_audit b"
    by (auto simp: capAllows_def split: option.splits if_splits prod.splits)
  then show ?thesis using c False capAllows_verified [OF c(2)] by (auto simp: may_publish_def Let_def)
qed

lemma publish_lockedE:
  assumes "publish_locked cr env e p b = (Inr e', b')"
  obtains pl where "\<not> b_closed b" "raw_payload p = Some pl"
    "e' = (let e1 = e\<lparr>ev_Seq := u64 (b_seq b + 1), ev_Payload := pl, ev_PrevHash := b_prev b, ev_Hash := []\<rparr> in e1\<lparr>ev_Hash := ev_chainHash cr e1\<rparr>)"
    "b_audit b' = b_audit b"
proof -
  obtain b1 where b1: "\<not> b_closed b" "seal_event cr p e b = (Some e', b1)"
    "b' = fanoutLocked (be_reads env) e' (append_event cr env e' (applyRetainedLocked (be_now env) e' b1))"
    using assms by (auto simp: publish_locked_def split: if_splits prod.splits option.splits)
  have "b_audit b' = b_audit b1"
    unfolding b1(3) core_fields(11) [OF core_fanout]
    by (simp add: append_event_def applyRetainedLocked_def sweepExpiredRetainedLocked_def drop_topics_def set_expiry_def Let_def)
  then show thesis using b1 that by (auto simp: seal_event_def Let_def split: option.splits)
qed

text \<open>C20: An event that was published came from a proven identity the policy let publish to the topic, or that showed a
  verified capability for it where the policy does not decide; it carries the publisher, all the labels the policy
  attaches to the topic and those the publisher added, it extends the hash chain, and the decision is in the ledger.\<close>

theorem publish_authorised:
  assumes "PublishOpts cr env i t p po b = (Inr e, b')"
  shows "id_Key i \<noteq> [] \<and> may_publish cr (be_now env) i t (po_Capability po) b \<and>
    ev_Publisher e = id_Key i \<and> ev_Topic e = t \<and> set (po_Labels po) - {[]} \<subseteq> set (ev_Labels e) \<and>
    (pd_Allow (auth_Publish (b_auth b) i t) \<longrightarrow> set (pd_Labels (auth_Publish (b_auth b) i t)) - {[]} \<subseteq> set (ev_Labels e)) \<and>
    ev_Seq e = u64 (b_seq b + 1) \<and> ev_PrevHash e = b_prev b \<and> ev_Hash e = ev_chainHash cr e \<and>
    (\<forall>rs. b_audit b = Some rs \<longrightarrow> (\<exists>r. b_audit b' = Some (rs @ [r]) \<and> ADecision r = ''allow'' \<and> APeerKey r = id_Key i \<and>
       ATool r = t \<and> Provenance r = ev_Labels e))"
proof -
  obtain l1 where l: "lim_allow (be_now env) (id_Key i) (b_lim b) = (True, l1)" and key: "id_Key i \<noteq> []"
    using assms by (auto simp: PublishOpts_def Let_def split: if_splits prod.splits)
  let ?b1 = "b\<lparr>b_lim := l1\<rparr>"
  obtain dec b2 where d: "pub_decide cr (be_now env) i t (po_Capability po) ?b1 = (Inr dec, b2)"
    using assms l key by (auto simp: PublishOpts_def Let_def split: if_splits prod.splits option.splits sum.splits)
  let ?ls = "unionLabels (pd_Labels dec) (po_Labels po)"
  obtain b3 where p: "publish_locked cr env (published env i t ?ls po) p b2 = (Inr e, b3)"
    and b': "b' = broker_record i pub_method t ''allow'' (pd_Reason dec) (ev_Labels e) b3"
    using assms l key d by (auto simp: PublishOpts_def Let_def split: if_splits prod.splits option.splits sum.splits)
  have dd: "may_publish cr (be_now env) i t (po_Capability po) b" "b_seq b2 = b_seq b" "b_prev b2 = b_prev b" "b_audit b2 = b_audit b"
    "pd_Allow (auth_Publish (b_auth b) i t) \<longrightarrow> pd_Labels dec = pd_Labels (auth_Publish (b_auth b) i t)"
    using pub_decide_allowed [OF d] by (simp_all add: may_publish_lim)
  obtain pl where "\<not> b_closed b2" "raw_payload p = Some pl" and e: "e = (let e1 = (published env i t ?ls po)\<lparr>ev_Seq := u64 (b_seq b2 + 1), ev_Payload := pl, ev_PrevHash := b_prev b2, ev_Hash := []\<rparr>
      in e1\<lparr>ev_Hash := ev_chainHash cr e1\<rparr>)" and au: "b_audit b3 = b_audit b2"
    by (rule publish_lockedE [OF p])
  have labels: "ev_Labels e = ?ls" "ev_Publisher e = id_Key i" "ev_Topic e = t" "ev_Seq e = u64 (b_seq b + 1)" "ev_PrevHash e = b_prev b"
    "ev_Hash e = ev_chainHash cr e"
    using dd by (simp_all add: e published_def Let_def ev_chainHash_def)
  show ?thesis using key dd au labels by (auto simp: unionLabels_set b' broker_record_def)
qed

theorem publish_authorised_witness:
  "may_publish demo_crypto 0 alice ''t'' [] demo_b1 \<and> ev_Labels demo_e = [''pii''] \<and> ev_Hash demo_e = ev_chainHash demo_crypto demo_e"
  using publish_authorised [OF demo_publish] by (simp add: demo_env_def po_plain_def demo_e_fields)

end
