(* ===== verification/BrokerStream.thy ===== *)
theory BrokerStream
  imports BrokerAuth "HOL-Library.Sublist"
begin

text \<open>
  The event stream of the broker: along every run the events it seals form one hash chain, which the log holds in full,
  the ring holds the end of, and a restart continues.
\<close>

subsection \<open>The stream of a run\<close>

text \<open>The state of a broker that has emitted a stream; the pair says whether a log is attached, and the size of the ring.\<close>

definition stream_state :: "crypto \<Rightarrow> bool \<times> nat \<Rightarrow> event list \<Rightarrow> 's broker \<Rightarrow> bool" where
  "stream_state cr cf es b =
     (ev_linked cr None [] es \<and> b_prev b = ev_head [] es \<and> (es \<noteq> [] \<longrightarrow> ev_Seq (last es) \<le> b_seq b) \<and>
      ring_ok (b_ring b) \<and> ring_snapshot (b_ring b) = drop (length es - r_cap (b_ring b)) es \<and>
      (case b_events b of None \<Rightarrow> \<not> fst cf | Some l \<Rightarrow> fst cf \<and> el_w l = ev_text es) \<and> r_cap (b_ring b) = snd cf)"

fun op_clean :: "bus_op \<Rightarrow> bool" where
  "op_clean (OpPublish env i t p po) = (be_write env = None)"
| "op_clean (OpInternal env src t p ls) = (be_write env = None)"
| "op_clean (OpFederated env t p ls who origin keep del until) = (be_write env = None)"
| "op_clean _ = True"

definition stream_fields where
  "stream_fields b = (b_prev b, b_seq b, b_ring b, b_events b)"

lemma stream_state_fields: "stream_fields b' = stream_fields b \<Longrightarrow> stream_state cr cf es b' = stream_state cr cf es b"
  by (simp add: stream_fields_def stream_state_def)

lemma stream_core: "bus_core b' = bus_core b \<Longrightarrow> stream_fields b' = stream_fields b"
  by (simp add: stream_fields_def bus_core_def)

lemma stream_fields_simps [simp]:
  "stream_fields (b\<lparr>b_lim := x1\<rparr>) = stream_fields b" "stream_fields (broker_record i m t d r pv b) = stream_fields b"
  "stream_fields (snd (capAllows cr now i t tok b)) = stream_fields b" "stream_fields (applyRetainedLocked now e b) = stream_fields b"
  "stream_fields (register_sub s b) = stream_fields b" "stream_fields (drop_topics ts b) = stream_fields b"
  by (simp_all add: stream_fields_def broker_record_def capAllows_def applyRetainedLocked_def sweepExpiredRetainedLocked_def drop_topics_def
      set_expiry_def register_sub_def Let_def split: option.split prod.split)

lemmas stream_core_simps [simp] = stream_core [OF core_fanout] stream_core [OF core_ack] stream_core [OF core_close]
  stream_core [OF core_upd(1)] stream_core [OF core_upd(3)] stream_core [OF core_deliver_all] stream_core [OF core_drain]

lemma stream_subscribe_locked: "stream_fields (snd (subscribe_locked env i so c b)) = stream_fields b"
  by (simp add: subscribe_locked_def replay_since_def deliver_retained_def Let_def split: prod.split)

lemma stream_sub_topics: "sub_topics cr now i tok ts c b = (r, b') \<Longrightarrow> stream_fields b' = stream_fields b"
  by (rule sub_topics_keeps [where P = stream_fields]) simp_all

lemma stream_Subscribe: "stream_fields (snd (Subscribe cr env i so b)) = stream_fields b"
proof -
  have "stream_fields b2 = stream_fields b" if "sub_topics cr now i tok ts None (b\<lparr>b_lim := l1\<rparr>) = (x, b2)" for now tok ts l1 x b2
    using stream_sub_topics [OF that] by simp
  moreover have "stream_fields b3 = stream_fields b2" if "subscribe_locked env i so c b2 = (y, b3)" for c y and b2 b3 :: "'a broker"
    using stream_subscribe_locked [of env i so c b2] that by simp
  ultimately show ?thesis by (auto simp: Subscribe_def Let_def split: prod.split option.split sum.split)
qed

text \<open>Sealing an event extends the stream by it; a payload that is not JSON only uses up a number.\<close>

lemma stream_seal:
  assumes "stream_state cr cf es b" "b_seq b + 1 < 2 ^ 64" "seal_event cr p e b = (r, b1)"
  shows "case r of
      None \<Rightarrow> stream_state cr cf es b1 \<and> b_seq b1 = b_seq b + 1
    | Some e1 \<Rightarrow> (b_events b1 = b_events b \<and> b_seq b1 = b_seq b + 1 \<and>
        (\<forall>b2. stream_fields b2 = (b_prev b1, b_seq b1, b_ring b1, map_option (el_append cr None fe e1) (b_events b)) \<longrightarrow> stream_state cr cf (es @ [e1]) b2))"
proof (cases "raw_payload p")
  case None
  then show ?thesis using assms by (auto simp: seal_event_def Let_def u64_def stream_state_def)
next
  case (Some pl)
  define e1 where "e1 = (let e1 = e\<lparr>ev_Seq := b_seq b + 1, ev_Payload := pl, ev_PrevHash := b_prev b, ev_Hash := []\<rparr> in e1\<lparr>ev_Hash := ev_chainHash cr e1\<rparr>)"
  have r: "r = Some e1" "b1 = b\<lparr>b_seq := b_seq b + 1, b_prev := ev_Hash e1, b_ring := ring_add e1 (b_ring b)\<rparr>"
    using assms(2,3) Some by (simp_all add: seal_event_def Let_def u64_def e1_def)
  have e1: "ev_Seq e1 = b_seq b + 1" "ev_PrevHash e1 = b_prev b" "ev_Hash e1 = ev_chainHash cr e1"
    by (simp_all add: e1_def Let_def ev_chainHash_def)
  have s: "ev_linked cr None [] es" "b_prev b = ev_head [] es" "es \<noteq> [] \<longrightarrow> ev_Seq (last es) \<le> b_seq b" "ring_ok (b_ring b)"
    "ring_snapshot (b_ring b) = drop (length es - r_cap (b_ring b)) es"
    using assms(1) by (simp_all add: stream_state_def)
  have "ev_linked cr None [] (es @ [e1])" using s(1-3) e1 by (auto simp: ev_linked_snoc ev_top_def)
  moreover have "ring_snapshot (ring_add e1 (b_ring b)) = drop (length (es @ [e1]) - r_cap (b_ring b)) (es @ [e1])"
    unfolding keep.add_contents [OF s(4)] s(5) by (rule drop_drop_snoc)
  ultimately show ?thesis using r e1 s(4) assms(1)
    by (auto simp: stream_state_def stream_fields_def keep.add_ok keep.add_room el_append_text split: option.splits)
qed

definition stream_next :: "crypto \<Rightarrow> bool \<times> nat \<Rightarrow> event list \<Rightarrow> 's broker \<Rightarrow> (bus_err + event) \<times> 's broker \<Rightarrow> bool" where
  "stream_next cr cf es b r =
     (case new_event r of (fs, b') \<Rightarrow> stream_state cr cf (es @ fs) b' \<and> b_seq b' \<le> b_seq b + 1)"

lemma stream_next_same: "stream_state cr cf es b \<Longrightarrow> stream_fields b' = stream_fields b \<Longrightarrow> stream_next cr cf es b (Inl err, b')"
  using stream_state_fields [of b' b cr cf es] by (simp add: stream_next_def new_event_def stream_fields_def)

lemma stream_next_event:
  "stream_next cr cf es b (Inr e, b1) \<Longrightarrow> stream_fields b' = stream_fields b1 \<Longrightarrow> stream_next cr cf es b (Inr e, b')"
  using stream_state_fields [of b' b1 cr cf "es @ [e]"] by (simp add: stream_next_def new_event_def stream_fields_def)

lemma stream_next_err:
  "stream_next cr cf es b (Inl err, b1) \<Longrightarrow> stream_fields b' = stream_fields b1 \<Longrightarrow> stream_next cr cf es b (Inl err', b')"
  using stream_state_fields [of b' b1 cr cf es] by (simp add: stream_next_def new_event_def stream_fields_def)

lemma stream_next_from: "stream_fields b' = stream_fields b \<Longrightarrow> stream_next cr cf es b' r = stream_next cr cf es b r"
  by (simp add: stream_next_def stream_fields_def)

lemma stream_sealed:
  assumes "stream_state cr cf es b" "b_seq b + 1 < 2 ^ 64" "seal_event cr p e b = (r, b1)" "be_write env = None"
  shows "case r of None \<Rightarrow> stream_next cr cf es b (Inl err, b1)
    | Some e1 \<Rightarrow> (\<forall>b2. stream_fields b2 = stream_fields (append_event cr env e1 b1) \<longrightarrow> stream_next cr cf es b (Inr e1, b2))"
proof (cases r)
  case None
  then show ?thesis using stream_seal [OF assms(1-3)] by (simp add: stream_next_def new_event_def)
next
  case (Some e1)
  have "stream_fields (append_event cr env e1 b1) = (b_prev b1, b_seq b1, b_ring b1, map_option (el_append cr None (be_flush env) e1) (b_events b1))"
    using assms(4) by (simp add: append_event_def stream_fields_def)
  moreover have "b_events b1 = b_events b" "b_seq b1 = b_seq b + 1" using stream_seal [OF assms(1-3), of "be_flush env"] Some by auto
  ultimately show ?thesis using Some stream_seal [OF assms(1-3), of "be_flush env"]
    by (auto simp: stream_next_def new_event_def) (simp add: stream_fields_def)
qed

lemma stream_publish_locked:
  assumes "stream_state cr cf es b" "b_seq b + 1 < 2 ^ 64" "be_write env = None"
  shows "stream_next cr cf es b (publish_locked cr env e p b)"
proof (cases "b_closed b")
  case False
  obtain r b1 where s: "seal_event cr p e b = (r, b1)" by fastforce
  have "stream_fields (append_event cr env e1 (applyRetainedLocked now e1 b1)) = stream_fields (append_event cr env e1 b1)" for e1 now
    using stream_fields_simps(4) [of now e1 b1] by (simp add: append_event_def stream_fields_def)
  then show ?thesis using False s stream_sealed [OF assms(1,2) s assms(3)] by (cases r) (simp_all add: publish_locked_def)
qed (simp add: publish_locked_def stream_next_same assms)

lemma stream_emitTrusted:
  assumes "stream_state cr cf es b" "b_seq b + 1 < 2 ^ 64" "be_write env = None"
  shows "stream_next cr cf es b (emitTrusted cr env t p ls who org rs b)"
proof -
  have "stream_next cr cf es b (Inl ErrHash, b1)" if "seal_event cr p e b = (None, b1)" for e b1
    using stream_sealed [OF assms(1,2) that assms(3)] by simp
  moreover have "stream_next cr cf es b (Inr e1, fanoutLocked rd e1 (applyRetainedLocked now e1 (append_event cr env e1 b1)))"
    if "seal_event cr p e b = (Some e1, b1)" for e e1 b1 rd now
    using stream_sealed [OF assms(1,2) that assms(3)] by simp
  ultimately show ?thesis using assms(1) by (auto simp: emitTrusted_def Let_def stream_next_same split: prod.split option.split)
qed

lemma stream_PublishOpts:
  assumes "stream_state cr cf es b" "b_seq b + 1 < 2 ^ 64" "be_write env = None"
  shows "stream_next cr cf es b (PublishOpts cr env i t p po b)"
proof -
  have locked: "stream_next cr cf es b (publish_locked cr env e p b2)" if "stream_fields b2 = stream_fields b" for e b2
    using that assms stream_state_fields [OF that] stream_publish_locked [of cr cf es b2 env e p] stream_next_from [OF that]
    by (simp add: stream_fields_def)
  have dec: "stream_fields b2 = stream_fields b" if "pub_decide cr now i t tok (b\<lparr>b_lim := l1\<rparr>) = (x, b2)" for now tok l1 x b2
    using pub_decide_pair [OF that] by auto
  have inl: "stream_next cr cf es b (Inl err, b3)"
    if "pub_decide cr now i t tok (b\<lparr>b_lim := l1\<rparr>) = (x, b2)" "publish_locked cr env e p b2 = (Inl err, b3)" for now tok l1 x b2 e err b3
    using locked [OF dec [OF that(1)], of e] that(2) by simp
  have inr: "stream_next cr cf es b (Inr e1, broker_record i m t d w pv b3)"
    if "pub_decide cr now i t tok (b\<lparr>b_lim := l1\<rparr>) = (x, b2)" "publish_locked cr env e p b2 = (Inr e1, b3)" for now tok l1 x b2 e e1 b3 m d w pv
    using locked [OF dec [OF that(1)], of e] that(2) by (auto intro: stream_next_event)
  show ?thesis using assms(1)
    by (auto simp: PublishOpts_def Let_def stream_next_same dec split: prod.split option.split sum.split intro: inl inr)
qed

lemma stream_EmitFederated:
  assumes "stream_state cr cf es b" "b_seq b + 1 < 2 ^ 64" "be_write env = None"
  shows "stream_next cr cf es b (EmitFederated cr env t p ls who org keep del until b)"
proof -
  have "stream_next cr cf es b (emitTrusted cr env t p ls' who org rs (b\<lparr>b_lim := l1\<rparr>))" for ls' rs l1
    using stream_emitTrusted [of cr cf es "b\<lparr>b_lim := l1\<rparr>" env t p ls' who org rs] assms stream_state_fields [of "b\<lparr>b_lim := l1\<rparr>" b]
      stream_next_from [of "b\<lparr>b_lim := l1\<rparr>" b] by simp
  then show ?thesis using assms(1) by (auto simp: EmitFederated_def Let_def stream_next_same split: prod.split)
qed

lemma stream_do:
  assumes "stream_state cr cf es b" "b_seq b + 1 < 2 ^ 64" "op_clean x" "bus_do cr x b = (fs, b')"
  shows "stream_state cr cf (es @ fs) b' \<and> b_seq b' \<le> b_seq b + 1"
proof -
  have plain: "stream_state cr cf es b'" "b_seq b' = b_seq b" if "stream_fields b' = stream_fields b"
    using that assms(1) stream_state_fields [OF that] by (simp_all add: stream_fields_def)
  show ?thesis
  proof (cases x)
    case OpClose
    then have "stream_fields b' = stream_fields b" "fs = []" using assms(4) by (auto simp: CloseBroker_def stream_fields_def)
    then show ?thesis using plain by simp
  next
    case (OpSubscribe env i so)
    then have "stream_fields b' = stream_fields b" "fs = []" using assms(4) stream_Subscribe by auto
    then show ?thesis using plain by simp
  next
    case (OpPublish env i t p po)
    then show ?thesis using assms stream_PublishOpts [of cr cf es b env i t p po] by (simp add: stream_next_def)
  next
    case (OpInternal env src t p ls)
    then show ?thesis using assms stream_emitTrusted [of cr cf es b env t p ls src "[]" "\<lparr>rs_set = False, rs_del = False, rs_exp = []\<rparr>"] by (simp add: stream_next_def EmitInternal_def)
  next
    case (OpFederated env t p ls who org keep del until)
    then show ?thesis using assms stream_EmitFederated [of cr cf es b env t p ls who org keep del until] by (simp add: stream_next_def)
  qed (use assms(4) plain in \<open>auto simp: Unsubscribe_def\<close>)
qed

lemma stream_run:
  "stream_state cr cf es b \<Longrightarrow> b_seq b + length xs < 2 ^ 64 \<Longrightarrow> list_all op_clean xs \<Longrightarrow> bus_run cr xs b = (fs, b') \<Longrightarrow>
   stream_state cr cf (es @ fs) b'"
proof (induction xs arbitrary: es b fs)
  case (Cons x xs)
  obtain f1 b1 where d: "bus_do cr x b = (f1, b1)" by fastforce
  obtain f2 where r: "bus_run cr xs b1 = (f2, b')" "fs = f1 @ f2" using Cons.prems(4) d by (auto split: prod.splits)
  have s: "stream_state cr cf (es @ f1) b1" "b_seq b1 \<le> b_seq b + 1" using stream_do [OF Cons.prems(1) _ _ d] Cons.prems(2,3) by auto
  then show ?case using Cons.IH [OF s(1) _ _ r(1)] Cons.prems(2,3) r(2) by simp
qed simp

lemma retain_nonneg: "0 \<le> lm_Retain (withDefaults l)"
  by (simp add: withDefaults_def DefaultLimits_def Let_def)

lemma retain_fold_stream: "stream_fields (fold (applyRetainedLocked now) es b) = stream_fields b"
  by (induction es arbitrary: b) simp_all

lemma NewBroker_stream:
  "stream_fields (NewBroker now opts) =
     (ev_head [] (o_Seed opts), (if o_Seed opts = [] then 0 else ev_Seq (last (o_Seed opts))),
      fold ring_add (drop (length (o_Seed opts) - nat (lm_Retain (withDefaults (o_Limits opts)))) (o_Seed opts)) (newRing (lm_Retain (withDefaults (o_Limits opts)))),
      o_Events opts)"
proof -
  have "nat (int n - lm_Retain (withDefaults (o_Limits opts))) = n - nat (lm_Retain (withDefaults (o_Limits opts)))" for n
    using retain_nonneg [of "o_Limits opts"] by simp
  moreover have "stream_fields (sweepExpiredRetainedLocked now b) = stream_fields b" for b :: "'a broker"
    by (simp add: sweepExpiredRetainedLocked_def)
  ultimately show ?thesis
    by (simp add: NewBroker_def Let_def retain_fold_stream) (simp add: stream_fields_def blank_broker_def ev_head_def Let_def)
qed

lemma NewBroker_state:
  assumes "ev_VerifyChain cr (o_Seed opts) = None" "\<And>l. o_Events opts = Some l \<Longrightarrow> el_w l = ev_text (o_Seed opts)"
  shows "stream_state cr (o_Events opts \<noteq> None, nat (lm_Retain (withDefaults (o_Limits opts)))) (o_Seed opts) (NewBroker now opts)"
proof -
  let ?b = "NewBroker now opts" and ?seed = "o_Seed opts" and ?c = "nat (lm_Retain (withDefaults (o_Limits opts)))"
  have f: "b_prev ?b = ev_head [] ?seed" "b_seq ?b = (if ?seed = [] then 0 else ev_Seq (last ?seed))" "b_events ?b = o_Events opts"
    "b_ring ?b = fold ring_add (drop (length ?seed - ?c) ?seed) (newRing (lm_Retain (withDefaults (o_Limits opts))))"
    using NewBroker_stream [of now opts] by (simp_all add: stream_fields_def)
  have ring: "ring_ok (b_ring ?b)" "r_cap (b_ring ?b) = ?c" "ring_snapshot (b_ring ?b) = drop (length ?seed - ?c) ?seed"
    unfolding f(4) using keep.add_all_ok [OF keep.empty(1)] keep.add_all [OF keep.empty(1)] by (simp_all add: keep.empty)
  then show ?thesis using assms f by (auto simp: stream_state_def ev_VerifyChain_None split: option.split)
qed

definition seed_seq :: "event list \<Rightarrow> nat" where
  "seed_seq es = (if es = [] then 0 else ev_Seq (last es))"

lemma NewBroker_seq: "b_seq (NewBroker now opts) = seed_seq (o_Seed opts)"
  using NewBroker_stream [of now opts] by (simp add: stream_fields_def seed_seq_def)


lemma demo_load: "LoadEvents demo_crypto [] = Inr []"
  using LoadEvents_log [of "[]" demo_crypto "[]"] by (simp add: ev_VerifyChain_def max_token_def)


subsection \<open>Replay\<close>

text \<open>A replay gives the events after a number that the ring still holds, and says so when it lost one of them.\<close>

lemma replay_complete:
  assumes "stream_state cr cf es b" "0 < snd cf" "ring_since n (b_ring b) = (rs, truncated)"
  shows "suffix rs (filter (\<lambda>e. n < ev_Seq e) es) \<and> (\<not> truncated \<longrightarrow> rs = filter (\<lambda>e. n < ev_Seq e) es)"
proof -
  let ?k = "length es - snd cf"
  have s: "ring_ok (b_ring b)" "ring_snapshot (b_ring b) = drop ?k es" "ev_linked cr None [] es"
    using assms(1) by (auto simp: stream_state_def)
  have rs: "rs = filter (\<lambda>e. n < ev_Seq e) (drop ?k es)" and tr: "truncated \<longleftrightarrow> drop ?k es \<noteq> [] \<and> u64 (n + 1) < ev_Seq (hd (drop ?k es))"
    using assms(3) s by (simp_all add: ring_since_spec)
  have split: "filter (\<lambda>e. n < ev_Seq e) es = filter (\<lambda>e. n < ev_Seq e) (take ?k es) @ rs"
    unfolding rs by (metis append_take_drop_id filter_append)
  have "filter (\<lambda>e. n < ev_Seq e) (take ?k es) = []" if "\<not> truncated"
  proof (cases "take ?k es = []")
    case True
    then show ?thesis by (simp only: filter.simps)
  next
    case False
    then have k: "0 < ?k" "drop ?k es \<noteq> []" using assms(2) by auto
    have "sorted_wrt (<) (map ev_Seq (take ?k es @ drop ?k es))" using ev_linked_sorted [OF s(3)] by simp
    then have "\<forall>e\<in>set (take ?k es). ev_Seq e < ev_Seq (hd (drop ?k es))" using k(2) unfolding map_append sorted_wrt_append by auto
    moreover have "ev_Seq (hd (drop ?k es)) \<le> n + 1"
    proof -
      have "u64 (n + 1) \<le> n + 1" by (simp add: u64_def)
      moreover have "ev_Seq (hd (drop ?k es)) \<le> u64 (n + 1)" using that k(2) unfolding tr by simp
      ultimately show ?thesis by (rule order_trans [rotated])
    qed
    ultimately show ?thesis by (auto simp: filter_empty_conv)
  qed
  then show ?thesis unfolding split by (auto simp: suffix_def)
qed

end
