(* ===== verification/BrokerDelivery.thy ===== *)
theory BrokerDelivery
  imports BrokerStream
begin

text \<open>
  What a subscriber gets: the life of a subscription between the moment it is registered and the moment it ends, with every
  event that was offered to it either queued or counted as dropped; the caps on subscriptions that hold in every reachable
  broker; and the events a subscription that resumes from a sequence number is handed.
\<close>

subsection \<open>The life of an ungrouped subscription\<close>

inductive sub_steps :: "limits \<Rightarrow> subscription \<Rightarrow> event list \<Rightarrow> subscription \<Rightarrow> bool" for lm s where
  start: "sub_steps lm s [] s"
| read: "sub_steps lm s es s' \<Longrightarrow> sub_steps lm s es (sub_recv s')"
| offered: "sub_steps lm s es s' \<Longrightarrow> offer lm r1 r2 e s' = Some s'' \<Longrightarrow> sub_steps lm s (es @ [e]) s''"

lemma steps_conf: "sub_steps lm s es s' \<Longrightarrow> sub_conf s' = sub_conf s"
  by (induction rule: sub_steps.induct) (auto dest: offer_conf)

lemma offer_kept: "offer lm r1 r2 e s = Some s' \<Longrightarrow> s_inflight s' = s_inflight s \<and> s_truncated s' = s_truncated s"
  by (auto simp: offer_def Let_def sub_send_def sub_recv_def split: if_splits list.splits)

lemma steps_kept: "sub_steps lm s es s' \<Longrightarrow> s_inflight s' = s_inflight s \<and> s_truncated s' = s_truncated s"
  by (induction rule: sub_steps.induct) (auto dest: offer_kept simp: sub_recv_def split: list.split)

definition sub_all :: "subscription \<Rightarrow> event list" where
  "sub_all s = s_got s @ s_ch s"

lemma recv_all [simp]: "sub_all (sub_recv s) = sub_all s" "s_dropped (sub_recv s) = s_dropped s"
  by (simp_all add: sub_all_def sub_recv_def split: list.split)

lemma recv_got: "prefix (s_got s) (s_got (sub_recv s))"
  by (simp add: sub_recv_def split: list.split)

lemma subseq_skip: "subseq (xs @ ys) (xs @ x # ys)"
  by (induction xs) auto

text \<open>What one offer does: the event is appended and at most one event is lost, and a loss is counted.\<close>

lemma offer_effect:
  assumes "offer lm r1 r2 e s = Some s'" "0 < SubQueue lm" "int (length (s_ch s)) \<le> SubQueue lm" "s_dropped s + 1 < 2 ^ 64"
  shows "prefix (s_got s) (s_got s') \<and> int (length (s_ch s')) \<le> SubQueue lm \<and> (sub_all s' = sub_all s @ [e] \<and> s_dropped s' = s_dropped s \<or>
    s_bp s = DropOldest \<and> s_dropped s' = s_dropped s + 1 \<and> subseq (sub_all s') (sub_all s @ [e]) \<and> length (sub_all s) \<le> length (sub_all s'))"
proof -
  define s1 where "s1 = (if r1 then sub_recv s else s)"
  define s2 where "s2 = (if r2 then sub_recv s1 else s1)"
  have all: "sub_all s1 = sub_all s" "sub_all s2 = sub_all s" "s_dropped s2 = s_dropped s" "s_dropped s1 = s_dropped s"
    by (simp_all add: s1_def s2_def)
  have got: "prefix (s_got s) (s_got s1)" "prefix (s_got s) (s_got s2)"
    using recv_got [of s] recv_got [of s1] by (auto simp: s1_def s2_def intro: prefix_order.trans)
  define s4 where "s4 = (if has_room lm (s2\<lparr>s_ch := tl (s_ch s2)\<rparr>) then sub_send e (s2\<lparr>s_ch := tl (s_ch s2)\<rparr>) else s2\<lparr>s_ch := tl (s_ch s2)\<rparr>)"
  consider (room) "s' = sub_send e s" "has_room lm s" | (retry) "s' = sub_send e s1" "has_room lm s1"
    | (full) "s_bp s \<noteq> Disconnect" "s' = s4\<lparr>s_dropped := u64 (s_dropped s4 + 1)\<rparr>"
    using assms(1) unfolding offer_def Let_def s1_def [symmetric] s2_def [symmetric] s4_def [symmetric] by (auto split: if_splits)
  then show ?thesis
  proof cases
    case full
    let ?s3 = "s2\<lparr>s_ch := tl (s_ch s2)\<rparr>"
    have "length (s_ch s2) \<le> length (s_ch s)" by (auto simp: s1_def s2_def sub_recv_def split: list.split)
    then have "has_room lm ?s3" using assms(2,3) by (cases "s_ch s2") (auto simp: has_room_def)
    then have s': "s_got s' = s_got s2" "s_ch s' = tl (s_ch s2) @ [e]" "s_dropped s' = s_dropped s + 1"
      using full assms(4) by (simp_all add: s4_def sub_send_def u64_def all)
    have "subseq (s_got s2 @ tl (s_ch s2) @ [e]) (sub_all s2 @ [e])"
      using subseq_skip [of "s_got s2" "tl (s_ch s2) @ [e]"] by (cases "s_ch s2") (simp_all add: sub_all_def)
    moreover have "length (sub_all s2) \<le> length (s_got s2 @ tl (s_ch s2) @ [e])" by (cases "s_ch s2") (simp_all add: sub_all_def)
    moreover have "int (length (s_ch s')) \<le> SubQueue lm"
      using \<open>length (s_ch s2) \<le> length (s_ch s)\<close> assms(2,3) s'(2) by (cases "s_ch s2") auto
    ultimately show ?thesis using s' full(1) got(2) all(2) by (cases "s_bp s") (simp_all add: sub_all_def [of s'])
  qed (use all got in \<open>simp_all add: sub_send_def sub_all_def has_room_def\<close>)
qed

definition lossless :: "subscription \<Rightarrow> event list \<Rightarrow> subscription \<Rightarrow> bool" where
  "lossless s es s' =
     (prefix (s_got s) (s_got s') \<and> subseq (sub_all s') (sub_all s @ es) \<and> s_dropped s \<le> s_dropped s' \<and>
      length (sub_all s @ es) \<le> length (sub_all s') + (s_dropped s' - s_dropped s) \<and>
      (s_bp s = Disconnect \<longrightarrow> sub_all s' = sub_all s @ es))"

lemma steps_lossless:
  assumes "sub_steps lm s es s'" "0 < SubQueue lm" "int (length (s_ch s)) \<le> SubQueue lm" "s_dropped s + length es < 2 ^ 64"
  shows "lossless s es s' \<and> s_dropped s' \<le> s_dropped s + length es \<and> int (length (s_ch s')) \<le> SubQueue lm"
  using assms
proof (induction rule: sub_steps.induct)
  case start
  then show ?case by (simp add: lossless_def)
next
  case (read es s')
  have "length (s_ch (sub_recv s')) \<le> length (s_ch s')" by (simp add: sub_recv_def split: list.split)
  then show ?case using read recv_got [of s'] by (auto simp: lossless_def intro: prefix_order.trans)
next
  case (offered es s' r1 r2 e s'')
  then have ih: "lossless s es s'" "s_dropped s' \<le> s_dropped s + length es" "int (length (s_ch s')) \<le> SubQueue lm" by auto
  have c: "sub_conf s' = sub_conf s" using offered.hyps(1) by (rule steps_conf)
  have bp: "s_bp s' = s_bp s" using conf_fields(8) [OF c] .
  from offer_effect [OF offered.hyps(2) assms(2) ih(3)] ih(2) offered.prems(3)
  have "prefix (s_got s') (s_got s'')" and b: "int (length (s_ch s'')) \<le> SubQueue lm" and e: "sub_all s'' = sub_all s' @ [e] \<and> s_dropped s'' = s_dropped s' \<or>
    s_bp s' = DropOldest \<and> s_dropped s'' = s_dropped s' + 1 \<and> subseq (sub_all s'') (sub_all s' @ [e]) \<and> length (sub_all s') \<le> length (sub_all s'')"
    by auto
  then have g: "prefix (s_got s) (s_got s'')" using ih(1) by (auto simp: lossless_def intro: prefix_order.trans)
  have app: "subseq (sub_all s' @ [e]) (sub_all s @ es @ [e])"
    using ih(1) list_emb_append_mono [of "(=)" "sub_all s'" "sub_all s @ es" "[e]" "[e]"] by (simp add: lossless_def)
  from e show ?case
  proof (elim disjE conjE)
    assume "sub_all s'' = sub_all s' @ [e]" "s_dropped s'' = s_dropped s'"
    then show ?thesis using ih g b app by (auto simp: lossless_def)
  next
    assume d: "s_bp s' = DropOldest" "s_dropped s'' = s_dropped s' + 1" "subseq (sub_all s'') (sub_all s' @ [e])" "length (sub_all s') \<le> length (sub_all s'')"
    have "subseq (sub_all s'') (sub_all s @ es @ [e])" using app d(3) subseq_order.trans by blast
    then show ?thesis using ih g b d bp by (auto simp: lossless_def)
  qed
qed

subsection \<open>Following one subscription through a run\<close>

interpretation ids: sub_invariant "\<lambda>_. True" lm for lm
  by unfold_locales simp_all

text \<open>While it is open, the subscription numbered \<open>k\<close> has gone from \<open>s\<close> through offers of exactly the events \<open>es\<close>.\<close>

definition tracked :: "limits \<Rightarrow> nat \<Rightarrow> subscription \<Rightarrow> event list \<Rightarrow> 's broker \<Rightarrow> bool" where
  "tracked lm k s es b = (ids.holds lm b \<and> s_group s = [] \<and> s_inflight s = [] \<and> (\<forall>s'. sub_of k b = Some s' \<longrightarrow> sub_steps lm s es s'))"

lemma tracked_ids: "tracked lm k s es b \<Longrightarrow> ids.holds lm b \<and> ids_ok b \<and> b_lm b = lm"
  by (simp add: tracked_def ids.holds_def)

lemma tracked_ungrouped: "tracked lm k s es b \<Longrightarrow> sub_of k b = Some t \<Longrightarrow> s_group t = []"
  using conf_fields(6) [OF steps_conf] by (fastforce simp: tracked_def)

lemma tracked_accepts: "tracked lm k s es b \<Longrightarrow> sub_of k b = Some t \<Longrightarrow> sub_accepts t e = sub_accepts s e"
  using conf_fields(9) [OF steps_conf] by (fastforce simp: tracked_def)

lemma tracked_gone: "tracked lm k s es b \<Longrightarrow> sub_of k b = None \<Longrightarrow> tracked lm k s fs b"
  by (simp add: tracked_def)

lemma tracked_same: "tracked lm k s es b \<Longrightarrow> ids.holds lm b' \<Longrightarrow> sub_of k b' = sub_of k b \<Longrightarrow> tracked lm k s es b'"
  by (simp add: tracked_def)

lemma tracked_member: "tracked lm k s es b \<Longrightarrow> t \<in> set (b_subs b) \<Longrightarrow> s_group t \<noteq> [] \<Longrightarrow> s_ID t \<noteq> k"
  using tracked_ids tracked_ungrouped sub_of_Some by metis

lemma sub_of_C: "sub_of k (sub_C j b) = (if j = k then map_option sub_recv (sub_of k b) else sub_of k b)"
proof -
  have "sub_of k (sub_C j b) = sub_of k (upd_sub j sub_recv b)" by (simp add: sub_C_def upd_any_def sub_of_def)
  then show ?thesis by (simp add: sub_of_upd)
qed

lemma tracked_C: "tracked lm k s es b \<Longrightarrow> tracked lm k s es (sub_C j b)"
  by (auto simp: tracked_def sub_of_C ids.holds_read intro: sub_steps.read)

lemma tracked_reads: "tracked lm k s es b \<Longrightarrow> tracked lm k s es (fold sub_C ks b)"
  by (induction ks arbitrary: b) (simp_all add: tracked_C)

lemma sub_of_RR [simp]: "sub_of k (b\<lparr>b_groupRR := x\<rparr>) = sub_of k b" "sub_of k (b\<lparr>b_groupPend := y\<rparr>) = sub_of k b"
  "sub_of k (b\<lparr>b_groupN := z\<rparr>) = sub_of k b"
  by (simp_all add: sub_of_def)

lemma tracked_place:
  assumes "tracked lm k s es b" "g \<noteq> []" "tryPlaceOnGroupLocked g (group_members e g b) e b = (r, b')"
  shows "tracked lm k s es b'"
proof (rule tracked_same [OF assms(1)])
  show "ids.holds lm b'" using ids.holds_place assms tracked_ids by blast
  have "s_ID t \<noteq> k" if "List.find P (rotate n (sort_key s_ID (group_members e g b))) = Some t" for P n t
    using find_SomeD [OF that] assms(2) by (intro tracked_member [OF assms(1)]) (auto simp: group_members_def)
  then show "sub_of k b' = sub_of k b"
    using assms(3) by (auto simp: tryPlaceOnGroupLocked_def Let_def sub_of_upd split: if_splits option.splits) blast
qed

lemma tracked_drain_loop:
  "tracked lm k s es b \<Longrightarrow> g \<noteq> [] \<Longrightarrow> drain_loop rd i g q b = (q', b') \<Longrightarrow> tracked lm k s es b'"
proof (induction q arbitrary: i b)
  case (Cons e q)
  have "tracked lm k s es (fold sub_C (rd i) b)" using Cons.prems(1) by (rule tracked_reads)
  then show ?case using Cons.prems(2,3) Cons.IH by (auto simp: Let_def split: prod.splits bool.splits dest: tracked_place)
qed simp

lemma tracked_drain: "tracked lm k s es b \<Longrightarrow> tracked lm k s es (drainGroupPendingLocked rd g b)"
proof -
  assume t: "tracked lm k s es b"
  have "tracked lm k s es (b'\<lparr>b_groupPend := x\<rparr>)" if "drain_loop (rd_drain rd) 0 g (b_groupPend b g) b = (q, b')" "g \<noteq> []" for q b' x
    using tracked_drain_loop [OF t that(2,1)] by (simp add: tracked_def)
  then show ?thesis using t by (auto simp: drainGroupPendingLocked_def split: prod.split)
qed

lemma tracked_leave:
  assumes "tracked lm k s es b"
  shows "tracked lm k s es (leave_group rd t b)"
proof -
  have "tracked lm k s es (requeue n t b)" for n using assms by (auto simp: requeue_def tracked_def)
  then have "tracked lm k s es ((requeue n t b)\<lparr>b_groupN := x\<rparr>)" "tracked lm k s es ((count_dropped m (requeue n t b))\<lparr>b_groupN := x, b_groupRR := y, b_groupPend := z\<rparr>)"
    for n m x y z by (simp_all add: tracked_def)
  then show ?thesis by (auto simp: leave_group_def Let_def intro: tracked_drain)
qed

lemma tracked_close: "tracked lm k s es b \<Longrightarrow> tracked lm k s es (closeSubLocked rd j b)"
proof (cases "sub_of j b")
  case (Some t)
  assume b: "tracked lm k s es b"
  have "ids.holds lm (b\<lparr>b_subs := filter (\<lambda>s. s_ID s \<noteq> j) (b_subs b), b_perPeer := p, b_ended := u # b_ended b\<rparr>)" for p u
    using tracked_ids [OF b] by (auto simp: ids.holds_def ids_ok_def distinct_map_filter)
  then have "tracked lm k s es (b\<lparr>b_subs := filter (\<lambda>s. s_ID s \<noteq> j) (b_subs b), b_perPeer := p, b_ended := u # b_ended b\<rparr>)" for p u
    using b by (simp add: tracked_def sub_of_def find_other)
  then show ?thesis using Some by (auto simp: closeSubLocked_def Let_def intro: tracked_leave)
qed (simp add: closeSubLocked_def)

lemma tracked_deliver_other:
  assumes "tracked lm k s es b" "j \<noteq> k" "\<And>t. sub_of j b = Some t \<Longrightarrow> sub_accepts t e"
  shows "tracked lm k s es (deliverLocked rd j e b)"
proof (cases "sub_of j b")
  case (Some t)
  have h: "ids.holds lm (deliverLocked rd j e b)" using assms tracked_ids by (intro ids.holds_deliver) blast+
  have j: "s_ID t = j" using sub_of_mem [OF Some] by simp
  show ?thesis
  proof (cases "\<not> has_room (b_lm b) t \<and> s_bp t = Disconnect")
    case True
    then show ?thesis using Some tracked_close [OF assms(1)] by (simp add: deliverLocked_def)
  next
    case False
    have "sub_of k (deliverLocked rd j e b) = sub_of k b"
      using False Some assms(2) j by (auto simp: deliverLocked_def Let_def sub_of_upd)
    then show ?thesis by (rule tracked_same [OF assms(1) h])
  qed
qed (use assms in \<open>simp add: deliverLocked_def\<close>)

lemma tracked_deliver:
  assumes "tracked lm k s es b" "sub_accepts s e"
  shows "tracked lm k s (es @ [e]) (deliverLocked rd k e b)"
proof (cases "sub_of k b")
  case None
  then show ?thesis using tracked_gone [OF assms(1)] by (simp add: deliverLocked_def)
next
  case (Some t)
  have t: "s_group t = []" "sub_accepts t e" "sub_steps lm s es t" "b_lm b = lm"
    using tracked_ungrouped [OF assms(1) Some] tracked_accepts [OF assms(1) Some] assms Some tracked_ids [OF assms(1)] by (simp_all add: tracked_def)
  have "ids.holds lm (deliverLocked rd k e b)" using Some t tracked_ids [OF assms(1)] by (intro ids.holds_deliver) auto
  then show ?thesis using assms(1) t by (auto simp: tracked_def sub_of_deliver [OF Some t(1)] intro: sub_steps.offered)
qed

lemma tracked_fanout_one:
  assumes "tracked lm k s es b"
  shows "tracked lm k s (if j = k \<and> sub_accepts s e then es @ [e] else es) (fanout_one rd e j b)"
proof (cases "sub_of j b")
  case None
  then show ?thesis using assms tracked_gone by (auto simp: fanout_one_def)
next
  case (Some t)
  show ?thesis
  proof (cases "j = k")
    case True
    then show ?thesis using Some assms tracked_accepts [OF assms] tracked_ungrouped [OF assms] tracked_deliver [OF assms] by (auto simp: fanout_one_def)
  next
    case False
    then show ?thesis using Some assms tracked_deliver_other [OF assms False] by (auto simp: fanout_one_def)
  qed
qed

lemma tracked_fanout_others: "tracked lm k s es b \<Longrightarrow> k \<notin> set js \<Longrightarrow> tracked lm k s es (fold (fanout_one rd e) js b)"
proof (induction js arbitrary: b)
  case (Cons j js)
  then show ?case using tracked_fanout_one [OF Cons.prems(1), of j e rd] by auto
qed simp

lemma tracked_group:
  assumes "tracked lm k s es b" "g \<noteq> []"
  shows "tracked lm k s es (deliverToGroupLocked rd e g b)"
proof -
  let ?ms = "group_members e g b"
  obtain r b1 where t: "tryPlaceOnGroupLocked g ?ms e b = (r, b1)" by fastforce
  have h: "tracked lm k s es b1" using tracked_place [OF assms t] .
  have same: "b_subs b1 = b_subs b" if "\<not> r" using t that by (auto simp: tryPlaceOnGroupLocked_def Let_def split: if_splits option.splits)
  have "tracked lm k s es (deliverLocked rd (s_ID u) e b1)" if "\<not> r" "sort_key s_ID ?ms = u # us" for u us
  proof (rule tracked_deliver_other [OF h])
    have "u \<in> set (sort_key s_ID ?ms)" using that(2) by simp
    then have u: "u \<in> set (b_subs b1)" "s_group u = g" "sub_accepts u e" using same [OF that(1)] by (simp_all add: group_members_def)
    then show "s_ID u \<noteq> k" using tracked_member [OF h] assms(2) by simp
    show "sub_accepts t e" if "sub_of (s_ID u) b1 = Some t" for t
      using that u sub_of_Some [of b1 "s_ID u" u] tracked_ids [OF h] by simp
  qed
  moreover have "tracked lm k s es (enqueueGroupPendingLocked g e b1)"
    using h by (simp add: tracked_def enqueueGroupPendingLocked_def Let_def)
  ultimately show ?thesis using t h by (auto simp: deliverToGroupLocked_def Let_def split: bool.split list.split)
qed

lemma tracked_groups: "tracked lm k s es b \<Longrightarrow> [] \<notin> set gs \<Longrightarrow> tracked lm k s es (fold (deliverToGroupLocked rd e) gs b)"
proof (induction gs arbitrary: b)
  case (Cons g gs)
  have "tracked lm k s es (deliverToGroupLocked rd e g b)" using Cons.prems by (intro tracked_group) auto
  then show ?case using Cons by simp
qed simp

lemma tracked_fanout:
  assumes "tracked lm k s es b"
  shows "tracked lm k s (es @ filter (sub_accepts s) [e]) (fanoutLocked rd e b)"
proof -
  let ?js = "map s_ID (b_subs b)" and ?es = "es @ filter (sub_accepts s) [e]"
  have "tracked lm k s ?es (fold (fanout_one rd e) ?js b)"
  proof (cases "sub_of k b")
    case None
    then have "k \<notin> set ?js" by (simp add: sub_of_None)
    then show ?thesis using tracked_fanout_others tracked_gone [OF assms None] by blast
  next
    case (Some t)
    then have "k \<in> set ?js" using sub_of_mem [OF Some] by auto
    then obtain xs ys where js: "?js = xs @ k # ys" by (meson split_list)
    then have n: "k \<notin> set xs" "k \<notin> set ys" using tracked_ids [OF assms] by (auto simp: ids_ok_def)
    have "tracked lm k s es (fold (fanout_one rd e) xs b)" using tracked_fanout_others [OF assms n(1)] .
    then have "tracked lm k s ?es (fanout_one rd e k (fold (fanout_one rd e) xs b))" using tracked_fanout_one [of lm k s es _ k e] by fastforce
    from tracked_fanout_others [OF this n(2), of rd e] show ?thesis unfolding js by simp
  qed
  then have "tracked lm k s ?es (fold (deliverToGroupLocked rd e) gs (fold (fanout_one rd e) ?js b))" if "[] \<notin> set gs" for gs
    using that by (rule tracked_groups)
  then show ?thesis by (simp add: fanoutLocked_def Let_def del: filter.simps)
qed

lemma tracked_updates [simp]:
  "tracked lm k s es (b\<lparr>b_lim := x1\<rparr>) = tracked lm k s es b" "tracked lm k s es (broker_record i m t d r pv b) = tracked lm k s es b"
  "tracked lm k s es (snd (capAllows cr now i t tok b)) = tracked lm k s es b"
  "tracked lm k s es (append_event cr env e b) = tracked lm k s es b"
  "tracked lm k s es (applyRetainedLocked now e b) = tracked lm k s es b" "tracked lm k s es (drop_topics ts b) = tracked lm k s es b"
  by (simp_all add: tracked_def sub_of_def)
    (simp_all add: broker_record_def capAllows_def append_event_def core_retain drop_topics_def split: option.split prod.split)

lemma tracked_sealed: "tracked lm k s es b \<Longrightarrow> seal_event cr p e b = (r, b') \<Longrightarrow> tracked lm k s es b'"
  by (auto simp: tracked_def sub_of_def ids.holds_def ids_ok_def seal_event_def Let_def split: option.splits)

definition track_next :: "limits \<Rightarrow> nat \<Rightarrow> subscription \<Rightarrow> event list \<Rightarrow> (bus_err + event) \<times> 's broker \<Rightarrow> bool" where
  "track_next lm k s es r = (case new_event r of (fs, b') \<Rightarrow> tracked lm k s (es @ filter (sub_accepts s) fs) b')"

lemma track_next_simps [simp]:
  "track_next lm k s es (Inl err, b) = tracked lm k s es b" "track_next lm k s es (Inr e, b) = tracked lm k s (es @ filter (sub_accepts s) [e]) b"
  by (simp_all add: track_next_def new_event_def)

lemma track_publish_locked:
  assumes "tracked lm k s es b"
  shows "track_next lm k s es (publish_locked cr env e p b)"
proof -
  have "track_next lm k s es (Inr e1, fanoutLocked rd e1 (append_event cr env e1 (applyRetainedLocked now e1 b1)))"
    if "seal_event cr p e b = (Some e1, b1)" for e1 b1 rd now
    unfolding track_next_simps using tracked_sealed [OF assms that] by (intro tracked_fanout) simp
  then show ?thesis using assms tracked_sealed [OF assms]
    by (auto simp: publish_locked_def split: prod.split option.split simp del: track_next_simps(2) filter.simps)
qed

lemma track_emitTrusted:
  assumes "tracked lm k s es b"
  shows "track_next lm k s es (emitTrusted cr env t p ls who org rs b)"
proof -
  have "track_next lm k s es (Inr e1, fanoutLocked rd e1 (applyRetainedLocked now e1 (append_event cr env e1 b1)))"
    if "seal_event cr p e b = (Some e1, b1)" for e e1 b1 rd now
    unfolding track_next_simps using tracked_sealed [OF assms that] by (intro tracked_fanout) simp
  then show ?thesis using assms tracked_sealed [OF assms]
    by (auto simp: emitTrusted_def Let_def split: prod.split option.split simp del: track_next_simps(2) filter.simps)
qed

lemma track_PublishOpts:
  assumes "tracked lm k s es b"
  shows "track_next lm k s es (PublishOpts cr env i t p po b)"
proof -
  have dec: "tracked lm k s es b2" if "pub_decide cr now i t tok (b\<lparr>b_lim := l1\<rparr>) = (x, b2)" for now tok l1 x b2
    using pub_decide_pair [OF that] assms by auto
  have inl: "tracked lm k s es b3"
    if "pub_decide cr now i t tok (b\<lparr>b_lim := l1\<rparr>) = (x, b2)" "publish_locked cr env e p b2 = (Inl err, b3)" for now tok l1 x b2 e err b3
    using track_publish_locked [OF dec [OF that(1)], of cr env e p] that(2) by simp
  have inr: "track_next lm k s es (Inr e1, broker_record i m t d w pv b3)"
    if "pub_decide cr now i t tok (b\<lparr>b_lim := l1\<rparr>) = (x, b2)" "publish_locked cr env e p b2 = (Inr e1, b3)" for now tok l1 x b2 e e1 b3 m d w pv
    using track_publish_locked [OF dec [OF that(1)], of cr env e p] that(2) by simp
  show ?thesis using assms
    by (auto simp: PublishOpts_def Let_def dec split: prod.split option.split sum.split intro: inl inr simp del: track_next_simps(2))
qed

lemma track_EmitFederated:
  assumes "tracked lm k s es b"
  shows "track_next lm k s es (EmitFederated cr env t p ls who org keep del until b)"
  using assms track_emitTrusted [of lm k s es "b\<lparr>b_lim := l1\<rparr>" for l1]
  by (auto simp: EmitFederated_def Let_def split: prod.split)

lemma tracked_deliver_all:
  assumes "tracked lm k s es b" "j \<noteq> k" "\<And>t. sub_of j b = Some t \<Longrightarrow> s_group t = [] \<and> list_all (sub_accepts t) fs"
  shows "tracked lm k s es (deliver_all j fs b)"
  using assms(1,3)
proof (induction fs arbitrary: b)
  case (Cons e fs)
  let ?b = "deliverLocked no_reads j e b"
  have "tracked lm k s es ?b" using Cons.prems by (intro tracked_deliver_other assms(2)) auto
  moreover have "s_group t' = [] \<and> list_all (sub_accepts t') fs" if t': "sub_of j ?b = Some t'" for t'
  proof (cases "sub_of j b")
    case None
    then show ?thesis using t' by (simp add: deliverLocked_def)
  next
    case (Some t)
    then have t: "s_group t = []" "list_all (sub_accepts t) fs" using Cons.prems(2) by auto
    then have "sub_conf t' = sub_conf t" using t' Some offer_conf by (auto simp: sub_of_deliver)
    note c = conf_fields(6,9) [OF this]
    show ?thesis using t by (simp add: c list_all_iff)
  qed
  ultimately show ?case using Cons.IH by (auto simp: Let_def split: option.split)
qed simp

lemma sub_of_register_self: "sub_of (s_ID t) (register_sub t b) = Some t"
  by (simp add: register_sub_def sub_of_def find_new)

lemma tracked_register:
  assumes "tracked lm k s es b" "s_ID t \<noteq> k"
  shows "tracked lm k s es (register_sub t b)"
proof (rule tracked_same [OF assms(1)])
  show "ids.holds lm (register_sub t b)" using tracked_ids [OF assms(1)] by (simp add: ids.holds_register)
  have "List.find (\<lambda>x. s_ID x = k) (filter (\<lambda>x. s_ID x \<noteq> s_ID t) xs @ [t]) = List.find (\<lambda>x. s_ID x = k) xs" for xs
    using assms(2) by (induction xs) auto
  then show "sub_of k (register_sub t b) = sub_of k b" by (simp add: sub_of_def register_sub_def)
qed

lemma tracked_subscribe_locked:
  assumes "tracked lm k s es b" "sub_fault (b_lm b) so = None" "u64 (b_nextSubID b + 1) \<noteq> k" "subscribe_locked env i so c b = (r, b')"
  shows "tracked lm k s es b'"
proof -
  define j t where "j = u64 (b_nextSubID b + 1)" and "t = new_sub j i so c"
  have t: "s_ID t = j" "s_group t = so_Group so" "j \<noteq> k" using assms(3) by (simp_all add: t_def j_def new_sub_def)
  have b1: "tracked lm k s es (register_sub t b)" using t assms(1) by (intro tracked_register) auto
  have reg: "sub_of j (register_sub t b) = Some t" using sub_of_register_self [of t b] t(1) by simp
  define b2 where "b2 = (if 0 < so_Since so then replay_since (so_Since so) t (register_sub t b) else register_sub t b)"
  have b2: "tracked lm k s es b2"
  proof (cases "0 < so_Since so")
    case True
    have g: "s_group t = []" using True assms(2) t by (auto simp: sub_fault_def split: if_splits)
    define u where "u tr = upd_sub j (\<lambda>s. s\<lparr>s_truncated := tr\<rparr>) (register_sub t b)" for tr
    have "tracked lm k s es (u tr)" for tr
      using b1 t(3) tracked_ids [OF b1] by (intro tracked_same [OF b1]) (auto simp: u_def sub_of_upd intro!: ids.holds_upd_sub)
    moreover have "sub_of j (u tr) = Some (t\<lparr>s_truncated := tr\<rparr>)" for tr using reg by (simp add: u_def sub_of_upd)
    moreover have "sub_accepts (t\<lparr>s_truncated := tr\<rparr>) = sub_accepts t" for tr by (simp add: sub_accepts_def fun_eq_iff)
    ultimately have "tracked lm k s es (deliver_all j (filter (sub_accepts t) fs) (u tr))" for fs tr
      using g t(3) by (intro tracked_deliver_all) (auto simp: list_all_iff)
    then show ?thesis using True t by (simp add: b2_def replay_since_def u_def split: prod.split)
  qed (simp add: b2_def b1)
  define b3 where "b3 = (if so_Since so = 0 \<and> so_Group so = [] then deliver_retained (be_now env) t b2 else b2)"
  have b3: "tracked lm k s es b3"
  proof (cases "so_Since so = 0 \<and> so_Group so = []")
    case True
    then have "sub_of j (drop_topics ts b2) = Some t" for ts using reg by (simp add: b2_def drop_topics_def sub_of_def)
    then show ?thesis using True t b2 by (auto simp: b3_def deliver_retained_def Let_def list_all_iff intro!: tracked_deliver_all)
  next
    case False
    then show ?thesis using b2 unfolding b3_def by auto
  qed
  then show ?thesis using assms(1,4) tracked_drain [OF b3]
    by (auto simp: subscribe_locked_def Let_def j_def t_def b2_def b3_def split: if_splits)
qed

lemma nextID_simps [simp]:
  "b_nextSubID (broker_record i m t d r pv b) = b_nextSubID b" "b_nextSubID (snd (capAllows cr now i t tok b)) = b_nextSubID b"
  "b_nextSubID (append_event cr env e b) = b_nextSubID b" "b_nextSubID (applyRetainedLocked now e b) = b_nextSubID b"
  "b_nextSubID (drop_topics ts b) = b_nextSubID b" "b_nextSubID (register_sub u b) = s_ID u"
  by (simp_all add: broker_record_def capAllows_def append_event_def applyRetainedLocked_def sweepExpiredRetainedLocked_def drop_topics_def
      set_expiry_def register_sub_def Let_def split: option.split prod.split)

lemmas nextID_core [simp] = core_fields(8) [OF core_fanout] core_fields(8) [OF core_drain] core_fields(8) [OF core_deliver_all]
  core_fields(8) [OF core_close] core_fields(8) [OF core_ack] core_fields(8) [OF core_upd(1)] core_fields(8) [OF core_upd(3)]

lemma nextID_seal: "seal_event cr p e b = (r, b') \<Longrightarrow> b_nextSubID b' = b_nextSubID b"
  by (auto simp: seal_event_def Let_def split: option.splits)

lemma nextID_publish_locked: "publish_locked cr env e p b = (r, b') \<Longrightarrow> b_nextSubID b' = b_nextSubID b"
  by (auto simp: publish_locked_def split: if_splits prod.splits option.splits dest: nextID_seal)

lemma nextID_decide: "pub_decide cr now i t tok b = (r, b') \<Longrightarrow> b_nextSubID b' = b_nextSubID b"
  using pub_decide_pair by fastforce

lemma nextID_PublishOpts: "b_nextSubID (snd (PublishOpts cr env i t p po b)) = b_nextSubID b"
  by (auto simp: PublishOpts_def Let_def split: prod.split option.split sum.split dest!: nextID_publish_locked nextID_decide)

lemma nextID_emitTrusted: "b_nextSubID (snd (emitTrusted cr env t p ls who org rs b)) = b_nextSubID b"
  by (auto simp: emitTrusted_def Let_def split: prod.split option.split dest!: nextID_seal)

lemma nextID_EmitFederated: "b_nextSubID (snd (EmitFederated cr env t p ls who org keep del until b)) = b_nextSubID b"
  by (auto simp: EmitFederated_def Let_def nextID_emitTrusted split: prod.split)

lemma nextID_subscribe_locked: "b_nextSubID (snd (subscribe_locked env i so c b)) \<in> {b_nextSubID b, u64 (b_nextSubID b + 1)}"
  by (simp add: subscribe_locked_def replay_since_def deliver_retained_def new_sub_def Let_def split: prod.split)

lemma nextID_topics: "sub_topics cr now i tok ts c b = (r, b') \<Longrightarrow> b_nextSubID b' = b_nextSubID b"
  using sub_topics_keeps [of "\<lambda>x. b_nextSubID x = b_nextSubID b"] by fastforce

lemma nextID_Subscribe: "b_nextSubID (snd (Subscribe cr env i so b)) \<in> {b_nextSubID b, u64 (b_nextSubID b + 1)}"
proof -
  have l: "b_nextSubID b3 \<in> {b_nextSubID b2, u64 (b_nextSubID b2 + 1)}" if "subscribe_locked env i so c b2 = (r, b3)" for c r and b2 b3 :: "'a broker"
    using nextID_subscribe_locked [of env i so c b2] that by simp
  have t: "b_nextSubID b2 = b_nextSubID b" if "sub_topics cr now i tok ts None (b\<lparr>b_lim := l1\<rparr>) = (x, b2)" for now tok ts l1 x b2
    using nextID_topics [OF that] by simp
  show ?thesis by (auto simp: Subscribe_def Let_def split: prod.split option.split sum.split dest!: t l)
qed

lemma new_event_snd: "snd (new_event r) = snd r"
  by (simp add: new_event_def split: prod.split sum.split)

lemma nextID_do: "bus_do cr x b = (fs, b') \<Longrightarrow> b_nextSubID b' \<in> {b_nextSubID b, u64 (b_nextSubID b + 1)}"
proof -
  assume d: "bus_do cr x b = (fs, b')"
  have "b_nextSubID (snd (bus_do cr x b)) \<in> {b_nextSubID b, u64 (b_nextSubID b + 1)}"
    using nextID_Subscribe [of cr _ _ _ b] by (cases x) (auto simp: new_event_snd EmitInternal_def nextID_PublishOpts nextID_emitTrusted nextID_EmitFederated
        Unsubscribe_def CloseBroker_def)
  then show ?thesis using d by simp
qed

lemma tracked_Subscribe:
  assumes "tracked lm k s es b" "u64 (b_nextSubID b + 1) \<noteq> k" "Subscribe cr env i so b = (r, b')"
  shows "tracked lm k s es b'"
proof -
  have topics: "tracked lm k s es b2"
    if "sub_topics cr now i tok ts c b1 = (x, b2)" "tracked lm k s es b1" for now tok ts c x b2 and b1 :: "'a broker"
    using sub_topics_keeps [of "tracked lm k s es", OF _ _ that(1)] that(2) by simp
  have locked: "tracked lm k s es b3"
    if "sub_topics cr now i tok ts None (b\<lparr>b_lim := l1\<rparr>) = (x, b2)" "subscribe_locked env i so c b2 = (y, b3)" "sub_fault (b_lm b) so = None"
    for now tok ts l1 x c y b2 b3
    using that assms(1,2) topics [OF that(1)] sub_topics_fields [OF that(1)] nextID_topics [OF that(1)]
    by (intro tracked_subscribe_locked [OF _ _ _ that(2)]) simp_all
  show ?thesis using assms(1,3) by (auto simp: Subscribe_def Let_def split: if_splits prod.splits option.splits sum.splits dest: topics locked)
qed

lemma tracked_do:
  assumes "tracked lm k s es b" "u64 (b_nextSubID b + 1) \<noteq> k" "bus_do cr x b = (fs, b')"
  shows "tracked lm k s (es @ filter (sub_accepts s) fs) b'"
proof (cases x)
  case (OpSubscribe env i so)
  then show ?thesis using assms tracked_Subscribe [OF assms(1,2) prod.collapse [symmetric]] by auto
next
  case (OpPublish env i t p po)
  then show ?thesis using assms track_PublishOpts [OF assms(1), of cr env i t p po] by (simp add: track_next_def)
next
  case (OpInternal env src t p ls)
  then show ?thesis
    using assms track_emitTrusted [OF assms(1), of cr env t p ls src "[]" "\<lparr>rs_set = False, rs_del = False, rs_exp = []\<rparr>"]
    by (simp add: track_next_def EmitInternal_def)
next
  case (OpFederated env t p ls who org keep del until)
  then show ?thesis using assms track_EmitFederated [OF assms(1), of cr env t p ls who org keep del until] by (simp add: track_next_def)
next
  case (OpAck rd j n)
  have "tracked lm k s es (upd_any j (\<lambda>s. s\<lparr>s_inflight := AList.delete n (s_inflight s)\<rparr>) b)"
  proof (rule tracked_same [OF assms(1)])
    show "ids.holds lm (upd_any j (\<lambda>s. s\<lparr>s_inflight := AList.delete n (s_inflight s)\<rparr>) b)"
      using tracked_ids [OF assms(1)] by (intro ids.holds_upd_any) auto
    have "s_inflight t = []" if "sub_of k b = Some t" for t using that assms(1) steps_kept [of lm s es t] by (simp add: tracked_def)
    then have "map_option (\<lambda>s. s\<lparr>s_inflight := AList.delete n (s_inflight s)\<rparr>) (sub_of k b) = sub_of k b" by (cases "sub_of k b") simp_all
    moreover have "sub_of k (upd_any j f b) = sub_of k (upd_sub j f b)" for f by (simp add: upd_any_def sub_of_def)
    ultimately show "sub_of k (upd_any j (\<lambda>s. s\<lparr>s_inflight := AList.delete n (s_inflight s)\<rparr>) b) = sub_of k b" by (auto simp: sub_of_upd)
  qed
  then show ?thesis using OpAck assms by (auto simp: Ack_def intro: tracked_drain split: option.splits)
next
  case OpClose
  then show ?thesis using assms by (cases "b_closed b") (auto simp: CloseBroker_def tracked_def sub_of_def ids.holds_def ids_ok_def)
qed (use assms in \<open>auto simp: Unsubscribe_def intro: tracked_close tracked_C\<close>)

lemma tracked_run:
  "tracked lm k s es b \<Longrightarrow> k \<le> b_nextSubID b \<Longrightarrow> b_nextSubID b + length xs < 2 ^ 64 \<Longrightarrow> bus_run cr xs b = (fs, b') \<Longrightarrow>
   tracked lm k s (es @ filter (sub_accepts s) fs) b'"
proof (induction xs arbitrary: es b fs)
  case (Cons x xs)
  obtain f1 b1 where d: "bus_do cr x b = (f1, b1)" by fastforce
  obtain f2 where r: "bus_run cr xs b1 = (f2, b')" "fs = f1 @ f2" using Cons.prems(4) d by (auto split: prod.splits)
  have n: "u64 (b_nextSubID b + 1) = b_nextSubID b + 1" using Cons.prems(3) by (simp add: u64_def)
  have t: "tracked lm k s (es @ filter (sub_accepts s) f1) b1" using Cons.prems(2) n by (intro tracked_do [OF Cons.prems(1) _ d]) simp
  have "k \<le> b_nextSubID b1" "b_nextSubID b1 + length xs < 2 ^ 64" using nextID_do [OF d] n Cons.prems(2,3) by auto
  then show ?case using Cons.IH [OF t _ _ r(1)] r(2) by simp
qed simp

subsection \<open>Resource caps\<close>

definition sub_bounded :: "limits \<Rightarrow> subscription \<Rightarrow> bool" where
  "sub_bounded lm s =
     ((0 < SubQueue lm \<longrightarrow> int (length (s_ch s)) \<le> SubQueue lm \<and> int (length (s_inflight s)) \<le> SubQueue lm) \<and>
      (s_group s = [] \<longrightarrow> \<not> s_ackMode s \<and> s_inflight s = []))"

lemma length_AList_update: "length (AList.update k v al) \<le> Suc (length al)"
  by (induction al) auto

lemma length_AList_delete: "length (AList.delete k al) \<le> length al"
  by (simp add: AList.delete_eq)

interpretation bounded: bus_invariant "sub_bounded lm" lm auth for lm auth
proof
  fix s e
  show "sub_bounded lm (sub_recv s)" if "sub_bounded lm s" using that by (auto simp: sub_bounded_def sub_recv_def split: list.split)
  show "sub_bounded lm (sub_send e s)" if "sub_bounded lm s" "has_room lm s" using that by (auto simp: sub_bounded_def sub_send_def has_room_def)
  show "sub_bounded lm (place e s)" if "sub_bounded lm s" "can_place lm s"
  proof -
    have "int (length (AList.update (ev_Seq e) e (s_inflight s))) \<le> int (length (s_inflight s)) + 1"
      using length_AList_update [of "ev_Seq e" e "s_inflight s"] by simp
    then show ?thesis using that by (auto simp: sub_bounded_def place_def sub_send_def can_place_def has_room_def)
  qed
  show "sub_bounded lm (s\<lparr>s_ch := tl (s_ch s)\<rparr>)" if "sub_bounded lm s" using that by (auto simp: sub_bounded_def)
  show "sub_bounded lm (s\<lparr>s_inflight := AList.delete k (s_inflight s)\<rparr>)" if "sub_bounded lm s" for k
    using that length_AList_delete [of k "s_inflight s"] by (auto simp: sub_bounded_def)
  show "sub_bounded lm (new_sub k i so c)" if "sub_fault lm so = None" for k i so c
    using that by (auto simp: sub_bounded_def new_sub_def sub_fault_def split: if_splits)
qed (simp_all add: sub_bounded_def)

definition bus_shape where
  "bus_shape b = (map sub_conf (b_subs b), b_perPeer b, b_groupN b)"

lemma shape_upd: "(\<And>s. s \<in> set (b_subs b) \<Longrightarrow> s_ID s = k \<Longrightarrow> sub_conf (f s) = sub_conf s) \<Longrightarrow> bus_shape (upd_sub k f b) = bus_shape b"
  by (auto simp: bus_shape_def upd_sub_def)

lemma shape_simps [simp]:
  "bus_shape (count_dropped n b) = bus_shape b" "bus_shape (b\<lparr>b_groupRR := x1\<rparr>) = bus_shape b" "bus_shape (b\<lparr>b_groupPend := x2\<rparr>) = bus_shape b"
  "bus_shape (b\<lparr>b_ended := x3\<rparr>) = bus_shape b" "bus_shape (sub_C k b) = bus_shape b"
  by (auto simp: bus_shape_def count_dropped_def sub_C_def upd_any_def upd_sub_def)

lemma shape_reads [simp]: "bus_shape (fold sub_C ks b) = bus_shape b"
  by (induction ks arbitrary: b) simp_all

lemma shape_place: "tryPlaceOnGroupLocked g ms e b = (r, b') \<Longrightarrow> bus_shape b' = bus_shape b"
  by (auto simp: tryPlaceOnGroupLocked_def Let_def shape_upd split: if_splits option.splits)

lemma shape_drain_loop: "drain_loop rd i g q b = (q', b') \<Longrightarrow> bus_shape b' = bus_shape b"
proof (induction q arbitrary: i b)
  case (Cons e q)
  then show ?case by (auto simp: Let_def split: prod.splits bool.splits dest!: shape_place)
qed simp

lemma shape_drain [simp]: "bus_shape (drainGroupPendingLocked rd g b) = bus_shape b"
  by (auto simp: drainGroupPendingLocked_def dest: shape_drain_loop split: prod.split)

lemma shape_enqueue [simp]: "bus_shape (enqueueGroupPendingLocked g e b) = bus_shape b"
  by (simp add: enqueueGroupPendingLocked_def Let_def)

definition peer_subs :: "string \<Rightarrow> 's broker \<Rightarrow> int" where
  "peer_subs key b = int (length (filter (\<lambda>s. id_Key (s_ident s) = key) (b_subs b)))"

definition group_size :: "string \<Rightarrow> 's broker \<Rightarrow> int" where
  "group_size g b = int (length (filter (\<lambda>s. s_group s = g) (b_subs b)))"

definition caps_ok :: "'s broker \<Rightarrow> bool" where
  "caps_ok b =
     (distinct (map s_ID (b_subs b)) \<and> list_all (\<lambda>k. k \<le> b_nextSubID b) (map s_ID (b_subs b)) \<and> (\<forall>key. b_perPeer b key = peer_subs key b) \<and>
      (\<forall>g. g \<noteq> [] \<longrightarrow> group_count g b = group_size g b) \<and>
      int (length (b_subs b)) \<le> MaxSubs (b_lm b) \<and> (\<forall>key. b_perPeer b key \<le> MaxSubsPerPeer (b_lm b)) \<and>
      int (length (b_retained b)) \<le> MaxRetainedTopics (b_lm b) \<and> ring_ok (b_ring b) \<and> int (r_cap (b_ring b)) = lm_Retain (b_lm b))"

lemma conf_filter:
  "map sub_conf xs = map sub_conf ys \<Longrightarrow> (\<And>s t. sub_conf s = sub_conf t \<Longrightarrow> f s = f t) \<Longrightarrow> length (filter f xs) = length (filter f ys)"
proof (induction xs arbitrary: ys)
  case (Cons x xs)
  from Cons.prems(1) obtain y zs where ys: "ys = y # zs" "sub_conf y = sub_conf x" "map sub_conf xs = map sub_conf zs" by (cases ys) auto
  have "f y = f x" using Cons.prems(2) [OF ys(2)] .
  then show ?case using Cons.IH [OF ys(3) Cons.prems(2)] ys(1) by simp
qed simp

lemma shape_counts:
  assumes "bus_shape b' = bus_shape b"
  shows "peer_subs key b' = peer_subs key b" "group_size g b' = group_size g b" "group_count g b' = group_count g b"
    "b_perPeer b' = b_perPeer b" "length (b_subs b') = length (b_subs b)" "map s_ID (b_subs b') = map s_ID (b_subs b)"
proof -
  have m: "map sub_conf (b_subs b') = map sub_conf (b_subs b)" using assms by (simp add: bus_shape_def)
  show "peer_subs key b' = peer_subs key b" "group_size g b' = group_size g b"
    unfolding peer_subs_def group_size_def of_nat_eq_iff by (rule conf_filter [OF m]; simp add: sub_conf_def)+
  show "group_count g b' = group_count g b" "b_perPeer b' = b_perPeer b" using assms by (simp_all add: bus_shape_def group_count_def)
  show "length (b_subs b') = length (b_subs b)" using m by (metis length_map)
  have "map fst (map sub_conf xs) = map s_ID xs" for xs by (simp add: sub_conf_def)
  then show "map s_ID (b_subs b') = map s_ID (b_subs b)" using m by metis
qed

lemma caps_same:
  assumes "bus_shape b' = bus_shape b" "b_nextSubID b' = b_nextSubID b" "b_lm b' = b_lm b" "b_retained b' = b_retained b"
    "b_ring b' = b_ring b"
  shows "caps_ok b' = caps_ok b"
  unfolding caps_ok_def shape_counts [OF assms(1)] assms(2-5) by (rule refl)

lemma caps_core: "bus_shape b' = bus_shape b \<Longrightarrow> bus_core b' = bus_core b \<Longrightarrow> caps_ok b' = caps_ok b"
  using caps_same [of b' b] core_fields [of b' b] by simp

lemma length_removed:
  assumes "distinct (map s_ID xs)" "s \<in> set xs"
  shows "length (filter P xs) = (if P s then 1 else 0) + length (filter P (filter (\<lambda>t. s_ID t \<noteq> s_ID s) xs))"
  using assms
proof (induction xs)
  case (Cons x xs)
  have "filter (\<lambda>t. s_ID t \<noteq> s_ID s) xs = xs" if "s_ID s \<notin> s_ID ` set xs" using that by (intro filter_True) (metis imageI)
  then show ?case using Cons by (auto simp del: filter_filter)
qed simp

lemma AList_lookup:
  "map_of (AList.update k v al) j = (if j = k then Some v else map_of al j)" "map_of (AList.delete k al) j = (if j = k then None else map_of al j)"
  by (simp_all add: update_conv' delete_conv')

text \<open>The state between the removal of a subscription and the draining of its group.\<close>

lemma caps_close:
  assumes "caps_ok b"
  shows "caps_ok (closeSubLocked rd k b)"
proof (cases "sub_of k b")
  case (Some s)
  have s: "s \<in> set (b_subs b)" "s_ID s = k" using sub_of_mem [OF Some] by auto
  have d: "distinct (map s_ID (b_subs b))" using assms by (simp add: caps_ok_def)
  let ?subs = "filter (\<lambda>s. s_ID s \<noteq> k) (b_subs b)" and ?key = "id_Key (s_ident s)" and ?g = "s_group s"
  have cnt: "length (filter P (b_subs b)) = (if P s then 1 else 0) + length (filter P ?subs)" for P
    using length_removed [OF d s(1), of P] s(2) by simp
  define n where "n = b_perPeer b ?key - 1"
  define pp where "pp = (b_perPeer b)(?key := if n \<le> 0 then 0 else n)"
  have caps: "caps_ok (b'\<lparr>b_groupN := gn\<rparr>)"
    if b': "b_subs b' = ?subs" "b_perPeer b' = pp" "bus_core b' = bus_core b"
      and gn: "\<And>g. g \<noteq> [] \<Longrightarrow> (case map_of gn g of None \<Rightarrow> 0 | Some n \<Rightarrow> n) = int (length (filter (\<lambda>s. s_group s = g) ?subs))" for b' :: "'a broker" and gn
  proof -
    have 1: "pp key = int (length (filter (\<lambda>s. id_Key (s_ident s) = key) ?subs))" for key
      using cnt [of "\<lambda>s. id_Key (s_ident s) = key"] assms by (auto simp: pp_def n_def caps_ok_def peer_subs_def)
    have 2: "pp key \<le> MaxSubsPerPeer (b_lm b)" for key
    proof -
      have "b_perPeer b key \<le> MaxSubsPerPeer (b_lm b)" "b_perPeer b ?key \<le> MaxSubsPerPeer (b_lm b)" "0 \<le> b_perPeer b ?key"
        using assms by (auto simp: caps_ok_def peer_subs_def)
      then show ?thesis by (auto simp: pp_def n_def)
    qed
    have 3: "int (length ?subs) \<le> MaxSubs (b_lm b)" 
    proof -
      have "int (length ?subs) \<le> int (length (b_subs b))" by simp
      also have "\<dots> \<le> MaxSubs (b_lm b)" using assms by (simp add: caps_ok_def)
      finally show ?thesis .
    qed
    have 4: "distinct (map s_ID ?subs)" "list_all (\<lambda>k. k \<le> b_nextSubID b) (map s_ID ?subs)" "int (length (b_retained b)) \<le> MaxRetainedTopics (b_lm b)"
      "ring_ok (b_ring b)" "int (r_cap (b_ring b)) = lm_Retain (b_lm b)"
      using assms d by (auto simp: caps_ok_def distinct_map_filter list_all_iff)
    show ?thesis
      unfolding caps_ok_def peer_subs_def group_size_def group_count_def using 1 2 3 4 gn b'(1,2) core_fields(3,6,8,9) [OF b'(3)] by simp
  qed
  have oth: "(case map_of (b_groupN b) g of None \<Rightarrow> 0 | Some n \<Rightarrow> n) = int (length (filter (\<lambda>s. s_group s = g) ?subs))" if "g \<noteq> []" "g \<noteq> ?g" for g
    using assms cnt [of "\<lambda>s. s_group s = g"] that by (auto simp: caps_ok_def group_size_def group_count_def)
  show ?thesis
  proof (cases "?g = []")
    case True
    let ?b = "b\<lparr>b_subs := ?subs, b_perPeer := pp, b_ended := s # b_ended b\<rparr>"
    have "closeSubLocked rd k b = ?b" using Some True by (simp add: closeSubLocked_def Let_def pp_def n_def)
    moreover have "?b = ?b\<lparr>b_groupN := b_groupN b\<rparr>" by simp
    moreover have "caps_ok (?b\<lparr>b_groupN := b_groupN b\<rparr>)" using oth True by (intro caps) simp_all
    ultimately show ?thesis by metis
  next
    case False
    define b1 where "b1 = b\<lparr>b_subs := ?subs, b_perPeer := pp, b_ended := s\<lparr>s_inflight := []\<rparr> # b_ended b\<rparr>"
    define r where "r = group_count ?g b - 1"
    have r: "r = int (length (filter (\<lambda>s. s_group s = ?g) ?subs))"
      using assms cnt [of "\<lambda>s. s_group s = ?g"] False by (simp add: r_def caps_ok_def group_size_def)
    have q: "b_subs (requeue r s b1) = ?subs" "b_perPeer (requeue r s b1) = pp" "b_groupN (requeue r s b1) = b_groupN b"
      "bus_core (requeue r s b1) = bus_core b"
      by (simp_all add: requeue_def b1_def count_dropped_def)
    have up: "caps_ok ((requeue r s b1)\<lparr>b_groupN := AList.update ?g r (b_groupN b)\<rparr>)"
      using oth r by (intro caps [OF q(1,2,4)]) (auto simp: AList_lookup)
    have del: "caps_ok ((count_dropped m (requeue r s b1))\<lparr>b_groupN := AList.delete ?g (b_groupN b), b_groupRR := rr, b_groupPend := gp\<rparr>)" if "r \<le> 0" for m rr gp
    proof -
      have "caps_ok ((requeue r s b1)\<lparr>b_groupN := AList.delete ?g (b_groupN b)\<rparr>)"
        using oth r that by (intro caps [OF q(1,2,4)]) (auto simp: AList_lookup)
      then show ?thesis
        by (subst caps_core [of _ "(requeue r s b1)\<lparr>b_groupN := AList.delete ?g (b_groupN b)\<rparr>"]) (simp_all add: bus_shape_def count_dropped_def)
    qed
    have "group_count ?g b1 - 1 = r" by (simp add: b1_def group_count_def r_def)
    then have "caps_ok (leave_group rd s b1)"
      by (simp add: leave_group_def Let_def up del q(3) caps_core [OF shape_drain core_drain])
    moreover have "closeSubLocked rd k b = leave_group rd s b1" using Some False by (simp add: closeSubLocked_def Let_def pp_def n_def b1_def)
    ultimately show ?thesis by simp
  qed
qed (simp add: closeSubLocked_def assms)

lemma caps_deliver: "caps_ok b \<Longrightarrow> caps_ok (deliverLocked rd k e b)"
proof (cases "sub_of k b")
  case (Some s)
  assume b: "caps_ok b"
  have d: "ids_ok b" using b by (simp add: caps_ok_def ids_ok_def)
  have u: "caps_ok (upd_sub k f b) \<and> caps_ok (count_dropped 1 (upd_sub k f b))" if "sub_conf (f s) = sub_conf s" for f
  proof -
    have "t = s" if "t \<in> set (b_subs b)" "s_ID t = k" for t using that Some sub_of_Some [OF d, of k t] by simp
    then have "bus_shape (upd_sub k f b) = bus_shape b" using that by (intro shape_upd) blast
    then show ?thesis using b caps_core [of "upd_sub k f b" b] caps_core [of "count_dropped 1 (upd_sub k f b)" b] by simp
  qed
  show ?thesis using Some b u caps_close [OF b] by (auto simp: deliverLocked_def Let_def)
qed (simp add: deliverLocked_def)

lemma caps_group: "caps_ok b \<Longrightarrow> caps_ok (deliverToGroupLocked rd e g b)"
proof -
  assume b: "caps_ok b"
  have t: "caps_ok b1" if "tryPlaceOnGroupLocked g ms e b = (r, b1)" for ms r b1
    using b caps_core [OF shape_place [OF that] core_placeD [OF that]] by simp
  show ?thesis using t by (auto simp: deliverToGroupLocked_def Let_def caps_core [OF shape_enqueue core_enqueue] intro: caps_deliver split: prod.split bool.split list.split)
qed

lemma caps_fold: "(\<And>x b. caps_ok b \<Longrightarrow> caps_ok (f x b)) \<Longrightarrow> caps_ok b \<Longrightarrow> caps_ok (fold f xs b)"
  by (induction xs arbitrary: b) simp_all

lemma caps_fanout: "caps_ok b \<Longrightarrow> caps_ok (fanoutLocked rd e b)"
proof -
  have "caps_ok (fanout_one rd e k b')" if "caps_ok b'" for k and b' :: "'a broker"
    using that by (simp add: fanout_one_def caps_deliver split: option.split)
  then show "caps_ok b \<Longrightarrow> caps_ok (fanoutLocked rd e b)" by (simp add: fanoutLocked_def Let_def caps_fold caps_group)
qed

lemma caps_deliver_all: "caps_ok b \<Longrightarrow> caps_ok (deliver_all k es b)"
  by (induction es arbitrary: b) (auto simp: Let_def caps_deliver split: option.split)

lemma length_update_present: "k \<in> fst ` set al \<Longrightarrow> length (AList.update k v al) = length al"
  by (induction al) auto

lemma caps_fields:
  assumes "caps_ok b" "bus_shape b' = bus_shape b" "b_nextSubID b' = b_nextSubID b" "b_lm b' = b_lm b"
    and "b_ring b' = b_ring b" "int (length (b_retained b')) \<le> MaxRetainedTopics (b_lm b)"
  shows "caps_ok b'"
  unfolding caps_ok_def shape_counts [OF assms(2)] assms(3-5) using assms(1,6) unfolding caps_ok_def by blast

lemma caps_drop: "caps_ok b \<Longrightarrow> caps_ok (drop_topics ts b)"
proof (rule caps_fields)
  assume "caps_ok b"
  then have "int (length (b_retained b)) \<le> MaxRetainedTopics (b_lm b)" by (simp add: caps_ok_def)
  moreover have "length (b_retained (drop_topics ts b)) \<le> length (b_retained b)" by (simp add: drop_topics_def)
  ultimately show "int (length (b_retained (drop_topics ts b))) \<le> MaxRetainedTopics (b_lm b)" by linarith
qed (simp_all add: drop_topics_def bus_shape_def)

lemma caps_store:
  assumes "caps_ok b" "holds_topic t b \<or> \<not> retained_full b"
  shows "caps_ok (set_expiry t u (b\<lparr>b_retained := AList.update t e (b_retained b)\<rparr>))"
proof (rule caps_fields [OF assms(1)])
  have "length (AList.update t e (b_retained b)) \<le> length (b_retained b) \<or>
      length (AList.update t e (b_retained b)) \<le> Suc (length (b_retained b)) \<and> \<not> retained_full b"
  proof (cases "holds_topic t b")
    case True
    then have "t \<in> fst ` set (b_retained b)" by (simp add: holds_topic_def)
    then show ?thesis by (simp add: length_update_present)
  next
    case False
    then show ?thesis using assms(2) length_AList_update [of t e "b_retained b"] by simp
  qed
  then show "int (length (b_retained (set_expiry t u (b\<lparr>b_retained := AList.update t e (b_retained b)\<rparr>)))) \<le> MaxRetainedTopics (b_lm b)"
    using assms(1) by (auto simp: set_expiry_def retained_full_def caps_ok_def)
qed (simp_all add: set_expiry_def bus_shape_def)

lemma caps_retain: "caps_ok b \<Longrightarrow> caps_ok (applyRetainedLocked now e b)"
  by (auto simp: applyRetainedLocked_def sweepExpiredRetainedLocked_def Let_def intro: caps_store caps_drop)

lemma caps_simps [simp]:
  "caps_ok (b\<lparr>b_lim := x1\<rparr>) = caps_ok b" "caps_ok (broker_record i m t d r pv b) = caps_ok b"
  "caps_ok (snd (capAllows cr now i t tok b)) = caps_ok b" "caps_ok (append_event cr env e b) = caps_ok b"
  by (rule caps_same; simp add: broker_record_def capAllows_def append_event_def bus_shape_def split: option.split prod.split)+

lemma caps_seal: "seal_event cr p e b = (r, b') \<Longrightarrow> caps_ok b \<Longrightarrow> caps_ok b'"
proof -
  assume s: "seal_event cr p e b = (r, b')" and b: "caps_ok b"
  have r: "b_ring b' = b_ring b \<or> (\<exists>x. b_ring b' = ring_add x (b_ring b))"
    using s by (auto simp: seal_event_def Let_def split: option.splits)
  have "caps_ok (b'\<lparr>b_ring := b_ring b\<rparr>)"
    using b by (rule caps_fields) (use s b in \<open>auto simp: seal_event_def Let_def bus_shape_def caps_ok_def split: option.splits\<close>)
  then show ?thesis using r b keep.add_ok keep.add_room by (auto simp: caps_ok_def peer_subs_def group_size_def group_count_def)
qed

lemma caps_publish_locked: "caps_ok b \<Longrightarrow> publish_locked cr env e p b = (r, b') \<Longrightarrow> caps_ok b'"
  by (auto simp: publish_locked_def split: if_splits prod.splits option.splits intro!: caps_fanout caps_retain dest: caps_seal)

lemma caps_PublishOpts: "caps_ok b \<Longrightarrow> caps_ok (snd (PublishOpts cr env i t p po b))"
proof -
  assume b: "caps_ok b"
  have dec: "caps_ok b2" if "pub_decide cr now i t tok (b\<lparr>b_lim := l1\<rparr>) = (x, b2)" for now tok l1 x b2
    using pub_decide_pair [OF that] b by auto
  have "caps_ok b3" if "pub_decide cr now i t tok (b\<lparr>b_lim := l1\<rparr>) = (x, b2)" "publish_locked cr env e p b2 = (y, b3)" for now tok l1 x b2 e y b3
    using caps_publish_locked [OF dec [OF that(1)] that(2)] .
  then show ?thesis using b dec by (auto simp: PublishOpts_def Let_def split: prod.split option.split sum.split)
qed

lemma caps_emitTrusted: "caps_ok b \<Longrightarrow> caps_ok (snd (emitTrusted cr env t p ls who org rs b))"
  by (auto simp: emitTrusted_def Let_def split: prod.split option.split intro!: caps_fanout caps_retain dest: caps_seal)

lemma caps_EmitFederated: "caps_ok b \<Longrightarrow> caps_ok (snd (EmitFederated cr env t p ls who org keep del until b))"
  by (auto simp: EmitFederated_def Let_def split: prod.split intro!: caps_emitTrusted)

lemma caps_register:
  assumes "caps_ok b" "s_ID s = b_nextSubID b + 1" "int (length (b_subs b)) < MaxSubs (b_lm b)" "b_perPeer b (id_Key (s_ident s)) < MaxSubsPerPeer (b_lm b)"
  shows "caps_ok (register_sub s b)"
proof -
  have le: "s_ID t \<le> b_nextSubID b" if "t \<in> set (b_subs b)" for t using that assms(1) by (auto simp: caps_ok_def list_all_iff)
  then have f: "filter (\<lambda>t. s_ID t \<noteq> s_ID s) (b_subs b) = b_subs b" using assms(2) by (intro filter_True) fastforce
  have subs: "b_subs (register_sub s b) = b_subs b @ [s]" by (simp add: register_sub_def f)
  have "distinct (map s_ID (b_subs b @ [s]))" "list_all (\<lambda>k. k \<le> s_ID s) (map s_ID (b_subs b @ [s]))"
    using assms(1,2) le by (auto simp: caps_ok_def list_all_iff) fastforce+
  moreover have "peer_subs key (register_sub s b) = peer_subs key b + (if id_Key (s_ident s) = key then 1 else 0)"
    "group_size g (register_sub s b) = group_size g b + (if s_group s = g then 1 else 0)" for key g
    by (simp_all add: peer_subs_def group_size_def subs)
  moreover have "group_count g (register_sub s b) = group_count g b + (if s_group s = g then 1 else 0)" if "g \<noteq> []" for g
    using that by (auto simp: register_sub_def group_count_def AList_lookup)
  moreover have "b_perPeer (register_sub s b) key = b_perPeer b key + (if id_Key (s_ident s) = key then 1 else 0)" for key
    by (simp add: register_sub_def)
  moreover have "b_lm (register_sub s b) = b_lm b" "b_retained (register_sub s b) = b_retained b"
    "b_ring (register_sub s b) = b_ring b" by (simp_all add: register_sub_def)
  ultimately show ?thesis using assms(1,3,4) unfolding caps_ok_def subs nextID_simps(6) by auto
qed

lemma caps_subscribe_locked:
  assumes "caps_ok b" "b_nextSubID b + 1 < 2 ^ 64"
  shows "caps_ok (snd (subscribe_locked env i so c b))"
proof -
  have k: "u64 (b_nextSubID b + 1) = b_nextSubID b + 1" using assms(2) by (simp add: u64_def)
  let ?s = "new_sub (b_nextSubID b + 1) i so c"
  have r: "caps_ok (register_sub ?s b)" if "int (length (b_subs b)) < MaxSubs (b_lm b)" "b_perPeer b (id_Key i) < MaxSubsPerPeer (b_lm b)"
    using that assms(1) by (intro caps_register) (simp_all add: new_sub_def)
  have rep: "caps_ok (replay_since n s b')" if "caps_ok b'" for n s and b' :: "'a broker"
  proof -
    have "caps_ok (upd_sub (s_ID s) (\<lambda>s. s\<lparr>s_truncated := tr\<rparr>) b')" for tr
      using that caps_core [of "upd_sub (s_ID s) (\<lambda>s. s\<lparr>s_truncated := tr\<rparr>) b'" b'] by (simp add: shape_upd)
    then show ?thesis by (auto simp: replay_since_def intro!: caps_deliver_all split: prod.split)
  qed
  have ret: "caps_ok (deliver_retained now s b')" if "caps_ok b'" for now s and b' :: "'a broker"
    using that by (auto simp: deliver_retained_def Let_def intro!: caps_deliver_all caps_drop)
  have drn: "caps_ok (drainGroupPendingLocked rd g b')" if "caps_ok b'" for rd g and b' :: "'a broker"
    using that caps_core [OF shape_drain core_drain] by blast
  show ?thesis using assms(1) unfolding subscribe_locked_def Let_def k by (auto simp: not_le intro!: r [simplified] rep ret drn)
qed

lemma caps_Subscribe:
  assumes "caps_ok b" "b_nextSubID b + 1 < 2 ^ 64"
  shows "caps_ok (snd (Subscribe cr env i so b))"
proof -
  have topics: "caps_ok b2" if "sub_topics cr now i tok ts c b1 = (x, b2)" "caps_ok b1" for now tok ts c x b2 and b1 :: "'a broker"
    using sub_topics_keeps [of caps_ok, OF _ _ that(1)] that(2) by simp
  have locked: "caps_ok b3"
    if "sub_topics cr now i tok ts None (b\<lparr>b_lim := l1\<rparr>) = (x, b2)" "subscribe_locked env i so c b2 = (y, b3)" for now tok ts l1 x c y b2 b3
    using caps_subscribe_locked [of b2 env i so c] topics [OF that(1)] nextID_topics [OF that(1)] assms that(2) by simp
  show ?thesis using assms(1) topics locked by (auto simp: Subscribe_def Let_def split: prod.split option.split sum.split)
qed

lemma caps_do:
  assumes "caps_ok b" "b_nextSubID b + 1 < 2 ^ 64"
  shows "caps_ok (snd (bus_do cr x b))"
proof (cases x)
  case (OpAck rd k n)
  have "caps_ok (upd_any k (\<lambda>s. s\<lparr>s_inflight := AList.delete n (s_inflight s)\<rparr>) b)"
    using assms(1) by (subst caps_core [of _ b]) (auto simp: bus_shape_def upd_any_def upd_sub_def bus_core_def)
  then show ?thesis using OpAck assms(1) by (simp add: Ack_def caps_core [OF shape_drain core_drain] split: option.split)
next
  case OpClose
  have "int 0 \<le> MaxSubs (b_lm b)" "int 0 \<le> MaxRetainedTopics (b_lm b)" "0 \<le> MaxSubsPerPeer (b_lm b)"
    using assms(1) by (auto simp: caps_ok_def peer_subs_def intro: order_trans [rotated])
  then show ?thesis using OpClose assms(1) by (auto simp: CloseBroker_def caps_ok_def peer_subs_def group_size_def group_count_def)
next
  case (OpRead k)
  then show ?thesis using assms(1) caps_core [of "sub_C k b" b] by simp
qed (use assms in \<open>simp_all add: new_event_snd EmitInternal_def Unsubscribe_def caps_PublishOpts caps_emitTrusted caps_EmitFederated caps_Subscribe caps_close\<close>)

lemma caps_run:
  "caps_ok b \<Longrightarrow> b_nextSubID b + length xs < 2 ^ 64 \<Longrightarrow> bus_run cr xs b = (fs, b') \<Longrightarrow> caps_ok b' \<and> b_nextSubID b' \<le> b_nextSubID b + length xs"
proof (induction xs arbitrary: b fs)
  case (Cons x xs)
  obtain f1 b1 where d: "bus_do cr x b = (f1, b1)" by fastforce
  obtain f2 where r: "bus_run cr xs b1 = (f2, b')" using Cons.prems(3) d by (auto split: prod.splits)
  have "u64 (b_nextSubID b + 1) = b_nextSubID b + 1" using Cons.prems(2) by (simp add: u64_def)
  then have n: "b_nextSubID b1 \<le> b_nextSubID b + 1" using nextID_do [OF d] by auto
  have "caps_ok b1" using caps_do [OF Cons.prems(1), of cr x] Cons.prems(2) d by simp
  then show ?case using Cons.IH [OF _ _ r] n Cons.prems(2) by auto
qed simp

lemma withDefaults_positive:
  "0 < SubQueue (withDefaults l)" "0 < MaxSubs (withDefaults l)" "0 < MaxSubsPerPeer (withDefaults l)" "0 < MaxRetainedTopics (withDefaults l)"
  by (simp_all add: withDefaults_def DefaultLimits_def positive_or_def Let_def)

lemma caps_blank: "caps_ok (blank_broker opts)"
  using withDefaults_positive [of "o_Limits opts"] retain_nonneg [of "o_Limits opts"] keep.empty(1) keep.empty(3)
  by (simp add: caps_ok_def blank_broker_def peer_subs_def group_size_def group_count_def Let_def)

lemma caps_New: "caps_ok (NewBroker now opts)" "b_nextSubID (NewBroker now opts) = 0"
proof -
  let ?b = "blank_broker opts" and ?seed = "o_Seed opts"
  have "caps_ok (?b\<lparr>b_seq := q, b_prev := h, b_ring := fold ring_add xs (b_ring ?b)\<rparr>)" for q h xs
    using caps_blank [of opts] keep.add_all_ok [of "b_ring ?b" xs] by (auto simp: caps_ok_def peer_subs_def group_size_def group_count_def)
  then show "caps_ok (NewBroker now opts)" using caps_blank [of opts]
    by (auto simp: NewBroker_def Let_def sweepExpiredRetainedLocked_def intro!: caps_drop caps_fold caps_retain)
  have "b_nextSubID (fold (applyRetainedLocked now) xs b) = b_nextSubID b" for xs and b :: "'a broker"
    by (induction xs arbitrary: b) simp_all
  then show "b_nextSubID (NewBroker now opts) = 0"
    by (simp add: NewBroker_def sweepExpiredRetainedLocked_def Let_def) (simp add: blank_broker_def Let_def)
qed

lemma bounded_run:
  assumes "bus_run cr ops (NewBroker now opts) = (es, b)"
  shows "bounded.bus_holds (withDefaults (o_Limits opts)) (opts_auth opts) b"
  by (rule bounded.bus_holds_run [OF _ assms]) (simp add: bounded.bus_holds_def bounded.holds_def ids_ok_def NewBroker_fields)

text \<open>C23: The caps are hard bounds.  Whatever is done to it, a broker never has more subscriptions than its caps, in all and
  for one peer, never buffers or holds in flight more than a queue for one of them, and never retains more topics or
  events than configured.\<close>

theorem resource_caps_hold:
  assumes "bus_run cr ops (NewBroker now opts) = (es, b)" "length ops < 2 ^ 64" "withDefaults (o_Limits opts) = lm"
  shows "int (length (b_subs b)) \<le> MaxSubs lm \<and> peer_subs key b \<le> MaxSubsPerPeer lm \<and>
    (\<forall>s\<in>set (b_subs b). int (length (s_ch s)) \<le> SubQueue lm \<and> int (length (s_inflight s)) \<le> SubQueue lm) \<and>
    int (length (b_retained b)) \<le> MaxRetainedTopics lm \<and> int (length (Retained b)) \<le> lm_Retain lm"
proof -
  have h: "bounded.bus_holds lm (opts_auth opts) b" using bounded_run [OF assms(1)] assms(3) by simp
  then have lm: "b_lm b = lm" by (simp add: bounded.bus_holds_def bounded.holds_def)
  have c: "caps_ok b" using caps_run [OF caps_New(1) _ assms(1)] assms(2) by (simp add: caps_New(2))
  have "int (length (Retained b)) \<le> lm_Retain lm" using c lm by (simp add: Retained_def caps_ok_def ring_ok_def)
  moreover have "sub_bounded lm s" if "s \<in> set (b_subs b)" for s using that h by (simp add: bounded.bus_holds_def bounded.holds_def)
  ultimately show ?thesis using c lm withDefaults_positive(1) [of "o_Limits opts"] assms(3) by (auto simp: caps_ok_def sub_bounded_def)
qed

theorem resource_caps_hold_witness:
  "int (length (b_subs demo_bus)) \<le> MaxSubs demo_limits \<and> peer_subs ''A'' demo_bus \<le> MaxSubsPerPeer demo_limits"
  using resource_caps_hold [OF demo_bus_run, of "demo_limits\<lparr>PublishRate := 0\<rparr>"]
  by (simp add: demo_ops_def demo_opts_def demo_limits_default)

subsection \<open>What a subscriber misses is counted\<close>

lemma sub_known:
  assumes "bus_run cr ops (NewBroker now opts) = (es, b)" "length ops < 2 ^ 64" "sub_of k b = Some s" "s_group s = []"
  shows "tracked (withDefaults (o_Limits opts)) k s [] b" "k \<le> b_nextSubID b" "b_nextSubID b \<le> length ops"
    "int (length (s_ch s)) \<le> SubQueue (withDefaults (o_Limits opts))"
proof -
  let ?lm = "withDefaults (o_Limits opts)"
  have s: "s \<in> set (b_subs b)" "s_ID s = k" using sub_of_mem [OF assms(3)] by auto
  have h: "bounded.bus_holds ?lm (opts_auth opts) b" by (rule bounded_run [OF assms(1)])
  then have q: "sub_bounded ?lm s" "ids_ok b" "b_lm b = ?lm" using s(1) by (simp_all add: bounded.bus_holds_def bounded.holds_def)
  then show "tracked ?lm k s [] b" using assms(3,4) by (simp add: tracked_def ids.holds_def sub_bounded_def sub_steps.start)
  show "int (length (s_ch s)) \<le> SubQueue ?lm" using q(1) withDefaults_positive(1) [of "o_Limits opts"] by (simp add: sub_bounded_def)
  have "caps_ok b" "b_nextSubID b \<le> length ops" using caps_run [OF caps_New(1) _ assms(1)] assms(2) by (simp_all add: caps_New(2))
  then show "k \<le> b_nextSubID b" "b_nextSubID b \<le> length ops" using s by (auto simp: caps_ok_def list_all_iff)
qed

text \<open>C21: Between two states of a run, an ungrouped subscription that stays open is offered exactly the events published
  meanwhile that it accepts, in order: what its reader has taken and what is buffered for it is a part of them in the
  same order, at most as many are missing as its drop counter says, and with the policy to disconnect none is.\<close>

theorem missed_events_are_counted:
  assumes "bus_run cr ops1 (NewBroker now opts) = (es1, b)" "sub_of k b = Some s" "s_group s = []"
    and "bus_run cr ops2 b = (es2, b')" "sub_of k b' = Some s'" "length ops1 + length ops2 < 2 ^ 64" "s_dropped s + length es2 < 2 ^ 64"
  shows "let due = s_got s @ s_ch s @ filter (sub_accepts s) es2 in
    prefix (s_got s) (s_got s') \<and> subseq (s_got s' @ s_ch s') due \<and>
    length due \<le> length (s_got s' @ s_ch s') + (s_dropped s' - s_dropped s) \<and> (s_bp s = Disconnect \<longrightarrow> s_got s' @ s_ch s' = due)"
proof -
  let ?lm = "withDefaults (o_Limits opts)"
  have "length ops1 < 2 ^ 64" using assms(6) by simp
  note t = sub_known [OF assms(1) this assms(2,3)]
  have "tracked ?lm k s ([] @ filter (sub_accepts s) es2) b'"
    using tracked_run [OF t(1,2) _ assms(4)] t(3) assms(6) by simp
  then have "sub_steps ?lm s (filter (sub_accepts s) es2) s'" using assms(5) by (simp add: tracked_def)
  moreover have "s_dropped s + length (filter (sub_accepts s) es2) < 2 ^ 64"
    using assms(7) length_filter_le [of "sub_accepts s" es2] by linarith
  ultimately have "lossless s (filter (sub_accepts s) es2) s'"
    using steps_lossless [OF _ withDefaults_positive(1) t(4)] by blast
  then show ?thesis by (auto simp: lossless_def sub_all_def Let_def)
qed

theorem missed_events_are_counted_witness:
  "s_got (sub_send demo_e demo_sub0) @ s_ch (sub_send demo_e demo_sub0) = [demo_e]"
proof -
  have r: "bus_run demo_crypto [OpSubscribe demo_env alice demo_so] (NewBroker 0 demo_opts) = ([], demo_b1)"
    by (simp add: demo_new demo_subscribed demo_b1_def)
  have s0: "sub_of 1 demo_b1 = Some demo_sub0" "s_group demo_sub0 = []" "s_bp demo_sub0 = Disconnect" "s_dropped demo_sub0 = 0"
    "s_got demo_sub0 = []" "s_ch demo_sub0 = []"
    by (simp_all add: demo_b1_def broker_record_def register_sub_def sub_of_def demo_blank demo_sub0_def new_sub_def demo_so_def)
  have r2: "bus_run demo_crypto [OpPublish demo_env alice ''t'' [] po_plain] demo_b1 = ([demo_e], demo_bus)"
    by (simp add: demo_publish new_event_def)
  have s1: "sub_of 1 demo_bus = Some (sub_send demo_e demo_sub0)"
    using demo_bus_subs by (simp add: sub_of_def demo_sub0_def new_sub_def)
  show ?thesis using missed_events_are_counted [OF r s0(1,2) r2 s1] demo_accepts s0 by (simp add: Let_def)
qed

subsection \<open>Resuming\<close>

lemma tracked_replay:
  "tracked lm k s es b \<Longrightarrow> list_all (sub_accepts s) fs \<Longrightarrow> tracked lm k s (es @ fs) (deliver_all k fs b)"
proof (induction fs arbitrary: es b)
  case (Cons e fs)
  have t: "tracked lm k s (es @ [e]) (deliverLocked no_reads k e b)" using Cons.prems by (intro tracked_deliver) auto
  then show ?case using Cons.IH [OF t] Cons.prems(2) tracked_gone [OF t] by (auto simp: Let_def split: option.split)
qed simp

lemma resumed_sub:
  assumes "ids.holds lm b" "Subscribe cr env i so b = (Inr k, b')" "0 < so_Since so" "sub_of k b' = Some s"
  shows "\<exists>s0 fs tr. ring_since (so_Since so) (b_ring b) = (fs, tr) \<and> sub_steps lm s0 (filter (sub_accepts s0) fs) s \<and> s_truncated s0 = tr \<and>
    s_ch s0 = [] \<and> s_got s0 = [] \<and> s_dropped s0 = 0 \<and> s_group s0 = []"
proof -
  obtain l1 c b2 b3 where w: "sub_fault (b_lm b) so = None"
    "sub_topics cr (be_now env) i (so_Capability so) (so_Topics so) None (b\<lparr>b_lim := l1\<rparr>) = (Inr c, b2)"
    "subscribe_locked env i so c b2 = (Inr k, b3)" "sub_of k b3 = Some s"
    using assms(2,4) by (auto simp: Subscribe_def Let_def broker_record_def sub_of_def split: if_splits prod.splits option.splits sum.splits)
  have g: "so_Group so = []" "\<not> so_Ack so" using w(1) assms(3) by (auto simp: sub_fault_def split: if_splits)
  have r: "b_ring b2 = b_ring b" using stream_sub_topics [OF w(2)] by (simp add: stream_fields_def)
  have h: "ids.holds lm b2"
    using sub_topics_keeps [of "ids.holds lm", OF _ _ w(2)] assms(1) by simp
  define t where "t = new_sub k i so c"
  obtain fs tr where fs: "ring_since (so_Since so) (b_ring b) = (fs, tr)" by fastforce
  let ?u = "upd_sub k (\<lambda>s. s\<lparr>s_truncated := tr\<rparr>) (register_sub t b2)" and ?s0 = "t\<lparr>s_truncated := tr\<rparr>"
  have b3: "b3 = deliver_all k (filter (sub_accepts t) fs) ?u"
    using w(3) assms(3) g fs r by (auto simp: subscribe_locked_def Let_def replay_since_def t_def new_sub_def register_sub_def split: if_splits)
  have k: "s_ID t = k" "s_group t = []" "s_inflight t = []" using g by (simp_all add: t_def new_sub_def)
  have acc: "sub_accepts ?s0 = sub_accepts t" by (simp add: sub_accepts_def fun_eq_iff)
  have reg: "ids.holds lm (register_sub t b2)" using h by (simp add: ids.holds_register)
  have "sub_of k ?u = Some ?s0" using sub_of_register_self [of t b2] k(1) by (simp add: sub_of_upd)
  moreover have "ids.holds lm ?u" using reg by (intro ids.holds_upd_sub) auto
  ultimately have "tracked lm k ?s0 [] ?u" using k by (simp add: tracked_def sub_steps.start)
  then have "tracked lm k ?s0 ([] @ filter (sub_accepts t) fs) b3" unfolding b3 by (rule tracked_replay) (simp add: acc list_all_iff)
  then have "sub_steps lm ?s0 (filter (sub_accepts ?s0) fs) s" using w(4) acc by (simp add: tracked_def)
  moreover have "s_ch ?s0 = []" "s_got ?s0 = []" "s_dropped ?s0 = 0" "s_group ?s0 = []" using k by (simp_all add: t_def new_sub_def)
  ultimately show ?thesis using fs by fastforce
qed


text \<open>The small bus reopened over a log of two events, and a subscriber that has seen the first of them.\<close>

definition demo_e2 :: event where
  "demo_e2 = (let e = demo_e0\<lparr>ev_Seq := 2, ev_Payload := None, ev_PrevHash := ev_Hash demo_e, ev_Hash := []\<rparr> in e\<lparr>ev_Hash := ev_chainHash demo_crypto e\<rparr>)"

definition demo_reopen :: "unit options" where
  "demo_reopen = demo_opts\<lparr>o_Seed := [demo_e, demo_e2], o_Events := Some (NewEventLog (ev_text [demo_e, demo_e2]))\<rparr>"

definition demo_again :: sub_opts where
  "demo_again = demo_so\<lparr>so_Since := 1\<rparr>"

lemma demo_e2_fields: "ev_Labels demo_e2 = [''pii'']" "ev_Topic demo_e2 = ''t''" "ev_Seq demo_e2 = 2" "ev_Retain demo_e2 = False" "ev_RetainDel demo_e2 = False"
  "ev_Retain demo_e = False" "ev_RetainDel demo_e = False"
  by (simp_all add: demo_e2_def demo_e_def demo_e0_def published_def po_plain_def Let_def)

lemma demo_seed_verifies: "ev_VerifyChain demo_crypto [demo_e, demo_e2] = None"
  by (simp add: ev_VerifyChain_def demo_e_def demo_e2_def ev_chainHash_def Let_def)

lemma demo_reopened:
  defines "b \<equiv> NewBroker 0 demo_reopen"
  shows "b_auth b = RuleAuthorizer \<lparr>ra_DefaultAllow = False, ra_Rules = [demo_rule]\<rparr>" "b_lm b = demo_limits\<lparr>PublishRate := 0\<rparr>"
    "b_lim b = b_lim (blank_broker demo_opts)" "b_subs b = []" "b_closed b = False" "b_perPeer b = (\<lambda>_. 0)" "b_nextSubID b = 0"
    "ring_since 1 (b_ring b) = ([demo_e2], False)"
proof -
  have n: "NewBroker 0 demo_reopen = drop_topics [] ((blank_broker demo_reopen)\<lparr>b_seq := 2, b_prev := ev_Hash demo_e2,
      b_ring := fold ring_add [demo_e, demo_e2] (newRing 2)\<rparr>)"
    by (simp add: NewBroker_def demo_reopen_def demo_e2_fields sweepExpiredRetainedLocked_def Let_def)
      (simp add: blank_broker_def demo_opts_def demo_limits_default Let_def, simp add: demo_limits_def)
  have "stream_state demo_crypto (True, 2) [demo_e, demo_e2] b"
    using NewBroker_state [of demo_crypto demo_reopen 0] demo_seed_verifies
    by (simp add: b_def demo_reopen_def NewEventLog_def demo_opts_def demo_limits_default) (simp add: demo_limits_def)
  then have "ring_ok (b_ring b)" "ring_snapshot (b_ring b) = [demo_e, demo_e2]" by (simp_all add: stream_state_def)
  then show "ring_since 1 (b_ring b) = ([demo_e2], False)" by (simp add: ring_since_spec demo_e_fields demo_e2_fields u64_def)
  show "b_auth b = RuleAuthorizer \<lparr>ra_DefaultAllow = False, ra_Rules = [demo_rule]\<rparr>" "b_lm b = demo_limits\<lparr>PublishRate := 0\<rparr>"
    "b_lim b = b_lim (blank_broker demo_opts)" "b_subs b = []" "b_closed b = False" "b_perPeer b = (\<lambda>_. 0)" "b_nextSubID b = 0"
    unfolding b_def n by (simp_all add: drop_topics_def blank_broker_def demo_reopen_def demo_opts_def demo_limits_default Let_def)
qed

lemma replay_one:
  assumes "ring_since n (b_ring b) = ([e], tr)" "sub_accepts s e" "sub_of (s_ID s) b = Some s" "has_room (b_lm b) s"
  shows "sub_of (s_ID s) (replay_since n s b) = Some (sub_send e (s\<lparr>s_truncated := tr\<rparr>))"
proof -
  let ?u = "upd_sub (s_ID s) (\<lambda>s. s\<lparr>s_truncated := tr\<rparr>) b"
  have u: "sub_of (s_ID s) ?u = Some (s\<lparr>s_truncated := tr\<rparr>)" "has_room (b_lm ?u) (s\<lparr>s_truncated := tr\<rparr>)"
    using assms(3,4) by (simp_all add: sub_of_upd has_room_def) (simp add: upd_sub_def)
  then have "deliverLocked no_reads (s_ID s) e ?u = upd_sub (s_ID s) (sub_send e) ?u" by (simp add: deliverLocked_def)
  moreover have "sub_of (s_ID s) (upd_sub (s_ID s) (sub_send e) ?u) = Some (sub_send e (s\<lparr>s_truncated := tr\<rparr>))"
    using u(1) sub_of_upd [of ?u "s_ID s" "sub_send e"] by simp
  ultimately show ?thesis using assms(1,2) by (simp add: replay_since_def Let_def)
qed

definition demo_sub1 :: subscription where "demo_sub1 = new_sub 1 alice demo_again (Some [''pii''])"

lemma demo_resumed: "\<exists>b. Subscribe demo_crypto demo_env alice demo_again (NewBroker 0 demo_reopen) = (Inr 1, b) \<and> sub_of 1 b = Some (sub_send demo_e2 demo_sub1)"
proof -
  let ?b = "NewBroker 0 demo_reopen"
  note f = demo_reopened
  have lim: "?b\<lparr>b_lim := b_lim (blank_broker demo_opts)\<rparr> = ?b" using f(3) by simp
  have fault: "sub_fault (demo_limits\<lparr>PublishRate := 0\<rparr>) demo_again = None"
    by (simp add: sub_fault_def demo_again_def demo_so_def demo_limit_values)
  have topics: "sub_topics demo_crypto (be_now demo_env) alice (so_Capability demo_again) (so_Topics demo_again) None ?b = (Inr (Some [''pii'']), ?b)"
    unfolding demo_again_def demo_so_def sub_opts.simps by (rule demo_topics) (simp_all add: f demo_limit_values)
  have acc: "sub_accepts demo_sub1 demo_e2"
    using demo_accepts by (simp add: sub_accepts_def demo_sub1_def demo_sub0_def new_sub_def demo_again_def demo_so_def demo_e_fields demo_e2_fields)
  have sub: "demo_sub1\<lparr>s_truncated := False\<rparr> = demo_sub1" "s_ID demo_sub1 = 1" "s_ch demo_sub1 = []"
    by (simp_all add: demo_sub1_def new_sub_def)
  have reg: "sub_of 1 (register_sub demo_sub1 ?b) = Some demo_sub1" "b_lm (register_sub demo_sub1 ?b) = demo_limits\<lparr>PublishRate := 0\<rparr>"
    "ring_since 1 (b_ring (register_sub demo_sub1 ?b)) = ([demo_e2], False)"
    using sub_of_register_self [of demo_sub1 ?b] f by (simp_all add: sub register_sub_def)
  have "sub_of 1 (replay_since 1 demo_sub1 (register_sub demo_sub1 ?b)) = Some (sub_send demo_e2 demo_sub1)"
    using replay_one [OF reg(3) acc] reg(1,2) sub by (simp add: has_room_def demo_limit_values)
  moreover have "subscribe_locked demo_env alice demo_again (Some [''pii'']) ?b = (Inr 1, replay_since 1 demo_sub1 (register_sub demo_sub1 ?b))"
    by (simp add: subscribe_locked_def f demo_limit_values Let_def u64_def demo_sub1_def) (simp add: demo_again_def demo_so_def)
  ultimately show ?thesis using fault topics
    by (simp add: Subscribe_def f(2,3) lim demo_blank(3) Let_def) (simp add: alice_def broker_record_def sub_of_def)
qed


end
