(* ===== verification/BrokerGaps.thy ===== *)
theory BrokerGaps
  imports BrokerDelivery
begin

text \<open>
  The edges of the broker: events mirrored from another broker, a wildcard that is authorised as a topic of its own, and
  the part of the stream a reader sees once the retention ring has dropped its beginning.
\<close>

subsection \<open>Federation\<close>

text \<open>C24: Mirroring an event from another broker cannot launder it: the mirrored event keeps every label it came with, gets
  every label the local policy attaches to the topic, is marked with the broker it came from, and is not emitted at all
  when the local policy explicitly denies the topic.\<close>

theorem federation_keeps_labels:
  assumes "EmitFederated cr env t p ls who origin keep del until b = (Inr e, b')"
    and "auth_Publish (b_auth b) \<lparr>id_Key = ''federation'', id_FQDN = origin, id_Addr = []\<rparr> t = dec"
  shows "(set ls \<union> set (pd_Labels dec)) - {[]} = set (ev_Labels e) \<and> (pd_Explicit dec \<longrightarrow> pd_Allow dec) \<and>
    ev_Origin e = origin \<and> ev_Publisher e = who \<and> ev_Hash e = ev_chainHash cr e"
proof -
  obtain l1 where em: "emitTrusted cr env t p (unionLabels ls (pd_Labels dec)) who origin \<lparr>rs_set = keep, rs_del = del, rs_exp = until\<rparr> (b\<lparr>b_lim := l1\<rparr>) = (Inr e, b')"
    and ok: "pd_Explicit dec \<longrightarrow> pd_Allow dec"
    using assms by (auto simp: EmitFederated_def Let_def split: if_splits prod.splits)
  let ?ls = "unionLabels (unionLabels ls (pd_Labels dec)) []"
  obtain b1 where s: "seal_event cr p (emitted env t ?ls who origin \<lparr>rs_set = keep, rs_del = del, rs_exp = until\<rparr>) (b\<lparr>b_lim := l1\<rparr>) = (Some e, b1)"
    using em by (auto simp: emitTrusted_def Let_def split: if_splits prod.splits option.splits)
  then have "ev_Labels e = ?ls" "ev_Origin e = origin" "ev_Publisher e = who" "ev_Hash e = ev_chainHash cr e"
    by (auto simp: seal_event_def emitted_def ev_chainHash_def Let_def split: option.splits)
  then show ?thesis using ok by (auto simp: unionLabels_set)
qed

theorem federation_keeps_labels_witness:
  "\<exists>e b. EmitFederated demo_crypto demo_env ''t'' [] [''eu''] ''B'' ''peer'' False False [] (blank_broker demo_opts) = (Inr e, b) \<and>
     set (ev_Labels e) = {''eu'', ''pii''}"
proof -
  let ?r = "EmitFederated demo_crypto demo_env ''t'' [] [''eu''] ''B'' ''peer'' False False [] (blank_broker demo_opts)"
  define dec where "dec = \<lparr>pd_Allow = True, pd_Reason = ''allowed by rule'', pd_Labels = [''pii''], pd_Explicit = True\<rparr>"
  have d: "auth_Publish (b_auth (blank_broker demo_opts)) \<lparr>id_Key = ''federation'', id_FQDN = ''peer'', id_Addr = []\<rparr> ''t'' = dec"
    by (simp add: demo_blank ra_Publish_def demo_match auth_reason_def TopicAuth.emitSet_def dec_def) (simp add: demo_rule_def)
  have l: "unionLabels (unionLabels [''eu''] [''pii'']) [] = [''eu'', ''pii'']" by (simp add: unionLabels_def)
  have "\<exists>e b. ?r = (Inr e, b)"
    by (simp add: EmitFederated_def demo_blank(2,3,5) d Let_def)
      (simp add: dec_def emitTrusted_def demo_blank demo_valid demo_limit_values l seal_event_def raw_payload_def Let_def)
  then obtain e b where r: "?r = (Inr e, b)" by blast
  show ?thesis using r federation_keeps_labels [OF r d] by (auto simp: dec_def)
qed

subsection \<open>A pattern is authorised as text\<close>

text \<open>C39: An explicit deny of a topic does not keep its events from a subscriber with a wider pattern: when the policy denies
  the topic by a rule but lets the identity subscribe to \<open>*\<close> with all labels, the topic itself cannot be subscribed to, and
  yet the subscription to \<open>*\<close> accepts every event published on it.\<close>

theorem wildcard_bypasses_explicit_deny:
  assumes "\<not> sd_Allow (auth_Subscribe (b_auth b) i t)" "sd_Explicit (auth_Subscribe (b_auth b) i t)"
    and "sd_Allow (auth_Subscribe (b_auth b) i ''*'')" "sd_ClearAll (auth_Subscribe (b_auth b) i ''*'')"
    and "0 < MaxTopicLen (b_lm b)" "so_Topics so = [''*'']" "ev_Topic e = t"
  shows "isl (fst (Subscribe cr env i (so\<lparr>so_Topics := [t]\<rparr>) b)) \<and>
    sub_topics cr (be_now env) i (so_Capability so) (so_Topics so) None b = (Inr None, b) \<and> sub_accepts (new_sub k i so None) e"
proof (intro conjI)
  have "sub_decide cr now i t tok (b\<lparr>b_lim := l1\<rparr>) = (Inl (sd_Reason (auth_Subscribe (b_auth b) i t)), b\<lparr>b_lim := l1\<rparr>)" for now tok l1
    using assms(1,2) by (simp add: sub_decide_def Let_def)
  then show "isl (fst (Subscribe cr env i (so\<lparr>so_Topics := [t]\<rparr>) b))"
    by (simp add: Subscribe_def Let_def split: prod.split option.split)
  have "validateTopic ''*'' (MaxTopicLen (b_lm b)) = None" using assms(5) by (simp add: validateTopic_def)
  then show "sub_topics cr (be_now env) i (so_Capability so) (so_Topics so) None b = (Inr None, b)"
    using assms(3,4,6) by (simp add: sub_decide_def meet_clear_def Let_def)
  show "sub_accepts (new_sub k i so None) e" using assms(6) by (simp add: sub_accepts_def new_sub_def matchGlob_def)
qed

text \<open>A policy that keeps the topic \<^verbatim>\<open>secret\<close> from everybody and lets everybody subscribe to the rest.\<close>

definition secret_rule :: topic_rule where
  "secret_rule = \<lparr>tr_Peers = [], tr_Topics = [''secret''], tr_Allow = False, tr_Emit = [], tr_Taint = False, tr_Clear = [],
     tr_ClearTaint = False, tr_ClearAll = False\<rparr>"

definition open_rule :: topic_rule where
  "open_rule = secret_rule\<lparr>tr_Topics := [''*''], tr_Allow := True, tr_ClearAll := True\<rparr>"

definition secret_opts :: "unit options" where
  "secret_opts = demo_opts\<lparr>o_Authorizer := Some (RuleAuthorizer \<lparr>ra_DefaultAllow = False, ra_Rules = [secret_rule, open_rule]\<rparr>)\<rparr>"

theorem wildcard_bypasses_explicit_deny_witness:
  "isl (fst (Subscribe demo_crypto demo_env alice (demo_so\<lparr>so_Topics := [''secret'']\<rparr>) (blank_broker secret_opts))) \<and>
   sub_accepts (new_sub 1 alice (demo_so\<lparr>so_Topics := [''*'']\<rparr>) None) (zero_event\<lparr>ev_Topic := ''secret''\<rparr>)"
proof -
  let ?b = "blank_broker secret_opts"
  have b: "b_auth ?b = RuleAuthorizer \<lparr>ra_DefaultAllow = False, ra_Rules = [secret_rule, open_rule]\<rparr>" "MaxTopicLen (b_lm ?b) = 256"
    by (simp_all add: blank_broker_def secret_opts_def demo_opts_def demo_limits_default demo_limit_values Let_def)
  have "matchGlob [''secret''] s \<longleftrightarrow> s = ''secret''" for s by (subst matchGlob_literal) (simp_all add: contains_any_def globChars_def)
  then have "ra_match \<lparr>ra_DefaultAllow = False, ra_Rules = [secret_rule, open_rule]\<rparr> alice ''secret'' = Some secret_rule"
    "ra_match \<lparr>ra_DefaultAllow = False, ra_Rules = [secret_rule, open_rule]\<rparr> alice ''*'' = Some open_rule"
    by (simp_all add: ra_match_def secret_rule_def open_rule_def topic_matchPeer_def) (simp add: matchGlob_def)
  then have "\<not> sd_Allow (auth_Subscribe (b_auth ?b) alice ''secret'')" "sd_Explicit (auth_Subscribe (b_auth ?b) alice ''secret'')"
    "sd_Allow (auth_Subscribe (b_auth ?b) alice ''*'')" "sd_ClearAll (auth_Subscribe (b_auth ?b) alice ''*'')"
    by (simp_all add: b ra_Subscribe_def) (simp_all add: secret_rule_def open_rule_def)
  then show ?thesis
    using wildcard_bypasses_explicit_deny [of ?b alice "''secret''" "demo_so\<lparr>so_Topics := [''*'']\<rparr>" "zero_event\<lparr>ev_Topic := ''secret''\<rparr>" demo_crypto demo_env 1] b
    by simp
qed

subsection \<open>The retained window\<close>

lemma evicted_window:
  assumes "stream_state cr cf es b" "0 < snd cf" "snd cf < length es" "\<forall>x. sha256 cr x \<noteq> []"
  shows "ev_VerifyChain cr es = None \<and> ev_VerifyChain cr (Retained b) \<noteq> None"
proof -
  let ?k = "length es - snd cf"
  have s: "ev_linked cr None [] es" "Retained b = drop ?k es" using assms(1) by (auto simp: stream_state_def Retained_def)
  have t: "take ?k es \<noteq> []" "drop ?k es \<noteq> []" using assms(2,3) by auto
  then obtain x xs where x: "drop ?k es = x # xs" by (cases "drop ?k es") auto
  have split: "ev_linked cr None [] (take ?k es @ drop ?k es)" using s(1) by simp
  then have "ev_PrevHash x = ev_Hash (last (take ?k es))" using t x by (simp add: ev_linked_append ev_head_def)
  moreover have "ev_Hash e = ev_chainHash cr e" if "ev_linked cr lo p fs" "e \<in> set fs" for lo p fs e
    using that by (induction fs arbitrary: lo p) auto
  then have "ev_Hash (last (take ?k es)) = ev_chainHash cr (last (take ?k es))"
    using split last_in_set [OF t(1)] unfolding ev_linked_append by blast
  ultimately have "ev_PrevHash x \<noteq> []" using assms(4) by (simp add: ev_chainHash_def hash_hex_def hex_encode_Nil_iff)
  then show ?thesis using s x by (auto simp: ev_VerifyChain_None)
qed

text \<open>C40: Once the ring has dropped an event, what \<^verbatim>\<open>Retained\<close> returns no longer verifies, although the stream it comes from does:
  the first event of the window refers to the dropped one.\<close>

theorem evicted_window_never_verifies:
  assumes "bus_run cr ops (NewBroker now opts) = (es, b)" "list_all op_clean ops" "seed_seq (o_Seed opts) + length ops < 2 ^ 64"
    and "ev_VerifyChain cr (o_Seed opts) = None" "o_Events opts = None"
    and "0 < lm_Retain (withDefaults (o_Limits opts))" "lm_Retain (withDefaults (o_Limits opts)) < int (length (o_Seed opts @ es))"
    and "\<forall>x. sha256 cr x \<noteq> []"
  shows "ev_VerifyChain cr (o_Seed opts @ es) = None \<and> ev_VerifyChain cr (Retained b) \<noteq> None"
proof -
  let ?cf = "(False, nat (lm_Retain (withDefaults (o_Limits opts))))"
  have "stream_state cr ?cf (o_Seed opts) (NewBroker now opts)" using NewBroker_state [of cr opts now] assms(4,5) by simp
  then have "stream_state cr ?cf (o_Seed opts @ es) b" using stream_run [OF _ _ assms(2,1)] assms(3) by (simp add: NewBroker_seq)
  moreover have "0 < snd ?cf" "snd ?cf < length (o_Seed opts @ es)" using assms(6,7) by auto
  ultimately show ?thesis using evicted_window assms(8) by blast
qed

definition salted :: crypto where
  "salted = demo_crypto\<lparr>sha256 := (\<lambda>x. CHR ''h'' # x)\<rparr>"

definition link_event :: "nat \<Rightarrow> string \<Rightarrow> event" where
  "link_event n prev = (let e = zero_event\<lparr>ev_Seq := n, ev_PrevHash := prev\<rparr> in e\<lparr>ev_Hash := ev_chainHash salted e\<rparr>)"

definition window_opts :: "unit options" where
  "window_opts = demo_opts\<lparr>o_Seed := [link_event 1 [], link_event 2 (ev_Hash (link_event 1 []))], o_Events := None,
     o_Limits := demo_limits\<lparr>lm_Retain := 1\<rparr>\<rparr>"

theorem evicted_window_never_verifies_witness:
  "ev_VerifyChain salted (o_Seed window_opts) = None \<and> ev_VerifyChain salted (Retained (NewBroker 0 window_opts)) \<noteq> None"
proof -
  have v: "ev_VerifyChain salted (o_Seed window_opts) = None"
    by (simp add: window_opts_def ev_VerifyChain_def link_event_def ev_chainHash_def Let_def)
  have l: "lm_Retain (withDefaults (o_Limits window_opts)) = 1"
    by (simp add: window_opts_def withDefaults_def Let_def)
  show ?thesis using evicted_window_never_verifies [of salted "[]" 0 window_opts "[]" "NewBroker 0 window_opts"] v l
    by (simp add: window_opts_def seed_seq_def salted_def link_event_def Let_def)
qed

end
