(* ===== verification/Spec2Isabelle.thy ===== *)
theory Spec2Isabelle
  imports ToolFilter VerifyAnchors SessionMove Flock BrokerGaps
begin

text \<open>
  Verification of meshmcp, a gateway that puts MCP servers on a WireGuard mesh: it authorises every
  JSON-RPC call by the caller's key, keeps a tamper-evident audit log of what it decided, carries
  each client's conversation in a session that survives lost connections and lost gateways, and runs a
  broker over which agents publish labelled events to each other.

  \<^bold>\<open>Parts and theories.\<close>

  \<^item> \<open>Prelude\<close>, \<open>GoTime\<close>, \<open>PathGlob\<close>, \<open>Json\<close>, \<open>Crypto\<close>: the parts of Go's library the code uses (byte strings,
    \<^verbatim>\<open>int64\<close> wrap-around, \<^verbatim>\<open>time.ParseDuration\<close>, \<^verbatim>\<open>path.Match\<close>, \<^verbatim>\<open>encoding/json\<close> with its case-insensitive
    field matching and its replacement of invalid UTF-8, hexadecimal), each as executable functions.
    SHA-256 and Ed25519 are parameters: a record of functions, with collision freedom or signature
    correctness as a named hypothesis where a property needs it.
  \<^item> Policy (\<^verbatim>\<open>src/policy\<close>).  \<open>Policy\<close>: rules, peer and tool matching, the pure evaluator, static groups,
    decision hooks (\<^verbatim>\<open>policy.go\<close>, \<^verbatim>\<open>groups.go\<close>, \<^verbatim>\<open>hook.go\<close>).  \<open>Engine\<close>: the stateful evaluator with rate
    buckets, time windows, labels and co-signing, and \<^verbatim>\<open>validate.go\<close>.  \<open>Approval\<close>: request-bound approval
    tokens.  \<open>Nonces\<close>, \<open>Capability\<close>, \<open>Delegation\<close>: signed capabilities with delegation chains, revocation,
    and router delegation.  \<open>Rpc\<close>: classification of a JSON-RPC line.  \<open>ToolFilter\<close>: the filter between a
    client and a backend, from a line of input to what is forwarded, answered and recorded.
  \<^item> Audit (\<^verbatim>\<open>src/policy\<close>).  \<open>AuditRecord\<close>: the record and its text.  \<open>AuditChain\<close>: chain verification and
    repair.  \<open>Merkle\<close>, \<open>Checkpoint\<close>: signed batch commitments and anchors.  \<open>AuditLog\<close>: the writer.
    \<open>VerifySigned\<close>, \<open>VerifyAnchors\<close>: the two offline verifiers.
  \<^item> Sessions (\<^verbatim>\<open>src/session\<close>).  \<open>Frame\<close>: the wire format.  \<open>PeerError\<close>: error text from a peer.
    \<open>Endpoint\<close>: the reliable-delivery core.  \<open>Delivery\<close>: two endpoints over a network that loses, repeats
    and reorders.  \<open>Persisted\<close>, \<open>SessionStore\<close>: checkpoints, leases, and the memory and file stores behind
    one contract (the locale \<open>lease_store\<close>).  \<open>Flock\<close>: the lock file of the file store.  \<open>Resume\<close>: a session
    continued from a checkpoint.  \<open>SessionServer\<close>: attach, failover, shutdown.  \<open>SessionMove\<close>: a live move.
  \<^item> Events (\<^verbatim>\<open>src/pubsub\<close>).  \<open>Rfc3339\<close>: the time format of an event.  \<open>TopicAuth\<close>: topic rules and the
    authorizers (\<^verbatim>\<open>authorizer.go\<close>).  \<open>EventChain\<close>: the event, its hash chain and its append log
    (\<^verbatim>\<open>pubsub.go\<close>, \<^verbatim>\<open>eventlog.go\<close>).  \<open>EventRing\<close>: the retention ring, against the list it stands for (the
    locale \<open>retention\<close>).  \<open>Broker\<close>: every operation of \<^verbatim>\<open>broker.go\<close>, \<^verbatim>\<open>subscription.go\<close> and \<^verbatim>\<open>ratelimit.go\<close> as a function of the broker's state,
    and runs of them.  \<open>BrokerInv\<close>: the two locales \<open>sub_invariant\<close> and \<open>bus_invariant\<close>, which lift a
    property that delivery keeps to all operations and runs.  \<open>BrokerAuth\<close>: who may publish and what a
    subscriber is cleared for.  \<open>BrokerStream\<close>: the chain along a run and across a restart.
    \<open>BrokerDelivery\<close>: what one subscription receives, and the caps.  \<open>BrokerGaps\<close>: mirrored events, and
    two places where the broker does less than it documents.

  The filter calls the engine, the engine the approval store, the filter the capability and delegation
  verifiers; every decision becomes a record of the audit log.  The session server feeds the filter: it
  owns the backend process and checkpoints the session to the store that other gateways resume from.
  The broker authorises with topic rules, accepts the capabilities of the policy part, seals its stream with
  the same checkpoints, and hands a record of every decision to the audit log.

  \<^bold>\<open>How the code is modelled.\<close>  A struct is a record with the source's fields, an enumeration a datatype, a
  method a function of the record that returns it updated; a mutex makes the method one step.  Errors are
  values of a datatype.  Maps whose iteration order shows are association lists.  The clock, random ids,
  the outcome of a write, the branch a \<^verbatim>\<open>select\<close> takes when several are ready, and what other processes do
  to a shared store between two calls are arguments, so a theorem holds for all of them.  \<^verbatim>\<open>uint64\<close> counters
  are natural numbers reduced where the code increments them; \<^verbatim>\<open>int64\<close> arithmetic whose overflow is
  visible goes through \<^const>\<open>wrap64\<close>.

  \<^bold>\<open>What is shown.\<close>  A call is forwarded only when the policy, the capability and the delegation in force allow
  it, single-use grants are spent once, and the tokens stay out of what the backend sees.  A log that was
  written and flushed verifies; what the verifiers accept is exactly what the checkpoints commit to, so
  no covered record can be altered.  Frames survive a cut at any byte; messages arrive exactly once and
  in order over any network, and a reconnect catches up; leases fence every superseded gateway; a session
  is resumed only by its creator, and a shutdown or a move hands it over whole.  An event
  reaches only subscribers cleared for all its labels; the stream is one hash chain that a restart
  continues; what a subscriber misses is counted, a resumed one is handed what it missed, and the caps on
  subscriptions and buffers hold in every reachable state.  The properties of kind
  error state where the code does not do what it documents.

  \<^bold>\<open>Bounds and idealisations.\<close>  \<^verbatim>\<open>float64\<close> token counts are rationals.  \<^verbatim>\<open>strings.TrimSpace\<close> removes ASCII white
  space only.  The delivery theorems assume fewer than \<open>2\<^sup>6\<^sup>4\<close> messages per direction.  \<open>Flock\<close> bounds the
  polling loop by 2004 iterations, which its theorem shows to be enough for the five-second timeout at five
  milliseconds a poll; the token check and the rename that follows it are one step.  The server theories use the in-memory store as the store
  with compare-and-swap leases; \<open>SessionStore\<close> proves that the file store meets the same contract.  The payload of an event is the JSON
  value it parses to; a broker operation reads the clock once; a subscriber's channel is the list of its
  buffered events, and its concurrent reads are an argument of the operation they interleave with.  The
  stream theorems assume fewer than \<open>2\<^sup>6\<^sup>4\<close> operations, none of whose log writes fails.

  \<^bold>\<open>Not modelled.\<close>  Process spawning, sockets, timers and goroutine scheduling below the level of
  one critical section; the backend-to-client half of the filter; the PostgreSQL store, whose operations
  are SQL text run by the database; the command-line programs (the
  broker's daemon and its wire protocol among them), the control-plane HTTP handlers and the
  Air, edge, harness, insight and protocol packages, which wire or consume the parts above.
\<close>

end
